(* ===== verification/IL_Prelude.thy ===== *)
theory IL_Prelude
  imports Main "HOL-Library.Word"
begin

text \<open>
  Shared vocabulary of the development: the machine integer types the sources use, byte strings,
  the big-endian encoding of 32 and 16 bit integers that the packet layer, the message formatter
  and the clipboard marshaller all write out by hand, and the list lemmas the components share.
\<close>

unbundle bit_operations_syntax

section \<open>Machine integers and byte strings\<close>

type_synonym u8 = "8 word"
type_synonym u16 = "16 word"
type_synonym u32 = "32 word"
type_synonym size_t = "64 word"
type_synonym bytes = "u8 list"

named_theorems be_simps \<open>big-endian integer encodings\<close>

lemma ff_mask8: "(0xff :: 'a::len word) = mask 8"
  by (simp add: mask_eq_exp_minus_1)

lemma bit_u8_high [simp]: "8 \<le> n \<Longrightarrow> \<not> bit (w :: u8) n"
  using bit_imp_le_length [of w n] by auto

lemma bit_u16_high [simp]: "16 \<le> n \<Longrightarrow> \<not> bit (w :: u16) n"
  using bit_imp_le_length [of w n] by auto

section \<open>Big-endian integers\<close>

text \<open>The byte-by-byte shifts with which the sources write and read 32 bit lengths.\<close>

definition be32_split :: "u32 \<Rightarrow> bytes" where
  "be32_split v =
     [ucast (drop_bit 24 v AND 0xff), ucast (drop_bit 16 v AND 0xff),
      ucast (drop_bit 8 v AND 0xff), ucast (v AND 0xff)]"

definition be32_join :: "u8 \<Rightarrow> u8 \<Rightarrow> u8 \<Rightarrow> u8 \<Rightarrow> u32" where
  "be32_join b0 b1 b2 b3 =
     push_bit 24 (ucast b0) OR push_bit 16 (ucast b1) OR push_bit 8 (ucast b2) OR ucast b3"

definition be16_split :: "u16 \<Rightarrow> bytes" where
  "be16_split v = [ucast (drop_bit 8 v AND 0xff), ucast (v AND 0xff)]"

definition be16_join :: "u8 \<Rightarrow> u8 \<Rightarrow> u16" where
  "be16_join b0 b1 = push_bit 8 (ucast b0) OR ucast b1"

lemma be32_join_parts [be_simps]:
  fixes v :: u32
  shows "be32_join (ucast (drop_bit 24 v AND 0xff)) (ucast (drop_bit 16 v AND 0xff))
      (ucast (drop_bit 8 v AND 0xff)) (ucast (v AND 0xff)) = v" (is "?l = v")
proof (rule bit_word_eqI)
  fix n assume "n < LENGTH(32)"
  then consider "n < 8" | "8 \<le> n" "n < 16" | "16 \<le> n" "n < 24" | "24 \<le> n" "n < 32"
    by fastforce
  then show "bit ?l n = bit v n"
    by cases (auto simp: be32_join_def ff_mask8 bit_simps)
qed

lemma be32_split_join [be_simps]: "be32_split (be32_join a b c d) = [a, b, c, d]"
  unfolding be32_join_def be32_split_def ff_mask8
  by (auto intro!: bit_word_eqI simp: bit_simps)

lemma be16_join_parts [be_simps]:
  fixes v :: u16
  shows "be16_join (ucast (drop_bit 8 v AND 0xff)) (ucast (v AND 0xff)) = v" (is "?l = v")
proof (rule bit_word_eqI)
  fix n assume "n < LENGTH(16)"
  then consider "n < 8" | "8 \<le> n" "n < 16" by fastforce
  then show "bit ?l n = bit v n"
    by cases (auto simp: be16_join_def ff_mask8 bit_simps)
qed

lemma length_be32_split [simp]: "length (be32_split v) = 4"
  by (simp add: be32_split_def)

lemma length_be16_split [simp]: "length (be16_split v) = 2"
  by (simp add: be16_split_def)

text \<open>Reading the first four bytes of a byte string as a 32 bit length.\<close>

definition be32_hd :: "bytes \<Rightarrow> u32" where
  "be32_hd bs = be32_join (bs ! 0) (bs ! 1) (bs ! 2) (bs ! 3)"

lemma be32_hd_split [simp]: "be32_hd (be32_split v @ bs) = v"
  by (simp add: be32_hd_def be32_split_def be32_join_parts)

lemma be32_split_hd: "4 \<le> length bs \<Longrightarrow> be32_split (be32_hd bs) @ drop 4 bs = bs"
proof -
  assume "4 \<le> length bs"
  then obtain a b c d r where "bs = a # b # c # d # r"
    by (auto simp: numeral_eq_Suc Suc_le_length_iff)
  then show ?thesis by (simp add: be32_hd_def be32_split_join)
qed

section \<open>Lists and counters\<close>

lemma unat_of_nat_u32: "n < 2 ^ 32 \<Longrightarrow> unat (of_nat n :: u32) = n"
  by (simp add: unat_of_nat take_bit_nat_eq_self)

lemma unat_u32_lt: "unat (w :: u32) < 2 ^ 32"
  using unsigned_less [of w] by simp

lemma unat_of_nat_size_t: "n < 2 ^ 64 \<Longrightarrow> unat (of_nat n :: size_t) = n"
  by (simp add: unat_of_nat take_bit_nat_eq_self)

lemma unat_ucast_u32_size_t [simp]: "unat (ucast (w :: u32) :: size_t) = unat w"
  using unat_u32_lt [of w] by (simp add: unsigned_ucast_eq take_bit_nat_eq_self)

lemma u32_of_nat_unat: "of_nat (unat (w :: u32)) = w"
  by simp

lemma unat_sub_u32: "y \<le> x \<Longrightarrow> unat (x - y) = unat x - unat (y :: u32)"
  by (rule unat_sub)

lemma concat_nonempty_length:
  "\<forall>c\<in>set cs. c \<noteq> [] \<Longrightarrow> cs \<noteq> [] \<Longrightarrow> concat cs \<noteq> []"
  by (cases cs) auto

end
