(* ===== verification/StreamBuffer.thy ===== *)
theory StreamBuffer
  imports IL_Prelude
begin

text \<open>
  \<^verbatim>\<open>src/lib/io/StreamBuffer.cpp\<close>: a byte FIFO kept as a list of chunks. The state
  keeps the class's three members at their widths; an operation whose assertion or iterator
  dereference would fail returns \<open>None\<close>. The theory states the FIFO contract as the locale
  \<open>byte_fifo\<close> and interprets it on the chunked implementation.
\<close>

section \<open>The chunked buffer\<close>

record stream_buffer =
  sb_chunks :: "bytes list"
  sb_size :: u32
  sb_headUsed :: u32

definition kChunkSize :: u32 where
  "kChunkSize = 4096"

definition sb_new :: stream_buffer where
  "sb_new = \<lparr>sb_chunks = [], sb_size = 0, sb_headUsed = 0\<rparr>"

definition sb_getSize :: "stream_buffer \<Rightarrow> u32" where
  "sb_getSize sb = sb_size sb"

text \<open>\<open>scan->size() - m_headUsed\<close>, computed in \<open>size_t\<close>.\<close>

definition chunk_left :: "bytes \<Rightarrow> u32 \<Rightarrow> size_t" where
  "chunk_left c used = of_nat (length c) - ucast used"

text \<open>The consolidation loop of \<open>peek\<close>: append following chunks to the head chunk.\<close>

fun peek_loop :: "u32 \<Rightarrow> u32 \<Rightarrow> bytes \<Rightarrow> bytes list \<Rightarrow> bytes list" where
  "peek_loop n used hd_chunk [] = [hd_chunk]"
| "peek_loop n used hd_chunk (c # cs) =
     (if chunk_left hd_chunk used < ucast n then peek_loop n used (hd_chunk @ c) cs
      else hd_chunk # c # cs)"

text \<open>
  The returned pointer is modelled as the bytes readable from it; it is the null pointer
  (no bytes) when nothing is requested.
\<close>

definition sb_peek :: "u32 \<Rightarrow> stream_buffer \<Rightarrow> (bytes \<times> stream_buffer) option" where
  "sb_peek n sb =
     (if \<not> n \<le> sb_size sb then None
      else if n = 0 then Some ([], sb)
      else case sb_chunks sb of
             [] \<Rightarrow> None
           | c # cs \<Rightarrow>
               (let chunks = peek_loop n (sb_headUsed sb) c cs
                in Some (drop (unat (sb_headUsed sb)) (hd chunks), sb\<lparr>sb_chunks := chunks\<rparr>)))"

fun pop_loop :: "bytes list \<Rightarrow> u32 \<Rightarrow> u32 \<Rightarrow> (bytes list \<times> u32 \<times> u32) option" where
  "pop_loop [] used n = None"
| "pop_loop (c # cs) used n =
     (if chunk_left c used \<le> ucast n
      then pop_loop cs 0 (n - (of_nat (length c) - used))
      else Some (c # cs, used, n))"

definition sb_pop :: "u32 \<Rightarrow> stream_buffer \<Rightarrow> stream_buffer option" where
  "sb_pop n sb =
     (if sb_size sb \<le> n
      then Some (sb\<lparr>sb_size := 0, sb_headUsed := 0, sb_chunks := []\<rparr>)
      else case pop_loop (sb_chunks sb) (sb_headUsed sb) n of
             None \<Rightarrow> None
           | Some (chunks, used, n') \<Rightarrow>
               Some (sb\<lparr>sb_size := sb_size sb - n, sb_chunks := chunks,
                        sb_headUsed := (if 0 < n' then used + n' else used)\<rparr>))"

text \<open>The filling loop of \<open>write\<close>: \<open>scan\<close> is the chunk being filled.\<close>

function write_loop :: "bytes \<Rightarrow> bytes \<Rightarrow> bytes list" where
  "write_loop scan data =
     (let count = min (unat (kChunkSize - of_nat (length scan))) (length data);
          scan' = scan @ take count data;
          rest = drop count data
      in if rest \<noteq> [] then scan' # write_loop [] rest else [scan'])"
  by pat_completeness auto
termination
  by (relation "measures [\<lambda>(scan, data). length data, \<lambda>(scan, data). length scan]")
     (auto simp: kChunkSize_def min_def split: if_splits)

declare write_loop.simps [simp del]

definition sb_write :: "bytes \<Rightarrow> stream_buffer \<Rightarrow> stream_buffer" where
  "sb_write data sb =
     (if data = [] then sb
      else let reuse = (sb_chunks sb \<noteq> [] \<and> \<not> of_nat (length (last (sb_chunks sb))) \<ge> (ucast kChunkSize :: size_t));
               front = (if reuse then butlast (sb_chunks sb) else sb_chunks sb);
               scan = (if reuse then last (sb_chunks sb) else [])
           in sb\<lparr>sb_size := sb_size sb + of_nat (length data),
                 sb_chunks := front @ write_loop scan data\<rparr>)"

section \<open>Abstraction and invariant\<close>

definition sb_data :: "stream_buffer \<Rightarrow> bytes" where
  "sb_data sb = drop (unat (sb_headUsed sb)) (concat (sb_chunks sb))"

text \<open>Bytes held in memory, the consumed part of the head chunk included.\<close>

definition sb_footprint :: "stream_buffer \<Rightarrow> nat" where
  "sb_footprint sb = length (concat (sb_chunks sb))"

definition sb_inv :: "stream_buffer \<Rightarrow> bool" where
  "sb_inv sb \<longleftrightarrow>
     (\<forall>c\<in>set (sb_chunks sb). c \<noteq> []) \<and>
     (if sb_chunks sb = [] then sb_headUsed sb = 0
      else unat (sb_headUsed sb) < length (hd (sb_chunks sb))) \<and>
     sb_footprint sb < 2 ^ 32 \<and>
     unat (sb_size sb) = length (sb_data sb)"

lemma chunk_left_unat:
  assumes "unat used \<le> length c" "length c < 2 ^ 32"
  shows "unat (chunk_left c used) = length c - unat used"
proof -
  have u: "unat (of_nat (length c) :: size_t) = length c"
    using assms(2) by (intro unat_of_nat_size_t) simp
  have v: "unat (ucast used :: size_t) = unat used"
    by simp
  have "(ucast used :: size_t) \<le> of_nat (length c)"
    using assms(1) by (simp add: word_le_nat_alt u v)
  then show ?thesis
    unfolding chunk_left_def by (simp add: unat_sub u v)
qed

lemma chunk_left_less:
  assumes "unat used \<le> length c" "length c < 2 ^ 32"
  shows "chunk_left c used < ucast (n :: u32) \<longleftrightarrow> length c - unat used < unat n"
  using chunk_left_unat [OF assms]
  by (simp add: word_less_nat_alt)

lemma chunk_left_le:
  assumes "unat used \<le> length c" "length c < 2 ^ 32"
  shows "chunk_left c used \<le> ucast (n :: u32) \<longleftrightarrow> length c - unat used \<le> unat n"
  using chunk_left_unat [OF assms]
  by (simp add: word_le_nat_alt)

lemma chunk_size_sub:
  assumes "unat used \<le> length c" "length c < 2 ^ 32"
  shows "unat (of_nat (length c) - used :: u32) = length c - unat used"
proof -
  have "used \<le> of_nat (length c)"
    using assms by (simp add: word_le_nat_alt unat_of_nat_u32)
  then show ?thesis using assms by (simp add: unat_sub unat_of_nat_u32)
qed

section \<open>Correctness of the operations\<close>

lemma peek_loop_concat: "concat (peek_loop n used h cs) = h @ concat cs"
  by (induction n used h cs rule: peek_loop.induct) auto

lemma peek_loop_nonempty:
  "h \<noteq> [] \<Longrightarrow> \<forall>c\<in>set cs. c \<noteq> [] \<Longrightarrow> \<forall>c\<in>set (peek_loop n used h cs). c \<noteq> []"
  by (induction n used h cs rule: peek_loop.induct) auto

lemma peek_loop_not_Nil [simp]: "peek_loop n used h cs \<noteq> []"
  by (induction n used h cs rule: peek_loop.induct) auto

lemma peek_loop_hd_longer: "length h \<le> length (hd (peek_loop n used h cs))"
  by (induction n used h cs rule: peek_loop.induct) auto

lemma peek_loop_head:
  assumes "unat used \<le> length h" "length (h @ concat cs) < 2 ^ 32"
    "unat n + unat used \<le> length (h @ concat cs)"
  shows "unat n + unat used \<le> length (hd (peek_loop n used h cs))"
  using assms
proof (induction n used h cs rule: peek_loop.induct)
  case (1 n used h)
  then show ?case by simp
next
  case (2 n used h c cs)
  then have "chunk_left h used < ucast n \<longleftrightarrow> length h - unat used < unat n"
    by (intro chunk_left_less) auto
  with 2 show ?case by (cases "length h - unat used < unat n") auto
qed

lemma hd_concat_prefix: "xs \<noteq> [] \<Longrightarrow> concat xs = hd xs @ concat (tl xs)"
  by (cases xs) auto

text \<open>\<open>peek\<close> succeeds on any request the buffer can satisfy, delivers the oldest bytes
  contiguously and leaves the contents alone.\<close>

lemma sb_peek_correct:
  assumes inv: "sb_inv sb" and n: "unat n \<le> length (sb_data sb)"
  shows "\<exists>p sb'. sb_peek n sb = Some (p, sb') \<and> sb_inv sb' \<and> sb_data sb' = sb_data sb \<and>
           sb_footprint sb' = sb_footprint sb \<and> sb_headUsed sb' = sb_headUsed sb \<and>
           take (unat n) p = take (unat n) (sb_data sb) \<and> unat n \<le> length p"
proof (cases "n = 0")
  case True
  then show ?thesis using inv n by (simp add: sb_peek_def sb_inv_def word_le_nat_alt)
next
  case False
  have nle: "n \<le> sb_size sb" using inv n by (simp add: sb_inv_def word_le_nat_alt)
  have "0 < unat n" using False by (simp add: unat_gt_0)
  with n have "sb_chunks sb \<noteq> []" by (auto simp: sb_data_def)
  then obtain c cs where c: "sb_chunks sb = c # cs" by (cases "sb_chunks sb") auto
  let ?u = "sb_headUsed sb" and ?l = "peek_loop n (sb_headUsed sb) c cs"
  have u: "unat ?u < length c" and fp: "length (c @ concat cs) < 2 ^ 32"
    and nz: "\<forall>c\<in>set cs. c \<noteq> []" "c \<noteq> []"
    and sz: "unat (sb_size sb) = length (c @ concat cs) - unat ?u"
    using inv by (auto simp: sb_inv_def c sb_footprint_def sb_data_def)
  have room: "unat n + unat ?u \<le> length (c @ concat cs)"
    using n u by (simp add: sb_data_def c)
  have head: "unat n + unat ?u \<le> length (hd ?l)"
    by (rule peek_loop_head [OF less_imp_le [OF u] fp room])
  have cc: "concat ?l = c @ concat cs" by (rule peek_loop_concat)
  have split: "c @ concat cs = hd ?l @ concat (tl ?l)"
    using cc hd_concat_prefix [of ?l] by simp
  have "take (unat n) (drop (unat ?u) (hd ?l)) = take (unat n) (drop (unat ?u) (c @ concat cs))"
    unfolding split using head by simp
  moreover have "sb_inv (sb\<lparr>sb_chunks := ?l\<rparr>)"
    using peek_loop_nonempty [OF nz(2) nz(1), of n ?u] u fp sz cc
      peek_loop_hd_longer [of c n ?u cs]
    by (simp add: sb_inv_def sb_footprint_def sb_data_def c)
  ultimately show ?thesis
    using False nle head cc
    by (simp add: sb_peek_def c Let_def sb_data_def sb_footprint_def)
qed

lemma pop_loop_correct:
  assumes "\<forall>c\<in>set cs. c \<noteq> []" "length (concat cs) < 2 ^ 32"
    "cs \<noteq> [] \<Longrightarrow> unat used < length (hd cs)"
    "unat used + unat n < length (concat cs)"
  shows "\<exists>cs' used' n'. pop_loop cs used n = Some (cs', used', n') \<and>
    (\<forall>c\<in>set cs'. c \<noteq> []) \<and> cs' \<noteq> [] \<and> unat used' + unat n' < length (hd cs') \<and>
    length (concat cs') \<le> length (concat cs) \<and>
    drop (unat used' + unat n') (concat cs') = drop (unat used + unat n) (concat cs)"
  using assms
proof (induction cs used n rule: pop_loop.induct)
  case (1 used n)
  then show ?case by simp
next
  case (2 c cs used n)
  have b: "unat used \<le> length c" "length c < 2 ^ 32" using "2.prems" by auto
  show ?case
  proof (cases "length c - unat used \<le> unat n")
    case False
    then show ?thesis
      using "2.prems" b chunk_left_le [OF b, of n]
      by (intro exI [of _ "c # cs"] exI [of _ used] exI [of _ n]) auto
  next
    case True
    let ?n = "n - (of_nat (length c) - used)"
    have s: "unat (of_nat (length c) - used) = length c - unat used"
      by (rule chunk_size_sub [OF b])
    then have n': "unat ?n = unat n - (length c - unat used)"
      using True by (simp add: unat_sub word_le_nat_alt)
    have cond: "chunk_left c used \<le> ucast n" using chunk_left_le [OF b, of n] True by simp
    have "\<exists>cs' used' n'. pop_loop cs 0 ?n = Some (cs', used', n') \<and>
      (\<forall>c\<in>set cs'. c \<noteq> []) \<and> cs' \<noteq> [] \<and> unat used' + unat n' < length (hd cs') \<and>
      length (concat cs') \<le> length (concat cs) \<and>
      drop (unat used' + unat n') (concat cs') = drop (unat (0::u32) + unat ?n) (concat cs)"
    proof (rule "2.IH" [OF cond])
      show "cs \<noteq> [] \<Longrightarrow> unat (0::u32) < length (hd cs)" using "2.prems"(1) by (cases cs) auto
      show "unat (0::u32) + unat ?n < length (concat cs)" using "2.prems" b n' True by simp
    qed (use "2.prems" in auto)
    moreover have "unat n - (length c - unat used) = unat used + unat n - length c"
      using True b by simp
    ultimately show ?thesis using cond True b n' by (auto 0 3 simp: n')
  qed
qed

text \<open>\<open>pop\<close> never runs off the chunk list and discards exactly the oldest bytes.\<close>

lemma sb_pop_correct:
  assumes inv: "sb_inv sb"
  shows "\<exists>sb'. sb_pop n sb = Some sb' \<and> sb_inv sb' \<and> sb_data sb' = drop (unat n) (sb_data sb) \<and>
           sb_footprint sb' \<le> sb_footprint sb"
proof (cases "sb_size sb \<le> n")
  case True
  then show ?thesis
    using inv by (simp add: sb_pop_def sb_inv_def sb_data_def sb_footprint_def word_le_nat_alt)
next
  case False
  let ?u = "sb_headUsed sb" and ?cs = "sb_chunks sb"
  have lt: "unat n < length (sb_data sb)"
    using False inv by (simp add: sb_inv_def word_le_nat_alt)
  then have ne: "?cs \<noteq> []" by (auto simp: sb_data_def)
  have h: "unat ?u < length (hd ?cs)" and fp: "length (concat ?cs) < 2 ^ 32"
    and nz: "\<forall>c\<in>set ?cs. c \<noteq> []" and sz: "unat (sb_size sb) = length (sb_data sb)"
    using inv ne by (auto simp: sb_inv_def sb_footprint_def)
  have "unat ?u + unat n < length (concat ?cs)" using lt by (simp add: sb_data_def)
  from pop_loop_correct [OF nz fp h this] obtain cs' used' n' where
    eq: "pop_loop ?cs ?u n = Some (cs', used', n')" and nz': "\<forall>c\<in>set cs'. c \<noteq> []"
    and ne': "cs' \<noteq> []" and hd': "unat used' + unat n' < length (hd cs')"
    and le': "length (concat cs') \<le> length (concat ?cs)"
    and dr: "drop (unat used' + unat n') (concat cs') = drop (unat ?u + unat n) (concat ?cs)"
    by blast
  have hlen: "length (hd cs') \<le> length (concat cs')" using ne' by (cases cs') auto
  then have nowrap: "unat (used' + n') = unat used' + unat n'"
    using hd' le' fp by (simp add: unat_word_ariths)
  let ?sb = "sb\<lparr>sb_size := sb_size sb - n, sb_chunks := cs',
                sb_headUsed := (if 0 < n' then used' + n' else used')\<rparr>"
  have used: "unat (sb_headUsed ?sb) = unat used' + unat n'"
    using nowrap by (auto simp: word_less_nat_alt)
  then have d: "sb_data ?sb = drop (unat n) (sb_data sb)"
    using dr by (simp add: sb_data_def add.commute)
  moreover have "unat (sb_size ?sb) = length (sb_data sb) - unat n"
    using False sz by (simp add: unat_sub)
  ultimately have "sb_inv ?sb"
    using nz' ne' hd' le' fp used by (simp add: sb_inv_def sb_footprint_def)
  with d le' show ?thesis using False eq by (simp add: sb_pop_def sb_footprint_def)
qed

definition write_count :: "bytes \<Rightarrow> bytes \<Rightarrow> nat" where
  "write_count scan data = min (unat (kChunkSize - of_nat (length scan))) (length data)"

lemma write_loop_unfold:
  "write_loop scan data =
     (if drop (write_count scan data) data \<noteq> []
      then (scan @ take (write_count scan data) data) # write_loop [] (drop (write_count scan data) data)
      else [scan @ take (write_count scan data) data])"
  unfolding write_count_def by (subst write_loop.simps) (simp only: Let_def)

lemma write_loop_induct [case_names step]:
  assumes "\<And>scan data. (drop (write_count scan data) data \<noteq> [] \<Longrightarrow>
             P [] (drop (write_count scan data) data)) \<Longrightarrow> P scan data"
  shows "P scan data"
  by (induction scan data rule: write_loop.induct) (rule assms, simp add: write_count_def)

lemma write_loop_concat: "concat (write_loop scan data) = scan @ data"
proof (induction scan data rule: write_loop_induct)
  case (step scan data)
  then show ?case
    by (subst write_loop_unfold) (use append_take_drop_id [of "write_count scan data" data] in auto)
qed

lemma write_loop_not_Nil [simp]: "write_loop scan data \<noteq> []"
  by (subst write_loop_unfold) simp

lemma write_loop_nonempty:
  "data \<noteq> [] \<Longrightarrow> \<forall>c\<in>set (write_loop scan data). c \<noteq> []"
proof (induction scan data rule: write_loop_induct)
  case (step scan data)
  have "scan = [] \<Longrightarrow> write_count scan data \<noteq> 0"
    using step.prems by (simp add: write_count_def kChunkSize_def)
  moreover have "\<forall>c\<in>set (write_loop [] (drop (write_count scan data) data)). c \<noteq> []"
    if "drop (write_count scan data) data \<noteq> []"
    using step.IH [OF that that] .
  ultimately show ?case
    using step.prems by (subst write_loop_unfold) auto
qed

lemma write_loop_hd: "length scan \<le> length (hd (write_loop scan data))"
  by (subst write_loop_unfold) simp

text \<open>The assertion inside the filling loop: a chunk is never filled past \<open>kChunkSize\<close>.\<close>

lemma write_loop_bound:
  "length scan \<le> 4096 \<Longrightarrow> \<forall>c\<in>set (write_loop scan data). length c \<le> 4096"
proof (induction scan data rule: write_loop_induct)
  case (step scan data)
  have "unat (kChunkSize - of_nat (length scan)) = 4096 - length scan"
    using step.prems
    by (simp add: kChunkSize_def unat_sub word_le_nat_alt unat_of_nat_u32)
  then have "length (scan @ take (write_count scan data) data) \<le> 4096"
    using step.prems by (auto simp: write_count_def)
  with step.IH show ?case by (subst write_loop_unfold) auto
qed

lemma concat_butlast_last: "cs \<noteq> [] \<Longrightarrow> concat (butlast cs) @ last cs = concat cs"
  by (metis append_Nil2 append_butlast_last_id concat.simps concat_append)

lemma sb_write_correct:
  assumes inv: "sb_inv sb" and room: "sb_footprint sb + length xs < 2 ^ 32"
  shows "sb_inv (sb_write xs sb) \<and> sb_data (sb_write xs sb) = sb_data sb @ xs \<and>
         sb_footprint (sb_write xs sb) = sb_footprint sb + length xs"
proof (cases "xs = []")
  case True
  then show ?thesis using inv by (simp add: sb_write_def)
next
  case False
  let ?cs = "sb_chunks sb"
  define reuse where
    "reuse \<longleftrightarrow> ?cs \<noteq> [] \<and> \<not> of_nat (length (last ?cs)) \<ge> (ucast kChunkSize :: size_t)"
  define front where "front = (if reuse then butlast ?cs else ?cs)"
  define scan where "scan = (if reuse then last ?cs else [])"
  define ls where "ls = front @ write_loop scan xs"
  have eq: "sb_write xs sb = sb\<lparr>sb_size := sb_size sb + of_nat (length xs), sb_chunks := ls\<rparr>"
    using False by (simp add: sb_write_def Let_def ls_def front_def scan_def reuse_def)
  have nz: "\<forall>c\<in>set ?cs. c \<noteq> []" and fp: "length (concat ?cs) < 2 ^ 32"
    and h: "if ?cs = [] then sb_headUsed sb = 0 else unat (sb_headUsed sb) < length (hd ?cs)"
    and sz: "unat (sb_size sb) = length (sb_data sb)"
    using inv by (auto simp: sb_inv_def sb_footprint_def)
  have parts: "concat front @ scan = concat ?cs"
    using concat_butlast_last [of ?cs] by (auto simp: front_def scan_def reuse_def)
  then have cc: "concat ls = concat ?cs @ xs"
    by (simp add: ls_def write_loop_concat flip: append_assoc)
  have hu: "unat (sb_headUsed sb) \<le> length (concat ?cs)"
    using h by (cases ?cs) auto
  have "\<forall>c\<in>set front. c \<noteq> []"
    using nz by (auto simp: front_def dest: in_set_butlastD)
  with write_loop_nonempty [OF False, of scan] have nz': "\<forall>c\<in>set ls. c \<noteq> []"
    unfolding ls_def set_append by blast
  have "ls \<noteq> []" by (simp add: ls_def)
  with nz' have ls: "ls \<noteq> []" "hd ls \<noteq> []" by auto
  have head: "unat (sb_headUsed sb) < length (hd ls)"
  proof (cases "front = []")
    case True
    then have "?cs = [] \<or> ?cs = [scan]"
      by (cases ?cs; cases "tl ?cs") (auto simp: front_def scan_def split: if_splits)
    then show ?thesis
      using True h ls write_loop_hd [of scan xs] by (auto simp: ls_def)
  next
    case False
    have "hd front = hd ?cs \<and> ?cs \<noteq> []"
    proof (cases reuse)
      case True
      with False have "butlast ?cs \<noteq> []" by (simp add: front_def)
      then show ?thesis using True by (cases ?cs) (auto simp: front_def)
    qed (use False in \<open>simp add: front_def\<close>)
    then show ?thesis using False h by (simp add: ls_def)
  qed
  have d: "sb_data (sb_write xs sb) = sb_data sb @ xs"
    using hu by (simp add: eq sb_data_def cc)
  have "length (sb_data sb) + length xs < 2 ^ 32"
    using room by (simp add: sb_data_def sb_footprint_def)
  then have "unat (sb_size sb + of_nat (length xs)) = length (sb_data sb @ xs)"
    using sz by (simp add: unat_word_ariths unat_of_nat_u32)
  then have "sb_inv (sb_write xs sb)"
    using nz' ls head d room cc by (simp add: eq sb_inv_def sb_footprint_def)
  with d show ?thesis by (simp add: eq sb_footprint_def cc)
qed

section \<open>The FIFO contract\<close>

text \<open>
  What the packet filter and the sockets rely on: the buffer stands for a byte string, writing
  appends to it, peeking shows a prefix, popping drops one. \<open>cap\<close> bounds the memory in use.
\<close>

datatype fifo_op = OpWrite bytes | OpPeek u32 | OpPop u32

text \<open>The operations on any implementation, collecting what each \<open>peek\<close> shows; and on a list.\<close>

fun impl_exec :: "(bytes \<Rightarrow> 'b \<Rightarrow> 'b) \<Rightarrow> (u32 \<Rightarrow> 'b \<Rightarrow> (bytes \<times> 'b) option) \<Rightarrow> (u32 \<Rightarrow> 'b \<Rightarrow> 'b option) \<Rightarrow>
    fifo_op list \<Rightarrow> 'b \<Rightarrow> (bytes list \<times> 'b) option" where
  "impl_exec w pk pp [] b = Some ([], b)"
| "impl_exec w pk pp (OpWrite xs # ops) b = impl_exec w pk pp ops (w xs b)"
| "impl_exec w pk pp (OpPeek n # ops) b =
     Option.bind (pk n b) (\<lambda>(p, b'). map_option (\<lambda>(outs, r). (take (unat n) p # outs, r)) (impl_exec w pk pp ops b'))"
| "impl_exec w pk pp (OpPop n # ops) b = Option.bind (pp n b) (impl_exec w pk pp ops)"

fun fifo_exec :: "fifo_op list \<Rightarrow> bytes \<Rightarrow> (bytes list \<times> bytes) option" where
  "fifo_exec [] d = Some ([], d)"
| "fifo_exec (OpWrite xs # ops) d = fifo_exec ops (d @ xs)"
| "fifo_exec (OpPeek n # ops) d =
     (if unat n \<le> length d then map_option (\<lambda>(outs, r). (take (unat n) d # outs, r)) (fifo_exec ops d) else None)"
| "fifo_exec (OpPop n # ops) d = fifo_exec ops (drop (unat n) d)"

fun written :: "fifo_op list \<Rightarrow> nat" where
  "written [] = 0"
| "written (OpWrite xs # ops) = length xs + written ops"
| "written (_ # ops) = written ops"

locale byte_fifo =
  fixes empty :: 'b
    and put :: "bytes \<Rightarrow> 'b \<Rightarrow> 'b"
    and peek :: "u32 \<Rightarrow> 'b \<Rightarrow> (bytes \<times> 'b) option"
    and pop :: "u32 \<Rightarrow> 'b \<Rightarrow> 'b option"
    and avail :: "'b \<Rightarrow> u32"
    and data :: "'b \<Rightarrow> bytes"
    and cap :: "'b \<Rightarrow> nat"
    and inv :: "'b \<Rightarrow> bool"
  assumes empty: "inv empty \<and> data empty = [] \<and> cap empty = 0"
    and put: "inv b \<Longrightarrow> cap b + length xs < 2 ^ 32 \<Longrightarrow>
      inv (put xs b) \<and> data (put xs b) = data b @ xs \<and> cap (put xs b) = cap b + length xs"
    and peek: "inv b \<Longrightarrow> unat n \<le> length (data b) \<Longrightarrow>
      \<exists>p b'. peek n b = Some (p, b') \<and> inv b' \<and> data b' = data b \<and> cap b' \<le> cap b \<and>
             take (unat n) p = take (unat n) (data b)"
    and pop: "inv b \<Longrightarrow>
      \<exists>b'. pop n b = Some b' \<and> inv b' \<and> data b' = drop (unat n) (data b) \<and> cap b' \<le> cap b"
    and avail: "inv b \<Longrightarrow> unat (avail b) = length (data b)"
begin

text \<open>The read idiom of every client: peek at \<open>n\<close> bytes, copy them, pop them.\<close>

lemma fetch:
  assumes "inv b" "unat n \<le> length (data b)"
  shows "\<exists>p b1 b2. peek n b = Some (p, b1) \<and> pop n b1 = Some b2 \<and>
    take (unat n) p = take (unat n) (data b) \<and>
    inv b2 \<and> data b2 = drop (unat n) (data b) \<and> cap b2 \<le> cap b"
proof -
  from peek [OF assms] obtain p b1 where 1: "peek n b = Some (p, b1)" "inv b1" "data b1 = data b"
    "cap b1 \<le> cap b" "take (unat n) p = take (unat n) (data b)"
    by blast
  from pop [OF 1(2), of n] obtain b2 where "pop n b1 = Some b2" "inv b2"
    "data b2 = drop (unat n) (data b1)" "cap b2 \<le> cap b1"
    by blast
  with 1 show ?thesis by (metis order_trans)
qed

text \<open>Popping the current avail empties the buffer.\<close>

lemma clear:
  assumes "inv b"
  shows "\<exists>b'. pop (avail b) b = Some b' \<and> inv b' \<and> data b' = []"
  using pop [OF assms, of "avail b"] avail [OF assms] by force

lemma size_le_iff: "inv b \<Longrightarrow> n \<le> avail b \<longleftrightarrow> unat n \<le> length (data b)"
  by (simp add: word_le_nat_alt avail)

text \<open>Data written in pieces is the data written at once.\<close>

lemma write_all:
  "inv b \<Longrightarrow> cap b + length (concat xss) < 2 ^ 32 \<Longrightarrow>
     inv (fold put xss b) \<and> data (fold put xss b) = data b @ concat xss"
proof (induction xss arbitrary: b)
  case (Cons xs xss)
  have "inv (put xs b)" "data (put xs b) = data b @ xs" "cap (put xs b) = cap b + length xs"
    using put [OF Cons.prems(1), of xs] Cons.prems(2) by auto
  with Cons.IH [of "put xs b"] Cons.prems(2) show ?case by (simp add: add.assoc)
qed simp

text \<open>The implementation refines the list, operation by operation.\<close>

lemma exec_refines:
  "inv b \<Longrightarrow> cap b + written ops < 2 ^ 32 \<Longrightarrow> fifo_exec ops (data b) = Some (outs, d) \<Longrightarrow>
   \<exists>b'. impl_exec put peek pop ops b = Some (outs, b') \<and> inv b' \<and> data b' = d"
proof (induction ops arbitrary: b outs)
  case (Cons op ops)
  show ?case
  proof (cases op)
    case (OpWrite xs)
    with Cons.prems put [of b xs] Cons.IH [of "put xs b"] show ?thesis by simp
  next
    case (OpPeek n)
    with Cons.prems obtain outs' where o: "unat n \<le> length (data b)" "fifo_exec ops (data b) = Some (outs', d)"
      "outs = take (unat n) (data b) # outs'" by (auto split: if_splits)
    from peek [OF Cons.prems(1) o(1)] obtain p b' where
      "peek n b = Some (p, b')" "inv b'" "data b' = data b" "cap b' \<le> cap b"
      "take (unat n) p = take (unat n) (data b)" by blast
    with Cons.IH [of b' outs'] Cons.prems OpPeek o show ?thesis by auto
  next
    case (OpPop n)
    from pop [OF Cons.prems(1), of n] obtain b' where
      "pop n b = Some b'" "inv b'" "data b' = drop (unat n) (data b)" "cap b' \<le> cap b" by blast
    with Cons.IH [of b' outs] Cons.prems OpPop show ?thesis by simp
  qed
qed simp

end

interpretation sbuf: byte_fifo sb_new sb_write sb_peek sb_pop sb_getSize sb_data sb_footprint sb_inv
proof (unfold_locales, goal_cases)
  case 1
  show ?case by (simp add: sb_new_def sb_inv_def sb_data_def sb_footprint_def)
next
  case (2 b xs)
  then show ?case by (rule sb_write_correct)
next
  case (3 b n)
  then show ?case using sb_peek_correct [of b n] by fastforce
next
  case (4 b n)
  then show ?case by (rule sb_pop_correct)
next
  case (5 b)
  then show ?case by (simp add: sb_getSize_def sb_inv_def)
qed

text \<open>
  C9. The chunked buffer is a FIFO of bytes. Any sequence of writes, peeks and pops that a plain
  byte list supports (no peek asks for more than is there), with fewer than \<open>2^32\<close> bytes written
  in all, runs on the buffer without touching a missing chunk, every peek shows the same bytes and
  the size reported at the end is the number of bytes left.
\<close>

theorem streambuffer_refines_fifo:
  assumes "written ops < 2 ^ 32" and "fifo_exec ops [] = Some (outs, d)"
  shows "\<exists>sb. impl_exec sb_write sb_peek sb_pop ops sb_new = Some (outs, sb) \<and>
     sb_data sb = d \<and> unat (sb_getSize sb) = length d"
proof -
  from sbuf.exec_refines [of sb_new ops outs d] sbuf.empty assms obtain sb where
    "impl_exec sb_write sb_peek sb_pop ops sb_new = Some (outs, sb)" "sb_inv sb" "sb_data sb = d"
    by auto
  with sbuf.avail [of sb] show ?thesis by simp
qed

theorem streambuffer_refines_fifo_witness:
  "\<exists>sb. impl_exec sb_write sb_peek sb_pop [OpWrite [1, 2, 3], OpPop 1, OpWrite [4], OpPeek 2] sb_new =
      Some ([[2, 3]], sb) \<and> sb_data sb = [2, 3, 4] \<and> unat (sb_getSize sb) = length [2, 3, 4 :: u8]"
  using streambuffer_refines_fifo [of "[OpWrite [1, 2, 3], OpPop 1, OpWrite [4], OpPeek 2]"] by simp

end
