(* ===== verification/PacketStreamFilter.thy ===== *)
theory PacketStreamFilter
  imports StreamBuffer
begin

text \<open>
  \<^verbatim>\<open>src/lib/inputleap/PacketStreamFilter.cpp\<close> over \<^verbatim>\<open>src/lib/io/StreamFilter.cpp\<close>:
  the framing of messages on the wire. A packet travels as its length (32 bit, big endian)
  followed by its payload. The filtered stream is the buffered socket of the program; the model
  keeps the bytes it has ready (\<open>st_in\<close>), the bytes written to it (\<open>st_out\<close>) and what was
  closed. Events are recorded in the order they are queued (\<open>psf_queued\<close>, \<open>add_event\<close>) or
  delivered at once (\<open>psf_dispatched\<close>, \<open>StreamFilter::filterEvent\<close>).
\<close>

section \<open>State\<close>

datatype stream_event =
    STREAM_INPUT_READY
  | STREAM_INPUT_SHUTDOWN
  | STREAM_INPUT_FORMAT_ERROR
  | STREAM_OTHER nat

record psf =
  psf_size :: u32
  psf_buffer :: stream_buffer
  psf_inputShutdown :: bool
  st_in :: bytes
  st_out :: bytes
  st_closed :: bool
  st_inputClosed :: bool
  psf_queued :: "stream_event list"
  psf_dispatched :: "stream_event list"

definition PROTOCOL_MAX_MESSAGE_LENGTH :: u32 where
  "PROTOCOL_MAX_MESSAGE_LENGTH = 4 * 1024 * 1024"

definition psf_new :: psf where
  "psf_new = \<lparr>psf_size = 0, psf_buffer = sb_new, psf_inputShutdown = False, st_in = [],
     st_out = [], st_closed = False, st_inputClosed = False, psf_queued = [], psf_dispatched = []\<rparr>"

section \<open>Operations\<close>

definition psf_isReadyNoLock :: "psf \<Rightarrow> bool" where
  "psf_isReadyNoLock s \<longleftrightarrow> psf_size s \<noteq> 0 \<and> psf_size s \<le> sb_getSize (psf_buffer s)"

definition psf_isReady :: "psf \<Rightarrow> bool" where
  "psf_isReady s = psf_isReadyNoLock s"

definition psf_getSize :: "psf \<Rightarrow> u32" where
  "psf_getSize s = (if psf_isReadyNoLock s then psf_size s else 0)"

definition psf_add_event :: "stream_event \<Rightarrow> psf \<Rightarrow> psf" where
  "psf_add_event e s = s\<lparr>psf_queued := psf_queued s @ [e]\<rparr>"

definition psf_close :: "psf \<Rightarrow> psf option" where
  "psf_close s =
     (case sb_pop (sb_getSize (psf_buffer s)) (psf_buffer s) of
        None \<Rightarrow> None
      | Some b \<Rightarrow> Some (s\<lparr>psf_size := 0, psf_buffer := b, st_closed := True\<rparr>))"

definition psf_shutdownInput :: "psf \<Rightarrow> psf option" where
  "psf_shutdownInput s =
     (case sb_pop (sb_getSize (psf_buffer s)) (psf_buffer s) of
        None \<Rightarrow> None
      | Some b \<Rightarrow> Some (s\<lparr>psf_size := 0, psf_buffer := b, st_inputClosed := True\<rparr>))"

text \<open>\<open>write\<close> sends the length of the payload and then the payload.\<close>

definition psf_write :: "bytes \<Rightarrow> psf \<Rightarrow> psf" where
  "psf_write buf s =
     (let count = of_nat (length buf) :: u32
      in s\<lparr>st_out := st_out s @
              [ucast (drop_bit 24 count AND 0xff), ucast (drop_bit 16 count AND 0xff),
               ucast (drop_bit 8 count AND 0xff), ucast (count AND 0xff)] @ buf\<rparr>)"

definition psf_readPacketSize :: "psf \<Rightarrow> (bool \<times> psf) option" where
  "psf_readPacketSize s =
     (if psf_size s = 0 \<and> 4 \<le> sb_getSize (psf_buffer s)
      then case sb_peek 4 (psf_buffer s) of
             None \<Rightarrow> None
           | Some (p, b1) \<Rightarrow>
               (case sb_pop 4 b1 of
                  None \<Rightarrow> None
                | Some b2 \<Rightarrow>
                    (let n = be32_join (p ! 0) (p ! 1) (p ! 2) (p ! 3);
                         s1 = s\<lparr>psf_buffer := b2, psf_size := n\<rparr>
                     in if PROTOCOL_MAX_MESSAGE_LENGTH < n
                        then Some (False, psf_add_event STREAM_INPUT_FORMAT_ERROR s1)
                        else Some (True, s1)))
      else Some (True, s))"

text \<open>
  \<open>read (buffer, n)\<close>: the result is the returned count, the bytes copied to \<open>buffer\<close> (none
  when it is the null pointer) and the new state.
\<close>

definition psf_read :: "bool \<Rightarrow> u32 \<Rightarrow> psf \<Rightarrow> (u32 \<times> bytes \<times> psf) option" where
  "psf_read has_buffer n0 s =
     (if n0 = 0 then Some (0, [], s)
      else if \<not> psf_isReadyNoLock s then Some (0, [], s)
      else
        let n = (if psf_size s < n0 then psf_size s else n0)
        in case (if has_buffer then sb_peek n (psf_buffer s) else Some ([], psf_buffer s)) of
             None \<Rightarrow> None
           | Some (p, b1) \<Rightarrow>
               (case sb_pop n b1 of
                  None \<Rightarrow> None
                | Some b2 \<Rightarrow>
                    (case psf_readPacketSize (s\<lparr>psf_buffer := b2, psf_size := psf_size s - n\<rparr>) of
                       None \<Rightarrow> None
                     | Some (_, s1) \<Rightarrow>
                         Some (n, take (unat n) p,
                           if psf_inputShutdown s1 \<and> psf_size s1 = 0
                           then psf_add_event STREAM_INPUT_SHUTDOWN s1 else s1))))"

lemma psf_readPacketSize_st_in:
  "psf_readPacketSize s = Some (ok, s') \<Longrightarrow> st_in s' = st_in s"
  by (auto simp: psf_readPacketSize_def psf_add_event_def Let_def
      split: if_splits option.splits prod.splits)

text \<open>
  The reading loop of \<open>readMore\<close>. One \<open>read\<close> of the socket delivers at most 4096 of the bytes
  it has buffered.
\<close>

function psf_readMore_loop :: "psf \<Rightarrow> psf option" where
  "psf_readMore_loop s =
     (if st_in s = [] then Some s
      else
        let s1 = s\<lparr>psf_buffer := sb_write (take 4096 (st_in s)) (psf_buffer s),
                   st_in := drop 4096 (st_in s)\<rparr>
        in case psf_readPacketSize s1 of
             None \<Rightarrow> None
           | Some (ok, s2) \<Rightarrow> if ok then psf_readMore_loop s2 else Some s2)"
  by pat_completeness auto
termination
proof (relation "measure (\<lambda>s. length (st_in s))", goal_cases)
  case (2 s s1 r ok s2)
  then have "st_in s2 = drop 4096 (st_in s)" using psf_readPacketSize_st_in [of s1 ok s2] by simp
  then show ?case using 2(1) by (cases "st_in s") auto
qed simp

declare psf_readMore_loop.simps [simp del]

definition psf_readMore :: "psf \<Rightarrow> (bool \<times> psf) option" where
  "psf_readMore s =
     (case psf_readMore_loop s of
        None \<Rightarrow> None
      | Some s' \<Rightarrow> Some (psf_isReadyNoLock s \<noteq> psf_isReadyNoLock s', s'))"

text \<open>\<open>StreamFilter::filterEvent\<close>: hand the event on under the filter's own target.\<close>

definition psf_pass :: "stream_event \<Rightarrow> psf \<Rightarrow> psf" where
  "psf_pass e s = s\<lparr>psf_dispatched := psf_dispatched s @ [e]\<rparr>"

definition psf_filterEvent :: "stream_event \<Rightarrow> psf \<Rightarrow> psf option" where
  "psf_filterEvent e s =
     (case e of
        STREAM_INPUT_READY \<Rightarrow>
          (case psf_readMore s of
             None \<Rightarrow> None
           | Some (changed, s') \<Rightarrow> Some (if changed then psf_pass e s' else s'))
      | STREAM_INPUT_SHUTDOWN \<Rightarrow>
          (let s1 = s\<lparr>psf_inputShutdown := True\<rparr>
           in if psf_size s1 \<noteq> 0
              then if psf_size s1 \<le> sb_getSize (psf_buffer s1) then Some s1
                   else Some (psf_pass e ((psf_add_event STREAM_INPUT_FORMAT_ERROR s1)\<lparr>psf_size := 0\<rparr>))
              else Some (psf_pass e s1))
      | _ \<Rightarrow> Some (psf_pass e s))"

section \<open>Frames and the unread wire\<close>

definition frame :: "bytes \<Rightarrow> bytes" where
  "frame p = be32_split (of_nat (length p)) @ p"

lemma psf_write_frame: "st_out (psf_write p s) = st_out s @ frame p"
  by (simp add: psf_write_def frame_def be32_split_def Let_def)

text \<open>A packet the protocol allows: not empty and within the message limit.\<close>

definition packets_ok :: "bytes list \<Rightarrow> bool" where
  "packets_ok qs \<longleftrightarrow> (\<forall>q\<in>set qs. q \<noteq> [] \<and> length q \<le> unat PROTOCOL_MAX_MESSAGE_LENGTH)"

text \<open>The bytes of the wire the filter has taken in and not yet delivered, as wire bytes.\<close>

definition psf_view :: "psf \<Rightarrow> bytes" where
  "psf_view s = (if psf_size s = 0 then [] else be32_split (psf_size s)) @ sb_data (psf_buffer s)"

text \<open>
  The filter tracks the undelivered packets \<open>qs\<close> (of which the first may be partly read) when
  what it holds and the bytes \<open>m\<close> still to come spell exactly their frames.
\<close>

definition psf_tracks :: "psf \<Rightarrow> bytes list \<Rightarrow> bytes \<Rightarrow> bool" where
  "psf_tracks s qs m \<longleftrightarrow>
     sb_inv (psf_buffer s) \<and> sb_footprint (psf_buffer s) + length m < 2 ^ 32 \<and>
     (psf_size s = 0 \<longrightarrow> length (sb_data (psf_buffer s)) < 4) \<and>
     packets_ok qs \<and> psf_view s @ m = concat (map frame qs)"

lemma packets_ok_Cons [simp]:
  "packets_ok (q # qs) \<longleftrightarrow>
     q \<noteq> [] \<and> length q \<le> unat PROTOCOL_MAX_MESSAGE_LENGTH \<and> packets_ok qs"
  by (auto simp: packets_ok_def)

lemma packets_ok_Nil [simp]: "packets_ok []"
  by (simp add: packets_ok_def)

lemma max_message [simp]: "unat PROTOCOL_MAX_MESSAGE_LENGTH = 4194304"
  by (simp add: PROTOCOL_MAX_MESSAGE_LENGTH_def)

lemma be32_split_inj [simp]: "be32_split a @ xs = be32_split b @ ys \<longleftrightarrow> a = b \<and> xs = ys"
  by (metis append_eq_append_conv be32_hd_split length_be32_split)

lemma frames_head:
  assumes "xs @ m = concat (map frame qs)" "4 \<le> length xs"
  shows "\<exists>q qs'. qs = q # qs' \<and> be32_hd xs = of_nat (length q) \<and> drop 4 xs @ m = q @ concat (map frame qs')"
proof -
  from assms obtain q qs' where qs: "qs = q # qs'" by (cases qs) auto
  have "be32_split (be32_hd xs) @ (drop 4 xs @ m) = be32_split (of_nat (length q)) @ (q @ concat (map frame qs'))"
    using assms be32_split_hd [of xs] by (simp add: qs frame_def flip: append_assoc)
  then show ?thesis unfolding be32_split_inj using qs by blast
qed

lemma packet_length_u32:
  assumes "packets_ok (q # qs)"
  shows "unat (of_nat (length q) :: u32) = length q" "(of_nat (length q) :: u32) \<noteq> 0"
    "\<not> PROTOCOL_MAX_MESSAGE_LENGTH < of_nat (length q)"
proof -
  show l: "unat (of_nat (length q) :: u32) = length q"
    using assms by (intro unat_of_nat_u32) simp
  show "(of_nat (length q) :: u32) \<noteq> 0"
    using l assms by (metis length_0_conv packets_ok_Cons unat_0)
  show "\<not> PROTOCOL_MAX_MESSAGE_LENGTH < of_nat (length q)"
    using l assms by (simp add: word_less_nat_alt)
qed

lemma take4_nth: "take 4 p = take 4 q \<Longrightarrow> k < 4 \<Longrightarrow> p ! k = q ! k"
  by (metis nth_take)

text \<open>Reading a packet size: on the frames of allowed packets it never reports an error.\<close>

lemma psf_readPacketSize_tracks:
  assumes inv: "sb_inv (psf_buffer s)" and fp: "sb_footprint (psf_buffer s) + length m < 2 ^ 32"
    and ok: "packets_ok qs" and view: "psf_view s @ m = concat (map frame qs)"
  shows "\<exists>b n. psf_readPacketSize s = Some (True, s\<lparr>psf_buffer := b, psf_size := n\<rparr>) \<and>
               psf_tracks (s\<lparr>psf_buffer := b, psf_size := n\<rparr>) qs m"
proof (cases "psf_size s = 0 \<and> 4 \<le> sb_getSize (psf_buffer s)")
  case False
  then have "psf_size s = 0 \<longrightarrow> length (sb_data (psf_buffer s)) < 4"
    using sbuf.size_le_iff [OF inv, of 4] by auto
  then show ?thesis using False assms
    by (intro exI [of _ "psf_buffer s"] exI [of _ "psf_size s"])
       (auto simp: psf_readPacketSize_def psf_tracks_def)
next
  case True
  let ?d = "sb_data (psf_buffer s)"
  have l: "4 \<le> length ?d" using True sbuf.size_le_iff [OF inv, of 4] by simp
  from sbuf.fetch [OF inv, of 4] l obtain p b1 b2 where
    f: "sb_peek 4 (psf_buffer s) = Some (p, b1)" "sb_pop 4 b1 = Some b2" "take 4 p = take 4 ?d"
       "sb_inv b2" "sb_data b2 = drop 4 ?d" "sb_footprint b2 \<le> sb_footprint (psf_buffer s)"
    by auto
  have v: "?d @ m = concat (map frame qs)" using view True by (simp add: psf_view_def)
  from frames_head [OF v l] obtain q qs' where
    qs: "qs = q # qs'" and hd: "be32_hd ?d = of_nat (length q)" by blast
  have j: "be32_join (p ! 0) (p ! 1) (p ! 2) (p ! 3) = of_nat (length q)"
    using hd take4_nth [OF f(3)] by (simp add: be32_hd_def)
  note len = packet_length_u32 [OF ok [unfolded qs]]
  have "psf_tracks (s\<lparr>psf_buffer := b2, psf_size := of_nat (length q)\<rparr>) qs m"
    using f fp ok v len(2) be32_split_hd [OF l] hd by (simp add: psf_tracks_def psf_view_def)
  moreover have "psf_readPacketSize s = Some (True, s\<lparr>psf_buffer := b2, psf_size := of_nat (length q)\<rparr>)"
    using True f j len(3) by (simp add: psf_readPacketSize_def Let_def)
  ultimately show ?thesis by blast
qed

lemma psf_readMore_loop_tracks:
  "psf_tracks s qs (st_in s @ m) \<Longrightarrow>
   \<exists>b n. psf_readMore_loop s = Some (s\<lparr>st_in := [], psf_buffer := b, psf_size := n\<rparr>) \<and>
         psf_tracks (s\<lparr>st_in := [], psf_buffer := b, psf_size := n\<rparr>) qs m"
proof (induction s rule: psf_readMore_loop.induct)
  case (1 s)
  show ?case
  proof (cases "st_in s = []")
    case True
    then have "psf_readMore_loop s = Some s" by (simp add: psf_readMore_loop.simps)
    moreover have e: "s\<lparr>st_in := [], psf_buffer := psf_buffer s, psf_size := psf_size s\<rparr> = s"
      using True by simp
    moreover have "psf_tracks s qs m" using 1(2) True by simp
    ultimately have "psf_readMore_loop s = Some (s\<lparr>st_in := [], psf_buffer := psf_buffer s, psf_size := psf_size s\<rparr>) \<and>
         psf_tracks (s\<lparr>st_in := [], psf_buffer := psf_buffer s, psf_size := psf_size s\<rparr>) qs m"
      unfolding e by blast
    then show ?thesis by blast
  next
    case False
    let ?c = "take 4096 (st_in s)" and ?r = "drop 4096 (st_in s)"
    let ?b = "sb_write ?c (psf_buffer s)"
    let ?s1 = "s\<lparr>psf_buffer := ?b, st_in := ?r\<rparr>"
    have t: "sb_inv (psf_buffer s)" "sb_footprint (psf_buffer s) + length ?c + length (?r @ m) < 2 ^ 32"
      "packets_ok qs" "psf_view s @ st_in s @ m = concat (map frame qs)"
      using 1(2) by (auto simp: psf_tracks_def)
    have w: "sb_inv ?b" "sb_data ?b = sb_data (psf_buffer s) @ ?c"
      "sb_footprint ?b = sb_footprint (psf_buffer s) + length ?c"
      using sbuf.put [OF t(1), of ?c] t(2) by auto
    have "psf_view ?s1 @ ?r @ m = concat (map frame qs)"
      using t(4) w(2)
      by (simp add: psf_view_def split: if_splits flip: append_assoc [of "take _ _" "drop _ _"])
    from psf_readPacketSize_tracks [of ?s1 "?r @ m" qs] this t(2,3) w(1,3) obtain b n where
      r: "psf_readPacketSize ?s1 = Some (True, ?s1\<lparr>psf_buffer := b, psf_size := n\<rparr>)"
      and tr: "psf_tracks (?s1\<lparr>psf_buffer := b, psf_size := n\<rparr>) qs (?r @ m)"
      by auto
    have "\<exists>b' n'. psf_readMore_loop (?s1\<lparr>psf_buffer := b, psf_size := n\<rparr>) =
        Some (?s1\<lparr>psf_buffer := b, psf_size := n, st_in := [], psf_buffer := b', psf_size := n'\<rparr>) \<and>
        psf_tracks (?s1\<lparr>psf_buffer := b, psf_size := n, st_in := [], psf_buffer := b', psf_size := n'\<rparr>) qs m"
      by (rule 1(1) [OF False refl r refl]) (use tr in simp_all)
    then show ?thesis using False r
      by (subst psf_readMore_loop.simps) (simp add: Let_def)
  qed
qed

text \<open>What a read takes from the undelivered packets: a slice of the first one, never more.\<close>

fun take_packets :: "nat \<Rightarrow> bytes list \<Rightarrow> bytes list" where
  "take_packets n [] = []"
| "take_packets n (q # qs) = (if length q \<le> n then qs else drop n q # qs)"

lemma psf_ready_head:
  assumes t: "psf_tracks s qs m" and r: "psf_isReadyNoLock s"
  shows "\<exists>q qs' rest. qs = q # qs' \<and> psf_size s = of_nat (length q) \<and>
     sb_data (psf_buffer s) = q @ rest \<and> rest @ m = concat (map frame qs')"
proof -
  let ?d = "sb_data (psf_buffer s)"
  have inv: "sb_inv (psf_buffer s)" and ok: "packets_ok qs"
    and v: "be32_split (psf_size s) @ ?d @ m = concat (map frame qs)"
    using t r by (auto simp: psf_tracks_def psf_view_def psf_isReadyNoLock_def)
  then obtain q qs' where qs: "qs = q # qs'" by (cases qs) (auto simp: be32_split_def)
  with v have sz: "psf_size s = of_nat (length q)" and d: "?d @ m = q @ concat (map frame qs')"
    by (simp_all add: frame_def)
  have "length q \<le> length ?d"
    using r packet_length_u32(1) [OF ok [unfolded qs]] sbuf.size_le_iff [OF inv, of "psf_size s"]
    by (simp add: psf_isReadyNoLock_def sz)
  then obtain rest where "?d = q @ rest" "rest @ m = concat (map frame qs')"
    using d by (auto simp: append_eq_append_conv2)
  with qs sz show ?thesis by blast
qed

lemma psf_read_tracks:
  assumes t: "psf_tracks s (q # qs) m" and r: "psf_isReadyNoLock s" and n: "n \<noteq> 0"
  shows "\<exists>b z. psf_tracks (s\<lparr>psf_buffer := b, psf_size := z\<rparr>) (take_packets (unat n) (q # qs)) m \<and>
    psf_read True n s = Some (of_nat (min (unat n) (length q)), take (unat n) q,
      if psf_inputShutdown s \<and> z = 0
      then psf_add_event STREAM_INPUT_SHUTDOWN (s\<lparr>psf_buffer := b, psf_size := z\<rparr>)
      else s\<lparr>psf_buffer := b, psf_size := z\<rparr>)"
proof -
  from psf_ready_head [OF t r] obtain rest where
    sz: "psf_size s = of_nat (length q)" and d: "sb_data (psf_buffer s) = q @ rest"
    and rm: "rest @ m = concat (map frame qs)"
    by auto
  have inv: "sb_inv (psf_buffer s)" and ok: "packets_ok (q # qs)"
    and fp: "sb_footprint (psf_buffer s) + length m < 2 ^ 32"
    using t by (auto simp: psf_tracks_def)
  note len = packet_length_u32 [OF ok]
  define k where "k = (if psf_size s < n then psf_size s else n)"
  have k: "unat k = min (unat n) (length q)" and kle: "k \<le> psf_size s"
    using len(1) by (auto simp: k_def sz word_less_nat_alt word_le_nat_alt)
  have "unat k \<le> length (sb_data (psf_buffer s))" using k d by simp
  from sbuf.fetch [OF inv this] obtain p b1 b2 where
    f: "sb_peek k (psf_buffer s) = Some (p, b1)" "sb_pop k b1 = Some b2"
       "take (unat k) p = take (unat k) (q @ rest)" "sb_inv b2"
       "sb_data b2 = drop (unat k) (q @ rest)" "sb_footprint b2 \<le> sb_footprint (psf_buffer s)"
    unfolding d by blast
  let ?s1 = "s\<lparr>psf_buffer := b2, psf_size := psf_size s - k\<rparr>"
  have left: "unat (psf_size s - k) = length q - unat n"
    using kle k len(1) sz by (simp add: unat_sub)
  have z: "psf_size s - k = 0 \<longleftrightarrow> length q \<le> unat n"
    using left by (metis diff_is_0_eq unat_eq_zero)
  have ok': "packets_ok (take_packets (unat n) (q # qs))" using ok by auto
  have "psf_view ?s1 @ m = concat (map frame (take_packets (unat n) (q # qs)))"
  proof (cases "length q \<le> unat n")
    case True
    then show ?thesis using z f(5) k rm by (simp add: psf_view_def)
  next
    case False
    then have "psf_size s - k = of_nat (length (drop (unat n) q))"
      using left by (metis length_drop u32_of_nat_unat)
    then show ?thesis
      using False z f(5) k rm by (simp add: psf_view_def frame_def)
  qed
  from psf_readPacketSize_tracks [OF _ _ ok' this] f(4,6) fp obtain b y where
    rp: "psf_readPacketSize ?s1 = Some (True, ?s1\<lparr>psf_buffer := b, psf_size := y\<rparr>)"
    and tr: "psf_tracks (?s1\<lparr>psf_buffer := b, psf_size := y\<rparr>) (take_packets (unat n) (q # qs)) m"
    by auto
  have "take (unat k) p = take (unat n) q" using f(3) k by (simp add: min_def)
  moreover have "k = of_nat (min (unat n) (length q))" using k by (metis u32_of_nat_unat)
  ultimately have "psf_read True n s = Some (of_nat (min (unat n) (length q)), take (unat n) q,
      if psf_inputShutdown s \<and> y = 0
      then psf_add_event STREAM_INPUT_SHUTDOWN (s\<lparr>psf_buffer := b, psf_size := y\<rparr>)
      else s\<lparr>psf_buffer := b, psf_size := y\<rparr>)"
    using n r f(1,2) rp unfolding psf_read_def Let_def k_def [symmetric] by simp
  moreover have "psf_tracks (s\<lparr>psf_buffer := b, psf_size := y\<rparr>) (take_packets (unat n) (q # qs)) m"
    using tr by simp
  ultimately show ?thesis by blast
qed

section \<open>Runs of the filter\<close>

text \<open>
  The filter's life on a connection that stays up: bytes reach the socket in segments of any size,
  the socket announces input, the owner reads with any count. The order is not determined, so the
  steps are a relation; the labels record what arrived and what was read.
\<close>

datatype psf_act = Arrive bytes | Notify | Read u32 bytes

inductive psf_step :: "psf \<Rightarrow> psf_act \<Rightarrow> psf \<Rightarrow> bool" where
  arrive: "psf_step s (Arrive xs) (s\<lparr>st_in := st_in s @ xs\<rparr>)"
| announced: "psf_filterEvent STREAM_INPUT_READY s = Some s' \<Longrightarrow> psf_step s Notify s'"
| fetched: "psf_read True n s = Some (k, xs, s') \<Longrightarrow> psf_step s (Read n xs) s'"

inductive psf_run :: "psf_act list \<Rightarrow> psf \<Rightarrow> bool" where
  start: "psf_run [] psf_new"
| step: "psf_run acts s \<Longrightarrow> psf_step s a s' \<Longrightarrow> psf_run (acts @ [a]) s'"

inductive_cases psf_step_ArriveE: "psf_step s (Arrive xs) s'"
inductive_cases psf_step_NotifyE: "psf_step s Notify s'"
inductive_cases psf_step_ReadE: "psf_step s (Read n xs) s'"

fun arrived :: "psf_act list \<Rightarrow> bytes" where
  "arrived [] = []"
| "arrived (Arrive xs # as) = xs @ arrived as"
| "arrived (_ # as) = arrived as"

fun received :: "psf_act list \<Rightarrow> bytes" where
  "received [] = []"
| "received (Read n xs # as) = xs @ received as"
| "received (_ # as) = received as"

lemma arrived_append [simp]: "arrived (as @ bs) = arrived as @ arrived bs"
  by (induction as rule: arrived.induct) auto

lemma received_append [simp]: "received (as @ bs) = received as @ received bs"
  by (induction as rule: received.induct) auto

text \<open>The invariant of a run: what was read and what is still tracked are the packets sent.\<close>

definition psf_run_inv :: "psf \<Rightarrow> bytes \<Rightarrow> bytes list \<Rightarrow> bytes \<Rightarrow> bool" where
  "psf_run_inv s got ps future \<longleftrightarrow>
     (\<exists>qs. psf_tracks s qs (st_in s @ future) \<and> got @ concat qs = concat ps) \<and>
     psf_queued s = [] \<and> \<not> psf_inputShutdown s"

lemma psf_run_inv_arrive:
  "psf_run_inv s got ps (xs @ future) \<Longrightarrow> psf_run_inv (s\<lparr>st_in := st_in s @ xs\<rparr>) got ps future"
  by (auto simp: psf_run_inv_def psf_tracks_def psf_view_def)

lemma psf_run_inv_notify:
  assumes "psf_run_inv s got ps future" "psf_filterEvent STREAM_INPUT_READY s = Some s'"
  shows "psf_run_inv s' got ps future"
proof -
  from assms(1) obtain qs where qs: "psf_tracks s qs (st_in s @ future)" "got @ concat qs = concat ps"
    and r: "psf_queued s = []" "\<not> psf_inputShutdown s"
    by (auto simp: psf_run_inv_def)
  from psf_readMore_loop_tracks [OF qs(1)] obtain b n where
    "psf_readMore_loop s = Some (s\<lparr>st_in := [], psf_buffer := b, psf_size := n\<rparr>)"
    "psf_tracks (s\<lparr>st_in := [], psf_buffer := b, psf_size := n\<rparr>) qs future"
    by blast
  with assms(2) qs(2) r show ?thesis
    by (auto simp: psf_filterEvent_def psf_readMore_def psf_run_inv_def psf_pass_def
        psf_tracks_def psf_view_def split: if_splits)
qed

lemma take_packets_concat: "take n q @ concat (take_packets n (q # qs)) = q @ concat qs"
  by simp

lemma psf_run_inv_read:
  assumes inv: "psf_run_inv s got ps future" and rd: "psf_read True n s = Some (k, xs, s')"
  shows "psf_run_inv s' (got @ xs) ps future"
proof (cases "n = 0 \<or> \<not> psf_isReadyNoLock s")
  case True
  with inv rd show ?thesis by (auto simp: psf_read_def split: if_splits)
next
  case False
  from inv obtain qs where t: "psf_tracks s qs (st_in s @ future)" "got @ concat qs = concat ps"
    and r: "psf_queued s = []" "\<not> psf_inputShutdown s"
    by (auto simp: psf_run_inv_def)
  from psf_ready_head [OF t(1)] False obtain q qs' where qs: "qs = q # qs'" by blast
  from psf_read_tracks [OF t(1) [unfolded qs], of n] False obtain b z where
    "psf_tracks (s\<lparr>psf_buffer := b, psf_size := z\<rparr>) (take_packets (unat n) qs) (st_in s @ future)"
    and "psf_read True n s = Some (of_nat (min (unat n) (length q)), take (unat n) q,
           s\<lparr>psf_buffer := b, psf_size := z\<rparr>)"
    using r by (auto simp: qs)
  with rd r t(2) qs take_packets_concat [of "unat n" q qs'] show ?thesis
    by (auto simp: psf_run_inv_def simp del: take_packets.simps intro!: exI [of _ "take_packets (unat n) qs"])
qed

lemma psf_new_tracks:
  "packets_ok ps \<Longrightarrow> length (concat (map frame ps)) < 2 ^ 32 \<Longrightarrow>
   psf_run_inv psf_new [] ps (concat (map frame ps))"
  using sbuf.empty by (auto simp: psf_run_inv_def psf_new_def psf_tracks_def psf_view_def)

lemma psf_run_invariant:
  assumes "psf_run acts s" and "arrived acts @ future = concat (map frame ps)"
    and ok: "packets_ok ps" and small: "length (concat (map frame ps)) < 2 ^ 32"
  shows "psf_run_inv s (received acts) ps future"
  using assms(1,2)
proof (induction arbitrary: future rule: psf_run.induct)
  case start
  then show ?case using psf_new_tracks [OF ok small] by simp
next
  case (step acts s a s')
  from step.hyps(2) show ?case
  proof cases
    case (arrive xs)
    then show ?thesis using step.IH [of "xs @ future"] step.prems psf_run_inv_arrive by simp
  next
    case announced
    then show ?thesis using step.IH [of future] step.prems psf_run_inv_notify by simp
  next
    case (fetched n k xs)
    then show ?thesis using step.IH [of future] step.prems psf_run_inv_read by simp
  qed
qed

text \<open>Nothing tracked can be stuck: once everything has arrived and been taken in, a filter that
  is not ready has delivered everything.\<close>

lemma psf_tracks_idle:
  assumes t: "psf_tracks s qs []" and idle: "\<not> psf_isReadyNoLock s"
  shows "qs = []"
proof (rule ccontr)
  assume "qs \<noteq> []"
  then obtain q qs' where qs: "qs = q # qs'" by (cases qs) auto
  have inv: "sb_inv (psf_buffer s)" and ok: "packets_ok (q # qs')"
    and v: "psf_view s = frame q @ concat (map frame qs')"
    and h: "psf_size s = 0 \<longrightarrow> length (sb_data (psf_buffer s)) < 4"
    using t by (auto simp: psf_tracks_def qs)
  have nz: "psf_size s \<noteq> 0"
  proof
    assume "psf_size s = 0"
    with v have "sb_data (psf_buffer s) = frame q @ concat (map frame qs')"
      by (simp add: psf_view_def)
    with h \<open>psf_size s = 0\<close> show False by (simp add: frame_def)
  qed
  with v have "psf_size s = of_nat (length q)" "sb_data (psf_buffer s) = q @ concat (map frame qs')"
    by (simp_all add: psf_view_def frame_def)
  with packet_length_u32(1) [OF ok] have "psf_size s \<le> sb_getSize (psf_buffer s)"
    using sbuf.size_le_iff [OF inv] by simp
  with nz idle show False by (simp add: psf_isReadyNoLock_def)
qed

section \<open>Properties\<close>

text \<open>
  C1. Whatever the segmentation of the wire and whatever counts the owner reads with, the bytes
  read so far are a prefix of the payloads the peer wrote, the filter never reports a format error
  and never shuts down, and once the whole wire has been taken in and the filter is not ready,
  every payload has been delivered. Every packet is non-empty and within the protocol's limit, and
  the connection carries less than 4 GiB (the width of the buffer's counters).
\<close>

theorem psf_delivers_packets:
  assumes "psf_run acts s"
    and "arrived acts @ future = concat (map frame ps)"
    and "packets_ok ps"
    and "length (concat (map frame ps)) < 2 ^ 32"
  shows "(\<exists>pending. received acts @ pending = concat ps) \<and> psf_queued s = [] \<and>
         (future = [] \<and> st_in s = [] \<and> \<not> psf_isReady s \<longrightarrow> received acts = concat ps)"
proof -
  from psf_run_invariant [OF assms] obtain qs where
    "psf_tracks s qs (st_in s @ future)" "received acts @ concat qs = concat ps" "psf_queued s = []"
    by (auto simp: psf_run_inv_def)
  then show ?thesis using psf_tracks_idle [of s qs] by (auto simp: psf_isReady_def)
qed

lemma psf_read_whole:
  assumes "psf_tracks s (p # ps) m" "psf_isReadyNoLock s"
  shows "\<exists>b z. psf_read True (of_nat (length p)) s =
      Some (of_nat (length p), p,
        if psf_inputShutdown s \<and> z = 0
        then psf_add_event STREAM_INPUT_SHUTDOWN (s\<lparr>psf_buffer := b, psf_size := z\<rparr>)
        else s\<lparr>psf_buffer := b, psf_size := z\<rparr>) \<and>
    psf_tracks (s\<lparr>psf_buffer := b, psf_size := z\<rparr>) ps m"
proof -
  have ok: "packets_ok (p # ps)" using assms(1) by (simp add: psf_tracks_def)
  note len = packet_length_u32 [OF ok]
  have "take_packets (unat (of_nat (length p) :: u32)) (p # ps) = ps" by (simp add: len(1))
  with psf_read_tracks [OF assms len(2)] show ?thesis
    unfolding len(1) min.idem take_all [OF order_refl] by metis
qed

text \<open>A filter holding a whole packet that is told the peer closed its side stays silent.\<close>

lemma psf_shutdown_deferred:
  "psf_isReadyNoLock s \<Longrightarrow>
   psf_filterEvent STREAM_INPUT_SHUTDOWN s = Some (s\<lparr>psf_inputShutdown := True\<rparr>)"
  by (simp add: psf_filterEvent_def psf_isReadyNoLock_def Let_def)

text \<open>The state a read of the deferred packet ends in; \<open>z\<close> is the size of the next packet.\<close>

definition psf_shutdown_result :: "u32 \<Rightarrow> psf \<Rightarrow> psf" where
  "psf_shutdown_result z s = (if z = 0 then psf_add_event STREAM_INPUT_SHUTDOWN s else s)"

lemma psf_tracks_shutdown [simp]:
  "psf_tracks (s\<lparr>psf_inputShutdown := x\<rparr>) qs m \<longleftrightarrow> psf_tracks s qs m"
  by (simp add: psf_tracks_def psf_view_def)

lemma psf_shutdown_read:
  assumes t: "psf_tracks s (p # ps) m" and r: "psf_isReadyNoLock s"
  shows "\<exists>b z. psf_read True (of_nat (length p)) (s\<lparr>psf_inputShutdown := True\<rparr>) =
      Some (of_nat (length p), p, psf_shutdown_result z (s\<lparr>psf_inputShutdown := True, psf_buffer := b, psf_size := z\<rparr>)) \<and>
    length (psf_view (s\<lparr>psf_buffer := b, psf_size := z\<rparr>)) = length (sb_data (psf_buffer s)) - length p \<and>
    psf_tracks (s\<lparr>psf_buffer := b, psf_size := z\<rparr>) ps m"
proof -
  let ?s = "s\<lparr>psf_inputShutdown := True\<rparr>"
  have t': "psf_tracks ?s (p # ps) m" and r': "psf_isReadyNoLock ?s"
    using t r by (simp_all add: psf_isReadyNoLock_def)
  from psf_read_whole [OF t' r'] obtain b z where
    rd: "psf_read True (of_nat (length p)) ?s = Some (of_nat (length p), p,
        if z = 0 then psf_add_event STREAM_INPUT_SHUTDOWN (?s\<lparr>psf_buffer := b, psf_size := z\<rparr>)
        else ?s\<lparr>psf_buffer := b, psf_size := z\<rparr>)"
    and tr: "psf_tracks (?s\<lparr>psf_buffer := b, psf_size := z\<rparr>) ps m"
    by auto
  have tr': "psf_tracks (s\<lparr>psf_buffer := b, psf_size := z\<rparr>) ps m"
    using tr by (auto simp: psf_tracks_def psf_view_def split: if_splits)
  from psf_ready_head [OF t r] obtain rest where
    d: "sb_data (psf_buffer s) = p @ rest" and "rest @ m = concat (map frame ps)"
    by auto
  then have "psf_view (s\<lparr>psf_buffer := b, psf_size := z\<rparr>) @ m = rest @ m"
    using tr' by (simp add: psf_tracks_def)
  with rd tr' d show ?thesis unfolding psf_shutdown_result_def by auto
qed

text \<open>The owner of the stream reads one packet after the other.\<close>

fun psf_read_packets :: "u32 list \<Rightarrow> psf \<Rightarrow> (bytes list \<times> psf) option" where
  "psf_read_packets [] s = Some ([], s)"
| "psf_read_packets (n # ns) s =
     (case psf_read True n s of
        None \<Rightarrow> None
      | Some (_, p, s1) \<Rightarrow> map_option (\<lambda>(ps, s2). (p # ps, s2)) (psf_read_packets ns s1))"

lemma psf_ready_view:
  assumes t: "psf_tracks s (p # ps) m" and l: "length (frame p) \<le> length (psf_view s)"
  shows "psf_isReadyNoLock s"
proof -
  let ?d = "sb_data (psf_buffer s)"
  have inv: "sb_inv (psf_buffer s)" and ok: "packets_ok (p # ps)" using t by (auto simp: psf_tracks_def)
  have z: "psf_size s \<noteq> 0" using t l by (auto simp: psf_tracks_def psf_view_def frame_def)
  then have "be32_split (psf_size s) @ ?d @ m = be32_split (of_nat (length p)) @ p @ concat (map frame ps)"
    using t by (simp add: psf_tracks_def psf_view_def frame_def)
  then have sz: "psf_size s = of_nat (length p)" by simp
  have "length p \<le> length ?d" using l z by (simp add: psf_view_def frame_def)
  then have "psf_size s \<le> sb_getSize (psf_buffer s)"
    using sz packet_length_u32(1) [OF ok] sbuf.size_le_iff [OF inv, of "psf_size s"] by simp
  then show ?thesis using z by (simp add: psf_isReadyNoLock_def)
qed

lemma psf_view_ready: "psf_isReadyNoLock s \<Longrightarrow> length (psf_view s) = 4 + length (sb_data (psf_buffer s))"
  by (simp add: psf_view_def psf_isReadyNoLock_def)

lemma psf_shutdown_reads:
  assumes "psf_tracks s (ps @ qs) m" "ps \<noteq> []" "length (concat (map frame ps)) \<le> length (psf_view s)"
    "length (psf_view s) < length (concat (map frame ps)) + 4"
  shows "\<exists>t. psf_read_packets (map (\<lambda>p. of_nat (length p)) ps) (s\<lparr>psf_inputShutdown := True\<rparr>) = Some (ps, t) \<and>
      psf_queued t = psf_queued s @ [STREAM_INPUT_SHUTDOWN] \<and> psf_dispatched t = psf_dispatched s \<and>
      (\<forall>k<length ps. \<exists>u. psf_read_packets (map (\<lambda>p. of_nat (length p)) (take k ps)) (s\<lparr>psf_inputShutdown := True\<rparr>) = Some (take k ps, u) \<and>
        psf_queued u = psf_queued s)"
  using assms
proof (induction ps arbitrary: s)
  case (Cons p ps)
  have t: "psf_tracks s (p # ps @ qs) m" using Cons.prems(1) by simp
  have r: "psf_isReadyNoLock s" using psf_ready_view [OF t] Cons.prems(3) by simp
  from psf_shutdown_read [OF t r] obtain b z where
    rd: "psf_read True (of_nat (length p)) (s\<lparr>psf_inputShutdown := True\<rparr>) =
      Some (of_nat (length p), p, psf_shutdown_result z (s\<lparr>psf_inputShutdown := True, psf_buffer := b, psf_size := z\<rparr>))"
    and l: "length (psf_view (s\<lparr>psf_buffer := b, psf_size := z\<rparr>)) = length (sb_data (psf_buffer s)) - length p"
    and t': "psf_tracks (s\<lparr>psf_buffer := b, psf_size := z\<rparr>) (ps @ qs) m" by blast
  let ?s = "s\<lparr>psf_buffer := b, psf_size := z\<rparr>"
  have v: "length (psf_view ?s) + length (frame p) = length (psf_view s)"
    using l psf_view_ready [OF r] Cons.prems(3) by (simp add: frame_def)
  show ?case
  proof (cases "ps = []")
    case True
    then have "length (psf_view ?s) < 4" using v Cons.prems(4) by simp
    then have "z = 0" by (auto simp: psf_view_def split: if_splits)
    then show ?thesis using rd True by (auto simp: psf_shutdown_result_def psf_add_event_def)
  next
    case False
    then obtain p' ps' where ps: "ps = p' # ps'" by (cases ps) auto
    have w: "length (concat (map frame ps)) \<le> length (psf_view ?s)" "length (psf_view ?s) < length (concat (map frame ps)) + 4"
      using v Cons.prems(3,4) by simp_all
    have "psf_isReadyNoLock ?s" using psf_ready_view [of ?s p' "ps' @ qs" m] t' w(1) ps by simp
    then have z: "z \<noteq> 0" by (simp add: psf_isReadyNoLock_def)
    from Cons.IH [OF t' False w] obtain t where
      t: "psf_read_packets (map (\<lambda>p. of_nat (length p)) ps) (?s\<lparr>psf_inputShutdown := True\<rparr>) = Some (ps, t)"
        "psf_queued t = psf_queued s @ [STREAM_INPUT_SHUTDOWN]" "psf_dispatched t = psf_dispatched s"
        "\<forall>k<length ps. \<exists>u. psf_read_packets (map (\<lambda>p. of_nat (length p)) (take k ps)) (?s\<lparr>psf_inputShutdown := True\<rparr>) = Some (take k ps, u) \<and>
          psf_queued u = psf_queued s" by auto
    have e: "psf_shutdown_result z (s\<lparr>psf_inputShutdown := True, psf_buffer := b, psf_size := z\<rparr>) = ?s\<lparr>psf_inputShutdown := True\<rparr>"
      using z by (simp add: psf_shutdown_result_def)
    have k: "\<exists>u. psf_read_packets (map (\<lambda>p. of_nat (length p)) (take k (p # ps))) (s\<lparr>psf_inputShutdown := True\<rparr>) = Some (take k (p # ps), u) \<and>
        psf_queued u = psf_queued s" if "k < length (p # ps)" for k
    proof (cases k)
      case (Suc j)
      then have "j < length ps" using that by simp
      then obtain u where "psf_read_packets (map (\<lambda>p. of_nat (length p)) (take j ps)) (?s\<lparr>psf_inputShutdown := True\<rparr>) = Some (take j ps, u)"
        "psf_queued u = psf_queued s" using t(4) by blast
      then show ?thesis using rd e Suc by auto
    qed simp
    then show ?thesis using rd e t(1-3) by auto
  qed
qed simp

text \<open>
  C32. The peer closes while one or more complete packets are buffered and at most three bytes follow
  them: nothing is dispatched or queued then, every one of these packets is still delivered in full,
  one per read of its length, and the shutdown event is queued exactly with the last of them. (When the
  header of a further packet is there, it is not: C33.)
\<close>

theorem psf_shutdown_after_last_packet:
  assumes "psf_tracks s (ps @ qs) m" and "ps \<noteq> []" and "length (concat (map frame ps)) \<le> length (psf_view s)"
    and "length (psf_view s) < length (concat (map frame ps)) + 4"
  shows "\<exists>s1 s2. psf_filterEvent STREAM_INPUT_SHUTDOWN s = Some s1 \<and>
     psf_dispatched s1 = psf_dispatched s \<and> psf_queued s1 = psf_queued s \<and>
     psf_read_packets (map (\<lambda>p. of_nat (length p)) ps) s1 = Some (ps, s2) \<and>
     psf_queued s2 = psf_queued s @ [STREAM_INPUT_SHUTDOWN] \<and> psf_dispatched s2 = psf_dispatched s \<and>
     (\<forall>k<length ps. \<exists>u. psf_read_packets (map (\<lambda>p. of_nat (length p)) (take k ps)) s1 = Some (take k ps, u) \<and> psf_queued u = psf_queued s)"
proof -
  obtain p ps' where ps: "ps = p # ps'" using assms(2) by (cases ps) auto
  have "psf_isReadyNoLock s" using psf_ready_view [of s p "ps' @ qs" m] assms(1,3) ps by simp
  from psf_shutdown_deferred [OF this] psf_shutdown_reads [OF assms] show ?thesis by auto
qed

text \<open>
  C33. The peer closes while a complete packet is buffered and the header of a further, incomplete
  packet follows it: the shutdown event is swallowed. Reading the complete packet queues nothing,
  nothing was dispatched, and every later read returns no bytes and still queues nothing, so the
  owner of the stream is never told that the connection is gone.
\<close>

theorem psf_shutdown_lost:
  assumes "psf_tracks s (p # ps) m" and "psf_isReadyNoLock s"
    and "length p + 4 \<le> length (sb_data (psf_buffer s))"
    and "\<forall>q qs. ps = q # qs \<longrightarrow> length (sb_data (psf_buffer s)) < length p + 4 + length q"
  shows "\<exists>s1 s2. psf_filterEvent STREAM_INPUT_SHUTDOWN s = Some s1 \<and>
     psf_read True (of_nat (length p)) s1 = Some (of_nat (length p), p, s2) \<and>
     psf_queued s2 = psf_queued s \<and> psf_dispatched s2 = psf_dispatched s \<and>
     (\<forall>n. psf_read True n s2 = Some (0, [], s2))"
proof -
  from psf_shutdown_read [OF assms(1,2)] obtain b z where
    r: "psf_read True (of_nat (length p)) (s\<lparr>psf_inputShutdown := True\<rparr>) =
      Some (of_nat (length p), p, psf_shutdown_result z (s\<lparr>psf_inputShutdown := True, psf_buffer := b, psf_size := z\<rparr>))"
    and l: "length (psf_view (s\<lparr>psf_buffer := b, psf_size := z\<rparr>)) = length (sb_data (psf_buffer s)) - length p"
    and t: "psf_tracks (s\<lparr>psf_buffer := b, psf_size := z\<rparr>) ps m"
    by blast
  let ?s = "s\<lparr>psf_buffer := b, psf_size := z\<rparr>"
  have "z \<noteq> 0"
    using l t assms(3) by (auto simp: psf_view_def psf_tracks_def)
  have idle: "\<not> psf_isReadyNoLock ?s"
  proof
    assume "psf_isReadyNoLock ?s"
    from psf_ready_head [OF t this] obtain q qs rest where
      "ps = q # qs" "sb_data b = q @ rest" by auto
    with l \<open>z \<noteq> 0\<close> assms(4) show False by (simp add: psf_view_def)
  qed
  let ?t = "s\<lparr>psf_inputShutdown := True, psf_buffer := b, psf_size := z\<rparr>"
  have quiet: "psf_read True n ?t = Some (0, [], ?t)" for n
    using idle by (simp add: psf_read_def psf_isReadyNoLock_def)
  show ?thesis
    using r psf_shutdown_deferred [OF assms(2)] \<open>z \<noteq> 0\<close> quiet
    by (auto simp: psf_shutdown_result_def)
qed

text \<open>Witnesses: concrete connections, evaluated.\<close>

definition demo_taken :: psf where
  "demo_taken = psf_new\<lparr>psf_size := 2, psf_dispatched := [STREAM_INPUT_READY],
     psf_buffer := \<lparr>sb_chunks = [[0, 0, 0, 2, 7, 8]], sb_size = 2, sb_headUsed = 4\<rparr>\<rparr>"

lemma demo_notify:
  "psf_filterEvent STREAM_INPUT_READY (psf_new\<lparr>st_in := st_in psf_new @ frame [7, 8]\<rparr>) = Some demo_taken"
  by code_simp

lemma demo_read:
  "psf_read True 5 demo_taken = Some (2, [7, 8], psf_new\<lparr>psf_dispatched := [STREAM_INPUT_READY]\<rparr>)"
  by code_simp

theorem psf_delivers_packets_witness:
  "\<exists>s. psf_run [Arrive (frame [7, 8]), Notify, Read 5 [7, 8]] s \<and> psf_queued s = [] \<and>
       received [Arrive (frame [7, 8]), Notify, Read 5 [7, 8]] = concat [[7, 8]]"
proof -
  have run: "psf_run [Arrive (frame [7, 8]), Notify, Read 5 [7, 8]]
      (psf_new\<lparr>psf_dispatched := [STREAM_INPUT_READY]\<rparr>)"
    using psf_run.step [OF psf_run.step [OF psf_run.step [OF psf_run.start psf_step.arrive]
        psf_step.announced [OF demo_notify]] psf_step.fetched [OF demo_read]]
    by simp
  have idle: "\<not> psf_isReady (psf_new\<lparr>psf_dispatched := [STREAM_INPUT_READY]\<rparr>)"
    by code_simp
  show ?thesis
    using run psf_delivers_packets [OF run, of "[]" "[[7, 8]]"] idle
    by (auto simp: frame_def psf_new_def)
qed

definition demo_pair :: psf where
  "demo_pair = psf_new\<lparr>psf_size := 2,
     psf_buffer := \<lparr>sb_chunks = [[7, 8, 0, 0, 0, 1, 9]], sb_size = 7, sb_headUsed = 0\<rparr>\<rparr>"

definition demo_truncated :: psf where
  "demo_truncated = psf_new\<lparr>psf_size := 2,
     psf_buffer := \<lparr>sb_chunks = [[7, 8, 0, 0, 0, 1]], sb_size = 6, sb_headUsed = 0\<rparr>\<rparr>"

lemmas demo_eval = psf_tracks_def psf_view_def psf_isReadyNoLock_def sb_getSize_def sb_inv_def
  sb_footprint_def sb_data_def psf_new_def frame_def be32_split_def

theorem psf_shutdown_after_last_packet_witness:
  "psf_tracks demo_pair [[7, 8], [9]] [] \<and>
   (\<exists>s1 s2. psf_filterEvent STREAM_INPUT_SHUTDOWN demo_pair = Some s1 \<and>
     psf_read_packets [2, 1] s1 = Some ([[7, 8], [9]], s2) \<and> psf_queued s2 = [STREAM_INPUT_SHUTDOWN])"
proof -
  have t: "psf_tracks demo_pair ([[7, 8], [9]] @ []) []" by (simp add: demo_pair_def demo_eval)
  have l: "length (concat (map frame [[7, 8], [9]])) \<le> length (psf_view demo_pair)"
    "length (psf_view demo_pair) < length (concat (map frame [[7, 8], [9]])) + 4"
    by (simp_all add: demo_pair_def demo_eval)
  have q: "psf_queued demo_pair = []" by (simp add: demo_pair_def psf_new_def)
  show ?thesis using t psf_shutdown_after_last_packet [OF t _ l] by (auto simp: q)
qed

theorem psf_shutdown_lost_witness:
  "psf_tracks demo_truncated [[7, 8], [9]] [9] \<and> psf_isReadyNoLock demo_truncated \<and>
   (\<exists>s1 s2. psf_filterEvent STREAM_INPUT_SHUTDOWN demo_truncated = Some s1 \<and>
     psf_read True 2 s1 = Some (2, [7, 8], s2) \<and> psf_queued s2 = [] \<and> psf_dispatched s2 = [])"
proof -
  have t: "psf_tracks demo_truncated [[7, 8], [9]] [9]" and r: "psf_isReadyNoLock demo_truncated"
    by (simp_all add: demo_truncated_def demo_eval)
  have l: "length [7, 8 :: u8] + 4 \<le> length (sb_data (psf_buffer demo_truncated))"
    and m: "\<forall>q qs. [[9 :: u8]] = q # qs \<longrightarrow>
       length (sb_data (psf_buffer demo_truncated)) < length [7, 8 :: u8] + 4 + length q"
    by (simp_all add: demo_truncated_def demo_eval)
  have q: "psf_queued demo_truncated = []" "psf_dispatched demo_truncated = []"
    by (simp_all add: demo_truncated_def psf_new_def)
  show ?thesis using t r psf_shutdown_lost [OF t r l m] by (auto simp: q)
qed
end
