(* ===== verification/ProtocolUtil.thy ===== *)
theory ProtocolUtil
  imports IL_Prelude
begin

text \<open>
  \<^verbatim>\<open>src/lib/inputleap/ProtocolUtil.cpp\<close>: the printf-like formatter that writes protocol
  messages and the scanner that reads them back, with the message formats of
  \<^verbatim>\<open>src/lib/inputleap/protocol_types.cpp\<close>. The stream a message is read from is used through its
  virtual \<open>read\<close>, so the scanner takes that operation as a parameter; what it relies on is the
  locale \<open>input_stream\<close>.
\<close>

section \<open>Format strings\<close>

text \<open>
  The three passes over a format string (length, write, read) scan it the same way: a regular
  character, or \<open>%\<close>, a decimal width and a conversion character. A format that ends inside a
  conversion has no conversion character; the switch of the source then fails its assertion.
\<close>

datatype fmt_item = Lit char | Conv u32 "char option"

definition digit_value :: "char \<Rightarrow> u32 option" where
  "digit_value c =
     (let d = of_char c :: u32
      in if of_char CHR ''0'' \<le> d \<and> d \<le> of_char CHR ''9'' then Some (d - of_char CHR ''0'') else None)"

fun eatLength :: "u32 \<Rightarrow> string \<Rightarrow> u32 \<times> string" where
  "eatLength n [] = (n, [])"
| "eatLength n (c # cs) =
     (case digit_value c of
        None \<Rightarrow> (n, c # cs)
      | Some d \<Rightarrow> eatLength (10 * n + d) cs)"

lemma eatLength_shorter: "length (snd (eatLength n cs)) \<le> length cs"
  by (induction n cs rule: eatLength.induct) (auto split: option.splits)

function fmt_items :: "string \<Rightarrow> fmt_item list" where
  "fmt_items [] = []"
| "fmt_items (c # cs) =
     (if c = CHR ''%''
      then case snd (eatLength 0 cs) of
             [] \<Rightarrow> [Conv (fst (eatLength 0 cs)) None]
           | k # ks \<Rightarrow> Conv (fst (eatLength 0 cs)) (Some k) # fmt_items ks
      else Lit c # fmt_items cs)"
  by pat_completeness auto
termination
proof (relation "measure length", goal_cases)
  case (2 c cs k ks)
  then have "length (k # ks) \<le> length cs" using eatLength_shorter [of 0 cs] by simp
  then show ?case by simp
qed auto

section \<open>Writing\<close>

text \<open>One entry per variadic argument the call passes.\<close>

datatype warg =
    WInt u32
  | WVec8 "u8 list"
  | WVec16 "u16 list"
  | WVec32 "u32 list"
  | WStr bytes
  | WNull
  | WPtr bytes

text \<open>
  \<open>getLength\<close>: \<open>None\<close> is a failed assertion or an argument read at the wrong type. For
  \<open>%s\<close> the source takes the string and then one argument more, which the model drops.
\<close>

fun getLength :: "fmt_item list \<Rightarrow> warg list \<Rightarrow> u32 option" where
  "getLength [] args = Some 0"
| "getLength (Lit c # is) args = map_option (\<lambda>n. 1 + n) (getLength is args)"
| "getLength (Conv len k # is) args =
     (if k = Some CHR ''i'' then
        (if len = 1 \<or> len = 2 \<or> len = 4
         then map_option (\<lambda>n. len + n) (getLength is (drop 1 args)) else None)
      else if k = Some CHR ''I'' then
        (case args of
           WVec8 xs # as \<Rightarrow> if len = 1 then map_option (\<lambda>n. 4 + of_nat (length xs) + n) (getLength is as) else None
         | WVec16 xs # as \<Rightarrow> if len = 2 then map_option (\<lambda>n. 4 + 2 * of_nat (length xs) + n) (getLength is as) else None
         | WVec32 xs # as \<Rightarrow> if len = 4 then map_option (\<lambda>n. 4 + 4 * of_nat (length xs) + n) (getLength is as) else None
         | _ \<Rightarrow> None)
      else if k = Some CHR ''s'' then
        (case args of
           WStr xs # as \<Rightarrow> if len = 0 then map_option (\<lambda>n. 4 + of_nat (length xs) + n) (getLength is (drop 1 as)) else None
         | _ \<Rightarrow> None)
      else if k = Some CHR ''S'' then
        (case args of
           WInt n # as \<Rightarrow> if len = 0 then map_option (\<lambda>m. 4 + n + m) (getLength is (drop 1 as)) else None
         | _ \<Rightarrow> None)
      else if k = Some CHR ''%'' then
        (if len = 0 then map_option (\<lambda>n. 1 + n) (getLength is args) else None)
      else None)"

definition int_bytes :: "u32 \<Rightarrow> u32 \<Rightarrow> bytes option" where
  "int_bytes len v =
     (if len = 1 then Some [ucast (v AND 0xff)]
      else if len = 2 then Some [ucast (drop_bit 8 v AND 0xff), ucast (v AND 0xff)]
      else if len = 4 then Some [ucast (drop_bit 24 v AND 0xff), ucast (drop_bit 16 v AND 0xff),
                                 ucast (drop_bit 8 v AND 0xff), ucast (v AND 0xff)]
      else None)"

fun writef_void :: "fmt_item list \<Rightarrow> warg list \<Rightarrow> bytes option" where
  "writef_void [] args = Some []"
| "writef_void (Lit c # is) args = map_option (\<lambda>bs. of_char c # bs) (writef_void is args)"
| "writef_void (Conv len k # is) args =
     (if k = Some CHR ''i'' then
        (case args of
           WInt v # as \<Rightarrow>
             (case int_bytes len v of
                None \<Rightarrow> None
              | Some bs \<Rightarrow> map_option (\<lambda>r. bs @ r) (writef_void is as))
         | _ \<Rightarrow> None)
      else if k = Some CHR ''I'' then
        (case args of
           WVec8 xs # as \<Rightarrow>
             if len = 1 then map_option (\<lambda>r. be32_split (of_nat (length xs)) @ xs @ r) (writef_void is as)
             else None
         | WVec16 xs # as \<Rightarrow>
             if len = 2 then map_option (\<lambda>r. be32_split (of_nat (length xs)) @ concat (map be16_split xs) @ r) (writef_void is as)
             else None
         | WVec32 xs # as \<Rightarrow>
             if len = 4 then map_option (\<lambda>r. be32_split (of_nat (length xs)) @ concat (map be32_split xs) @ r) (writef_void is as)
             else None
         | _ \<Rightarrow> None)
      else if k = Some CHR ''s'' then
        (case args of
           WStr xs # as \<Rightarrow>
             if len = 0 then map_option (\<lambda>r. be32_split (of_nat (length xs)) @ xs @ r) (writef_void is as)
             else None
         | WNull # as \<Rightarrow>
             if len = 0 then map_option (\<lambda>r. be32_split 0 @ r) (writef_void is as) else None
         | _ \<Rightarrow> None)
      else if k = Some CHR ''S'' then
        (case args of
           WInt n # WPtr xs # as \<Rightarrow>
             if len = 0 \<and> length xs = unat n
             then map_option (\<lambda>r. be32_split n @ xs @ r) (writef_void is as) else None
         | _ \<Rightarrow> None)
      else if k = Some CHR ''%'' then
        (if len = 0 then map_option (\<lambda>r. of_char CHR ''%'' # r) (writef_void is args) else None)
      else None)"

text \<open>
  \<open>writef\<close>: measure, allocate, fill, hand the buffer to the stream. \<open>None\<close> is a failed assertion
  or a buffer filled past (or short of) its measured size; \<open>Some None\<close> is nothing written.
\<close>

definition writef :: "string \<Rightarrow> warg list \<Rightarrow> bytes option option" where
  "writef fmt args =
     (case getLength (fmt_items fmt) args of
        None \<Rightarrow> None
      | Some n \<Rightarrow>
          if n = 0 then Some None
          else (case writef_void (fmt_items fmt) args of
                  None \<Rightarrow> None
                | Some bs \<Rightarrow> if length bs = unat n then Some (Some bs) else None))"

section \<open>Reading\<close>

datatype io_error = XIOEndOfStream | XIOReadMismatch | XBadClient | AssertionFailed

datatype rval =
    RInt8 u8
  | RInt16 u16
  | RInt32 u32
  | RVec8 "u8 list"
  | RVec16 "u16 list"
  | RVec32 "u32 list"
  | RStr bytes

type_synonym 's reader = "u32 \<Rightarrow> 's \<Rightarrow> (bytes \<times> 's) option"

definition PROTOCOL_MAX_LIST_LENGTH :: u32 where
  "PROTOCOL_MAX_LIST_LENGTH = 1024 * 1024"

definition PROTOCOL_MAX_STRING_LENGTH :: u32 where
  "PROTOCOL_MAX_STRING_LENGTH = 1024 * 1024"

text \<open>
  \<open>ProtocolUtil::read\<close>: keep reading until \<open>count\<close> bytes have come or the stream has none. A
  stream that hands over more than was asked for would overrun the caller's buffer.
\<close>

function pu_read :: "'s reader \<Rightarrow> u32 \<Rightarrow> 's \<Rightarrow> io_error + bytes \<times> 's" where
  "pu_read rd count s =
     (if count = 0 then Inr ([], s)
      else case rd count s of
             None \<Rightarrow> Inl AssertionFailed
           | Some (bs, s1) \<Rightarrow>
               if bs = [] then Inl XIOEndOfStream
               else if unat count < length bs then Inl AssertionFailed
               else (case pu_read rd (count - of_nat (length bs)) s1 of
                       Inl e \<Rightarrow> Inl e
                     | Inr (bs', s2) \<Rightarrow> Inr (bs @ bs', s2)))"
  by pat_completeness auto
termination
proof (relation "measure (\<lambda>(rd, count, s). unat count)", goal_cases)
  case (2 rd count s p bs s1)
  then have "unat (of_nat (length bs) :: u32) = length bs"
    using unat_u32_lt [of count] by (intro unat_of_nat_u32) simp
  moreover from this 2 have "(of_nat (length bs) :: u32) \<le> count" by (simp add: word_le_nat_alt)
  ultimately have "unat (count - of_nat (length bs)) = unat count - length bs"
    by (simp add: unat_sub)
  then show ?case using 2 by (cases bs) auto
qed simp

declare pu_read.simps [simp del]

lemma pu_read_0 [simp]: "pu_read rd 0 s = Inr ([], s)"
  by (subst pu_read.simps) simp

lemma pu_read_dry: "count \<noteq> 0 \<Longrightarrow> rd count s = Some ([], s1) \<Longrightarrow> pu_read rd count s = Inl XIOEndOfStream"
  by (subst pu_read.simps) simp

lemma pu_read_more:
  "count \<noteq> 0 \<Longrightarrow> rd count s = Some (bs, s1) \<Longrightarrow> bs \<noteq> [] \<Longrightarrow> length bs \<le> unat count \<Longrightarrow>
   pu_read rd count s =
     (case pu_read rd (count - of_nat (length bs)) s1 of
        Inl e \<Rightarrow> Inl e
      | Inr (bs', s2) \<Rightarrow> Inr (bs @ bs', s2))"
  by (subst pu_read.simps) simp

text \<open>A loop of the scanner that fills a vector: \<open>n\<close> elements of \<open>w\<close> bytes.\<close>

fun read_elems :: "'s reader \<Rightarrow> u32 \<Rightarrow> nat \<Rightarrow> 's \<Rightarrow> io_error + bytes list \<times> 's" where
  "read_elems rd w 0 s = Inr ([], s)"
| "read_elems rd w (Suc n) s =
     (case pu_read rd w s of
        Inl e \<Rightarrow> Inl e
      | Inr (bs, s1) \<Rightarrow>
          (case read_elems rd w n s1 of
             Inl e \<Rightarrow> Inl e
           | Inr (es, s2) \<Rightarrow> Inr (bs # es, s2)))"

definition be16_hd :: "bytes \<Rightarrow> u16" where
  "be16_hd bs = be16_join (bs ! 0) (bs ! 1)"

text \<open>One conversion of the scanner: the value stored through the argument pointer, if any.\<close>

definition read_conv :: "'s reader \<Rightarrow> u32 \<Rightarrow> char option \<Rightarrow> 's \<Rightarrow> io_error + rval list \<times> 's" where
  "read_conv rd len k s =
     (if k = Some CHR ''i'' then
        (if len = 1 \<or> len = 2 \<or> len = 4
         then case pu_read rd len s of
                Inl e \<Rightarrow> Inl e
              | Inr (bs, s1) \<Rightarrow>
                  Inr ([if len = 1 then RInt8 (bs ! 0)
                        else if len = 2 then RInt16 (be16_hd bs)
                        else RInt32 (be32_hd bs)], s1)
         else Inl AssertionFailed)
      else if k = Some CHR ''I'' then
        (if len = 1 \<or> len = 2 \<or> len = 4
         then case pu_read rd 4 s of
                Inl e \<Rightarrow> Inl e
              | Inr (bs, s1) \<Rightarrow>
                  (let n = be32_hd bs
                   in if PROTOCOL_MAX_LIST_LENGTH < n then Inl XBadClient
                      else case read_elems rd len (unat n) s1 of
                             Inl e \<Rightarrow> Inl e
                           | Inr (es, s2) \<Rightarrow>
                               Inr ([if len = 1 then RVec8 (map (\<lambda>e. e ! 0) es)
                                     else if len = 2 then RVec16 (map be16_hd es)
                                     else RVec32 (map be32_hd es)], s2))
         else Inl AssertionFailed)
      else if k = Some CHR ''s'' then
        (if len = 0
         then case pu_read rd 4 s of
                Inl e \<Rightarrow> Inl e
              | Inr (bs, s1) \<Rightarrow>
                  (let n = be32_hd bs
                   in if PROTOCOL_MAX_STRING_LENGTH < n then Inl XBadClient
                      else case pu_read rd n s1 of
                             Inl e \<Rightarrow> Inl e
                           | Inr (xs, s2) \<Rightarrow> Inr ([RStr xs], s2))
         else Inl AssertionFailed)
      else if k = Some CHR ''%'' then
        (if len = 0 then Inr ([], s) else Inl AssertionFailed)
      else Inl AssertionFailed)"

fun vreadf :: "'s reader \<Rightarrow> fmt_item list \<Rightarrow> 's \<Rightarrow> io_error + rval list \<times> 's" where
  "vreadf rd [] s = Inr ([], s)"
| "vreadf rd (Lit c # is) s =
     (case pu_read rd 1 s of
        Inl e \<Rightarrow> Inl e
      | Inr (bs, s1) \<Rightarrow>
          if bs ! 0 \<noteq> of_char c then Inl XIOReadMismatch else vreadf rd is s1)"
| "vreadf rd (Conv len k # is) s =
     (case read_conv rd len k s of
        Inl e \<Rightarrow> Inl e
      | Inr (vs, s1) \<Rightarrow>
          (case vreadf rd is s1 of
             Inl e \<Rightarrow> Inl e
           | Inr (ws, s2) \<Rightarrow> Inr (vs @ ws, s2)))"

text \<open>
  \<open>readf\<close> turns the two I/O exceptions into \<open>false\<close> (\<open>Inr None\<close>); \<open>XBadClient\<close> is not one of
  them and reaches the caller.
\<close>

definition readf :: "'s reader \<Rightarrow> string \<Rightarrow> 's \<Rightarrow> io_error + (rval list \<times> 's) option" where
  "readf rd fmt s =
     (case vreadf rd (fmt_items fmt) s of
        Inl e \<Rightarrow> if e = XIOEndOfStream \<or> e = XIOReadMismatch then Inr None else Inl e
      | Inr r \<Rightarrow> Inr (Some r))"

section \<open>Messages that can be read back\<close>

text \<open>
  The arguments fit the format: integers of 1, 2 or 4 bytes, vectors of those within the list
  limit and strings within the string limit. These are the conversions both passes implement.
\<close>

fun fits :: "fmt_item list \<Rightarrow> warg list \<Rightarrow> bool" where
  "fits [] args = (args = [])"
| "fits (Lit c # is) args = fits is args"
| "fits (Conv len k # is) args =
     (case args of
        WInt v # as \<Rightarrow> k = Some CHR ''i'' \<and> (len = 1 \<or> len = 2 \<or> len = 4) \<and> fits is as
      | WVec8 xs # as \<Rightarrow> k = Some CHR ''I'' \<and> len = 1 \<and> length xs \<le> unat PROTOCOL_MAX_LIST_LENGTH \<and> fits is as
      | WVec16 xs # as \<Rightarrow> k = Some CHR ''I'' \<and> len = 2 \<and> length xs \<le> unat PROTOCOL_MAX_LIST_LENGTH \<and> fits is as
      | WVec32 xs # as \<Rightarrow> k = Some CHR ''I'' \<and> len = 4 \<and> length xs \<le> unat PROTOCOL_MAX_LIST_LENGTH \<and> fits is as
      | WStr xs # as \<Rightarrow> k = Some CHR ''s'' \<and> len = 0 \<and> length xs \<le> unat PROTOCOL_MAX_STRING_LENGTH \<and> fits is as
      | _ \<Rightarrow> False)"

text \<open>
  After a \<open>%s\<close> only regular characters and integers follow: \<open>getLength\<close> has then lost its place
  among the arguments, which only integer conversions survive.
\<close>

definition int_only :: "fmt_item list \<Rightarrow> bool" where
  "int_only is \<longleftrightarrow> list_all (\<lambda>i. case i of Lit c \<Rightarrow> True
     | Conv len k \<Rightarrow> k = Some CHR ''i'' \<and> (len = 1 \<or> len = 2 \<or> len = 4)) is"

fun string_last :: "fmt_item list \<Rightarrow> bool" where
  "string_last [] = True"
| "string_last (Lit c # is) = string_last is"
| "string_last (Conv len k # is) = (if k = Some CHR ''s'' then int_only is else string_last is)"

text \<open>The values the scanner stores: integers truncated to the width of the conversion.\<close>

fun rvals :: "fmt_item list \<Rightarrow> warg list \<Rightarrow> rval list" where
  "rvals [] args = []"
| "rvals (Lit c # is) args = rvals is args"
| "rvals (Conv len k # is) args =
     (case args of
        WInt v # as \<Rightarrow>
          (if len = 1 then RInt8 (ucast v) else if len = 2 then RInt16 (ucast v) else RInt32 v) # rvals is as
      | WVec8 xs # as \<Rightarrow> RVec8 xs # rvals is as
      | WVec16 xs # as \<Rightarrow> RVec16 xs # rvals is as
      | WVec32 xs # as \<Rightarrow> RVec32 xs # rvals is as
      | WStr xs # as \<Rightarrow> RStr xs # rvals is as
      | _ \<Rightarrow> [])"

text \<open>The values a format may yield: one per conversion, of its width, within the limits.\<close>

fun typed :: "fmt_item list \<Rightarrow> rval list \<Rightarrow> bool" where
  "typed [] vs = (vs = [])"
| "typed (Lit c # is) vs = typed is vs"
| "typed (Conv len k # is) vs =
     (case vs of
        RInt8 v # ws \<Rightarrow> k = Some CHR ''i'' \<and> len = 1 \<and> typed is ws
      | RInt16 v # ws \<Rightarrow> k = Some CHR ''i'' \<and> len = 2 \<and> typed is ws
      | RInt32 v # ws \<Rightarrow> k = Some CHR ''i'' \<and> len = 4 \<and> typed is ws
      | RVec8 xs # ws \<Rightarrow> k = Some CHR ''I'' \<and> len = 1 \<and> length xs \<le> unat PROTOCOL_MAX_LIST_LENGTH \<and> typed is ws
      | RVec16 xs # ws \<Rightarrow> k = Some CHR ''I'' \<and> len = 2 \<and> length xs \<le> unat PROTOCOL_MAX_LIST_LENGTH \<and> typed is ws
      | RVec32 xs # ws \<Rightarrow> k = Some CHR ''I'' \<and> len = 4 \<and> length xs \<le> unat PROTOCOL_MAX_LIST_LENGTH \<and> typed is ws
      | RStr xs # ws \<Rightarrow> k = Some CHR ''s'' \<and> len = 0 \<and> length xs \<le> unat PROTOCOL_MAX_STRING_LENGTH \<and> typed is ws
      | _ \<Rightarrow> False)"

text \<open>Formats whose every conversion the scanner implements with a value.\<close>

definition readable :: "fmt_item list \<Rightarrow> bool" where
  "readable is \<longleftrightarrow> list_all (\<lambda>i. case i of Lit c \<Rightarrow> True
     | Conv len k \<Rightarrow> (k = Some CHR ''i'' \<or> k = Some CHR ''I'') \<and> (len = 1 \<or> len = 2 \<or> len = 4) \<or>
         k = Some CHR ''s'' \<and> len = 0) is"

lemma max_list [simp]: "unat PROTOCOL_MAX_LIST_LENGTH = 1048576"
  by (simp add: PROTOCOL_MAX_LIST_LENGTH_def)

lemma max_string [simp]: "unat PROTOCOL_MAX_STRING_LENGTH = 1048576"
  by (simp add: PROTOCOL_MAX_STRING_LENGTH_def)

lemma ucast_ff: "ucast (v AND 0xff :: u32) = (ucast v :: u8)"
  unfolding ff_mask8 by (rule bit_word_eqI) (auto simp: bit_simps)

lemma be16_join_u32 [be_simps]:
  "be16_join (ucast (drop_bit 8 v AND 0xff)) (ucast (v AND 0xff :: u32)) = ucast v" (is "?l = _")
proof (rule bit_word_eqI)
  fix n assume "n < LENGTH(16)"
  then consider "n < 8" | "8 \<le> n" "n < 16" by fastforce
  then show "bit ?l n = bit (ucast v :: u16) n"
    by cases (auto simp: be16_join_def ff_mask8 bit_simps)
qed

lemma length_int_bytes: "int_bytes len v = Some bs \<Longrightarrow> length bs = unat len"
  by (auto simp: int_bytes_def split: if_splits)

lemma be16_hd_split [simp]: "be16_hd (be16_split v) = v"
  by (simp add: be16_hd_def be16_split_def be_simps)

lemma be32_hd_split_self [simp]: "be32_hd (be32_split v) = v"
  using be32_hd_split [of v "[]"] by simp

lemma length_concat_be16 [simp]: "length (concat (map be16_split xs)) = 2 * length xs"
  by (induction xs) auto

lemma length_concat_be32 [simp]: "length (concat (map be32_split xs)) = 4 * length xs"
  by (induction xs) auto

lemma fits_writable: "fits is args \<Longrightarrow> \<exists>bs. writef_void is args = Some bs"
  by (induction "is" args rule: fits.induct)
     (auto simp: int_bytes_def split: list.splits warg.splits)

text \<open>The bytes one fitting conversion writes are bounded by the list limit.\<close>

lemma length_written:
  "fits is args \<Longrightarrow> writef_void is args = Some bs \<Longrightarrow> length bs \<le> 4194308 * length is"
proof (induction "is" arbitrary: args bs)
  case (Cons i "is")
  show ?case
  proof (cases i)
    case (Lit c)
    with Cons.prems obtain r where "writef_void is args = Some r" "bs = of_char c # r" by auto
    with Cons.IH [of args r] Cons.prems Lit show ?thesis by simp
  next
    case (Conv len k)
    with Cons.prems(1) obtain a as where a: "args = a # as" "fits is as"
      by (cases args) (auto split: warg.splits)
    with fits_writable obtain r where r: "writef_void is as = Some r" by blast
    have "length bs \<le> 4194308 + length r"
      using Cons.prems Conv a r by (cases a) (auto simp: int_bytes_def)
    with Cons.IH [OF a(2) r] show ?thesis by simp
  qed
qed simp

lemma length_fmt_items: "length (fmt_items fmt) \<le> length fmt"
proof (induction fmt rule: fmt_items.induct)
  case (2 c cs)
  then show ?case using eatLength_shorter [of 0 cs] by (auto split: list.splits)
qed simp

text \<open>The measuring pass agrees with the writing pass, also behind a string.\<close>

lemma getLength_int_only:
  "int_only is \<Longrightarrow> fits is args \<Longrightarrow> writef_void is args = Some bs \<Longrightarrow>
   getLength is args' = Some (of_nat (length bs))"
  by (induction "is" args arbitrary: bs args' rule: fits.induct)
     (auto simp: int_only_def int_bytes_def split: list.splits warg.splits if_splits)

lemma getLength_written:
  "string_last is \<Longrightarrow> fits is args \<Longrightarrow> writef_void is args = Some bs \<Longrightarrow>
   getLength is args = Some (of_nat (length bs))"
  by (induction "is" args arbitrary: bs rule: fits.induct)
     (auto simp: int_bytes_def getLength_int_only split: list.splits warg.splits if_splits)

lemma writef_fits:
  assumes "string_last (fmt_items fmt)" "fits (fmt_items fmt) args" "length fmt < 1024"
    "writef_void (fmt_items fmt) args = Some bs"
  shows "writef fmt args = Some (if bs = [] then None else Some bs)"
proof -
  have "length bs < 2 ^ 32"
    using length_written [OF assms(2,4)] length_fmt_items [of fmt] assms(3) by simp
  then have u: "unat (of_nat (length bs) :: u32) = length bs" by (rule unat_of_nat_u32)
  then have "(of_nat (length bs) :: u32) = 0 \<longleftrightarrow> bs = []"
    unfolding unat_eq_0 [symmetric] u by simp
  with u show ?thesis
    using getLength_written [OF assms(1,2,4)] assms(4) by (simp add: writef_def)
qed

section \<open>The message formats of the protocol\<close>

text \<open>The messages of \<^verbatim>\<open>src/fork/lib/inputleap/protocol_types_extension.cpp\<close>.\<close>

definition fork_messages :: "string list" where
  "fork_messages = [''CDIM%1i'', ''DUNR'', ''CLCK%1i'']"

definition protocol_messages :: "string list" where
  "protocol_messages =
     [''Barrier%2i%2i'', ''Barrier%2i%2i%s'', ''CNOP'', ''CBYE'', ''CINN%2i%2i%4i%2i'', ''COUT'',
      ''CCLP%1i%4i'', ''CSEC%1i'', ''CROP'', ''CIAK'', ''CALV'',
      ''DKDN%2i%2i%2i'', ''DKDN%2i%2i'', ''DKRP%2i%2i%2i%2i'', ''DKRP%2i%2i%2i'',
      ''DKUP%2i%2i%2i'', ''DKUP%2i%2i'', ''DMDN%1i'', ''DMUP%1i'', ''DMMV%2i%2i'', ''DMRM%2i%2i'',
      ''DMWM%2i%2i'', ''DMWM%2i'', ''DCLP%1i%4i%1i%s'', ''DINF%2i%2i%2i%2i%2i%2i%2i'', ''DSOP%4I'',
      ''DFTR%1i%s'', ''DDRG%2i%s'', ''QINF'', ''EICV%2i%2i'', ''EBSY'', ''EUNK'', ''EBAD''] @ fork_messages"

lemma protocol_message_ok:
  "list_all (\<lambda>f. string_last (fmt_items f) \<and> readable (fmt_items f) \<and> length f < 1024) protocol_messages"
  by (simp add: protocol_messages_def fork_messages_def int_only_def readable_def digit_value_def)

section \<open>Streams\<close>

text \<open>
  What the scanner relies on: a stream with \<open>contents\<close> left delivers a non-empty prefix of them, no
  longer than asked for, and delivers nothing exactly when nothing is left.
\<close>

locale input_stream =
  fixes rd :: "'s reader"
    and contents :: "'s \<Rightarrow> bytes"
    and good :: "'s \<Rightarrow> bool"
  assumes rd: "good s \<Longrightarrow> n \<noteq> 0 \<Longrightarrow>
    \<exists>bs s'. rd n s = Some (bs, s') \<and> good s' \<and> contents s = bs @ contents s' \<and>
            length bs \<le> unat n \<and> (bs = [] \<longleftrightarrow> contents s = [])"
begin

lemma pu_read_ok:
  "good s \<Longrightarrow> unat count \<le> length (contents s) \<Longrightarrow>
   \<exists>s'. pu_read rd count s = Inr (take (unat count) (contents s), s') \<and> good s' \<and>
        contents s' = drop (unat count) (contents s)"
proof (induction "unat count" arbitrary: count s rule: less_induct)
  case less
  show ?case
  proof (cases "count = 0")
    case True
    then show ?thesis using less.prems by simp
  next
    case False
    then have pos: "0 < unat count" by (simp add: unat_gt_0)
    from rd [OF less.prems(1) False] obtain bs s1 where
      r: "rd count s = Some (bs, s1)" "good s1" "contents s = bs @ contents s1"
         "length bs \<le> unat count" "bs = [] \<longleftrightarrow> contents s = []"
      by blast
    have ne: "bs \<noteq> []" using r(5) less.prems(2) pos by auto
    have u: "unat (of_nat (length bs) :: u32) = length bs"
      using r(4) unat_u32_lt [of count] by (intro unat_of_nat_u32) simp
    have c: "unat (count - of_nat (length bs)) = unat count - length bs"
      using r(4) by (simp add: unat_sub word_le_nat_alt u)
    have lt: "unat (count - of_nat (length bs)) < unat count" using c ne pos by (cases bs) auto
    have "unat (count - of_nat (length bs)) \<le> length (contents s1)"
      using less.prems(2) r(3) c by simp
    from less.hyps [OF lt r(2) this] obtain s2 where
      "pu_read rd (count - of_nat (length bs)) s1 =
         Inr (take (unat count - length bs) (contents s1), s2)"
      "good s2" "contents s2 = drop (unat count - length bs) (contents s1)"
      unfolding c by blast
    then show ?thesis using r(3,4) pu_read_more [of count rd s bs s1, OF False r(1) ne r(4)] by simp
  qed
qed

text \<open>A stream that runs dry is reported as such, and nothing else.\<close>

lemma pu_read_eof:
  "good s \<Longrightarrow> length (contents s) < unat count \<Longrightarrow> pu_read rd count s = Inl XIOEndOfStream"
proof (induction "unat count" arbitrary: count s rule: less_induct)
  case less
  have nz: "count \<noteq> 0" using less.prems(2) by auto
  from rd [OF less.prems(1) nz] obtain bs s1 where
    r: "rd count s = Some (bs, s1)" "good s1" "contents s = bs @ contents s1"
       "length bs \<le> unat count" "bs = [] \<longleftrightarrow> contents s = []"
    by blast
  show ?case
  proof (cases "bs = []")
    case True
    then show ?thesis using r(1) by (intro pu_read_dry [OF nz]) simp
  next
    case False
    have u: "unat (of_nat (length bs) :: u32) = length bs"
      using r(4) unat_u32_lt [of count] by (intro unat_of_nat_u32) simp
    have c: "unat (count - of_nat (length bs)) = unat count - length bs"
      using r(4) by (simp add: unat_sub word_le_nat_alt u)
    then have "unat (count - of_nat (length bs)) < unat count"
      using False less.prems(2) by (cases bs) auto
    moreover have "length (contents s1) < unat (count - of_nat (length bs))"
      using less.prems(2) r(3) c by simp
    ultimately have
      "pu_read rd (count - of_nat (length bs)) s1 = Inl XIOEndOfStream"
      by (intro less.hyps [OF _ r(2)])
    then show ?thesis using pu_read_more [of count rd s bs s1, OF nz r(1) False r(4)] by simp
  qed
qed

lemma pu_read_prefix:
  assumes "good s" "contents s = bs @ rest" "length bs = unat n"
  shows "\<exists>s'. pu_read rd n s = Inr (bs, s') \<and> good s' \<and> contents s' = rest"
  using pu_read_ok [OF assms(1), of n] assms(2,3) by auto

lemma read_elems_ok:
  "good s \<Longrightarrow> contents s = concat es @ rest \<Longrightarrow> \<forall>e\<in>set es. length e = unat w \<Longrightarrow>
   \<exists>s'. read_elems rd w (length es) s = Inr (es, s') \<and> good s' \<and> contents s' = rest"
proof (induction es arbitrary: s)
  case Nil
  then show ?case by simp
next
  case (Cons e es)
  from pu_read_prefix [of s e "concat es @ rest" w] Cons.prems obtain s1 where
    1: "pu_read rd w s = Inr (e, s1)" "good s1" "contents s1 = concat es @ rest" by auto
  from Cons.IH [OF 1(2,3)] Cons.prems(3) obtain s2 where
    "read_elems rd w (length es) s1 = Inr (es, s2)" "good s2" "contents s2 = rest" by auto
  with 1 show ?case by simp
qed

lemma read_conv_int:
  assumes "good s" "contents s = bs @ rest" "int_bytes len v = Some bs"
  shows "\<exists>s'. read_conv rd len (Some CHR ''i'') s =
      Inr ([if len = 1 then RInt8 (ucast v) else if len = 2 then RInt16 (ucast v) else RInt32 v], s') \<and>
    good s' \<and> contents s' = rest"
proof -
  from pu_read_prefix [OF assms(1,2) length_int_bytes [OF assms(3)]] obtain s1 where
    "pu_read rd len s = Inr (bs, s1)" "good s1" "contents s1 = rest" by blast
  with assms(3) show ?thesis
    by (auto simp: read_conv_def int_bytes_def be16_hd_def be32_hd_def be_simps
        split: if_splits) (rule ucast_ff)
qed

text \<open>The length word in front of a vector or a string.\<close>

lemma pu_read_length:
  assumes "good s" "contents s = be32_split (of_nat n) @ rest" "n < 2 ^ 32"
  shows "\<exists>s' bs. pu_read rd 4 s = Inr (bs, s') \<and> be32_hd bs = of_nat n \<and> unat (be32_hd bs) = n \<and>
     good s' \<and> contents s' = rest"
  using pu_read_prefix [OF assms(1,2), of 4] assms(3) by (auto simp: unat_of_nat_u32)

lemma read_conv_vec:
  assumes "good s" "contents s = be32_split (of_nat (length es)) @ concat es @ rest"
    "\<forall>e\<in>set es. length e = unat len" "length es \<le> unat PROTOCOL_MAX_LIST_LENGTH"
    "len = 1 \<or> len = 2 \<or> len = 4"
  shows "\<exists>s'. read_conv rd len (Some CHR ''I'') s =
      Inr ([if len = 1 then RVec8 (map (\<lambda>e. e ! 0) es) else if len = 2 then RVec16 (map be16_hd es)
            else RVec32 (map be32_hd es)], s') \<and> good s' \<and> contents s' = rest"
proof -
  from pu_read_length [OF assms(1,2)] assms(4) obtain s1 bs where
    1: "pu_read rd 4 s = Inr (bs, s1)" "unat (be32_hd bs) = length es" "good s1"
       "contents s1 = concat es @ rest"
    by auto
  from read_elems_ok [OF 1(3,4) assms(3)] obtain s2 where
    "read_elems rd len (length es) s1 = Inr (es, s2)" "good s2" "contents s2 = rest" by blast
  moreover have "\<not> PROTOCOL_MAX_LIST_LENGTH < be32_hd bs"
    using 1(2) assms(4) by (simp add: word_less_nat_alt)
  ultimately show ?thesis using 1 assms(5) by (auto simp: read_conv_def Let_def)
qed

lemma read_conv_str:
  assumes "good s" "contents s = be32_split (of_nat (length xs)) @ xs @ rest"
    "length xs \<le> unat PROTOCOL_MAX_STRING_LENGTH"
  shows "\<exists>s'. read_conv rd 0 (Some CHR ''s'') s = Inr ([RStr xs], s') \<and> good s' \<and> contents s' = rest"
proof -
  from pu_read_length [OF assms(1,2)] assms(3) obtain s1 bs where
    1: "pu_read rd 4 s = Inr (bs, s1)" "unat (be32_hd bs) = length xs" "good s1"
       "contents s1 = xs @ rest"
    by auto
  from pu_read_prefix [OF 1(3,4), of "be32_hd bs"] 1(2) obtain s2 where
    "pu_read rd (be32_hd bs) s1 = Inr (xs, s2)" "good s2" "contents s2 = rest" by auto
  moreover have "\<not> PROTOCOL_MAX_STRING_LENGTH < be32_hd bs"
    using 1(2) assms(3) by (simp add: word_less_nat_alt)
  ultimately show ?thesis using 1 by (simp add: read_conv_def Let_def)
qed


lemma conv_written:
  assumes "fits (Conv len k # is) args" "writef_void (Conv len k # is) args = Some bs"
    "good s" "contents s = bs @ rest"
  shows "\<exists>as r vs s1. args = hd args # as \<and> fits is as \<and> writef_void is as = Some r \<and>
    read_conv rd len k s = Inr (vs, s1) \<and> good s1 \<and> contents s1 = r @ rest \<and>
    rvals (Conv len k # is) args = vs @ rvals is as"
proof -
  from assms(1) obtain a as where a: "args = a # as" by (cases args) auto
  show ?thesis
  proof (cases a)
    case (WInt v)
    then obtain b r where "int_bytes len v = Some b" "writef_void is as = Some r" "bs = b @ r"
      using assms a by (auto split: option.splits)
    with read_conv_int [of s b "r @ rest" len v] WInt assms a show ?thesis by auto
  next
    case (WVec8 xs)
    then obtain r where "writef_void is as = Some r" "bs = be32_split (of_nat (length xs)) @ xs @ r"
      using assms a by auto
    with read_conv_vec [of s "map (\<lambda>x. [x]) xs" "r @ rest" 1] WVec8 assms a show ?thesis
      by (auto simp: comp_def)
  next
    case (WVec16 xs)
    then obtain r where "writef_void is as = Some r"
      "bs = be32_split (of_nat (length xs)) @ concat (map be16_split xs) @ r"
      using assms a by auto
    with read_conv_vec [of s "map be16_split xs" "r @ rest" 2] WVec16 assms a show ?thesis
      by (auto simp: comp_def)
  next
    case (WVec32 xs)
    then obtain r where "writef_void is as = Some r"
      "bs = be32_split (of_nat (length xs)) @ concat (map be32_split xs) @ r"
      using assms a by auto
    with read_conv_vec [of s "map be32_split xs" "r @ rest" 4] WVec32 assms a show ?thesis
      by (auto simp: comp_def)
  next
    case (WStr xs)
    then obtain r where "writef_void is as = Some r" "bs = be32_split (of_nat (length xs)) @ xs @ r"
      using assms a by auto
    with read_conv_str [of s xs "r @ rest"] WStr assms a show ?thesis by auto
  qed (use assms a in auto)
qed

text \<open>What the writing pass fills the buffer with, the scanner takes apart again.\<close>

lemma vreadf_written:
  "fits is args \<Longrightarrow> writef_void is args = Some bs \<Longrightarrow> good s \<Longrightarrow> contents s = bs @ rest \<Longrightarrow>
   \<exists>s'. vreadf rd is s = Inr (rvals is args, s') \<and> good s' \<and> contents s' = rest"
proof (induction "is" arbitrary: args bs s)
  case Nil
  then show ?case by simp
next
  case (Cons i "is")
  show ?case
  proof (cases i)
    case (Lit c)
    with Cons.prems obtain r where r: "writef_void is args = Some r" "bs = of_char c # r" by auto
    from pu_read_prefix [of s "[of_char c]" "r @ rest" 1] Cons.prems r obtain s1 where
      "pu_read rd 1 s = Inr ([of_char c], s1)" "good s1" "contents s1 = r @ rest" by auto
    with Cons r Lit show ?thesis by auto
  next
    case (Conv len k)
    from conv_written [of len k "is" args bs s rest] Cons.prems Conv obtain as r vs s1 where
      1: "fits is as" "writef_void is as = Some r" "read_conv rd len k s = Inr (vs, s1)" "good s1"
         "contents s1 = r @ rest" "rvals (Conv len k # is) args = vs @ rvals is as"
      by auto
    from Cons.IH [OF 1(1,2,4,5)] 1 Conv show ?thesis by auto
  qed
qed

lemma readf_writef:
  assumes "fits (fmt_items fmt) args" "writef fmt args = Some (Some bs)"
    "good s" "contents s = bs @ rest"
  shows "\<exists>s'. readf rd fmt s = Inr (Some (rvals (fmt_items fmt) args, s')) \<and> good s' \<and> contents s' = rest"
  using vreadf_written [of "fmt_items fmt" args bs s rest] assms
  by (auto simp: readf_def writef_def split: option.splits if_splits)

text \<open>
  On any input at all: a conversion either delivers a value of its type, or the stream ran dry, or
  the length word in front of a vector or a string is over the limit.
\<close>

lemma pu_read_cases:
  assumes "good s"
  shows "pu_read rd n s = Inl XIOEndOfStream \<or>
    (\<exists>bs s'. pu_read rd n s = Inr (bs, s') \<and> good s' \<and> length bs = unat n)"
  using pu_read_ok [OF assms, of n] pu_read_eof [OF assms, of n]
  by (cases "unat n \<le> length (contents s)") auto

lemma read_elems_cases:
  "good s \<Longrightarrow> read_elems rd w n s = Inl XIOEndOfStream \<or>
    (\<exists>es s'. read_elems rd w n s = Inr (es, s') \<and> good s' \<and> length es = n)"
proof (induction n arbitrary: s)
  case (Suc n)
  from pu_read_cases [OF Suc.prems, of w] show ?case
  proof (elim disjE exE conjE)
    fix bs s' assume "pu_read rd w s = Inr (bs, s')" "good s'"
    with Suc.IH [of s'] show ?thesis by auto
  qed simp
qed simp

lemma read_conv_cases:
  assumes "good s" "readable (Conv len k # is)"
  shows "read_conv rd len k s = Inl XIOEndOfStream \<or> read_conv rd len k s = Inl XBadClient \<or>
    (\<exists>v s'. read_conv rd len k s = Inr ([v], s') \<and> good s' \<and> typed [Conv len k] [v])"
proof -
  from assms(2) consider "k = Some CHR ''i''" "len = 1 \<or> len = 2 \<or> len = 4"
    | "k = Some CHR ''I''" "len = 1 \<or> len = 2 \<or> len = 4" | "k = Some CHR ''s''" "len = 0"
    by (auto simp: readable_def)
  then show ?thesis
  proof cases
    case 1
    with pu_read_cases [OF assms(1), of len] show ?thesis by (auto simp: read_conv_def)
  next
    case 2
    from pu_read_cases [OF assms(1), of 4] show ?thesis
    proof (elim disjE exE conjE)
      fix bs s1 assume r: "pu_read rd 4 s = Inr (bs, s1)" "good s1"
      with read_elems_cases [OF r(2), of len "unat (be32_hd bs)"] 2 show ?thesis
        by (auto simp: read_conv_def Let_def not_less word_le_nat_alt)
    qed (use 2 in \<open>auto simp: read_conv_def\<close>)
  next
    case 3
    from pu_read_cases [OF assms(1), of 4] show ?thesis
    proof (elim disjE exE conjE)
      fix bs s1 assume r: "pu_read rd 4 s = Inr (bs, s1)" "good s1"
      with pu_read_cases [OF r(2), of "be32_hd bs"] 3 show ?thesis
        by (auto simp: read_conv_def Let_def not_less word_le_nat_alt)
    qed (use 3 in \<open>auto simp: read_conv_def\<close>)
  qed
qed

lemma typed_Cons: "typed [Conv len k] [v] \<Longrightarrow> typed is ws \<Longrightarrow> typed (Conv len k # is) (v # ws)"
  by (cases v) auto

lemma vreadf_cases:
  "readable is \<Longrightarrow> good s \<Longrightarrow>
   (\<exists>e\<in>{XIOEndOfStream, XIOReadMismatch, XBadClient}. vreadf rd is s = Inl e) \<or>
   (\<exists>vs s'. vreadf rd is s = Inr (vs, s') \<and> good s' \<and> typed is vs)"
proof (induction "is" arbitrary: s)
  case (Cons i "is")
  have rdb: "readable is" using Cons.prems by (simp add: readable_def)
  show ?case
  proof (cases i)
    case (Lit c)
    with pu_read_cases [OF Cons.prems(2), of 1] Cons.IH [OF rdb] show ?thesis by fastforce
  next
    case (Conv len k)
    with Cons.prems have "readable (Conv len k # is)" by simp
    from read_conv_cases [OF Cons.prems(2) this] show ?thesis
    proof (elim disjE exE conjE)
      fix v s1 assume r: "read_conv rd len k s = Inr ([v], s1)" "good s1" "typed [Conv len k] [v]"
      from Cons.IH [OF rdb r(2)] r(1) typed_Cons [OF r(3)] Conv show ?thesis by force
    qed (use Conv in auto)
  qed
qed simp

lemma readf_cases:
  assumes "readable (fmt_items fmt)" "good s"
  shows "readf rd fmt s = Inl XBadClient \<or> readf rd fmt s = Inr None \<or>
    (\<exists>vs s'. readf rd fmt s = Inr (Some (vs, s')) \<and> good s' \<and> typed (fmt_items fmt) vs)"
  using vreadf_cases [OF assms] by (auto simp: readf_def)

end

end
