(* ===== verification/MessageChannel.thy ===== *)
theory MessageChannel
  imports PacketStreamFilter ProtocolUtil
begin

text \<open>
  Protocol messages over packets: \<open>ProtocolUtil::writef\<close> on the sending \<open>PacketStreamFilter\<close>
  and \<open>ProtocolUtil::readf\<close> on the receiving one. The filter is shown to be an \<open>input_stream\<close>,
  so everything proved about the scanner in that locale applies to it.
\<close>

section \<open>The filter as an input stream\<close>

definition psf_reader :: "psf reader" where
  "psf_reader n s = map_option (\<lambda>(k, bs, s'). (bs, s')) (psf_read True n s)"

text \<open>The payload of the complete packets in a buffer, \<open>n\<close> bytes of the first still unread.\<close>

function payload :: "u32 \<Rightarrow> bytes \<Rightarrow> bytes" where
  "payload n d =
     (if n = 0 then if 4 \<le> length d then payload (be32_hd d) (drop 4 d) else []
      else if unat n \<le> length d then take (unat n) d @ payload 0 (drop (unat n) d) else [])"
  by pat_completeness auto
termination
proof (relation "measure (\<lambda>(n, d). length d)", goal_cases)
  case (3 n d)
  then have "0 < unat n" by (simp add: unat_gt_0)
  with 3 show ?case by simp
qed auto

declare payload.simps [simp del]

definition psf_contents :: "psf \<Rightarrow> bytes" where
  "psf_contents s = payload (psf_size s) (sb_data (psf_buffer s))"

definition psf_good :: "psf \<Rightarrow> bool" where
  "psf_good s \<longleftrightarrow> (\<exists>qs m. psf_tracks s qs m)"

fun within :: "nat \<Rightarrow> bytes list \<Rightarrow> bytes" where
  "within L [] = []"
| "within L (q # qs) = (if 4 + length q \<le> L then q @ within (L - 4 - length q) qs else [])"

lemma payload_within_0:
  "packets_ok qs \<Longrightarrow> d @ m = concat (map frame qs) \<Longrightarrow> payload 0 d = within (length d) qs"
proof (induction qs arbitrary: d)
  case Nil
  then show ?case by (simp add: payload.simps)
next
  case (Cons q qs)
  show ?case
  proof (cases "4 \<le> length d")
    case False
    then show ?thesis by (simp add: payload.simps)
  next
    case True
    from frames_head [OF Cons.prems(2) True] have
      h: "be32_hd d = of_nat (length q)" "drop 4 d @ m = q @ concat (map frame qs)" by auto
    note len = packet_length_u32 [OF Cons.prems(1)]
    have p: "payload 0 d = payload (of_nat (length q)) (drop 4 d)"
      using True h by (subst payload.simps) simp
    show ?thesis
    proof (cases "4 + length q \<le> length d")
      case False
      with True p len show ?thesis by (subst p, subst payload.simps) auto
    next
      case True
      then have d: "take (length q) (drop 4 d) = q" "drop (length q) (drop 4 d) @ m = concat (map frame qs)"
        using arg_cong [OF h(2), of "take (length q)"] arg_cong [OF h(2), of "drop (length q)"] by auto
      have "payload 0 d = q @ payload 0 (drop (length q) (drop 4 d))"
        using True len d(1) by (subst p, subst payload.simps) auto
      with Cons.IH [OF _ d(2)] Cons.prems(1) True show ?thesis by (simp add: add.commute)
    qed
  qed
qed

lemma psf_contents_within:
  assumes "psf_tracks s qs m"
  shows "psf_contents s = within (length (psf_view s)) qs"
proof -
  have ok: "packets_ok qs" and v: "psf_view s @ m = concat (map frame qs)"
    using assms by (auto simp: psf_tracks_def)
  have "psf_contents s = payload 0 (psf_view s)"
  proof (cases "psf_size s = 0")
    case True
    then show ?thesis by (simp add: psf_contents_def psf_view_def)
  next
    case False
    then show ?thesis by (subst payload.simps) (simp add: psf_contents_def psf_view_def)
  qed
  with payload_within_0 [OF ok v] show ?thesis by simp
qed

lemma psf_ready_iff_contents:
  assumes "psf_tracks s qs m"
  shows "psf_isReadyNoLock s \<longleftrightarrow> psf_contents s \<noteq> []"
proof
  assume r: "psf_isReadyNoLock s"
  from psf_ready_head [OF assms r] obtain q qs' rest where
    "qs = q # qs'" "sb_data (psf_buffer s) = q @ rest" by blast
  moreover from this assms have "q \<noteq> []" by (simp add: psf_tracks_def)
  ultimately show "psf_contents s \<noteq> []"
    using r by (simp add: psf_contents_within [OF assms] psf_view_def psf_isReadyNoLock_def)
next
  assume c: "psf_contents s \<noteq> []"
  have inv: "sb_inv (psf_buffer s)" using assms by (simp add: psf_tracks_def)
  have "psf_size s \<noteq> 0"
    using c assms by (auto simp: psf_contents_def payload.simps psf_tracks_def)
  with c sbuf.size_le_iff [OF inv, of "psf_size s"] show "psf_isReadyNoLock s"
    by (auto simp: psf_contents_def payload.simps psf_isReadyNoLock_def split: if_splits)
qed

lemma psf_view_length:
  "psf_tracks s qs m \<Longrightarrow> length (psf_view s) + length m = length (concat (map frame qs))"
  unfolding psf_tracks_def by (metis length_append)

lemma psf_reader_ok:
  assumes "psf_good s" "n \<noteq> 0"
  shows "\<exists>bs s'. psf_reader n s = Some (bs, s') \<and> psf_good s' \<and>
    psf_contents s = bs @ psf_contents s' \<and> length bs \<le> unat n \<and> (bs = [] \<longleftrightarrow> psf_contents s = [])"
proof -
  from assms(1) obtain qs m where t: "psf_tracks s qs m" by (auto simp: psf_good_def)
  show ?thesis
  proof (cases "psf_isReadyNoLock s")
    case False
    then show ?thesis using psf_ready_iff_contents [OF t] assms
      by (simp add: psf_reader_def psf_read_def)
  next
    case True
    from psf_ready_head [OF t True] obtain q qs' where qs: "qs = q # qs'" by blast
    from psf_read_tracks [OF t [unfolded qs] True assms(2)] obtain b z where
      t': "psf_tracks (s\<lparr>psf_buffer := b, psf_size := z\<rparr>) (take_packets (unat n) (q # qs')) m" and
      r: "psf_read True n s = Some (of_nat (min (unat n) (length q)), take (unat n) q,
        if psf_inputShutdown s \<and> z = 0
        then psf_add_event STREAM_INPUT_SHUTDOWN (s\<lparr>psf_buffer := b, psf_size := z\<rparr>)
        else s\<lparr>psf_buffer := b, psf_size := z\<rparr>)" (is "_ = Some (_, _, ?s')")
      by blast
    let ?s0 = "s\<lparr>psf_buffer := b, psf_size := z\<rparr>"
    have same: "psf_tracks ?s' = psf_tracks ?s0" "psf_contents ?s' = psf_contents ?s0"
      by (auto simp: psf_tracks_def psf_view_def psf_contents_def psf_add_event_def fun_eq_iff)
    have ne: "q \<noteq> []" "0 < unat n" using t qs assms(2) by (auto simp: psf_tracks_def unat_gt_0)
    have L: "4 + length q \<le> length (psf_view s)"
      using psf_ready_iff_contents [OF t] True psf_contents_within [OF t] qs by (auto split: if_splits)
    have vl: "length (psf_view ?s0) = length (psf_view s) - (if length q \<le> unat n then 4 + length q else unat n)"
      using psf_view_length [OF t] psf_view_length [OF t'] L by (auto simp: qs frame_def)
    have "psf_contents s = take (unat n) q @ psf_contents ?s0"
      using L unfolding psf_contents_within [OF t] psf_contents_within [OF t'] vl qs by auto
    then show ?thesis
      using r t' same ne psf_ready_iff_contents [OF t] True
      by (auto simp: psf_reader_def psf_good_def)
  qed
qed

interpretation psf_in: input_stream psf_reader psf_contents psf_good
  by unfold_locales (rule psf_reader_ok)

section \<open>Messages over packets\<close>

text \<open>\<open>ProtocolUtil::writef\<close> on a filter: one message becomes one packet.\<close>

fun send_message :: "string \<times> warg list \<Rightarrow> psf \<Rightarrow> psf option" where
  "send_message (fmt, args) s =
     (case writef fmt args of
        None \<Rightarrow> None
      | Some None \<Rightarrow> Some s
      | Some (Some bs) \<Rightarrow> Some (psf_write bs s))"

fun send_messages :: "(string \<times> warg list) list \<Rightarrow> psf \<Rightarrow> psf option" where
  "send_messages [] s = Some s"
| "send_messages (m # ms) s = Option.bind (send_message m s) (send_messages ms)"

text \<open>The peer reads one message after the other; a \<open>false\<close> of \<open>readf\<close> ends it.\<close>

fun recv_messages :: "string list \<Rightarrow> psf \<Rightarrow> io_error + (rval list list \<times> psf) option" where
  "recv_messages [] s = Inr (Some ([], s))"
| "recv_messages (f # fs) s =
     (case readf psf_reader f s of
        Inl e \<Rightarrow> Inl e
      | Inr None \<Rightarrow> Inr None
      | Inr (Some (vs, s1)) \<Rightarrow>
          (case recv_messages fs s1 of
             Inr (Some (vss, s2)) \<Rightarrow> Inr (Some (vs # vss, s2))
           | r \<Rightarrow> r))"

text \<open>A message of the protocol, with arguments its format can carry within one packet.\<close>

fun message_bytes :: "string \<times> warg list \<Rightarrow> bytes" where
  "message_bytes (fmt, args) = (case writef_void (fmt_items fmt) args of None \<Rightarrow> [] | Some bs \<Rightarrow> bs)"

fun message_ok :: "string \<times> warg list \<Rightarrow> bool" where
  "message_ok (fmt, args) \<longleftrightarrow>
     fmt \<in> set protocol_messages \<and> fits (fmt_items fmt) args \<and>
     length (message_bytes (fmt, args)) \<le> unat PROTOCOL_MAX_MESSAGE_LENGTH"

lemma protocol_message_nonempty:
  "fmt \<in> set protocol_messages \<Longrightarrow> \<exists>c is. fmt_items fmt = Lit c # is"
  by (auto simp: protocol_messages_def fork_messages_def digit_value_def)

lemma message_written:
  assumes "message_ok (fmt, args)"
  shows "writef fmt args = Some (Some (message_bytes (fmt, args)))" "message_bytes (fmt, args) \<noteq> []"
proof -
  from assms have f: "string_last (fmt_items fmt)" "length fmt < 1024"
    using protocol_message_ok by (auto simp: list_all_iff)
  from assms fits_writable obtain bs where bs: "writef_void (fmt_items fmt) args = Some bs" by auto
  moreover have ne: "bs \<noteq> []"
    using protocol_message_nonempty [of fmt] assms bs by auto
  ultimately show "writef fmt args = Some (Some (message_bytes (fmt, args)))" "message_bytes (fmt, args) \<noteq> []"
    using writef_fits [OF f(1) _ f(2) bs] assms by auto
qed

lemma message_packet:
  "message_ok m \<Longrightarrow> message_bytes m \<noteq> [] \<and> length (message_bytes m) \<le> unat PROTOCOL_MAX_MESSAGE_LENGTH"
  using message_written(2) by (cases m) auto

lemma send_messages_out:
  "list_all message_ok ms \<Longrightarrow>
   \<exists>s'. send_messages ms s = Some s' \<and>
        st_out s' = st_out s @ concat (map frame (map message_bytes ms))"
proof (induction ms arbitrary: s)
  case (Cons m ms)
  obtain fmt args where m: "m = (fmt, args)" by (cases m)
  have "message_ok (fmt, args)" using Cons.prems m by simp
  note w = message_written [OF this]
  have "send_message m s = Some (psf_write (message_bytes m) s)" using w m by simp
  moreover from Cons.IH [of "psf_write (message_bytes m) s"] Cons.prems obtain s' where
    "send_messages ms (psf_write (message_bytes m) s) = Some s'"
    "st_out s' = st_out s @ frame (message_bytes m) @ concat (map frame (map message_bytes ms))"
    by (auto simp: psf_write_frame)
  ultimately show ?case by simp
qed simp

lemma recv_messages_contents:
  "list_all message_ok ms \<Longrightarrow> psf_good s \<Longrightarrow> psf_contents s = concat (map message_bytes ms) @ rest \<Longrightarrow>
   \<exists>s'. recv_messages (map fst ms) s =
          Inr (Some (map (\<lambda>(fmt, args). rvals (fmt_items fmt) args) ms, s')) \<and>
        psf_good s' \<and> psf_contents s' = rest"
proof (induction ms arbitrary: s)
  case (Cons m ms)
  obtain fmt args where m: "m = (fmt, args)" by (cases m)
  have ok: "message_ok (fmt, args)" using Cons.prems m by simp
  from psf_in.readf_writef [OF _ message_written(1) [OF ok] Cons.prems(2), of "concat (map message_bytes ms) @ rest"]
    ok Cons.prems(3) m obtain s1 where
    1: "readf psf_reader fmt s = Inr (Some (rvals (fmt_items fmt) args, s1))" "psf_good s1"
       "psf_contents s1 = concat (map message_bytes ms) @ rest"
    by auto
  from Cons.IH [OF _ 1(2,3)] Cons.prems(1) 1(1) m show ?case by auto
qed simp

text \<open>What is deliverable in a filter that has taken in all of the frames of \<open>qs\<close>.\<close>

lemma within_all: "length (concat (map frame qs)) \<le> L \<Longrightarrow> within L qs = concat qs"
  by (induction qs arbitrary: L) (auto simp: frame_def)

lemma psf_contents_all:
  assumes "psf_tracks s qs []"
  shows "psf_contents s = concat qs"
  using psf_contents_within [OF assms] psf_view_length [OF assms] by (simp add: within_all)

lemma recv_after_run:
  assumes "list_all message_ok ms"
    and "psf_run acts r" and "st_in r = []" and "received acts = []"
    and "send_messages ms psf_new = Some s" and "arrived acts = st_out s"
    and "length (st_out s) < 2 ^ 32"
  shows "\<exists>r'. recv_messages (map fst ms) r =
      Inr (Some (map (\<lambda>(fmt, args). rvals (fmt_items fmt) args) ms, r')) \<and> psf_contents r' = []"
proof -
  have out: "st_out s = concat (map frame (map message_bytes ms))"
    using send_messages_out [OF assms(1), of psf_new] assms(5) by (auto simp: psf_new_def)
  have ok: "packets_ok (map message_bytes ms)"
    using assms(1) message_packet unfolding packets_ok_def list_all_iff by auto
  from psf_run_invariant [OF assms(2), of "[]" "map message_bytes ms"] ok assms out
  have "psf_run_inv r [] (map message_bytes ms) []" by simp
  then obtain qs where "psf_tracks r qs []" "concat qs = concat (map message_bytes ms)"
    using assms(3) by (auto simp: psf_run_inv_def)
  then have "psf_good r" "psf_contents r = concat (map message_bytes ms) @ []"
    using psf_contents_all by (auto simp: psf_good_def)
  from recv_messages_contents [OF assms(1) this] show ?thesis by blast
qed

text \<open>
  C2. Messages survive the wire. Any sequence of protocol messages that one side writes with
  \<open>writef\<close> through its packet filter, cut into segments and announced to the other side in any
  way, is read back there by the matching sequence of \<open>readf\<close> calls: every call succeeds, every
  value is the one written (integers truncated to the width of their conversion), and nothing is
  left over.
\<close>

theorem messages_survive_wire:
  assumes "list_all message_ok ms"
    and "psf_run acts r" and "st_in r = []" and "received acts = []"
    and "send_messages ms psf_new = Some s" and "arrived acts = st_out s"
    and "length (st_out s) < 2 ^ 32"
  shows "\<exists>r'. recv_messages (map fst ms) r =
      Inr (Some (map (\<lambda>(fmt, args). rvals (fmt_items fmt) args) ms, r')) \<and> psf_contents r' = []"
  by (rule recv_after_run [OF assms])

text \<open>
  C14. The scanner is safe on whatever the peer puts into its packets. At any point of a run over
  well-framed packets of arbitrary content, reading any message format of the protocol ends in
  one of three ways: \<open>XBadClient\<close> (a length word over the limit), \<open>false\<close> (the input is no such
  message, or not all of it has come), or values of exactly the conversions' types with vectors
  and strings within their limits. No assertion fails and no buffer is overrun.
\<close>

theorem readf_safe:
  assumes "psf_run acts r" and "arrived acts @ future = concat (map frame ps)"
    and "packets_ok ps" and "length (concat (map frame ps)) < 2 ^ 32"
    and "fmt \<in> set protocol_messages"
  shows "readf psf_reader fmt r = Inl XBadClient \<or> readf psf_reader fmt r = Inr None \<or>
    (\<exists>vs r'. readf psf_reader fmt r = Inr (Some (vs, r')) \<and> typed (fmt_items fmt) vs)"
proof -
  from psf_run_invariant [OF assms(1-4)] have "psf_good r"
    by (auto simp: psf_run_inv_def psf_good_def)
  moreover have "readable (fmt_items fmt)"
    using assms(5) protocol_message_ok by (simp add: list_all_iff)
  ultimately show ?thesis using psf_in.readf_cases by blast
qed

text \<open>Witnesses: a no-op and a mouse motion, sent as one segment.\<close>

definition demo_messages :: "(string \<times> warg list) list" where
  "demo_messages = [(''CNOP'', []), (''DMMV%2i%2i'', [WInt 5, WInt 0x10007])]"

definition demo_wire :: bytes where
  "demo_wire = concat (map frame (map message_bytes demo_messages))"

definition demo_receiver :: psf where
  "demo_receiver = psf_new\<lparr>psf_size := 4, psf_dispatched := [STREAM_INPUT_READY],
     psf_buffer := \<lparr>sb_chunks = [demo_wire], sb_size = 16, sb_headUsed = 4\<rparr>\<rparr>"

lemma demo_received:
  "psf_filterEvent STREAM_INPUT_READY (psf_new\<lparr>st_in := st_in psf_new @ demo_wire\<rparr>) = Some demo_receiver"
  by code_simp

lemma demo_run: "psf_run [Arrive demo_wire, Notify] demo_receiver"
  using psf_run.step [OF psf_run.step [OF psf_run.start psf_step.arrive]
      psf_step.announced [OF demo_received]]
  by simp

theorem messages_survive_wire_witness:
  "\<exists>r'. recv_messages [''CNOP'', ''DMMV%2i%2i''] demo_receiver =
      Inr (Some ([[], [RInt16 5, RInt16 7]], r')) \<and> psf_contents r' = []"
proof -
  have ok: "list_all message_ok demo_messages"
    by (simp add: demo_messages_def protocol_messages_def fork_messages_def int_bytes_def digit_value_def)
  have sent: "send_messages demo_messages psf_new = Some (psf_new\<lparr>st_out := demo_wire\<rparr>)" by code_simp
  have small: "length (st_out (psf_new\<lparr>st_out := demo_wire\<rparr>)) < 2 ^ 32"
    by (simp add: demo_wire_def demo_messages_def frame_def int_bytes_def digit_value_def)
  have vals: "map (\<lambda>(fmt, args). rvals (fmt_items fmt) args) demo_messages = [[], [RInt16 5, RInt16 7]]"
    "map fst demo_messages = [''CNOP'', ''DMMV%2i%2i'']"
    by code_simp+
  show ?thesis
    using messages_survive_wire [OF ok demo_run _ _ sent _ small] vals
    by (simp add: demo_receiver_def psf_new_def)
qed

theorem readf_safe_witness:
  "readf psf_reader ''DMMV%2i%2i'' demo_receiver = Inr None \<and>
   (readf psf_reader ''DMMV%2i%2i'' demo_receiver = Inl XBadClient \<or>
    readf psf_reader ''DMMV%2i%2i'' demo_receiver = Inr None \<or>
    (\<exists>vs r'. readf psf_reader ''DMMV%2i%2i'' demo_receiver = Inr (Some (vs, r')) \<and>
       typed (fmt_items ''DMMV%2i%2i'') vs))"
proof
  show "readf psf_reader ''DMMV%2i%2i'' demo_receiver = Inr None" by code_simp
  have "packets_ok (map message_bytes demo_messages)"
    "length (concat (map frame (map message_bytes demo_messages))) < 2 ^ 32"
    by (simp_all add: demo_messages_def frame_def int_bytes_def digit_value_def)
  then show "readf psf_reader ''DMMV%2i%2i'' demo_receiver = Inl XBadClient \<or>
    readf psf_reader ''DMMV%2i%2i'' demo_receiver = Inr None \<or>
    (\<exists>vs r'. readf psf_reader ''DMMV%2i%2i'' demo_receiver = Inr (Some (vs, r')) \<and>
       typed (fmt_items ''DMMV%2i%2i'') vs)"
    by (intro readf_safe [OF demo_run, of "[]" "map message_bytes demo_messages"])
       (simp_all add: demo_wire_def protocol_messages_def fork_messages_def)
qed

end
