(* ===== verification/ChunkTransfer.thy ===== *)
theory ChunkTransfer
  imports MessageChannel
begin

text \<open>
  Transfer of clipboards and files in chunks: the senders of
  \<^verbatim>\<open>src/lib/inputleap/StreamChunker.cpp\<close>, the chunk constructors and the reassembly of
  \<^verbatim>\<open>src/lib/inputleap/ClipboardChunk.cpp\<close> and \<^verbatim>\<open>src/lib/inputleap/FileChunk.cpp\<close>, and the decimal
  conversions of \<^verbatim>\<open>src/lib/base/String.cpp\<close> they use for the declared size. Lengths of strings
  held in memory are natural numbers; declared sizes are 64 bit words.
\<close>

section \<open>Decimal sizes\<close>

function decimal :: "nat \<Rightarrow> bytes" where
  "decimal n = (if n < 10 then [48 + of_nat n] else decimal (n div 10) @ [48 + of_nat (n mod 10)])"
  by pat_completeness auto
termination by (relation "measure id") auto

declare decimal.simps [simp del]

text \<open>\<open>std::to_string\<close> and \<open>sizeTypeToString\<close>.\<close>

definition to_string :: "size_t \<Rightarrow> bytes" where
  "to_string n = decimal (unat n)"

definition is_space :: "u8 \<Rightarrow> bool" where
  "is_space c \<longleftrightarrow> c = 32 \<or> 9 \<le> c \<and> c \<le> 13"

definition is_digit :: "u8 \<Rightarrow> bool" where
  "is_digit c \<longleftrightarrow> 48 \<le> c \<and> c \<le> 57"

fun digits_value :: "nat \<Rightarrow> bytes \<Rightarrow> nat" where
  "digits_value acc [] = acc"
| "digits_value acc (c # cs) = digits_value (10 * acc + (unat c - 48)) cs"

text \<open>
  \<open>stringToSizeType\<close> is formatted input of a \<open>size_t\<close> from a string stream: white space is
  skipped, a sign is taken, then decimal digits. Without digits the value is 0, out of range it
  is the largest value, and a negative number is negated modulo \<open>2^64\<close>.
\<close>

definition stringToSizeType :: "bytes \<Rightarrow> size_t" where
  "stringToSizeType str =
     (let s = dropWhile is_space str;
          neg = (s \<noteq> [] \<and> hd s = 45);
          t = (if s \<noteq> [] \<and> (hd s = 45 \<or> hd s = 43) then tl s else s);
          v = digits_value 0 (takeWhile is_digit t)
      in if 2 ^ 64 \<le> v then - 1 else if neg then - of_nat v else of_nat v)"

lemma digits_value_append: "digits_value acc (xs @ ys) = digits_value (digits_value acc xs) ys"
  by (induction acc xs rule: digits_value.induct) auto

lemma digit_byte: "d < 10 \<Longrightarrow> unat (48 + of_nat d :: u8) = 48 + d"
  by (simp add: unat_word_ariths unat_of_nat)

lemma decimal_digits: "c \<in> set (decimal n) \<Longrightarrow> is_digit c"
  by (induction n rule: decimal.induct)
     (subst (asm) (2) decimal.simps, auto simp: is_digit_def word_le_nat_alt digit_byte split: if_splits)

lemma digits_value_decimal: "digits_value 0 (decimal n) = n"
proof (induction n rule: decimal.induct)
  case (1 n)
  show ?case
    by (subst decimal.simps) (use 1 in \<open>auto simp: digits_value_append digit_byte\<close>)
qed

lemma decimal_nonempty: "decimal n \<noteq> []"
  by (subst decimal.simps) simp

lemma size_roundtrip: "stringToSizeType (to_string n) = n"
proof -
  let ?d = "decimal (unat n)"
  have d: "\<And>c. c \<in> set ?d \<Longrightarrow> is_digit c" by (rule decimal_digits)
  then have h: "is_digit (hd ?d)" using decimal_nonempty by (metis hd_in_set)
  then have "\<not> is_space (hd ?d)" "hd ?d \<noteq> 45" "hd ?d \<noteq> 43"
    by (auto simp: is_digit_def is_space_def word_le_nat_alt)
  moreover from this have "dropWhile is_space ?d = ?d" by (cases ?d) auto
  moreover have tw: "takeWhile is_digit ?d = ?d" using d by (auto simp: takeWhile_eq_all_conv)
  moreover have "unat n < 2 ^ 64" using unsigned_less [of n] by simp
  ultimately show ?thesis
    by (simp add: stringToSizeType_def to_string_def digits_value_decimal Let_def tw)
qed

section \<open>Chunks\<close>

definition kDataStart :: u8 where "kDataStart = 1"
definition kDataChunk :: u8 where "kDataChunk = 2"
definition kDataEnd :: u8 where "kDataEnd = 3"

lemma kData_distinct [simp]:
  "kDataStart \<noteq> kDataChunk" "kDataChunk \<noteq> kDataStart" "kDataStart \<noteq> kDataEnd"
  "kDataEnd \<noteq> kDataStart" "kDataChunk \<noteq> kDataEnd" "kDataEnd \<noteq> kDataChunk"
  by (simp_all add: kDataStart_def kDataChunk_def kDataEnd_def)

record clip_chunk =
  cc_id :: u8
  cc_sequence :: u32
  cc_mark :: u8
  cc_data :: bytes

definition clip_start :: "u8 \<Rightarrow> u32 \<Rightarrow> size_t \<Rightarrow> clip_chunk" where
  "clip_start cid sequence sz = \<lparr>cc_id = cid, cc_sequence = sequence, cc_mark = kDataStart, cc_data = to_string sz\<rparr>"

definition clip_data :: "u8 \<Rightarrow> u32 \<Rightarrow> bytes \<Rightarrow> clip_chunk" where
  "clip_data cid sequence data = \<lparr>cc_id = cid, cc_sequence = sequence, cc_mark = kDataChunk, cc_data = data\<rparr>"

definition clip_end :: "u8 \<Rightarrow> u32 \<Rightarrow> clip_chunk" where
  "clip_end cid sequence = \<lparr>cc_id = cid, cc_sequence = sequence, cc_mark = kDataEnd, cc_data = []\<rparr>"

record file_chunk =
  fc_mark :: u8
  fc_data :: bytes

definition file_start :: "size_t \<Rightarrow> file_chunk" where
  "file_start sz = \<lparr>fc_mark = kDataStart, fc_data = to_string sz\<rparr>"

definition file_data :: "bytes \<Rightarrow> file_chunk" where
  "file_data data = \<lparr>fc_mark = kDataChunk, fc_data = data\<rparr>"

definition file_end :: file_chunk where
  "file_end = \<lparr>fc_mark = kDataEnd, fc_data = []\<rparr>"

section \<open>Reassembly\<close>

datatype assemble_result = kStart | kNotFinish | kFinish | kError | kOversize

definition kClipboardEnd :: u8 where "kClipboardEnd = 2"

record clip_assembly =
  expected_size :: size_t
  active :: bool
  oversize :: bool

definition clip_assembly_init :: clip_assembly where
  "clip_assembly_init = \<lparr>expected_size = 0, active = False, oversize = False\<rparr>"

text \<open>
  \<open>ClipboardChunk::assemble\<close> behind the \<open>readf\<close>: the message read (\<open>None\<close> when \<open>readf\<close> returned
  false), the cached data and the state. \<open>reset\<close> gives back the initial state and no data.
\<close>

fun clip_assemble_message ::
    "size_t \<Rightarrow> clip_chunk option \<Rightarrow> bytes \<times> clip_assembly \<Rightarrow> assemble_result \<times> bytes \<times> clip_assembly" where
  "clip_assemble_message max_size None (dataCached, state) = (kError, [], clip_assembly_init)"
| "clip_assemble_message max_size (Some c) (dataCached, state) =
     (if kClipboardEnd \<le> cc_id c then (kError, [], clip_assembly_init)
      else if cc_mark c = kDataStart then
        (let st = clip_assembly_init\<lparr>expected_size := stringToSizeType (cc_data c), active := True\<rparr>
         in if max_size < expected_size st then (kOversize, [], st\<lparr>oversize := True\<rparr>)
            else (kStart, [], st))
      else if cc_mark c = kDataChunk then
        (if \<not> active state then (kError, [], clip_assembly_init)
         else if oversize state then (kOversize, dataCached, state)
         else if expected_size state - of_nat (length dataCached) < of_nat (length (cc_data c))
           then (kError, [], clip_assembly_init)
         else (kNotFinish, dataCached @ cc_data c, state))
      else if cc_mark c = kDataEnd then
        (if \<not> active state then (kError, [], clip_assembly_init)
         else if oversize state then (kOversize, [], clip_assembly_init)
         else if expected_size state \<noteq> of_nat (length dataCached) then (kError, [], clip_assembly_init)
         else (kFinish, dataCached, clip_assembly_init))
      else (kError, [], clip_assembly_init))"

fun clip_message :: "rval list \<Rightarrow> clip_chunk option" where
  "clip_message [RInt8 i, RInt32 q, RInt8 mk, RStr d] = Some \<lparr>cc_id = i, cc_sequence = q, cc_mark = mk, cc_data = d\<rparr>"
| "clip_message _ = None"

text \<open>The whole operation on a stream; an exception \<open>readf\<close> does not catch passes through.\<close>

definition clip_assemble :: "'s reader \<Rightarrow> size_t \<Rightarrow> bytes \<times> clip_assembly \<Rightarrow> 's \<Rightarrow>
    io_error + assemble_result \<times> (bytes \<times> clip_assembly) \<times> 's option" where
  "clip_assemble rd max_size st s =
     (case readf rd (drop 4 ''DCLP%1i%4i%1i%s'') s of
        Inl e \<Rightarrow> Inl e
      | Inr None \<Rightarrow> Inr (case clip_assemble_message max_size None st of (r, st') \<Rightarrow> (r, st', None))
      | Inr (Some (vs, s')) \<Rightarrow>
          Inr (case clip_assemble_message max_size (clip_message vs) st of (r, st') \<Rightarrow> (r, st', Some s')))"

text \<open>\<open>FileChunk::assemble\<close>: the received data and the declared size; the statistics are logging.\<close>

fun file_assemble_message :: "file_chunk option \<Rightarrow> bytes \<times> size_t \<Rightarrow> assemble_result \<times> bytes \<times> size_t" where
  "file_assemble_message None (dataReceived, expectedSize) = (kError, dataReceived, expectedSize)"
| "file_assemble_message (Some c) (dataReceived, expectedSize) =
     (if fc_mark c = kDataStart then (kStart, [], stringToSizeType (fc_data c))
      else if fc_mark c = kDataChunk then (kNotFinish, dataReceived @ fc_data c, expectedSize)
      else if fc_mark c = kDataEnd then
        (if expectedSize \<noteq> of_nat (length dataReceived) then (kError, dataReceived, expectedSize)
         else (kFinish, dataReceived, expectedSize))
      else (kError, dataReceived, expectedSize))"

fun file_message :: "rval list \<Rightarrow> file_chunk option" where
  "file_message [RInt8 mk, RStr d] = Some \<lparr>fc_mark = mk, fc_data = d\<rparr>"
| "file_message _ = None"

definition file_assemble :: "'s reader \<Rightarrow> bytes \<times> size_t \<Rightarrow> 's \<Rightarrow>
    io_error + assemble_result \<times> (bytes \<times> size_t) \<times> 's option" where
  "file_assemble rd st s =
     (case readf rd (drop 4 ''DFTR%1i%s'') s of
        Inl e \<Rightarrow> Inl e
      | Inr None \<Rightarrow> Inr (case file_assemble_message None st of (r, st') \<Rightarrow> (r, st', None))
      | Inr (Some (vs, s')) \<Rightarrow>
          Inr (case file_assemble_message (file_message vs) st of (r, st') \<Rightarrow> (r, st', Some s')))"

section \<open>Sending\<close>

definition g_chunkSize :: nat where "g_chunkSize = 32 * 1024"

datatype 'c chunk_event = FILE_KEEPALIVE | CHUNK_SENDING 'c

text \<open>
  The loop of \<open>sendClipboard\<close>; \<open>left\<close> is \<open>size - sentLength\<close>. A piece is cut from \<open>data\<close> at
  \<open>sentLength\<close>; \<open>None\<close> when \<open>data\<close> is shorter than the size that was passed.
\<close>

function sendClipboard_loop :: "bytes \<Rightarrow> u8 \<Rightarrow> u32 \<Rightarrow> nat \<Rightarrow> nat \<Rightarrow> clip_chunk chunk_event list option" where
  "sendClipboard_loop data cid sequence sentLength left =
     (let chunkSize = (if left < g_chunkSize then left else g_chunkSize)
      in if length data < sentLength + chunkSize then None
         else
           let evs = [FILE_KEEPALIVE, CHUNK_SENDING (clip_data cid sequence (take chunkSize (drop sentLength data)))]
           in if left = chunkSize then Some evs
              else map_option ((@) evs)
                     (sendClipboard_loop data cid sequence (sentLength + chunkSize) (left - chunkSize)))"
  by pat_completeness auto
termination by (relation "measure (\<lambda>(_, _, _, _, left). left)") (auto simp: g_chunkSize_def)

declare sendClipboard_loop.simps [simp del]

definition sendClipboard :: "bytes \<Rightarrow> nat \<Rightarrow> u8 \<Rightarrow> u32 \<Rightarrow> clip_chunk chunk_event list option" where
  "sendClipboard data sz cid sequence =
     map_option (\<lambda>evs. CHUNK_SENDING (clip_start cid sequence (of_nat sz)) # evs @
                       [CHUNK_SENDING (clip_end cid sequence)])
       (sendClipboard_loop data cid sequence 0 sz)"

record chunker =
  s_isChunkingFile :: bool
  s_interruptFile :: bool

definition interruptFile :: "chunker \<Rightarrow> chunker" where
  "interruptFile st = (if s_isChunkingFile st then st\<lparr>s_interruptFile := True\<rparr> else st)"

text \<open>
  The loop of \<open>sendFile\<close> on the contents \<open>file\<close>. Other threads may call \<open>interruptFile\<close> while a
  file is being sent: \<open>calls i\<close> tells whether one did before the \<open>i\<close>-th test of the flag.
\<close>

function sendFile_loop :: "bytes \<Rightarrow> (nat \<Rightarrow> bool) \<Rightarrow> nat \<Rightarrow> nat \<Rightarrow> nat \<Rightarrow> chunker \<Rightarrow>
    file_chunk chunk_event list \<times> chunker" where
  "sendFile_loop file calls i sentLength left st0 =
     (let st = (if calls i then interruptFile st0 else st0)
      in if s_interruptFile st then ([], st\<lparr>s_interruptFile := False\<rparr>)
         else
           let chunkSize = (if left < g_chunkSize then left else g_chunkSize);
               evs = [FILE_KEEPALIVE, CHUNK_SENDING (file_data (take chunkSize (drop sentLength file)))]
           in if left = chunkSize then (evs, st)
              else (case sendFile_loop file calls (Suc i) (sentLength + chunkSize) (left - chunkSize) st of
                      (evs', st') \<Rightarrow> (evs @ evs', st')))"
  by pat_completeness auto
termination by (relation "measure (\<lambda>(_, _, _, _, left, _). left)") (auto simp: g_chunkSize_def)

declare sendFile_loop.simps [simp del]

text \<open>\<open>sendFile\<close>: \<open>None\<close> for the file that cannot be opened; the events are \<open>None\<close> when it throws.\<close>

definition sendFile :: "bytes option \<Rightarrow> (nat \<Rightarrow> bool) \<Rightarrow> chunker \<Rightarrow> file_chunk chunk_event list option \<times> chunker" where
  "sendFile file calls st0 =
     (let st = st0\<lparr>s_isChunkingFile := True\<rparr>
      in case file of
           None \<Rightarrow> (None, st)
         | Some bs \<Rightarrow>
             (case sendFile_loop bs calls 0 0 (length bs) st of
                (evs, st') \<Rightarrow>
                  (Some (CHUNK_SENDING (file_start (of_nat (length bs))) # evs @ [CHUNK_SENDING file_end]),
                   st'\<lparr>s_isChunkingFile := False\<rparr>)))"

section \<open>Receiving a sequence of messages\<close>

fun clip_receive :: "size_t \<Rightarrow> clip_chunk option list \<Rightarrow> bytes \<times> clip_assembly \<Rightarrow>
    assemble_result list \<times> bytes \<times> clip_assembly" where
  "clip_receive max_size [] st = ([], st)"
| "clip_receive max_size (m # ms) st =
     (case clip_assemble_message max_size m st of
        (r, st1) \<Rightarrow> (case clip_receive max_size ms st1 of (rs, st2) \<Rightarrow> (r # rs, st2)))"

fun file_receive :: "file_chunk option list \<Rightarrow> bytes \<times> size_t \<Rightarrow> assemble_result list \<times> bytes \<times> size_t" where
  "file_receive [] st = ([], st)"
| "file_receive (m # ms) st =
     (case file_assemble_message m st of
        (r, st1) \<Rightarrow> (case file_receive ms st1 of (rs, st2) \<Rightarrow> (r # rs, st2)))"

fun chunks_of :: "'c chunk_event list \<Rightarrow> 'c list" where
  "chunks_of [] = []"
| "chunks_of (FILE_KEEPALIVE # es) = chunks_of es"
| "chunks_of (CHUNK_SENDING c # es) = c # chunks_of es"

lemma chunks_of_append [simp]: "chunks_of (xs @ ys) = chunks_of xs @ chunks_of ys"
  by (induction xs rule: chunks_of.induct) auto

lemma clip_receive_append:
  "clip_receive mx (xs @ ys) st =
     (case clip_receive mx xs st of (rs, st1) \<Rightarrow>
        (case clip_receive mx ys st1 of (rs', st2) \<Rightarrow> (rs @ rs', st2)))"
  by (induction xs arbitrary: st) (auto split: prod.splits)

lemma file_receive_append:
  "file_receive (xs @ ys) st =
     (case file_receive xs st of (rs, st1) \<Rightarrow>
        (case file_receive ys st1 of (rs', st2) \<Rightarrow> (rs @ rs', st2)))"
  by (induction xs arbitrary: st) (auto split: prod.splits)

text \<open>
  What is cached while a transfer is under way: exactly the data received since the message that
  started it, within the size that message declared.
\<close>

definition transfer :: "clip_chunk option list \<Rightarrow> clip_chunk \<Rightarrow> clip_chunk list \<Rightarrow> bool" where
  "transfer ms c0 cs \<longleftrightarrow>
     (\<exists>pre. ms = pre @ Some c0 # map Some cs) \<and> cc_mark c0 = kDataStart \<and>
     (\<forall>c\<in>set cs. cc_mark c = kDataChunk) \<and> (\<forall>c\<in>set (c0 # cs). cc_id c < kClipboardEnd)"

definition received_ok :: "size_t \<Rightarrow> clip_chunk option list \<Rightarrow> bytes \<times> clip_assembly \<Rightarrow> bool" where
  "received_ok mx ms = (\<lambda>(d, st).
     length d \<le> unat mx \<and>
     (active st \<longrightarrow> oversize st \<longrightarrow> d = []) \<and>
     (active st \<longrightarrow> \<not> oversize st \<longrightarrow>
        expected_size st \<le> mx \<and> length d \<le> unat (expected_size st) \<and>
        (\<exists>c0 cs. transfer ms c0 cs \<and> expected_size st = stringToSizeType (cc_data c0) \<and>
                 d = concat (map cc_data cs))))"

lemma transfer_snoc:
  "transfer ms c0 cs \<Longrightarrow> cc_mark c = kDataChunk \<Longrightarrow> cc_id c < kClipboardEnd \<Longrightarrow>
   transfer (ms @ [Some c]) c0 (cs @ [c])"
  by (auto simp: transfer_def)

lemma transfer_start:
  "cc_mark c = kDataStart \<Longrightarrow> cc_id c < kClipboardEnd \<Longrightarrow> transfer (ms @ [Some c]) c []"
  by (auto simp: transfer_def)

text \<open>The guard on the size of a chunk, which the sources compute modulo \<open>2^64\<close>.\<close>

lemma chunk_room:
  assumes "length d \<le> unat (e :: size_t)" "length x < 2 ^ 64" "\<not> e - of_nat (length d) < of_nat (length x)"
  shows "length d + length x \<le> unat e"
proof -
  have "unat e < 2 ^ 64" using unsigned_less [of e] by simp
  then have u: "unat (of_nat (length d) :: size_t) = length d" "unat (of_nat (length x) :: size_t) = length x"
    using assms(1,2) by (auto intro: unat_of_nat_size_t)
  then have "unat (e - of_nat (length d)) = unat e - length d"
    using assms(1) by (simp add: unat_sub word_le_nat_alt)
  with assms u show ?thesis by (simp add: word_less_nat_alt)
qed

lemma received_ok_step:
  assumes inv: "received_ok mx ms st" and small: "\<And>c. m = Some c \<Longrightarrow> length (cc_data c) < 2 ^ 64"
    and step: "clip_assemble_message mx m st = (r, st')"
  shows "received_ok mx (ms @ [m]) st'"
proof (cases m)
  case None
  then show ?thesis using step by (cases st) (auto simp: received_ok_def clip_assembly_init_def)
next
  case (Some c)
  obtain d s where st: "st = (d, s)" by (cases st)
  show ?thesis
  proof (cases "cc_mark c = kDataChunk \<and> active s \<and> \<not> oversize s \<and> cc_id c < kClipboardEnd \<and>
      \<not> expected_size s - of_nat (length d) < of_nat (length (cc_data c))")
    case True
    then have st': "st' = (d @ cc_data c, s)"
      using step Some st by (simp add: not_le [symmetric])
    from inv True st obtain c0 cs where
      t: "transfer ms c0 cs" "expected_size s = stringToSizeType (cc_data c0)" "d = concat (map cc_data cs)"
      and b: "expected_size s \<le> mx" "length d \<le> unat (expected_size s)"
      by (auto simp: received_ok_def)
    have "length d + length (cc_data c) \<le> unat (expected_size s)"
      using chunk_room [OF b(2) small] Some True by simp
    moreover have "transfer (ms @ [m]) c0 (cs @ [c])" using transfer_snoc [OF t(1)] True Some by simp
    ultimately show ?thesis
      using b t True st' by (fastforce simp: received_ok_def word_le_nat_alt)
  next
    case False
    show ?thesis
    proof (cases "cc_mark c = kDataStart \<and> cc_id c < kClipboardEnd \<and> \<not> mx < stringToSizeType (cc_data c)")
      case True
      then have "transfer (ms @ [m]) c []" using transfer_start Some by simp
      moreover have "st' = ([], \<lparr>expected_size = stringToSizeType (cc_data c), active = True, oversize = False\<rparr>)"
        using True step Some st by (auto simp: clip_assembly_init_def Let_def not_le [symmetric])
      ultimately show ?thesis using True by (fastforce simp: received_ok_def)
    next
      case nstart: False
      have "length d \<le> unat mx" "active s \<Longrightarrow> oversize s \<Longrightarrow> d = []"
        using inv st by (auto simp: received_ok_def)
      then have "length (fst st') \<le> unat mx \<and> (active (snd st') \<longrightarrow> oversize (snd st') \<and> fst st' = [])"
        using False nstart step Some st
        by (auto simp: clip_assembly_init_def Let_def not_le not_less split: if_splits)
      then show ?thesis by (cases st') (auto simp: received_ok_def)
    qed
  qed
qed

lemma clip_receive_ok:
  assumes "received_ok mx [] st" "\<forall>c. Some c \<in> set ms \<longrightarrow> length (cc_data c) < 2 ^ 64"
  shows "received_ok mx ms (snd (clip_receive mx ms st))"
  using assms(2)
proof (induction ms rule: rev_induct)
  case Nil
  then show ?case using assms(1) by simp
next
  case (snoc m ms)
  obtain rs st1 where r: "clip_receive mx ms st = (rs, st1)" by (cases "clip_receive mx ms st") auto
  obtain r' st2 where s: "clip_assemble_message mx m st1 = (r', st2)"
    by (cases "clip_assemble_message mx m st1") auto
  have "received_ok mx (ms @ [m]) st2"
    using received_ok_step [of mx ms st1 m r' st2] snoc r s by auto
  then show ?case by (simp add: clip_receive_append r s)
qed

section \<open>What the senders send\<close>

lemma sendClipboard_loop_pieces:
  "sentLength + left = length data \<Longrightarrow>
   \<exists>evs ds. sendClipboard_loop data cid sequence sentLength left = Some evs \<and>
     chunks_of evs = map (clip_data cid sequence) ds \<and> concat ds = drop sentLength data \<and>
     (\<forall>d\<in>set ds. length d \<le> g_chunkSize)"
proof (induction data cid sequence sentLength left rule: sendClipboard_loop.induct)
  case (1 data cid sequence sentLength left)
  define k where "k = (if left < g_chunkSize then left else g_chunkSize)"
  let ?d = "take k (drop sentLength data)"
  have k: "\<not> length data < sentLength + k" "k \<le> left" "k \<le> g_chunkSize" using 1(2) by (auto simp: k_def)
  show ?case
  proof (cases "left = k")
    case True
    then have "?d = drop sentLength data" using 1(2) by simp
    with True k show ?thesis
      by (intro exI [of _ "[FILE_KEEPALIVE, CHUNK_SENDING (clip_data cid sequence ?d)]"] exI [of _ "[?d]"])
         (subst sendClipboard_loop.simps, simp add: Let_def flip: k_def)
  next
    case False
    have "sentLength + k + (left - k) = length data" using 1(2) k by simp
    from 1(1) [OF k_def k(1) refl False this] obtain evs ds where
      r: "sendClipboard_loop data cid sequence (sentLength + k) (left - k) = Some evs"
         "chunks_of evs = map (clip_data cid sequence) ds" "concat ds = drop (sentLength + k) data"
         "\<forall>d\<in>set ds. length d \<le> g_chunkSize"
      by blast
    have "?d @ drop (sentLength + k) data = drop sentLength data"
      by (metis append_take_drop_id drop_drop add.commute)
    with False k r show ?thesis
      by (intro exI [of _ "[FILE_KEEPALIVE, CHUNK_SENDING (clip_data cid sequence ?d)] @ evs"] exI [of _ "?d # ds"])
         (subst sendClipboard_loop.simps, simp add: Let_def flip: k_def)
  qed
qed

lemma clip_receive_pieces:
  "cid < kClipboardEnd \<Longrightarrow> active st \<Longrightarrow> \<not> oversize st \<Longrightarrow>
   length d + length (concat ds) \<le> unat (expected_size st) \<Longrightarrow>
   clip_receive mx (map Some (map (clip_data cid sequence) ds)) (d, st) =
     (replicate (length ds) kNotFinish, d @ concat ds, st)"
proof (induction ds arbitrary: d)
  case (Cons x ds)
  have "unat (expected_size st) < 2 ^ 64" using unsigned_less [of "expected_size st"] by simp
  then have u: "unat (of_nat (length d) :: size_t) = length d" "unat (of_nat (length x) :: size_t) = length x"
    using Cons.prems(4) by (auto intro!: unat_of_nat_size_t)
  then have "\<not> expected_size st - of_nat (length d) < of_nat (length x)"
    using Cons.prems(4) by (simp add: word_less_nat_alt unat_sub word_le_nat_alt)
  with Cons show ?case by (simp add: clip_data_def not_le [symmetric])
qed simp

lemma sendClipboard_chunks:
  "\<exists>evs ds. sendClipboard data (length data) cid sequence = Some evs \<and>
     chunks_of evs = clip_start cid sequence (of_nat (length data)) # map (clip_data cid sequence) ds @
       [clip_end cid sequence] \<and>
     concat ds = data \<and> (\<forall>d\<in>set ds. length d \<le> g_chunkSize)"
  using sendClipboard_loop_pieces [of 0 "length data" data cid sequence] by (auto simp: sendClipboard_def)

lemma clip_receive_transfer:
  assumes "cid < kClipboardEnd" "length data \<le> unat mx" "concat ds = data"
  shows "clip_receive mx (map Some (clip_start cid sequence (of_nat (length data)) #
      map (clip_data cid sequence) ds @ [clip_end cid sequence])) st =
    (kStart # replicate (length ds) kNotFinish @ [kFinish], data, clip_assembly_init)"
proof -
  let ?st = "\<lparr>expected_size = of_nat (length data), active = True, oversize = False\<rparr>"
  have "unat mx < 2 ^ 64" using unsigned_less [of mx] by simp
  then have u: "unat (of_nat (length data) :: size_t) = length data"
    using assms(2) by (intro unat_of_nat_size_t) simp
  then have nl: "\<not> mx < of_nat (length data)" using assms(2) by (simp add: word_less_nat_alt)
  have s: "clip_assemble_message mx (Some (clip_start cid sequence (of_nat (length data)))) st = (kStart, [], ?st)"
    using assms(1) nl by (cases st) (simp add: clip_start_def size_roundtrip clip_assembly_init_def not_le [symmetric])
  have e: "clip_assemble_message mx (Some (clip_end cid sequence)) (data, ?st) = (kFinish, data, clip_assembly_init)"
    using assms(1) by (simp add: clip_end_def not_le [symmetric])
  show ?thesis
    using clip_receive_pieces [OF assms(1), of ?st "[]" ds mx sequence] s e u assms(3)
    by (simp add: clip_receive_append)
qed

text \<open>A file transfer sends a prefix of the file, all of it unless it is interrupted.\<close>

lemma sendFile_loop_pieces:
  "sentLength + left = length content \<Longrightarrow>
   \<exists>evs st' ds k. sendFile_loop content calls i sentLength left st = (evs, st') \<and>
     chunks_of evs = map file_data ds \<and> concat ds = take k (drop sentLength content) \<and>
     ((\<forall>i. \<not> calls i) \<and> \<not> s_interruptFile st \<longrightarrow> k = left \<and> \<not> s_interruptFile st')"
proof (induction content calls i sentLength left st rule: sendFile_loop.induct)
  case (1 content calls i sentLength left st0)
  define st where "st = (if calls i then interruptFile st0 else st0)"
  define k where "k = (if left < g_chunkSize then left else g_chunkSize)"
  have k: "k \<le> left" by (simp add: k_def)
  let ?d = "take k (drop sentLength content)"
  let ?ev = "[FILE_KEEPALIVE, CHUNK_SENDING (file_data ?d)]"
  show ?case
  proof (cases "s_interruptFile st")
    case True
    then have "sendFile_loop content calls i sentLength left st0 = ([], st\<lparr>s_interruptFile := False\<rparr>)"
      by (subst sendFile_loop.simps) (simp add: Let_def flip: st_def)
    moreover have "\<not> ((\<forall>i. \<not> calls i) \<and> \<not> s_interruptFile st0)" using True by (auto simp: st_def split: if_splits)
    ultimately show ?thesis by (intro exI conjI) (auto intro: exI [of _ 0])
  next
    case intr: False
    have quiet: "(\<forall>i. \<not> calls i) \<and> \<not> s_interruptFile st0 \<Longrightarrow> \<not> s_interruptFile st" using intr by simp
    show ?thesis
    proof (cases "left = k")
      case True
      have l: "sendFile_loop content calls i sentLength left st0 = (?ev, st)"
        using intr True unfolding sendFile_loop.simps [of content calls i sentLength left st0] Let_def
          st_def [symmetric] k_def [symmetric] by simp
      show ?thesis
        by (rule exI [of _ ?ev], rule exI [of _ st], rule exI [of _ "[?d]"], rule exI [of _ k])
           (use True intr l in auto)
    next
      case False
      have "sentLength + k + (left - k) = length content" using 1(2) k by simp
      from 1(1) [OF st_def intr k_def refl False this] obtain evs st' ds j where
        r: "sendFile_loop content calls (Suc i) (sentLength + k) (left - k) st = (evs, st')"
           "chunks_of evs = map file_data ds" "concat ds = take j (drop (sentLength + k) content)"
           "(\<forall>i. \<not> calls i) \<and> \<not> s_interruptFile st \<longrightarrow> j = left - k \<and> \<not> s_interruptFile st'"
        by blast
      have l: "sendFile_loop content calls i sentLength left st0 = (?ev @ evs, st')"
        using intr False r(1) by (subst sendFile_loop.simps) (simp add: Let_def flip: st_def k_def)
      have c: "concat (?d # ds) = take (k + j) (drop sentLength content)"
        using r(3) by (simp add: take_add add.commute [of sentLength k])
      show ?thesis
        by (rule exI [of _ "?ev @ evs"], rule exI [of _ st'], rule exI [of _ "?d # ds"], rule exI [of _ "k + j"])
           (use l c r(2,4) quiet k in auto)
    qed
  qed
qed

lemma file_receive_pieces:
  "file_receive (map (Some \<circ> file_data) ds) (d, e) = (replicate (length ds) kNotFinish, d @ concat ds, e)"
  by (induction ds arbitrary: d) (simp_all add: file_data_def)

lemma sendFile_chunks:
  "\<exists>evs st' ds k. sendFile (Some content) calls st = (Some evs, st') \<and> \<not> s_isChunkingFile st' \<and>
     chunks_of evs = file_start (of_nat (length content)) # map file_data ds @ [file_end] \<and>
     concat ds = take k content \<and>
     ((\<forall>i. \<not> calls i) \<and> \<not> s_interruptFile st \<longrightarrow> k = length content \<and> \<not> s_interruptFile st')"
  using sendFile_loop_pieces [of 0 "length content" content calls 0 "st\<lparr>s_isChunkingFile := True\<rparr>"]
  by (force simp: sendFile_def)

lemma file_receive_transfer:
  assumes "n < 2 ^ 64" "length (concat ds) < 2 ^ 64"
  shows "file_receive (map Some (file_start (of_nat n) # map file_data ds @ [file_end])) st =
    (kStart # replicate (length ds) kNotFinish @ [if n = length (concat ds) then kFinish else kError],
     concat ds, of_nat n)"
proof -
  have "(of_nat n :: size_t) = of_nat (length (concat ds)) \<longleftrightarrow> n = length (concat ds)"
    using unat_of_nat_size_t [OF assms(1)] unat_of_nat_size_t [OF assms(2)] by metis
  then show ?thesis
    by (cases st) (simp add: file_start_def file_end_def size_roundtrip file_receive_append file_receive_pieces)
qed

section \<open>Properties\<close>

text \<open>
  A clipboard within the receiver's limit survives the transfer: \<open>sendClipboard\<close> cuts any data
  into pieces of at most 32 KiB, and a receiver that assembles the resulting chunks, whatever state
  an earlier transfer left it in, reports start, progress and finish, ends up with exactly the data
  and is back in its initial state.
\<close>

theorem clipboard_transfer_roundtrip:
  assumes "cid < kClipboardEnd" and "length data \<le> unat max_size"
  shows "\<exists>evs n. sendClipboard data (length data) cid sequence = Some evs \<and>
    (\<forall>c\<in>set (chunks_of evs). cc_mark c = kDataChunk \<longrightarrow> length (cc_data c) \<le> g_chunkSize) \<and>
    clip_receive max_size (map Some (chunks_of evs)) st =
      (kStart # replicate n kNotFinish @ [kFinish], data, clip_assembly_init)"
proof -
  from sendClipboard_chunks [of data cid sequence] obtain evs ds where
    1: "sendClipboard data (length data) cid sequence = Some evs"
    "chunks_of evs = clip_start cid sequence (of_nat (length data)) # map (clip_data cid sequence) ds @
       [clip_end cid sequence]" "concat ds = data" "\<forall>d\<in>set ds. length d \<le> g_chunkSize"
    by blast
  have "\<forall>c\<in>set (chunks_of evs). cc_mark c = kDataChunk \<longrightarrow> length (cc_data c) \<le> g_chunkSize"
    using 1(2,4) by (auto simp: clip_start_def clip_data_def clip_end_def)
  with 1 clip_receive_transfer [OF assms 1(3)] show ?thesis by metis
qed

text \<open>
  C16. The receiver's memory is bounded whatever the peer sends: after any sequence of messages,
  in any order and with any marks, sizes and identifiers, no more than the receive limit is cached,
  and while a transfer is under way no more than the size it declared.
\<close>

theorem clipboard_cache_bounded:
  assumes "\<forall>c. Some c \<in> set ms \<longrightarrow> length (cc_data c) < 2 ^ 64"
    and "clip_receive max_size ms ([], clip_assembly_init) = (rs, dataCached, state)"
  shows "length dataCached \<le> unat max_size \<and>
    (active state \<and> \<not> oversize state \<longrightarrow> length dataCached \<le> unat (expected_size state))"
proof -
  have "received_ok max_size [] ([], clip_assembly_init)"
    by (simp add: received_ok_def clip_assembly_init_def)
  from clip_receive_ok [OF this assms(1)] assms(2)
  have "received_ok max_size ms (dataCached, state)" by simp
  then show ?thesis
    by (auto simp: received_ok_def)
qed

text \<open>
  A transfer that is reported as finished is complete: if the last of any sequence of messages
  yields \<open>kFinish\<close>, that sequence ends in a start message, data messages and this end message, the
  cached data is the concatenation of their data and its length is the size the start declared.
\<close>

theorem clipboard_finish_complete:
  assumes "\<forall>c. Some c \<in> set ms \<longrightarrow> length (cc_data c) < 2 ^ 64"
    and "clip_receive max_size (ms @ [m]) ([], clip_assembly_init) = (rs @ [kFinish], dataCached, state)"
  shows "\<exists>c0 cs. transfer ms c0 cs \<and> dataCached = concat (map cc_data cs) \<and>
     length dataCached = unat (stringToSizeType (cc_data c0)) \<and> state = clip_assembly_init"
proof -
  obtain rs1 d1 st1 where r: "clip_receive max_size ms ([], clip_assembly_init) = (rs1, d1, st1)"
    by (cases "clip_receive max_size ms ([], clip_assembly_init)") auto
  have "received_ok max_size [] ([], clip_assembly_init)"
    by (simp add: received_ok_def clip_assembly_init_def)
  from clip_receive_ok [OF this assms(1)] r have ok: "received_ok max_size ms (d1, st1)" by simp
  have "clip_assemble_message max_size m (d1, st1) = (kFinish, dataCached, state)"
    using assms(2) r by (auto simp: clip_receive_append split: prod.splits)
  then have f: "active st1" "\<not> oversize st1" "expected_size st1 = of_nat (length d1)"
    "dataCached = d1" "state = clip_assembly_init"
    by (cases m; auto simp: Let_def split: if_splits)+
  have "unat max_size < 2 ^ 64" using unsigned_less [of max_size] by simp
  then have "unat (of_nat (length d1) :: size_t) = length d1"
    using ok by (intro unat_of_nat_size_t) (auto simp: received_ok_def)
  with f ok show ?thesis by (fastforce simp: received_ok_def)
qed

text \<open>
  C17. A file transfer is all or nothing. Whatever calls of \<open>interruptFile\<close> other threads make while
  it is sent, the receiver's last result is \<open>kFinish\<close> with exactly the file, or \<open>kError\<close> with a proper
  prefix of it; without interruption it is \<open>kFinish\<close>.
\<close>

theorem file_transfer_all_or_error:
  assumes "length content < 2 ^ 64"
  shows "\<exists>evs st' rs d e. sendFile (Some content) calls st = (Some evs, st') \<and>
    file_receive (map Some (chunks_of evs)) prior = (rs, d, e) \<and>
    (last rs = kFinish \<and> d = content \<or> last rs = kError \<and> (\<exists>k < length content. d = take k content)) \<and>
    ((\<forall>i. \<not> calls i) \<and> \<not> s_interruptFile st \<longrightarrow> last rs = kFinish)"
proof -
  from sendFile_chunks [of content calls st] obtain evs st' ds k where
    1: "sendFile (Some content) calls st = (Some evs, st')"
       "chunks_of evs = file_start (of_nat (length content)) # map file_data ds @ [file_end]"
       "concat ds = take k content"
       "(\<forall>i. \<not> calls i) \<and> \<not> s_interruptFile st \<longrightarrow> k = length content"
    by blast
  have "length (concat ds) < 2 ^ 64" using assms 1(3) by simp
  from file_receive_transfer [OF assms this, of prior] 1 show ?thesis
    by (cases "k < length content") auto
qed

text \<open>
  A file that cannot be opened spoils the next transfer. \<open>sendFile\<close> throws with
  \<open>s_isChunkingFile\<close> still set, so a later \<open>interruptFile\<close>, made while nothing is being sent, leaves
  the interrupt flag behind; the next file, nobody interrupting it, is announced with its size and
  then ended without a single byte, and the receiver reports an error.
\<close>

theorem stale_interrupt_drops_next_file:
  assumes "content \<noteq> []" and "length content < 2 ^ 64" and "\<not> s_interruptFile st"
  shows "\<exists>st1 st2. sendFile None (\<lambda>_. False) st = (None, st1) \<and>
    sendFile (Some content) (\<lambda>_. False) (interruptFile st1) =
      (Some [CHUNK_SENDING (file_start (of_nat (length content))), CHUNK_SENDING file_end], st2) \<and>
    file_receive [Some (file_start (of_nat (length content))), Some file_end] prior =
      ([kStart, kError], [], of_nat (length content))"
  using file_receive_transfer [of "length content" "[]" prior] assms
  by (simp add: sendFile_def interruptFile_def sendFile_loop.simps Let_def)

text \<open>Witnesses.\<close>

theorem clipboard_transfer_roundtrip_witness:
  "\<exists>evs n. sendClipboard [1, 2, 3] 3 1 7 = Some evs \<and>
    clip_receive 10 (map Some (chunks_of evs)) ([9], clip_assembly_init) =
      (kStart # replicate n kNotFinish @ [kFinish], [1, 2, 3], clip_assembly_init)"
  using clipboard_transfer_roundtrip [of 1 "[1, 2, 3]" 10 7 "([9], clip_assembly_init)"]
  by (auto simp: kClipboardEnd_def numeral_3_eq_3)

theorem clipboard_cache_bounded_witness:
  "\<exists>rs d st. clip_receive 4 [Some (clip_start 0 1 3), Some (clip_data 0 1 [5, 6])] ([], clip_assembly_init) = (rs, d, st) \<and>
     length d \<le> unat (4 :: size_t)"
proof -
  obtain rs d st where r: "clip_receive 4 [Some (clip_start 0 1 3), Some (clip_data 0 1 [5, 6])] ([], clip_assembly_init) = (rs, d, st)"
    by (metis prod_cases3)
  have "\<forall>c. Some c \<in> set [Some (clip_start 0 1 3), Some (clip_data 0 1 [5, 6])] \<longrightarrow> length (cc_data c) < 2 ^ 64"
    by (simp add: clip_start_def clip_data_def to_string_def decimal.simps)
  from clipboard_cache_bounded [OF this r] r show ?thesis by blast
qed

definition demo_transfer :: "clip_chunk option list" where
  "demo_transfer = None # map Some (clip_start 0 1 (of_nat (length [5, 6 :: u8])) # map (clip_data 0 1) [[5], [6]])"

theorem clipboard_finish_complete_witness:
  "\<exists>c0 cs. transfer demo_transfer c0 cs \<and> [5, 6] = concat (map cc_data cs) \<and>
     length [5, 6 :: u8] = unat (stringToSizeType (cc_data c0))"
proof -
  have s: "\<forall>c. Some c \<in> set demo_transfer \<longrightarrow> length (cc_data c) < 2 ^ 64"
    by (simp add: demo_transfer_def clip_start_def clip_data_def to_string_def decimal.simps)
  have r: "clip_receive 9 (demo_transfer @ [Some (clip_end 0 1)]) ([], clip_assembly_init) =
      ([kError, kStart, kNotFinish, kNotFinish] @ [kFinish], [5, 6], clip_assembly_init)"
  proof -
    have e: "demo_transfer @ [Some (clip_end 0 1)] =
        None # map Some (clip_start 0 1 (of_nat (length [5, 6 :: u8])) # map (clip_data 0 1) [[5], [6]] @ [clip_end 0 1])"
      by (simp add: demo_transfer_def)
    show ?thesis
      unfolding e clip_receive.simps(2) clip_assemble_message.simps(1) prod.case
      by (subst clip_receive_transfer) (simp_all add: kClipboardEnd_def)
  qed
  from clipboard_finish_complete [OF s r] show ?thesis by blast
qed

theorem file_transfer_all_or_error_witness:
  "\<exists>evs st' rs d e. sendFile (Some [1, 2]) (\<lambda>i. i = 0) \<lparr>s_isChunkingFile = False, s_interruptFile = False\<rparr> = (Some evs, st') \<and>
    file_receive (map Some (chunks_of evs)) ([], 0) = (rs, d, e) \<and>
    (last rs = kFinish \<and> d = [1, 2] \<or> last rs = kError \<and> (\<exists>k < length [1, 2 :: u8]. d = take k [1, 2]))"
  using file_transfer_all_or_error [of "[1, 2]" "\<lambda>i. i = 0"
      "\<lparr>s_isChunkingFile = False, s_interruptFile = False\<rparr>" "([], 0)"]
  by fastforce

theorem stale_interrupt_drops_next_file_witness:
  "\<exists>st1 st2. sendFile None (\<lambda>_. False) \<lparr>s_isChunkingFile = False, s_interruptFile = False\<rparr> = (None, st1) \<and>
    sendFile (Some [1, 2]) (\<lambda>_. False) (interruptFile st1) =
      (Some [CHUNK_SENDING (file_start (of_nat (length [1, 2 :: u8]))), CHUNK_SENDING file_end], st2)"
  using stale_interrupt_drops_next_file [of "[1, 2]" "\<lparr>s_isChunkingFile = False, s_interruptFile = False\<rparr>" "([], 0)"]
  by fastforce

end
