(* ===== verification/Clipboards.thy ===== *)
theory Clipboards
  imports IL_Prelude
begin

text \<open>
  \<^verbatim>\<open>src/lib/inputleap/Clipboard.cpp\<close> (the in-memory clipboard) and
  \<^verbatim>\<open>src/lib/inputleap/IClipboard.cpp\<close> (marshalling and copying over any clipboard). The latter use a
  clipboard through its virtual functions only, so they take a record of those functions; what
  they rely on is the locale \<open>clipboard_contract\<close>, interpreted here on the in-memory clipboard.
  A failed assertion is \<open>None\<close>.
\<close>

section \<open>Formats\<close>

datatype EFormat = kText | kHTML | kBitmap | kPNG | kJpeg | kTiff | kWebp

definition all_formats :: "EFormat list" where
  "all_formats = [kText, kHTML, kBitmap, kPNG, kJpeg, kTiff, kWebp]"

primrec format_id :: "EFormat \<Rightarrow> u32" where
  "format_id kText = 0"
| "format_id kHTML = 1"
| "format_id kBitmap = 2"
| "format_id kPNG = 3"
| "format_id kJpeg = 4"
| "format_id kTiff = 5"
| "format_id kWebp = 6"

text \<open>The cast of a number to \<open>EFormat\<close> with the test \<open>format < kNumFormats\<close>.\<close>

definition format_of :: "u32 \<Rightarrow> EFormat option" where
  "format_of w = (if w < 7 then Some (all_formats ! unat w) else None)"

lemma format_of_id [simp]: "format_of (format_id f) = Some f"
  by (cases f) (simp_all add: format_of_def all_formats_def)

lemma set_all_formats [simp]: "set all_formats = UNIV"
proof -
  have "f \<in> set all_formats" for f by (cases f) (simp_all add: all_formats_def)
  then show ?thesis by blast
qed

lemma distinct_all_formats [simp]: "distinct all_formats"
  by (simp add: all_formats_def)

lemma length_all_formats [simp]: "length all_formats = 7"
  by (simp add: all_formats_def)

section \<open>The virtual functions of a clipboard\<close>

record 'c clipboard_ops =
  op_open :: "u32 \<Rightarrow> 'c \<Rightarrow> (bool \<times> 'c) option"
  op_clear :: "'c \<Rightarrow> (bool \<times> 'c) option"
  op_add :: "EFormat \<Rightarrow> bytes \<Rightarrow> 'c \<Rightarrow> 'c option"
  op_close :: "'c \<Rightarrow> 'c option"
  op_has :: "EFormat \<Rightarrow> 'c \<Rightarrow> bool option"
  op_get :: "EFormat \<Rightarrow> 'c \<Rightarrow> bytes option"
  op_getTime :: "'c \<Rightarrow> u32"

section \<open>Marshalling\<close>

definition readUInt32 :: "bytes \<Rightarrow> u32" where
  "readUInt32 buf =
     push_bit 24 (ucast (buf ! 0)) OR push_bit 16 (ucast (buf ! 1)) OR
     push_bit 8 (ucast (buf ! 2)) OR ucast (buf ! 3)"

definition writeUInt32 :: "bytes \<Rightarrow> u32 \<Rightarrow> bytes" where
  "writeUInt32 buf v =
     buf @ [ucast (drop_bit 24 v AND 0xff), ucast (drop_bit 16 v AND 0xff),
            ucast (drop_bit 8 v AND 0xff), ucast (v AND 0xff)]"

text \<open>The loop over the formats of the input: \<open>n\<close> to go, \<open>index\<close> the unread rest.\<close>

fun unmarshall_loop :: "'c clipboard_ops \<Rightarrow> nat \<Rightarrow> bytes \<Rightarrow> 'c \<Rightarrow> 'c option" where
  "unmarshall_loop ops 0 index c = Some c"
| "unmarshall_loop ops (Suc n) index c =
     (if length index < 8 then Some c
      else
        let format = readUInt32 index;
            size = readUInt32 (drop 4 index);
            rest = drop 8 index
        in if length rest < unat size then Some c
           else
             Option.bind
               (case format_of format of
                  None \<Rightarrow> Some c
                | Some f \<Rightarrow> op_add ops f (take (unat size) rest) c)
               (unmarshall_loop ops n (drop (unat size) rest)))"

definition unmarshall :: "'c clipboard_ops \<Rightarrow> bytes \<Rightarrow> u32 \<Rightarrow> 'c \<Rightarrow> 'c option" where
  "unmarshall ops data time c =
     Option.bind (op_open ops time c) (\<lambda>(opened, c1).
       if \<not> opened then Some c1
       else Option.bind (op_clear ops c1) (\<lambda>(_, c2).
         if length data < 4 then op_close ops c2
         else Option.bind (unmarshall_loop ops (unat (readUInt32 data)) (drop 4 data) c2) (op_close ops)))"

text \<open>The first loop of \<open>marshall\<close>: the data of the formats that are there.\<close>

fun collect_formats :: "'c clipboard_ops \<Rightarrow> EFormat list \<Rightarrow> 'c \<Rightarrow> (u32 \<times> (EFormat \<times> bytes) list) option" where
  "collect_formats ops [] c = Some (0, [])"
| "collect_formats ops (f # fs) c =
     Option.bind (op_has ops f c) (\<lambda>h.
       if h
       then Option.bind (op_get ops f c) (\<lambda>d.
              map_option (\<lambda>(n, ds). (1 + n, (f, d) # ds)) (collect_formats ops fs c))
       else collect_formats ops fs c)"

text \<open>The second loop: the formats that are there, with the data collected for them.\<close>

fun write_formats :: "'c clipboard_ops \<Rightarrow> (EFormat \<times> bytes) list \<Rightarrow> EFormat list \<Rightarrow> 'c \<Rightarrow> bytes \<Rightarrow> bytes option" where
  "write_formats ops ds [] c data = Some data"
| "write_formats ops ds (f # fs) c data =
     Option.bind (op_has ops f c) (\<lambda>h.
       if h
       then let d = (case map_of ds f of None \<Rightarrow> [] | Some d \<Rightarrow> d)
            in write_formats ops ds fs c
                 (writeUInt32 (writeUInt32 data (format_id f)) (of_nat (length d)) @ d)
       else write_formats ops ds fs c data)"

definition marshall :: "'c clipboard_ops \<Rightarrow> 'c \<Rightarrow> (bytes \<times> 'c) option" where
  "marshall ops c =
     Option.bind (op_open ops 0 c) (\<lambda>(opened, c1).
       if \<not> opened then Some ([], c1)
       else Option.bind (collect_formats ops all_formats c1) (\<lambda>(numFormats, ds).
         Option.bind (write_formats ops ds all_formats c1 (writeUInt32 [] numFormats)) (\<lambda>data.
           map_option (\<lambda>c2. (data, c2)) (op_close ops c1))))"

section \<open>Copying\<close>

fun copy_formats :: "'d clipboard_ops \<Rightarrow> 's clipboard_ops \<Rightarrow> EFormat list \<Rightarrow> 'd \<Rightarrow> 's \<Rightarrow> 'd option" where
  "copy_formats dops sops [] dst src = Some dst"
| "copy_formats dops sops (f # fs) dst src =
     Option.bind (op_has sops f src) (\<lambda>h.
       if h
       then Option.bind (op_get sops f src) (\<lambda>d.
              Option.bind (op_add dops f d dst) (\<lambda>dst'. copy_formats dops sops fs dst' src))
       else copy_formats dops sops fs dst src)"

definition copy_at :: "'d clipboard_ops \<Rightarrow> 's clipboard_ops \<Rightarrow> u32 \<Rightarrow> 'd \<Rightarrow> 's \<Rightarrow> (bool \<times> 'd \<times> 's) option" where
  "copy_at dops sops time dst src =
     Option.bind (op_open sops time src) (\<lambda>(so, src1).
       if \<not> so then Some (False, dst, src1)
       else Option.bind (op_open dops time dst) (\<lambda>(dok, dst1).
         Option.bind
           (if \<not> dok then Some (False, dst1)
            else Option.bind (op_clear dops dst1) (\<lambda>(cleared, dst2).
              Option.bind
                (if cleared then map_option (Pair True) (copy_formats dops sops all_formats dst2 src1)
                 else Some (False, dst2))
                (\<lambda>(success, dst3). map_option (Pair success) (op_close dops dst3))))
           (\<lambda>(success, dst4). map_option (\<lambda>src2. (success, dst4, src2)) (op_close sops src1))))"

definition copy :: "'d clipboard_ops \<Rightarrow> 's clipboard_ops \<Rightarrow> 'd \<Rightarrow> 's \<Rightarrow> (bool \<times> 'd \<times> 's) option" where
  "copy dops sops dst src = copy_at dops sops (op_getTime sops src) dst src"

section \<open>The in-memory clipboard\<close>

record clipboard =
  m_open :: bool
  m_time :: u32
  m_owner :: bool
  m_timeOwned :: u32
  m_added :: "EFormat \<Rightarrow> bool"
  m_data :: "EFormat \<Rightarrow> bytes"

definition cb_clear :: "clipboard \<Rightarrow> (bool \<times> clipboard) option" where
  "cb_clear c =
     (if \<not> m_open c then None
      else Some (True, c\<lparr>m_data := (\<lambda>_. []), m_added := (\<lambda>_. False), m_timeOwned := m_time c, m_owner := True\<rparr>))"

definition cb_add :: "EFormat \<Rightarrow> bytes \<Rightarrow> clipboard \<Rightarrow> clipboard option" where
  "cb_add f d c =
     (if \<not> m_open c \<or> \<not> m_owner c then None
      else Some (c\<lparr>m_data := (m_data c)(f := d), m_added := (m_added c)(f := True)\<rparr>))"

definition cb_open :: "u32 \<Rightarrow> clipboard \<Rightarrow> (bool \<times> clipboard) option" where
  "cb_open time c = (if m_open c then None else Some (True, c\<lparr>m_open := True, m_time := time\<rparr>))"

definition cb_close :: "clipboard \<Rightarrow> clipboard option" where
  "cb_close c = (if \<not> m_open c then None else Some (c\<lparr>m_open := False\<rparr>))"

definition cb_getTime :: "clipboard \<Rightarrow> u32" where
  "cb_getTime c = m_timeOwned c"

definition cb_has :: "EFormat \<Rightarrow> clipboard \<Rightarrow> bool option" where
  "cb_has f c = (if \<not> m_open c then None else Some (m_added c f))"

definition cb_get :: "EFormat \<Rightarrow> clipboard \<Rightarrow> bytes option" where
  "cb_get f c = (if \<not> m_open c then None else Some (m_data c f))"

text \<open>The constructor: the members left uninitialised have whatever value they had.\<close>

definition cb_construct :: "clipboard \<Rightarrow> clipboard option" where
  "cb_construct uninit =
     Option.bind (cb_open 0 (uninit\<lparr>m_open := False, m_owner := False\<rparr>)) (\<lambda>(_, c1).
       Option.bind (cb_clear c1) (\<lambda>(_, c2). cb_close c2))"

definition cb_new :: clipboard where
  "cb_new = \<lparr>m_open = False, m_time = 0, m_owner = True, m_timeOwned = 0,
     m_added = (\<lambda>_. False), m_data = (\<lambda>_. [])\<rparr>"

lemma cb_construct: "cb_construct c = Some cb_new"
  by (cases c) (simp add: cb_construct_def cb_new_def cb_open_def cb_clear_def cb_close_def)

definition cb_ops :: "clipboard clipboard_ops" where
  "cb_ops = \<lparr>op_open = cb_open, op_clear = cb_clear, op_add = cb_add, op_close = cb_close,
     op_has = cb_has, op_get = cb_get, op_getTime = cb_getTime\<rparr>"

definition cb_unmarshall :: "bytes \<Rightarrow> u32 \<Rightarrow> clipboard \<Rightarrow> clipboard option" where
  "cb_unmarshall = unmarshall cb_ops"

definition cb_marshall :: "clipboard \<Rightarrow> (bytes \<times> clipboard) option" where
  "cb_marshall = marshall cb_ops"

section \<open>What marshalled data means\<close>

text \<open>The entries of a marshalled clipboard that are complete, at most \<open>n\<close> of them.\<close>

fun entries :: "nat \<Rightarrow> bytes \<Rightarrow> (u32 \<times> bytes) list" where
  "entries 0 bs = []"
| "entries (Suc n) bs =
     (if 8 \<le> length bs \<and> unat (be32_hd (drop 4 bs)) \<le> length (drop 8 bs)
      then (be32_hd bs, take (unat (be32_hd (drop 4 bs))) (drop 8 bs)) #
           entries n (drop (unat (be32_hd (drop 4 bs))) (drop 8 bs))
      else [])"

fun store :: "(u32 \<times> bytes) list \<Rightarrow> (EFormat \<rightharpoonup> bytes) \<Rightarrow> (EFormat \<rightharpoonup> bytes)" where
  "store [] v = v"
| "store ((w, d) # es) v = store es (case format_of w of None \<Rightarrow> v | Some f \<Rightarrow> v(f \<mapsto> d))"

definition decode :: "bytes \<Rightarrow> (EFormat \<rightharpoonup> bytes)" where
  "decode bs = (if length bs < 4 then Map.empty
     else store (entries (unat (be32_hd bs)) (drop 4 bs)) Map.empty)"

definition present :: "(EFormat \<rightharpoonup> bytes) \<Rightarrow> (EFormat \<times> bytes) list" where
  "present v = List.map_filter (\<lambda>f. map_option (Pair f) (v f)) all_formats"

definition encode_entry :: "EFormat \<times> bytes \<Rightarrow> bytes" where
  "encode_entry e = be32_split (format_id (fst e)) @ be32_split (of_nat (length (snd e))) @ snd e"

definition encode :: "(EFormat \<rightharpoonup> bytes) \<Rightarrow> bytes" where
  "encode v = be32_split (of_nat (length (present v))) @ concat (map encode_entry (present v))"

lemma readUInt32_hd [simp]: "readUInt32 bs = be32_hd bs"
  by (simp add: readUInt32_def be32_hd_def be32_join_def)

lemma writeUInt32_split [simp]: "writeUInt32 bs v = bs @ be32_split v"
  by (simp add: writeUInt32_def be32_split_def)

lemma entries_encoded:
  "\<forall>e\<in>set es. length (snd e) < 2 ^ 32 \<Longrightarrow>
   entries (length es) (concat (map encode_entry es) @ rest) =
     map (\<lambda>(f, d). (format_id f, d)) es"
  by (induction es) (auto simp: encode_entry_def unat_of_nat_u32)

lemma store_encoded:
  "distinct (map fst es) \<Longrightarrow> store (map (\<lambda>(f, d). (format_id f, d)) es) v = v ++ map_of es"
proof (induction es arbitrary: v)
  case (Cons e es)
  have "map_of es (fst e) = None" using Cons.prems by (simp add: map_of_eq_None_iff)
  then have "v(fst e \<mapsto> snd e) ++ map_of es = v ++ (map_of es)(fst e \<mapsto> snd e)"
    by (auto simp: map_add_def fun_eq_iff split: option.splits)
  then show ?case using Cons by (cases e) (simp del: fun_upd_apply)
qed simp

lemma map_of_filter_formats:
  "distinct fs \<Longrightarrow> map_of (List.map_filter (\<lambda>f. map_option (Pair f) (v f)) fs) g =
     (if g \<in> set fs then v g else None)"
  by (induction fs) (auto simp: List.map_filter_simps split: option.splits)

lemma keys_filter_formats:
  "set (map fst (List.map_filter (\<lambda>f. map_option (Pair f) (v f)) fs)) \<subseteq> set fs"
  by (induction fs) (auto simp: List.map_filter_simps split: option.splits)

lemma distinct_filter_formats:
  "distinct fs \<Longrightarrow> distinct (map fst (List.map_filter (\<lambda>f. map_option (Pair f) (v f)) fs))"
proof (induction fs)
  case (Cons f fs)
  then show ?case using keys_filter_formats [of v fs]
    by (auto simp: List.map_filter_simps split: option.splits)
qed (simp add: List.map_filter_simps)

lemma map_of_present [simp]: "map_of (present v) = v"
  by (rule ext) (simp add: present_def map_of_filter_formats)

lemma distinct_present: "distinct (map fst (present v))"
  unfolding present_def by (intro distinct_filter_formats distinct_all_formats)

lemma length_map_filter: "length (List.map_filter g xs) \<le> length xs"
  by (induction xs) (auto simp: List.map_filter_simps split: option.splits)

lemma length_present: "length (present v) \<le> 7"
  using length_map_filter [of "\<lambda>f. map_option (Pair f) (v f)" all_formats] by (simp add: present_def)

text \<open>Decoding inverts encoding when every item's size is representable.\<close>

lemma decode_encode:
  assumes "\<forall>f d. v f = Some d \<longrightarrow> length d < 2 ^ 32"
  shows "decode (encode v) = v"
proof -
  have "\<forall>e\<in>set (present v). length (snd e) < 2 ^ 32"
    using assms map_of_present [of v] distinct_present [of v] by (auto simp flip: map_of_eq_Some_iff)
  from entries_encoded [OF this, of "[]"] show ?thesis
    using length_present [of v] store_encoded [OF distinct_present, of v Map.empty]
    by (simp add: decode_def encode_def unat_of_nat_u32)
qed

section \<open>The contract of a clipboard\<close>

text \<open>
  \<open>view\<close> is what the clipboard holds, \<open>stamp\<close> the time it was last opened at. An open clipboard
  can be read, cleared and closed, one that was cleared can be added to.
\<close>

locale clipboard_contract =
  fixes ops :: "'c clipboard_ops"
    and view :: "'c \<Rightarrow> EFormat \<rightharpoonup> bytes"
    and opened :: "'c \<Rightarrow> bool"
    and owned :: "'c \<Rightarrow> bool"
    and stamp :: "'c \<Rightarrow> u32"
    and wf :: "'c \<Rightarrow> bool"
  assumes op_open: "wf c \<Longrightarrow> \<not> opened c \<Longrightarrow> \<exists>c'. op_open ops t c = Some (True, c') \<and> wf c' \<and>
      opened c' \<and> view c' = view c \<and> stamp c' = t \<and> op_getTime ops c' = op_getTime ops c"
    and op_clear: "wf c \<Longrightarrow> opened c \<Longrightarrow> \<exists>c'. op_clear ops c = Some (True, c') \<and> wf c' \<and>
      opened c' \<and> owned c' \<and> view c' = Map.empty \<and> op_getTime ops c' = stamp c"
    and op_add: "wf c \<Longrightarrow> opened c \<Longrightarrow> owned c \<Longrightarrow> \<exists>c'. op_add ops f d c = Some c' \<and> wf c' \<and>
      opened c' \<and> owned c' \<and> view c' = (view c)(f \<mapsto> d) \<and> op_getTime ops c' = op_getTime ops c"
    and op_close: "wf c \<Longrightarrow> opened c \<Longrightarrow> \<exists>c'. op_close ops c = Some c' \<and> wf c' \<and>
      \<not> opened c' \<and> view c' = view c \<and> op_getTime ops c' = op_getTime ops c"
    and op_has: "wf c \<Longrightarrow> opened c \<Longrightarrow> op_has ops f c = Some (view c f \<noteq> None)"
    and op_get: "wf c \<Longrightarrow> opened c \<Longrightarrow> view c f = Some d \<Longrightarrow> op_get ops f c = Some d"
begin

lemma unmarshall_loop_store:
  "wf c \<Longrightarrow> opened c \<Longrightarrow> owned c \<Longrightarrow>
   \<exists>c'. unmarshall_loop ops n bs c = Some c' \<and> wf c' \<and> opened c' \<and>
        view c' = store (entries n bs) (view c) \<and> op_getTime ops c' = op_getTime ops c"
proof (induction n arbitrary: bs c)
  case (Suc n)
  show ?case
  proof (cases "8 \<le> length bs \<and> unat (be32_hd (drop 4 bs)) \<le> length (drop 8 bs)")
    case False
    then show ?thesis using Suc.prems by (auto simp: Let_def)
  next
    case True
    let ?n = "unat (be32_hd (drop 4 bs))"
    show ?thesis
    proof (cases "format_of (be32_hd bs)")
      case None
      with True Suc.IH [OF Suc.prems, of "drop ?n (drop 8 bs)"] show ?thesis by (auto simp: Let_def)
    next
      case (Some f)
      from op_add [OF Suc.prems, of f "take ?n (drop 8 bs)"] obtain c1 where
        1: "op_add ops f (take ?n (drop 8 bs)) c = Some c1" "wf c1" "opened c1" "owned c1"
           "view c1 = (view c)(f \<mapsto> take ?n (drop 8 bs))" "op_getTime ops c1 = op_getTime ops c"
        by blast
      from Suc.IH [OF 1(2-4), of "drop ?n (drop 8 bs)"] True Some 1 show ?thesis by (auto simp: Let_def simp del: fun_upd_apply)
    qed
  qed
qed auto

text \<open>Unmarshalling never fails, whatever the data, and stores exactly its complete entries.\<close>

lemma unmarshall_decodes:
  assumes "wf c" "\<not> opened c"
  shows "\<exists>c'. unmarshall ops bs t c = Some c' \<and> wf c' \<and> \<not> opened c' \<and> view c' = decode bs \<and>
     op_getTime ops c' = t"
proof -
  from op_open [OF assms, of t] obtain c1 where
    1: "op_open ops t c = Some (True, c1)" "wf c1" "opened c1" "stamp c1 = t" by blast
  from op_clear [OF 1(2,3)] obtain c2 where
    2: "op_clear ops c1 = Some (True, c2)" "wf c2" "opened c2" "owned c2" "view c2 = Map.empty"
       "op_getTime ops c2 = t" using 1(4) by auto
  show ?thesis
  proof (cases "length bs < 4")
    case True
    then show ?thesis using op_close [OF 2(2,3)] 1 2 by (auto simp: unmarshall_def decode_def)
  next
    case False
    from unmarshall_loop_store [OF 2(2-4), of "unat (be32_hd bs)" "drop 4 bs"] 2(5,6) obtain c3 where
      3: "unmarshall_loop ops (unat (be32_hd bs)) (drop 4 bs) c2 = Some c3" "wf c3" "opened c3"
         "view c3 = decode bs" "op_getTime ops c3 = t"
      using False by (auto simp: decode_def)
    from op_close [OF 3(2,3)] 3 1 2 False show ?thesis by (auto simp: unmarshall_def)
  qed
qed

lemma collect_formats_present:
  assumes "wf c" "opened c"
  shows "collect_formats ops fs c =
    Some (of_nat (length (List.map_filter (\<lambda>f. map_option (Pair f) (view c f)) fs)),
          List.map_filter (\<lambda>f. map_option (Pair f) (view c f)) fs)"
  by (induction fs)
     (auto simp: op_has [OF assms] op_get [OF assms] List.map_filter_simps split: option.splits)

lemma write_formats_present:
  assumes "wf c" "opened c" "map_of ds = view c"
  shows "write_formats ops ds fs c data =
    Some (data @ concat (map encode_entry (List.map_filter (\<lambda>f. map_option (Pair f) (view c f)) fs)))"
  by (induction fs arbitrary: data)
     (auto simp: op_has [OF assms(1,2)] assms(3) encode_entry_def List.map_filter_simps Let_def
        split: option.splits)

lemma marshall_encodes:
  assumes "wf c" "\<not> opened c"
  shows "\<exists>c'. marshall ops c = Some (encode (view c), c') \<and> wf c' \<and> \<not> opened c' \<and> view c' = view c \<and>
     op_getTime ops c' = op_getTime ops c"
proof -
  from op_open [OF assms, of 0] obtain c1 where
    1: "op_open ops 0 c = Some (True, c1)" "wf c1" "opened c1" "view c1 = view c"
       "op_getTime ops c1 = op_getTime ops c" by blast
  have "write_formats ops (present (view c1)) all_formats c1 data =
      Some (data @ concat (map encode_entry (present (view c1))))" for data
    using write_formats_present [OF 1(2,3), of "present (view c1)"] by (simp add: present_def [symmetric])
  with collect_formats_present [OF 1(2,3), of all_formats] op_close [OF 1(2,3)] 1 show ?thesis
    by (auto simp: marshall_def encode_def present_def [symmetric])
qed

end

section \<open>The in-memory clipboard meets the contract\<close>

definition cb_view :: "clipboard \<Rightarrow> EFormat \<rightharpoonup> bytes" where
  "cb_view c f = (if m_added c f then Some (m_data c f) else None)"

interpretation cb: clipboard_contract cb_ops cb_view m_open m_owner m_time "\<lambda>_. True"
  by unfold_locales
     (auto simp: cb_ops_def cb_open_def cb_clear_def cb_add_def cb_close_def cb_has_def cb_get_def
        cb_getTime_def cb_view_def fun_eq_iff split: if_splits)

section \<open>Copying between two clipboards\<close>

locale clipboard_pair =
  dst: clipboard_contract dops dview dopened downed dstamp dwf +
  src: clipboard_contract sops sview sopened sowned sstamp swf
  for dops :: "'d clipboard_ops" and dview dopened downed dstamp dwf
    and sops :: "'s clipboard_ops" and sview sopened sowned sstamp swf
begin

lemma copy_formats_adds:
  assumes "swf s" "sopened s"
  shows "dwf d \<Longrightarrow> dopened d \<Longrightarrow> downed d \<Longrightarrow>
    \<exists>d'. copy_formats dops sops fs d s = Some d' \<and> dwf d' \<and> dopened d' \<and>
      dview d' = dview d ++ (sview s |` set fs) \<and> op_getTime dops d' = op_getTime dops d"
proof (induction fs arbitrary: d)
  case Nil
  then show ?case by simp
next
  case (Cons f fs)
  show ?case
  proof (cases "sview s f")
    case None
    then have "sview s |` set (f # fs) = sview s |` set fs" by (auto simp: restrict_map_def fun_eq_iff)
    with Cons.IH [OF Cons.prems] None show ?thesis by (simp add: src.op_has [OF assms])
  next
    case (Some x)
    from dst.op_add [OF Cons.prems, of f x] obtain d1 where
      1: "op_add dops f x d = Some d1" "dwf d1" "dopened d1" "downed d1" "dview d1 = (dview d)(f \<mapsto> x)"
         "op_getTime dops d1 = op_getTime dops d" by blast
    have "dview d1 ++ (sview s |` set fs) = dview d ++ (sview s |` set (f # fs))"
      using Some 1(5) by (auto simp: map_add_def restrict_map_def fun_eq_iff split: option.splits)
    with Cons.IH [OF 1(2-4)] 1(1,6) Some show ?thesis
      by (auto simp: src.op_has [OF assms] src.op_get [OF assms])
  qed
qed

lemma copy_at_copies:
  assumes "dwf d" "\<not> dopened d" "swf s" "\<not> sopened s"
  shows "\<exists>d' s'. copy_at dops sops t d s = Some (True, d', s') \<and> \<not> dopened d' \<and> \<not> sopened s' \<and>
    dview d' = sview s \<and> sview s' = sview s \<and> op_getTime dops d' = t"
proof -
  from src.op_open [OF assms(3,4), of t] obtain s1 where
    1: "op_open sops t s = Some (True, s1)" "swf s1" "sopened s1" "sview s1 = sview s" by blast
  from dst.op_open [OF assms(1,2), of t] obtain d1 where
    2: "op_open dops t d = Some (True, d1)" "dwf d1" "dopened d1" "dstamp d1 = t" by blast
  from dst.op_clear [OF 2(2,3)] 2(4) obtain d2 where
    3: "op_clear dops d1 = Some (True, d2)" "dwf d2" "dopened d2" "downed d2" "dview d2 = Map.empty"
       "op_getTime dops d2 = t" by blast
  from copy_formats_adds [OF 1(2,3) 3(2-4), of all_formats] 3(5,6) 1(4) obtain d3 where
    4: "copy_formats dops sops all_formats d2 s1 = Some d3" "dwf d3" "dopened d3" "dview d3 = sview s"
       "op_getTime dops d3 = t"
    by (auto simp: restrict_map_def)
  from dst.op_close [OF 4(2,3)] src.op_close [OF 1(2,3)] 1 2 3 4 show ?thesis
    by (auto simp: copy_at_def)
qed

end

interpretation cb_pair: clipboard_pair cb_ops cb_view m_open m_owner m_time "\<lambda>_. True"
  cb_ops cb_view m_open m_owner m_time "\<lambda>_. True"
  by unfold_locales

section \<open>Properties\<close>

text \<open>
  Marshalling a clipboard and unmarshalling the result into any other closed clipboard
  reproduces every format with its data and no other format, sets the time of the target and
  leaves both clipboards closed, for contents whose sizes fit the 32 bit size fields.
\<close>

theorem clipboard_marshall_roundtrip:
  assumes "\<not> m_open src" and "\<not> m_open dst"
    and "\<forall>f d. cb_view src f = Some d \<longrightarrow> length d < 2 ^ 32"
  shows "\<exists>data src' dst'. cb_marshall src = Some (data, src') \<and> cb_unmarshall data t dst = Some dst' \<and>
    cb_view dst' = cb_view src \<and> cb_view src' = cb_view src \<and> cb_getTime dst' = t \<and>
    \<not> m_open src' \<and> \<not> m_open dst'"
  using cb.marshall_encodes [OF _ assms(1)] cb.unmarshall_decodes [OF _ assms(2), of "encode (cb_view src)" t]
    decode_encode [OF assms(3)]
  by (auto simp: cb_marshall_def cb_unmarshall_def cb_ops_def)

text \<open>
  C15. Unmarshalling is total on network data: for every byte string the closed clipboard is
  opened, cleared, filled and closed without a failed assertion and without reading past the end,
  and it then holds exactly the known formats among the complete entries of the data (of entries
  with the same format the last one), nothing of its old contents and no truncated item.
\<close>

theorem clipboard_unmarshall_total:
  assumes "\<not> m_open c"
  shows "\<exists>c'. cb_unmarshall data t c = Some c' \<and> \<not> m_open c' \<and> cb_view c' = decode data \<and> cb_getTime c' = t"
  using cb.unmarshall_decodes [OF _ assms, of data t] by (auto simp: cb_unmarshall_def cb_ops_def)

text \<open>
  Copying between two distinct closed clipboards succeeds, makes the contents and the time of
  the target those of the source, drops what the target held before and closes both.
\<close>

theorem clipboard_copy_copies:
  assumes "\<not> m_open dst" and "\<not> m_open src"
  shows "\<exists>dst' src'. copy cb_ops cb_ops dst src = Some (True, dst', src') \<and> cb_view dst' = cb_view src \<and>
    cb_view src' = cb_view src \<and> cb_getTime dst' = cb_getTime src \<and> \<not> m_open dst' \<and> \<not> m_open src'"
  using cb_pair.copy_at_copies [OF _ assms(1) _ assms(2), of "cb_getTime src"]
  by (auto simp: copy_def cb_ops_def)

text \<open>Witnesses: a clipboard holding one text, and marshalled data cut short.\<close>

definition demo_clip :: clipboard where
  "demo_clip = cb_new\<lparr>m_timeOwned := 3, m_added := (\<lambda>f. f = kText), m_data := (\<lambda>f. if f = kText then [104, 105] else [])\<rparr>"

theorem clipboard_marshall_roundtrip_witness:
  "\<exists>data src' dst'. cb_marshall demo_clip = Some (data, src') \<and> cb_unmarshall data 9 cb_new = Some dst' \<and>
    cb_view dst' kText = Some [104, 105] \<and> cb_view dst' kHTML = None \<and> cb_getTime dst' = 9"
proof -
  have "\<not> m_open demo_clip" "\<not> m_open cb_new" "\<forall>f d. cb_view demo_clip f = Some d \<longrightarrow> length d < 2 ^ 32"
    by (simp_all add: demo_clip_def cb_new_def cb_view_def)
  moreover have "cb_view demo_clip kText = Some [104, 105]" "cb_view demo_clip kHTML = None"
    by (simp_all add: demo_clip_def cb_view_def)
  ultimately show ?thesis using clipboard_marshall_roundtrip [of demo_clip cb_new 9] by metis
qed

theorem clipboard_unmarshall_total_witness:
  "\<exists>c'. cb_unmarshall [0, 0, 0, 2, 0, 0, 0, 0, 0, 0, 0, 1, 65, 0, 0] 5 cb_new = Some c' \<and>
     cb_view c' kText = Some [65] \<and> cb_view c' kHTML = None \<and> cb_getTime c' = 5"
proof -
  have "decode [0, 0, 0, 2, 0, 0, 0, 0, 0, 0, 0, 1, 65, 0, 0] = [kText \<mapsto> [65]]"
  proof -
    have "entries (unat (be32_hd [0, 0, 0, 2, 0, 0, 0, 0, 0, 0, 0, 1, 65, 0, 0]))
        [0, 0, 0, 0, 0, 0, 0, 1, 65, 0, 0] = [(0, [65])]"
      by code_simp
    then show ?thesis by (simp add: decode_def format_of_def all_formats_def)
  qed
  moreover have "\<not> m_open cb_new" by (simp add: cb_new_def)
  ultimately show ?thesis
    using clipboard_unmarshall_total [of cb_new "[0, 0, 0, 2, 0, 0, 0, 0, 0, 0, 0, 1, 65, 0, 0]" 5] by force
qed

theorem clipboard_copy_copies_witness:
  "\<exists>dst' src'. copy cb_ops cb_ops cb_new demo_clip = Some (True, dst', src') \<and>
     cb_view dst' kText = Some [104, 105] \<and> cb_getTime dst' = 3"
proof -
  have "\<not> m_open demo_clip" "\<not> m_open cb_new" by (simp_all add: demo_clip_def cb_new_def)
  moreover have "cb_view demo_clip kText = Some [104, 105]" "cb_getTime demo_clip = 3"
    by (simp_all add: demo_clip_def cb_view_def cb_getTime_def)
  ultimately show ?thesis using clipboard_copy_copies [of cb_new demo_clip] by metis
qed

end
