(* ===== verification/Unicode.thy ===== *)
theory Unicode
  imports IL_Prelude
begin

text \<open>
  \<^verbatim>\<open>src/lib/base/Unicode.cpp\<close>: the conversions between UTF-8 and UCS-2, UCS-4, UTF-16 and
  UTF-32. Strings are byte lists; the unions and the appended integers of the sources use the
  byte order of the host, which is little-endian here. A function with an \<open>errors\<close> argument
  returns the flag beside its result (an absent flag is one nobody reads). The conversions to and
  from the locale's multibyte encoding rest on the C library's locale tables and are left out.
\<close>

section \<open>Native integers\<close>

definition decode16 :: "u8 \<Rightarrow> u8 \<Rightarrow> bool \<Rightarrow> u16" where
  "decode16 n0 n1 byteSwapped =
     (if byteSwapped then be16_join n0 n1 else be16_join n1 n0)"

definition decode32 :: "u8 \<Rightarrow> u8 \<Rightarrow> u8 \<Rightarrow> u8 \<Rightarrow> bool \<Rightarrow> u32" where
  "decode32 n0 n1 n2 n3 byteSwapped =
     (if byteSwapped then be32_join n0 n1 n2 n3 else be32_join n3 n2 n1 n0)"

definition native16 :: "u16 \<Rightarrow> bytes" where
  "native16 v = rev (be16_split v)"

definition native32 :: "u32 \<Rightarrow> bytes" where
  "native32 v = rev (be32_split v)"

section \<open>UTF-8\<close>

definition s_invalid :: u32 where "s_invalid = 0xffff"
definition s_replacement :: u32 where "s_replacement = 0xfffd"

text \<open>The length of a sequence from its first byte; 0 for a byte that cannot start one.\<close>

definition utf8_size :: "u8 \<Rightarrow> nat" where
  "utf8_size b =
     (if b < 0x80 then 1 else if b < 0xc0 then 0 else if b < 0xe0 then 2 else if b < 0xf0 then 3
      else if b < 0xf8 then 4 else if b < 0xfc then 5 else if b < 0xfe then 6 else 0)"

definition low6 :: "u8 \<Rightarrow> u32" where
  "low6 b = ucast b AND 0x3f"

definition utf8_char :: "nat \<Rightarrow> bytes \<Rightarrow> u32" where
  "utf8_char sz d =
     (if sz = 1 then ucast (d ! 0)
      else if sz = 2 then push_bit 6 (ucast (d ! 0) AND 0x1f) OR low6 (d ! 1)
      else if sz = 3 then push_bit 12 (ucast (d ! 0) AND 0x0f) OR push_bit 6 (low6 (d ! 1)) OR low6 (d ! 2)
      else if sz = 4 then push_bit 18 (ucast (d ! 0) AND 0x07) OR push_bit 12 (low6 (d ! 1)) OR
             push_bit 6 (low6 (d ! 2)) OR low6 (d ! 3)
      else if sz = 5 then push_bit 24 (ucast (d ! 0) AND 0x03) OR push_bit 18 (low6 (d ! 1)) OR
             push_bit 12 (low6 (d ! 2)) OR push_bit 6 (low6 (d ! 3)) OR low6 (d ! 4)
      else push_bit 30 (ucast (d ! 0) AND 0x01) OR push_bit 24 (low6 (d ! 1)) OR
             push_bit 18 (low6 (d ! 2)) OR push_bit 12 (low6 (d ! 3)) OR push_bit 6 (low6 (d ! 4)) OR
             low6 (d ! 5))"

text \<open>
  The fall-through switch that checks the bytes after the first, from the last to the second: the
  size shrinks to the position of the earliest byte that is no continuation.
\<close>

fun utf8_truncate :: "nat \<Rightarrow> bytes \<Rightarrow> bool \<times> nat \<Rightarrow> bool \<times> nat" where
  "utf8_truncate k d r =
     (if k \<le> 1 then r
      else utf8_truncate (k - 1) d (if (d ! (k - 1)) AND 0xc0 \<noteq> 0x80 then (True, k - 1) else r))"

declare utf8_truncate.simps [simp del]

definition s_minChar :: "u32 list" where
  "s_minChar = [0, 0, 0x80, 0x800, 0x10000, 0x200000, 0x4000000]"

text \<open>\<open>fromUTF8\<close>: the character and the rest of the data; \<open>None\<close> is the failed assertion on no data.\<close>

definition fromUTF8 :: "bytes \<Rightarrow> (u32 \<times> bytes) option" where
  "fromUTF8 d =
     (case d of
        [] \<Rightarrow> None
      | b # bs \<Rightarrow>
          (let sz = utf8_size b
           in if sz = 0 then Some (s_invalid, bs)
              else if length d < sz then Some (s_invalid, [])
              else
                let c = utf8_char sz d;
                    (truncated, sz') = utf8_truncate sz d (False, sz);
                    rest = drop sz' d
                in if truncated then Some (s_invalid, rest)
                   else if c < s_minChar ! sz' then Some (s_invalid, rest)
                   else if 0xd800 \<le> c \<and> c \<le> 0xdfff then Some (s_invalid, rest)
                   else if 0xfffe \<le> c \<and> c \<le> 0xffff then Some (s_invalid, rest)
                   else Some (c, rest)))"

text \<open>\<open>toUTF8\<close>: the bytes appended and the error flag. Every caller passes a 32 bit character.\<close>

definition cont :: "u32 \<Rightarrow> u8" where
  "cont w = ucast ((w AND 0x3f) + 0x80)"

definition toUTF8 :: "u32 \<Rightarrow> bytes \<times> bool" where
  "toUTF8 c0 =
     (let bad = (0xd800 \<le> c0 \<and> c0 \<le> 0xdfff \<or> 0x80000000 \<le> c0);
          c = (if bad then s_replacement else c0)
      in (if c < 0x80 then [ucast c]
          else if c < 0x800 then [ucast ((drop_bit 6 c AND 0x1f) + 0xc0), cont c]
          else if c < 0x10000 then
            [ucast ((drop_bit 12 c AND 0x0f) + 0xe0), cont (drop_bit 6 c), cont c]
          else if c < 0x200000 then
            [ucast ((drop_bit 18 c AND 0x07) + 0xf0), cont (drop_bit 12 c), cont (drop_bit 6 c), cont c]
          else if c < 0x4000000 then
            [ucast ((drop_bit 24 c AND 0x03) + 0xf8), cont (drop_bit 18 c), cont (drop_bit 12 c),
             cont (drop_bit 6 c), cont c]
          else
            [ucast ((drop_bit 30 c AND 0x01) + 0xfc), cont (drop_bit 24 c), cont (drop_bit 18 c),
             cont (drop_bit 12 c), cont (drop_bit 6 c), cont c], bad))"

lemma utf8_truncate_range:
  "1 \<le> snd r \<Longrightarrow> 1 \<le> snd (utf8_truncate k d r) \<and> snd (utf8_truncate k d r) \<le> max k (snd r)"
proof (induction k d r rule: utf8_truncate.induct)
  case (1 k d r)
  then show ?case by (subst (1 2) utf8_truncate.simps) fastforce
qed

text \<open>Every call of \<open>fromUTF8\<close> on data takes at least one byte, so its loops end.\<close>

lemma utf8_size_range: "utf8_size b \<le> 6"
  by (simp add: utf8_size_def)

lemma fromUTF8_shorter:
  assumes "fromUTF8 d = Some (c, rest)"
  shows "length rest < length d \<and> (\<exists>k. 1 \<le> k \<and> rest = drop k d)"
proof -
  from assms obtain b bs where d: "d = b # bs" by (cases d) (auto simp: fromUTF8_def)
  show ?thesis
  proof (cases "utf8_size b = 0 \<or> length d < utf8_size b")
    case True
    then show ?thesis using assms d
      by (auto simp: fromUTF8_def Let_def split: if_splits intro: exI [of _ 1] exI [of _ "length d"])
  next
    case False
    obtain t k where t: "utf8_truncate (utf8_size b) d (False, utf8_size b) = (t, k)" by fastforce
    have "1 \<le> k" using utf8_truncate_range [of "(False, utf8_size b)" "utf8_size b" d] False t by auto
    moreover have "rest = drop k d"
      using assms False t d by (auto simp: fromUTF8_def Let_def split: if_splits)
    ultimately show ?thesis using d by auto
  qed
qed

section \<open>Loops over a UTF-8 string\<close>

function isUTF8 :: "bytes \<Rightarrow> bool" where
  "isUTF8 src =
     (case fromUTF8 src of
        None \<Rightarrow> True
      | Some (c, rest) \<Rightarrow> if c = s_invalid then False else isUTF8 rest)"
  by pat_completeness auto
termination by (relation "measure length") (auto dest: fromUTF8_shorter)

text \<open>The characters the conversion loops see, in order.\<close>

function utf8_chars :: "bytes \<Rightarrow> u32 list" where
  "utf8_chars src =
     (case fromUTF8 src of
        None \<Rightarrow> []
      | Some (c, rest) \<Rightarrow> c # utf8_chars rest)"
  by pat_completeness auto
termination by (relation "measure length") (auto dest: fromUTF8_shorter)

declare isUTF8.simps [simp del] utf8_chars.simps [simp del]

text \<open>The bodies of the four loops: what one character appends and whether it sets the flag.\<close>

definition ucs2_char :: "u32 \<Rightarrow> bytes \<times> bool" where
  "ucs2_char c =
     (let bad = (c \<noteq> s_invalid \<and> 0x10000 \<le> c)
      in (native16 (ucast (if c = s_invalid \<or> bad then s_replacement else c)), bad))"

definition ucs4_char :: "u32 \<Rightarrow> bytes \<times> bool" where
  "ucs4_char c = (native32 (if c = s_invalid then s_replacement else c), False)"

definition utf16_char :: "u32 \<Rightarrow> bytes \<times> bool" where
  "utf16_char c0 =
     (let bad = (c0 \<noteq> s_invalid \<and> 0x110000 \<le> c0);
          c = (if c0 = s_invalid \<or> bad then s_replacement else c0)
      in (if c < 0x10000 then native16 (ucast c)
          else native16 (ucast (drop_bit 10 (c - 0x10000) + 0xd800)) @
               native16 (ucast ((c - 0x10000 AND 0x3ff) + 0xdc00)), bad))"

definition utf32_char :: "u32 \<Rightarrow> bytes \<times> bool" where
  "utf32_char c =
     (let bad = (c \<noteq> s_invalid \<and> 0x110000 \<le> c)
      in (native32 (if c = s_invalid \<or> bad then s_replacement else c), bad))"

definition convert_chars :: "(u32 \<Rightarrow> bytes \<times> bool) \<Rightarrow> u32 list \<Rightarrow> bytes \<times> bool" where
  "convert_chars f cs = (concat (map (\<lambda>c. fst (f c)) cs), list_ex (\<lambda>c. snd (f c)) cs)"

definition UTF8ToUCS2 :: "bytes \<Rightarrow> bytes \<times> bool" where
  "UTF8ToUCS2 src = convert_chars ucs2_char (utf8_chars src)"

definition UTF8ToUCS4 :: "bytes \<Rightarrow> bytes \<times> bool" where
  "UTF8ToUCS4 src = convert_chars ucs4_char (utf8_chars src)"

definition UTF8ToUTF16 :: "bytes \<Rightarrow> bytes \<times> bool" where
  "UTF8ToUTF16 src = convert_chars utf16_char (utf8_chars src)"

definition UTF8ToUTF32 :: "bytes \<Rightarrow> bytes \<times> bool" where
  "UTF8ToUTF32 src = convert_chars utf32_char (utf8_chars src)"

section \<open>Conversions to UTF-8\<close>

text \<open>The input cut into integers; a last incomplete one is dropped by the division of the size.\<close>

fun words16 :: "bool \<Rightarrow> bytes \<Rightarrow> u16 list" where
  "words16 sw (a # b # bs) = decode16 a b sw # words16 sw bs"
| "words16 sw _ = []"

fun words32 :: "bool \<Rightarrow> bytes \<Rightarrow> u32 list" where
  "words32 sw (a # b # c # d # bs) = decode32 a b c d sw # words32 sw bs"
| "words32 sw _ = []"

text \<open>The byte order mark: whether to swap, and the data behind it.\<close>

definition bom16 :: "bytes \<Rightarrow> bool \<times> bytes" where
  "bom16 d =
     (case words16 False d of
        [] \<Rightarrow> (False, d)
      | w # _ \<Rightarrow> if w = 0xfeff then (False, drop 2 d) else if w = 0xfffe then (True, drop 2 d) else (False, d))"

definition bom32 :: "bytes \<Rightarrow> bool \<times> bytes" where
  "bom32 d =
     (case words32 False d of
        [] \<Rightarrow> (False, d)
      | w # _ \<Rightarrow> if w = 0xfeff then (False, drop 4 d) else if w = 0xfffe then (True, drop 4 d) else (False, d))"

definition doUCS2ToUTF8 :: "bytes \<Rightarrow> bytes \<times> bool" where
  "doUCS2ToUTF8 d =
     (case bom16 d of (sw, r) \<Rightarrow> convert_chars toUTF8 (map ucast (words16 sw r)))"

definition doUCS4ToUTF8 :: "bytes \<Rightarrow> bytes \<times> bool" where
  "doUCS4ToUTF8 d =
     (case bom32 d of (sw, r) \<Rightarrow> convert_chars toUTF8 (words32 sw r))"

fun utf16_loop :: "u32 list \<Rightarrow> bytes \<times> bool" where
  "utf16_loop [] = ([], False)"
| "utf16_loop (c # cs) =
     (if c < 0xd800 \<or> 0xdfff < c then
        (case utf16_loop cs of (dst, e) \<Rightarrow> (fst (toUTF8 c) @ dst, snd (toUTF8 c) \<or> e))
      else
        (case cs of
           [] \<Rightarrow> (fst (toUTF8 s_replacement), True)
         | c2 # cs' \<Rightarrow>
             if 0xd800 \<le> c \<and> c \<le> 0xdbff then
               (if c2 < 0xdc00 \<or> 0xdfff < c2
                then (case utf16_loop cs' of (dst, e) \<Rightarrow> (fst (toUTF8 s_replacement) @ dst, True))
                else
                  let c' = (push_bit 10 (c - 0xd800) OR (c2 - 0xdc00)) + 0x10000
                  in case utf16_loop cs' of (dst, e) \<Rightarrow> (fst (toUTF8 c') @ dst, snd (toUTF8 c') \<or> e))
             else (case utf16_loop cs of (dst, e) \<Rightarrow> (fst (toUTF8 s_replacement) @ dst, True))))"

definition doUTF16ToUTF8 :: "bytes \<Rightarrow> bytes \<times> bool" where
  "doUTF16ToUTF8 d =
     (case bom16 d of (sw, r) \<Rightarrow> utf16_loop (map ucast (words16 sw r)))"

definition doUTF32ToUTF8 :: "bytes \<Rightarrow> bytes \<times> bool" where
  "doUTF32ToUTF8 d =
     (case bom32 d of (sw, r) \<Rightarrow>
        convert_chars (\<lambda>c. if 0x110000 \<le> c then (fst (toUTF8 s_replacement), True) else toUTF8 c) (words32 sw r))"

definition UCS2ToUTF8 :: "bytes \<Rightarrow> bytes \<times> bool" where
  "UCS2ToUTF8 src = doUCS2ToUTF8 src"

definition UCS4ToUTF8 :: "bytes \<Rightarrow> bytes \<times> bool" where
  "UCS4ToUTF8 src = doUCS4ToUTF8 src"

definition UTF16ToUTF8 :: "bytes \<Rightarrow> bytes \<times> bool" where
  "UTF16ToUTF8 src = doUTF16ToUTF8 src"

definition UTF32ToUTF8 :: "bytes \<Rightarrow> bytes \<times> bool" where
  "UTF32ToUTF8 src = doUTF32ToUTF8 src"

section \<open>Bits of the encoded bytes\<close>

lemma masks32:
  "(0x3f :: u32) = mask 6" "(0x1f :: u32) = mask 5" "(0x0f :: u32) = mask 4" "(0x07 :: u32) = mask 3"
  "(0x03 :: u32) = mask 2" "(0x01 :: u32) = mask 1" "(0x3ff :: u32) = mask 10"
  by (simp_all add: mask_eq_exp_minus_1)

lemma high_bits_clear:
  assumes "(c :: u32) < 2 ^ k" "k < 32" "k \<le> n"
  shows "\<not> bit c n"
proof
  assume "bit c n"
  then have "bit (unat c) n" by (simp add: bit_unsigned_iff)
  moreover have "unat (2 ^ k :: u32) = 2 ^ k"
    using unat_of_nat_u32 [of "2 ^ k"] power_strict_increasing [OF assms(2), of "2 :: nat"] by simp
  then have "unat c < 2 ^ k" using assms(1) by (simp add: word_less_nat_alt)
  then have "take_bit k (unat c) = unat c" by (simp add: take_bit_nat_eq_self)
  ultimately show False using assms(3) by (metis bit_take_bit_iff not_less)
qed

lemma unat_ucast_u8 [simp]: "unat (ucast (b :: u8) :: u32) = unat b"
proof -
  have "unat b < 2 ^ 8" using unsigned_less [of b] by simp
  then show ?thesis by (simp add: unsigned_ucast_eq take_bit_nat_eq_self)
qed

lemma unat_and_mask: "unat (w AND mask k :: 'a::len word) = unat w mod 2 ^ k"
  by (simp add: unsigned_and_eq flip: take_bit_eq_mask unsigned_take_bit_eq take_bit_eq_mod)

lemma unat_cont: "unat (cont w) = unat w mod 64 + 128"
proof -
  have "unat (w AND 0x3f) = unat w mod 64" unfolding masks32 unat_and_mask by simp
  then show ?thesis by (simp add: cont_def unsigned_ucast_eq unat_word_ariths take_bit_eq_mod)
qed

text \<open>A first byte: a tag and the \<open>k\<close> high bits of the character.\<close>

lemma unat_lead:
  assumes "base + 2 ^ k \<le> 256"
  shows "unat (ucast ((w AND mask k :: u32) + of_nat base) :: u8) = unat w mod 2 ^ k + base"
proof -
  have "unat w mod 2 ^ k < 2 ^ k" by simp
  then have l: "unat w mod 2 ^ k + base < 256" using assms by linarith
  have "unat ((w AND mask k :: u32) + of_nat base) = unat w mod 2 ^ k + base"
    using l assms by (simp add: unat_word_ariths unat_and_mask unat_of_nat take_bit_eq_mod)
  then show ?thesis using l by (simp add: unsigned_ucast_eq take_bit_eq_mod)
qed

lemma mod64_tag: "(x mod 64 + 128) mod 64 = (x :: nat) mod 64"
  using mod_mult_self2 [of "x mod 64" 64 2] by simp

lemma low6_cont [simp]: "low6 (cont w) = w AND 0x3f"
proof -
  have "unat (low6 (cont w)) = unat (cont w) mod 2 ^ 6"
    by (simp add: low6_def masks32 unat_and_mask)
  also have "\<dots> = unat (w AND 0x3f)"
    by (simp add: unat_cont masks32 unat_and_mask mod64_tag)
  finally show ?thesis by (simp add: word_unat_eq_iff)
qed

lemma cont_tag [simp]: "cont w AND 0xc0 = 0x80"
proof -
  have "unat (drop_bit 6 (cont w)) = unat (cont w) div 64"
    by (simp only: unsigned_drop_bit_eq) (simp add: drop_bit_eq_div take_bit_eq_mod unat_cont)
  then have "drop_bit 6 (cont w) = 2" by (simp only: word_unat_eq_iff) (simp add: unat_cont)
  moreover have "cont w AND push_bit 6 (mask 2) = push_bit 6 (drop_bit 6 (cont w) AND mask 2)"
    by (rule bit_word_eqI) (auto simp: bit_simps)
  ultimately show ?thesis by (simp add: mask_eq_exp_minus_1)
qed

text \<open>The character put together again from its pieces.\<close>

lemma join2:
  assumes "c < 0x800"
  shows "push_bit 6 (drop_bit 6 c AND 0x1f) OR (c AND 0x3f) = (c :: u32)" (is "?l = c")
proof (rule bit_word_eqI)
  fix n :: nat
  consider "n < 6" | "6 \<le> n" "n < 11" | "11 \<le> n" by fastforce
  then show "bit ?l n = bit c n"
    using high_bits_clear [of c 11 n] assms unfolding masks32 by cases (auto simp: bit_simps)
qed

lemma join3:
  assumes "c < 0x10000"
  shows "push_bit 12 (drop_bit 12 c AND 0x0f) OR push_bit 6 (drop_bit 6 c AND 0x3f) OR (c AND 0x3f) = (c :: u32)"
    (is "?l = c")
proof (rule bit_word_eqI)
  fix n :: nat
  consider "n < 6" | "6 \<le> n" "n < 12" | "12 \<le> n" "n < 16" | "16 \<le> n" by fastforce
  then show "bit ?l n = bit c n"
    using high_bits_clear [of c 16 n] assms unfolding masks32 by cases (auto simp: bit_simps)
qed

lemma join4:
  assumes "c < 0x200000"
  shows "push_bit 18 (drop_bit 18 c AND 0x07) OR push_bit 12 (drop_bit 12 c AND 0x3f) OR
    push_bit 6 (drop_bit 6 c AND 0x3f) OR (c AND 0x3f) = (c :: u32)" (is "?l = c")
proof (rule bit_word_eqI)
  fix n :: nat
  consider "n < 6" | "6 \<le> n" "n < 12" | "12 \<le> n" "n < 18" | "18 \<le> n" "n < 21" | "21 \<le> n" by fastforce
  then show "bit ?l n = bit c n"
    using high_bits_clear [of c 21 n] assms unfolding masks32 by cases (auto simp: bit_simps)
qed

lemma join5:
  assumes "c < 0x4000000"
  shows "push_bit 24 (drop_bit 24 c AND 0x03) OR push_bit 18 (drop_bit 18 c AND 0x3f) OR
    push_bit 12 (drop_bit 12 c AND 0x3f) OR push_bit 6 (drop_bit 6 c AND 0x3f) OR (c AND 0x3f) = (c :: u32)"
    (is "?l = c")
proof (rule bit_word_eqI)
  fix n :: nat
  consider "n < 6" | "6 \<le> n" "n < 12" | "12 \<le> n" "n < 18" | "18 \<le> n" "n < 24" | "24 \<le> n" "n < 26" | "26 \<le> n"
    by fastforce
  then show "bit ?l n = bit c n"
    using high_bits_clear [of c 26 n] assms unfolding masks32 by cases (auto simp: bit_simps)
qed

lemma join6:
  assumes "c < 0x80000000"
  shows "push_bit 30 (drop_bit 30 c AND 0x01) OR push_bit 24 (drop_bit 24 c AND 0x3f) OR
    push_bit 18 (drop_bit 18 c AND 0x3f) OR push_bit 12 (drop_bit 12 c AND 0x3f) OR
    push_bit 6 (drop_bit 6 c AND 0x3f) OR (c AND 0x3f) = (c :: u32)" (is "?l = c")
proof (rule bit_word_eqI)
  fix n :: nat
  consider "n < 6" | "6 \<le> n" "n < 12" | "12 \<le> n" "n < 18" | "18 \<le> n" "n < 24" | "24 \<le> n" "n < 30"
    | "n = 30" | "31 \<le> n"
    by fastforce
  then show "bit ?l n = bit c n"
    using high_bits_clear [of c 31 n] assms unfolding masks32 by cases (auto simp: bit_simps)
qed


section \<open>Encoding and decoding one character\<close>

lemma utf8_truncate_ok:
  "(\<And>i. 1 \<le> i \<Longrightarrow> i < k \<Longrightarrow> (d ! i) AND 0xc0 = 0x80) \<Longrightarrow> utf8_truncate k d r = r"
proof (induction k d r rule: utf8_truncate.induct)
  case (1 k d r)
  then show ?case by (subst utf8_truncate.simps) auto
qed

text \<open>The two facts about a first byte that decoding needs: its size class and its payload.\<close>

lemma unat_leads:
  "unat (ucast ((w AND 0x1f :: u32) + 0xc0) :: u8) = unat w mod 32 + 0xc0"
  "unat (ucast ((w AND 0x0f :: u32) + 0xe0) :: u8) = unat w mod 16 + 0xe0"
  "unat (ucast ((w AND 0x07 :: u32) + 0xf0) :: u8) = unat w mod 8 + 0xf0"
  "unat (ucast ((w AND 0x03 :: u32) + 0xf8) :: u8) = unat w mod 4 + 0xf8"
  "unat (ucast ((w AND 0x01 :: u32) + 0xfc) :: u8) = unat w mod 2 + 0xfc"
  using unat_lead [where base = "0xc0" and k = 5 and w = w] unat_lead [where base = "0xe0" and k = 4 and w = w]
    unat_lead [where base = "0xf0" and k = 3 and w = w] unat_lead [where base = "0xf8" and k = 2 and w = w]
    unat_lead [where base = "0xfc" and k = 1 and w = w]
  by (simp_all add: mask_eq_exp_minus_1)

lemma lead_size:
  "utf8_size (ucast ((w AND 0x1f :: u32) + 0xc0)) = 2"
  "utf8_size (ucast ((w AND 0x0f :: u32) + 0xe0)) = 3"
  "utf8_size (ucast ((w AND 0x07 :: u32) + 0xf0)) = 4"
  "utf8_size (ucast ((w AND 0x03 :: u32) + 0xf8)) = 5"
  "utf8_size (ucast ((w AND 0x01 :: u32) + 0xfc)) = 6"
  by (simp_all only: utf8_size_def word_less_nat_alt unat_leads)
     (simp_all add: not_less trans_less_add1 add_less_mono1)

lemma and_u32_eqI:
  "unat a mod 2 ^ k = unat b mod 2 ^ k \<Longrightarrow> a AND mask k = (b :: u32) AND mask k"
  by (simp only: word_unat_eq_iff unat_and_mask)

lemma tagged_payload:
  "unat (b :: u8) = unat w mod 2 ^ k + 2 ^ k * j \<Longrightarrow> ucast b AND mask k = (w :: u32) AND mask k"
  by (rule and_u32_eqI) simp

lemma lead_payload:
  "ucast (ucast ((w AND 0x1f :: u32) + 0xc0) :: u8) AND 0x1f = w AND 0x1f"
  "ucast (ucast ((w AND 0x0f :: u32) + 0xe0) :: u8) AND 0x0f = w AND 0x0f"
  "ucast (ucast ((w AND 0x07 :: u32) + 0xf0) :: u8) AND 0x07 = w AND 0x07"
  "ucast (ucast ((w AND 0x03 :: u32) + 0xf8) :: u8) AND 0x03 = w AND 0x03"
  "ucast (ucast ((w AND 0x01 :: u32) + 0xfc) :: u8) AND 0x01 = w AND 0x01"
proof -
  show "ucast (ucast ((w AND 0x1f :: u32) + 0xc0) :: u8) AND 0x1f = w AND 0x1f"
    using tagged_payload [where k = 5 and j = 6, of _ w, OF trans [OF unat_leads(1)]] by (simp add: mask_eq_exp_minus_1)
  show "ucast (ucast ((w AND 0x0f :: u32) + 0xe0) :: u8) AND 0x0f = w AND 0x0f"
    using tagged_payload [where k = 4 and j = 14, of _ w, OF trans [OF unat_leads(2)]] by (simp add: mask_eq_exp_minus_1)
  show "ucast (ucast ((w AND 0x07 :: u32) + 0xf0) :: u8) AND 0x07 = w AND 0x07"
    using tagged_payload [where k = 3 and j = 30, of _ w, OF trans [OF unat_leads(3)]] by (simp add: mask_eq_exp_minus_1)
  show "ucast (ucast ((w AND 0x03 :: u32) + 0xf8) :: u8) AND 0x03 = w AND 0x03"
    using tagged_payload [where k = 2 and j = 62, of _ w, OF trans [OF unat_leads(4)]] by (simp add: mask_eq_exp_minus_1)
  show "ucast (ucast ((w AND 0x01 :: u32) + 0xfc) :: u8) AND 0x01 = w AND 0x01"
    using tagged_payload [where k = 1 and j = 126, of _ w, OF trans [OF unat_leads(5)]] by (simp add: mask_eq_exp_minus_1)
qed

text \<open>The characters UTF-8 carries here: 31 bits, no surrogates, and not the two markers.\<close>

definition utf8_ok :: "u32 \<Rightarrow> bool" where
  "utf8_ok c \<longleftrightarrow> c < 0x80000000 \<and> \<not> (0xd800 \<le> c \<and> c \<le> 0xdfff) \<and> \<not> (0xfffe \<le> c \<and> c \<le> 0xffff)"

text \<open>A complete sequence: a first byte and as many continuation bytes as it announces.\<close>

lemma fromUTF8_sequence:
  assumes "utf8_size b = Suc (length ts)" "\<forall>t\<in>set ts. t AND 0xc0 = 0x80"
    "utf8_char (Suc (length ts)) (b # ts @ rest) = c"
  shows "fromUTF8 (b # ts @ rest) =
    Some (if s_minChar ! Suc (length ts) \<le> c \<and> \<not> (0xd800 \<le> c \<and> c \<le> 0xdfff) \<and> \<not> (0xfffe \<le> c \<and> c \<le> 0xffff)
          then c else s_invalid, rest)"
proof -
  have "utf8_truncate (Suc (length ts)) (b # ts @ rest) r = r" for r
    by (rule utf8_truncate_ok) (use assms(2) in \<open>auto simp: nth_Cons nth_append split: nat.splits\<close>)
  then show ?thesis using assms(1,3) by (auto simp: fromUTF8_def not_le)
qed

lemma toUTF8_form:
  assumes "utf8_ok c"
  obtains b ts where "fst (toUTF8 c) = b # ts" "utf8_size b = Suc (length ts)" "\<forall>t\<in>set ts. t AND 0xc0 = 0x80"
    "\<And>rest. utf8_char (Suc (length ts)) (b # ts @ rest) = c" "s_minChar ! Suc (length ts) \<le> c"
    "snd (toUTF8 c) = False"
proof -
  have ok: "\<not> (0xd800 \<le> c \<and> c \<le> 0xdfff \<or> 0x80000000 \<le> c)" "c < 0x80000000"
    using assms by (auto simp: utf8_ok_def)
  note enc = toUTF8_def Let_def utf8_char_def s_minChar_def
  consider "c < 0x80" | "\<not> c < 0x80" "c < 0x800" | "\<not> c < 0x80" "\<not> c < 0x800" "c < 0x10000"
    | "\<not> c < 0x80" "\<not> c < 0x800" "\<not> c < 0x10000" "c < 0x200000"
    | "\<not> c < 0x80" "\<not> c < 0x800" "\<not> c < 0x10000" "\<not> c < 0x200000" "c < 0x4000000"
    | "\<not> c < 0x80" "\<not> c < 0x800" "\<not> c < 0x10000" "\<not> c < 0x200000" "\<not> c < 0x4000000"
    by blast
  then show ?thesis
  proof cases
    case 1
    have u: "unat (ucast c :: u8) = unat c"
      using 1 by (simp add: word_less_nat_alt unsigned_ucast_eq take_bit_nat_eq_self)
    then have "(ucast (ucast c :: u8) :: u32) = c" by (simp only: word_unat_eq_iff unat_ucast_u8)
    moreover have "utf8_size (ucast c) = 1" using 1 u by (simp add: utf8_size_def word_less_nat_alt)
    ultimately show ?thesis using 1 ok by (intro that [of "ucast c" "[]"]) (auto simp: enc)
  next
    case 2
    then show ?thesis using ok
      by (intro that [of _ "[cont c]"]) (auto simp: enc lead_size lead_payload join2 not_less simp del: push_bit_and)
  next
    case 3
    then show ?thesis using ok
      by (intro that [of _ "[cont (drop_bit 6 c), cont c]"]) (auto simp: enc lead_size lead_payload join3 not_less simp del: push_bit_and)
  next
    case 4
    then show ?thesis using ok
      by (intro that [of _ "[cont (drop_bit 12 c), cont (drop_bit 6 c), cont c]"])
         (auto simp: enc lead_size lead_payload join4 not_less simp del: push_bit_and)
  next
    case 5
    then show ?thesis using ok
      by (intro that [of _ "[cont (drop_bit 18 c), cont (drop_bit 12 c), cont (drop_bit 6 c), cont c]"])
         (auto simp: enc lead_size lead_payload join5 not_less simp del: push_bit_and)
  next
    case 6
    then show ?thesis using ok
      by (intro that [of _ "[cont (drop_bit 24 c), cont (drop_bit 18 c), cont (drop_bit 12 c), cont (drop_bit 6 c), cont c]"])
         (auto simp: enc lead_size lead_payload join6 not_less simp del: push_bit_and)
  qed
qed

lemma fromUTF8_toUTF8:
  assumes "utf8_ok c"
  shows "fromUTF8 (fst (toUTF8 c) @ rest) = Some (c, rest)"
proof -
  from toUTF8_form [OF assms] obtain b ts where
    f: "fst (toUTF8 c) = b # ts" "utf8_size b = Suc (length ts)" "\<forall>t\<in>set ts. t AND 0xc0 = 0x80"
       "utf8_char (Suc (length ts)) (b # ts @ rest) = c" "s_minChar ! Suc (length ts) \<le> c"
    by metis
  from fromUTF8_sequence [OF f(2-4)] f(1,5) assms show ?thesis by (auto simp: utf8_ok_def)
qed

section \<open>The other direction: only shortest forms are accepted\<close>

text \<open>A byte that is a tag plus a payload is what the encoder makes of the payload.\<close>

lemma cont_low6:
  assumes "t AND 0xc0 = 0x80" "w AND 0x3f = low6 t"
  shows "cont w = t"
proof -
  have "t AND push_bit 6 (mask 2) = push_bit 6 (drop_bit 6 t AND mask 2)"
    by (rule bit_word_eqI) (auto simp: bit_simps)
  moreover have "drop_bit 6 t AND mask 2 = drop_bit 6 t"
    by (rule bit_word_eqI) (auto simp: bit_simps dest: bit_imp_le_length)
  ultimately have "push_bit 6 (drop_bit 6 t) = 0x80" using assms(1) by (simp add: mask_eq_exp_minus_1 del: push_bit_and)
  then have "drop_bit 6 (push_bit 6 (drop_bit 6 t)) = drop_bit 6 0x80" by (rule arg_cong)
  moreover have "drop_bit 6 (push_bit 6 (drop_bit 6 t)) = drop_bit 6 t"
    by (rule bit_word_eqI) (auto simp: bit_simps dest: bit_imp_le_length)
  ultimately have "drop_bit 6 t = 2" by simp
  then have "drop_bit 6 (unat t) = 2" by (simp only: unat_drop_bit_eq [symmetric]) simp
  then have "unat t div 64 = 2" by (simp add: drop_bit_eq_div)
  moreover have "unat w mod 64 = unat t mod 64"
    using arg_cong [OF assms(2), of unat] by (simp add: low6_def masks32 unat_and_mask)
  ultimately have "unat (cont w) = unat t" using div_mult_mod_eq [of "unat t" 64] by (simp add: unat_cont)
  then show ?thesis by (simp add: word_unat_eq_iff)
qed

lemma low_bits_less:
  assumes "\<And>n. k \<le> n \<Longrightarrow> \<not> bit (c :: u32) n" "k < 32"
  shows "c < 2 ^ k"
proof -
  have "n < k" if "bit c n" for n using assms(1) that not_le by blast
  then have "take_bit k c = c" by (intro bit_word_eqI) (auto simp: bit_simps)
  then have "take_bit k (unat c) = unat c" by (metis unsigned_take_bit_eq)
  then have "unat c < 2 ^ k" by (metis take_bit_nat_less_exp)
  moreover have "unat (2 ^ k :: u32) = 2 ^ k"
    using unat_of_nat_u32 [of "2 ^ k"] power_strict_increasing [OF assms(2), of "2 :: nat"] by simp
  ultimately show ?thesis by (simp add: word_less_nat_alt)
qed

lemma bit_low6 [bit_simps]: "bit (low6 t) n \<longleftrightarrow> n < 6 \<and> bit t n"
  by (auto simp: low6_def masks32 bit_simps)

lemma split2:
  assumes "c = push_bit 6 (a AND 0x1f) OR low6 t1"
  shows "drop_bit 6 c AND 0x1f = a AND 0x1f" "c AND 0x3f = low6 t1" "c < 0x800"
proof -
  show "drop_bit 6 c AND 0x1f = a AND 0x1f" "c AND 0x3f = low6 t1"
    unfolding assms masks32 by (rule bit_word_eqI; auto simp: bit_simps)+
  have "c < 2 ^ 11" by (rule low_bits_less) (auto simp: assms masks32 bit_simps)
  then show "c < 0x800" by simp
qed

lemma split3:
  assumes "c = push_bit 12 (a AND 0x0f) OR push_bit 6 (low6 t1) OR low6 t2"
  shows "drop_bit 12 c AND 0x0f = a AND 0x0f" "drop_bit 6 c AND 0x3f = low6 t1" "c AND 0x3f = low6 t2" "c < 0x10000"
proof -
  show "drop_bit 12 c AND 0x0f = a AND 0x0f" "drop_bit 6 c AND 0x3f = low6 t1" "c AND 0x3f = low6 t2"
    unfolding assms masks32 by (rule bit_word_eqI; auto simp: bit_simps)+
  have "c < 2 ^ 16" by (rule low_bits_less) (auto simp: assms masks32 bit_simps)
  then show "c < 0x10000" by simp
qed

lemma split4:
  assumes "c = push_bit 18 (a AND 0x07) OR push_bit 12 (low6 t1) OR push_bit 6 (low6 t2) OR low6 t3"
  shows "drop_bit 18 c AND 0x07 = a AND 0x07" "drop_bit 12 c AND 0x3f = low6 t1"
    "drop_bit 6 c AND 0x3f = low6 t2" "c AND 0x3f = low6 t3" "c < 0x200000"
proof -
  show "drop_bit 18 c AND 0x07 = a AND 0x07" "drop_bit 12 c AND 0x3f = low6 t1"
    "drop_bit 6 c AND 0x3f = low6 t2" "c AND 0x3f = low6 t3"
    unfolding assms masks32 by (rule bit_word_eqI; auto simp: bit_simps)+
  have "c < 2 ^ 21" by (rule low_bits_less) (auto simp: assms masks32 bit_simps)
  then show "c < 0x200000" by simp
qed

lemma split5:
  assumes "c = push_bit 24 (a AND 0x03) OR push_bit 18 (low6 t1) OR push_bit 12 (low6 t2) OR
    push_bit 6 (low6 t3) OR low6 t4"
  shows "drop_bit 24 c AND 0x03 = a AND 0x03" "drop_bit 18 c AND 0x3f = low6 t1" "drop_bit 12 c AND 0x3f = low6 t2"
    "drop_bit 6 c AND 0x3f = low6 t3" "c AND 0x3f = low6 t4" "c < 0x4000000"
proof -
  show "drop_bit 24 c AND 0x03 = a AND 0x03" "drop_bit 18 c AND 0x3f = low6 t1" "drop_bit 12 c AND 0x3f = low6 t2"
    "drop_bit 6 c AND 0x3f = low6 t3" "c AND 0x3f = low6 t4"
    unfolding assms masks32 by (rule bit_word_eqI; auto simp: bit_simps)+
  have "c < 2 ^ 26" by (rule low_bits_less) (auto simp: assms masks32 bit_simps)
  then show "c < 0x4000000" by simp
qed

lemma bit_and_1 [bit_simps]: "bit (w AND 0x01 :: u32) n \<longleftrightarrow> n = 0 \<and> bit w 0"
  by (cases n) (simp_all only: bit_and_iff bit_1_iff simp_thms, auto)

lemma split6:
  assumes c: "c = push_bit 30 (a AND 0x01) OR push_bit 24 (low6 t1) OR push_bit 18 (low6 t2) OR
    push_bit 12 (low6 t3) OR push_bit 6 (low6 t4) OR low6 t5"
  shows "drop_bit 30 c AND 0x01 = a AND 0x01" "drop_bit 24 c AND 0x3f = low6 t1" "drop_bit 18 c AND 0x3f = low6 t2"
    "drop_bit 12 c AND 0x3f = low6 t3" "drop_bit 6 c AND 0x3f = low6 t4" "c AND 0x3f = low6 t5" "c < 0x80000000"
proof -
  have b: "bit c n \<longleftrightarrow> (30 \<le> n \<and> n < 32 \<and> n - 30 = 0 \<and> bit a 0) \<or>
      (24 \<le> n \<and> n < 32 \<and> n - 24 < 6 \<and> bit t1 (n - 24)) \<or> (18 \<le> n \<and> n < 32 \<and> n - 18 < 6 \<and> bit t2 (n - 18)) \<or>
      (12 \<le> n \<and> n < 32 \<and> n - 12 < 6 \<and> bit t3 (n - 12)) \<or> (6 \<le> n \<and> n < 32 \<and> n - 6 < 6 \<and> bit t4 (n - 6)) \<or>
      (n < 6 \<and> bit t5 n)" for n
    by (simp only: c bit_or_iff bit_push_bit_iff possible_bit_word bit_and_1 bit_low6 len_num0 disj_assoc)
       simp
  show "drop_bit 24 c AND 0x3f = low6 t1" "drop_bit 18 c AND 0x3f = low6 t2"
    "drop_bit 12 c AND 0x3f = low6 t3" "drop_bit 6 c AND 0x3f = low6 t4" "c AND 0x3f = low6 t5"
    unfolding masks32(1) by (rule bit_word_eqI; auto simp: bit_simps b)+
  show "drop_bit 30 c AND 0x01 = a AND 0x01"
    by (rule bit_word_eqI) (simp only: bit_and_1 bit_drop_bit_eq o_apply b, simp)
  have "c < 2 ^ 31" by (rule low_bits_less) (auto simp: b)
  then show "c < 0x80000000" by simp
qed

lemma utf8_truncate_False:
  "utf8_truncate k d r = (False, j) \<Longrightarrow> r = (False, j) \<and> (\<forall>i. 1 \<le> i \<and> i < k \<longrightarrow> (d ! i) AND 0xc0 = 0x80)"
proof (induction k d r rule: utf8_truncate.induct)
  case (1 k d r)
  show ?case
  proof (cases "k \<le> 1")
    case True
    then show ?thesis using 1(2) by (auto simp: utf8_truncate.simps)
  next
    case False
    with 1(2) have r: "utf8_truncate (k - 1) d (if (d ! (k - 1)) AND 0xc0 \<noteq> 0x80 then (True, k - 1) else r) = (False, j)"
      by (simp add: utf8_truncate.simps)
    from 1(1) [OF False r] have t: "(d ! (k - 1)) AND 0xc0 = 0x80" "r = (False, j)"
      "\<forall>i. 1 \<le> i \<and> i < k - 1 \<longrightarrow> (d ! i) AND 0xc0 = 0x80"
      by (auto split: if_splits)
    have "i < k - 1 \<or> i = k - 1" if "i < k" for i using that by auto
    with t show ?thesis by blast
  qed
qed

lemma lead_byte:
  assumes "unat (ucast (w' + of_nat base :: u32) :: u8) = unat w mod 2 ^ k + base"
    "w AND mask k = (ucast b :: u32) AND mask k" "base \<le> unat b" "unat b < base + 2 ^ k" "base mod 2 ^ k = 0"
  shows "ucast (w' + of_nat base :: u32) = (b :: u8)"
proof -
  have "unat w mod 2 ^ k = unat b mod 2 ^ k"
    using arg_cong [OF assms(2), of unat] by (simp add: unat_and_mask)
  moreover have "unat b = base + (unat b - base)" using assms(3) by simp
  then have "unat b mod 2 ^ k = (unat b - base) mod 2 ^ k"
    using assms(5) by (metis mod_add_eq add_0 mod_mod_trivial)
  moreover have "(unat b - base) mod 2 ^ k = unat b - base" using assms(3,4) by simp
  ultimately show ?thesis using assms(1,3) by (simp add: word_unat_eq_iff)
qed

lemma lead_bytes:
  "utf8_size b = 2 \<Longrightarrow> w AND 0x1f = ucast b AND 0x1f \<Longrightarrow> ucast ((w AND 0x1f :: u32) + 0xc0) = b"
  "utf8_size b = 3 \<Longrightarrow> w AND 0x0f = ucast b AND 0x0f \<Longrightarrow> ucast ((w AND 0x0f :: u32) + 0xe0) = b"
  "utf8_size b = 4 \<Longrightarrow> w AND 0x07 = ucast b AND 0x07 \<Longrightarrow> ucast ((w AND 0x07 :: u32) + 0xf0) = b"
  "utf8_size b = 5 \<Longrightarrow> w AND 0x03 = ucast b AND 0x03 \<Longrightarrow> ucast ((w AND 0x03 :: u32) + 0xf8) = b"
  "utf8_size b = 6 \<Longrightarrow> w AND 0x01 = ucast b AND 0x01 \<Longrightarrow> ucast ((w AND 0x01 :: u32) + 0xfc) = b"
proof -
  have m: "(mask 5 :: u32) = 0x1f" "(mask 4 :: u32) = 0x0f" "(mask 3 :: u32) = 0x07" "(mask 2 :: u32) = 0x03" "(mask (Suc 0) :: u32) = 0x01"
    by (simp_all add: mask_eq_exp_minus_1)
  show "utf8_size b = 2 \<Longrightarrow> w AND 0x1f = ucast b AND 0x1f \<Longrightarrow> ucast ((w AND 0x1f :: u32) + 0xc0) = b"
    using lead_byte [of "w AND 0x1f" 192 w 5 b] unat_leads(1) [of w]
    by (auto simp: utf8_size_def word_less_nat_alt not_less m split: if_splits)
  show "utf8_size b = 3 \<Longrightarrow> w AND 0x0f = ucast b AND 0x0f \<Longrightarrow> ucast ((w AND 0x0f :: u32) + 0xe0) = b"
    using lead_byte [of "w AND 0x0f" 224 w 4 b] unat_leads(2) [of w]
    by (auto simp: utf8_size_def word_less_nat_alt not_less m split: if_splits)
  show "utf8_size b = 4 \<Longrightarrow> w AND 0x07 = ucast b AND 0x07 \<Longrightarrow> ucast ((w AND 0x07 :: u32) + 0xf0) = b"
    using lead_byte [of "w AND 0x07" 240 w 3 b] unat_leads(3) [of w]
    by (auto simp: utf8_size_def word_less_nat_alt not_less m split: if_splits)
  show "utf8_size b = 5 \<Longrightarrow> w AND 0x03 = ucast b AND 0x03 \<Longrightarrow> ucast ((w AND 0x03 :: u32) + 0xf8) = b"
    using lead_byte [of "w AND 0x03" 248 w 2 b] unat_leads(4) [of w]
    by (auto simp: utf8_size_def word_less_nat_alt not_less m split: if_splits)
  show "utf8_size b = 6 \<Longrightarrow> w AND 0x01 = ucast b AND 0x01 \<Longrightarrow> ucast ((w AND 0x01 :: u32) + 0xfc) = b"
    using lead_byte [of "w AND 0x01" 252 w 1 b] unat_leads(5) [of w]
    by (auto simp: utf8_size_def word_less_nat_alt not_less m split: if_splits)
qed

text \<open>What a successful call of \<open>fromUTF8\<close> has established.\<close>

lemma fromUTF8_accepted:
  assumes "fromUTF8 d = Some (c, rest)" "c \<noteq> s_invalid"
  obtains b ts where "d = b # ts @ rest" "utf8_size b = Suc (length ts)" "\<forall>t\<in>set ts. t AND 0xc0 = 0x80"
    "c = utf8_char (Suc (length ts)) d" "s_minChar ! Suc (length ts) \<le> c"
    "\<not> (0xd800 \<le> c \<and> c \<le> 0xdfff)" "\<not> (0xfffe \<le> c \<and> c \<le> 0xffff)"
proof -
  from assms obtain b bs where d: "d = b # bs" by (cases d) (auto simp: fromUTF8_def)
  let ?k = "utf8_size b"
  obtain t k where tr: "utf8_truncate ?k d (False, ?k) = (t, k)" by fastforce
  have a: "?k \<noteq> 0" "\<not> length d < ?k" "\<not> t" "c = utf8_char ?k d" "s_minChar ! k \<le> c"
    "\<not> (0xd800 \<le> c \<and> c \<le> 0xdfff)" "\<not> (0xfffe \<le> c \<and> c \<le> 0xffff)" "rest = drop k d"
    using assms d tr by (auto simp: fromUTF8_def Let_def not_less split: if_splits)
  with tr have "utf8_truncate ?k d (False, ?k) = (False, k)" by simp
  from utf8_truncate_False [OF this] have k: "k = ?k" and c: "\<forall>i. 1 \<le> i \<and> i < ?k \<longrightarrow> (d ! i) AND 0xc0 = 0x80"
    by auto
  define ts where "ts = take (?k - 1) bs"
  have l: "?k = Suc (length ts)" using a(1,2) d by (simp add: ts_def)
  have "d = b # ts @ rest" using a(1,8) k d by (cases ?k) (auto simp: ts_def)
  moreover have "\<forall>t\<in>set ts. t AND 0xc0 = 0x80"
  proof
    fix t assume "t \<in> set ts"
    then obtain i where i: "i < length ts" "t = ts ! i" by (auto simp: in_set_conv_nth)
    then have "d ! Suc i = t" by (simp add: d ts_def)
    with c [rule_format, of "Suc i"] i(1) show "t AND 0xc0 = 0x80" unfolding l by simp
  qed
  ultimately show ?thesis using that [of b ts] a l k by simp
qed

lemma list_by_length:
  "length ts = 1 \<Longrightarrow> \<exists>a. ts = [a]" "length ts = 2 \<Longrightarrow> \<exists>a b. ts = [a, b]"
  "length ts = 3 \<Longrightarrow> \<exists>a b c. ts = [a, b, c]" "length ts = 4 \<Longrightarrow> \<exists>a b c d. ts = [a, b, c, d]"
  "length ts = 5 \<Longrightarrow> \<exists>a b c d e. ts = [a, b, c, d, e]"
  by (simp_all add: eval_nat_numeral length_Suc_conv) blast+

lemma utf8_char_encodes:
  assumes s: "utf8_size b = Suc (length ts)" and t: "\<forall>t\<in>set ts. t AND 0xc0 = 0x80"
    and c: "c = utf8_char (Suc (length ts)) (b # ts @ rest)" and m: "s_minChar ! Suc (length ts) \<le> c"
    and n: "\<not> (0xd800 \<le> c \<and> c \<le> 0xdfff)"
  shows "c < 0x80000000 \<and> fst (toUTF8 c) = b # ts"
proof -
  have "length ts \<le> 5" using s utf8_size_range [of b] by simp
  then consider "ts = []" | "length ts = 1" | "length ts = 2" | "length ts = 3" | "length ts = 4" | "length ts = 5"
    by (cases ts) (auto simp: le_Suc_eq numeral_eq_Suc)
  then show ?thesis
  proof cases
    case 1
    then have b: "unat b < 128" using s by (auto simp: utf8_size_def word_less_nat_alt split: if_splits)
    have "c = ucast b" using c 1 by (simp add: utf8_char_def)
    moreover have "(ucast (ucast b :: u32) :: u8) = b" by (rule bit_word_eqI) (simp add: bit_simps)
    ultimately show ?thesis using b 1 by (simp add: toUTF8_def Let_def word_less_nat_alt word_le_nat_alt)
  next
    case 2
    then obtain t1 where ts: "ts = [t1]" using list_by_length(1) by blast
    have e: "c = push_bit 6 (ucast b AND 0x1f) OR low6 t1"
      using c ts by (simp add: utf8_char_def del: push_bit_and)
    note sp = split2 [OF e]
    have lo: "0x80 \<le> c" using m ts by (simp add: s_minChar_def)
    then have "\<not> c < 0x80" 
      by (simp_all add: word_le_nat_alt word_less_nat_alt)
    moreover have "\<not> 0x80000000 \<le> c" using sp(3) by (simp add: word_less_nat_alt word_le_nat_alt)
    ultimately show ?thesis
      using sp n ts t lead_bytes(1) [of b "drop_bit 6 c"] cont_low6 [of t1 "c"] s
      by (auto simp: toUTF8_def Let_def not_le)
  next
    case 3
    then obtain t1 t2 where ts: "ts = [t1, t2]" using list_by_length(2) by blast
    have e: "c = push_bit 12 (ucast b AND 0x0f) OR push_bit 6 (low6 t1) OR low6 t2"
      using c ts by (simp add: utf8_char_def del: push_bit_and)
    note sp = split3 [OF e]
    have lo: "0x800 \<le> c" using m ts by (simp add: s_minChar_def)
    then have "\<not> c < 0x80" "\<not> c < 0x800" 
      by (simp_all add: word_le_nat_alt word_less_nat_alt)
    moreover have "\<not> 0x80000000 \<le> c" using sp(4) by (simp add: word_less_nat_alt word_le_nat_alt)
    ultimately show ?thesis
      using sp n ts t lead_bytes(2) [of b "drop_bit 12 c"] cont_low6 [of t1 "drop_bit 6 c"] cont_low6 [of t2 "c"] s
      by (auto simp: toUTF8_def Let_def not_le)
  next
    case 4
    then obtain t1 t2 t3 where ts: "ts = [t1, t2, t3]" using list_by_length(3) by blast
    have e: "c = push_bit 18 (ucast b AND 0x07) OR push_bit 12 (low6 t1) OR push_bit 6 (low6 t2) OR low6 t3"
      using c ts by (simp add: utf8_char_def del: push_bit_and)
    note sp = split4 [OF e]
    have lo: "0x10000 \<le> c" using m ts by (simp add: s_minChar_def)
    then have "\<not> c < 0x80" "\<not> c < 0x800" "\<not> c < 0x10000" 
      by (simp_all add: word_le_nat_alt word_less_nat_alt)
    moreover have "\<not> 0x80000000 \<le> c" using sp(5) by (simp add: word_less_nat_alt word_le_nat_alt)
    ultimately show ?thesis
      using sp n ts t lead_bytes(3) [of b "drop_bit 18 c"] cont_low6 [of t1 "drop_bit 12 c"] cont_low6 [of t2 "drop_bit 6 c"] cont_low6 [of t3 "c"] s
      by (auto simp: toUTF8_def Let_def not_le)
  next
    case 5
    then obtain t1 t2 t3 t4 where ts: "ts = [t1, t2, t3, t4]" using list_by_length(4) by blast
    have e: "c = push_bit 24 (ucast b AND 0x03) OR push_bit 18 (low6 t1) OR push_bit 12 (low6 t2) OR push_bit 6 (low6 t3) OR low6 t4"
      using c ts by (simp add: utf8_char_def del: push_bit_and)
    note sp = split5 [OF e]
    have lo: "0x200000 \<le> c" using m ts by (simp add: s_minChar_def)
    then have "\<not> c < 0x80" "\<not> c < 0x800" "\<not> c < 0x10000" "\<not> c < 0x200000" 
      by (simp_all add: word_le_nat_alt word_less_nat_alt)
    moreover have "\<not> 0x80000000 \<le> c" using sp(6) by (simp add: word_less_nat_alt word_le_nat_alt)
    ultimately show ?thesis
      using sp n ts t lead_bytes(4) [of b "drop_bit 24 c"] cont_low6 [of t1 "drop_bit 18 c"] cont_low6 [of t2 "drop_bit 12 c"] cont_low6 [of t3 "drop_bit 6 c"] cont_low6 [of t4 "c"] s
      by (auto simp: toUTF8_def Let_def not_le)
  next
    case 6
    then obtain t1 t2 t3 t4 t5 where ts: "ts = [t1, t2, t3, t4, t5]" using list_by_length(5) by blast
    have e: "c = push_bit 30 (ucast b AND 0x01) OR push_bit 24 (low6 t1) OR push_bit 18 (low6 t2) OR push_bit 12 (low6 t3) OR push_bit 6 (low6 t4) OR low6 t5"
      using c ts by (simp add: utf8_char_def del: push_bit_and)
    note sp = split6 [OF e]
    have lo: "0x4000000 \<le> c" using m ts by (simp add: s_minChar_def)
    then have "\<not> c < 0x80" "\<not> c < 0x800" "\<not> c < 0x10000" "\<not> c < 0x200000" "\<not> c < 0x4000000" 
      by (simp_all add: word_le_nat_alt word_less_nat_alt)
    moreover have "\<not> 0x80000000 \<le> c" using sp(7) by (simp add: word_less_nat_alt word_le_nat_alt)
    ultimately show ?thesis
      using sp n ts t lead_bytes(5) [of b "drop_bit 30 c"] cont_low6 [of t1 "drop_bit 24 c"] cont_low6 [of t2 "drop_bit 18 c"] cont_low6 [of t3 "drop_bit 12 c"] cont_low6 [of t4 "drop_bit 6 c"] cont_low6 [of t5 "c"] s
      by (auto simp: toUTF8_def Let_def not_le)
  qed
qed

section \<open>Strings\<close>

definition utf8_encode :: "u32 list \<Rightarrow> bytes" where
  "utf8_encode cs = concat (map (\<lambda>c. fst (toUTF8 c)) cs)"

lemma toUTF8_ok:
  assumes "utf8_ok c"
  shows "fst (toUTF8 c) \<noteq> []" "snd (toUTF8 c) = False"
  using toUTF8_form [OF assms] by (metis list.distinct(1))+

lemma utf8_ok_valid: "utf8_ok c \<Longrightarrow> c \<noteq> s_invalid"
  by (auto simp: utf8_ok_def s_invalid_def)

lemma fromUTF8_encode_Cons:
  "utf8_ok c \<Longrightarrow> fromUTF8 (utf8_encode (c # cs)) = Some (c, utf8_encode cs)"
  by (simp add: utf8_encode_def fromUTF8_toUTF8)

lemma utf8_chars_encode: "list_all utf8_ok cs \<Longrightarrow> utf8_chars (utf8_encode cs) = cs"
proof (induction cs)
  case Nil
  then show ?case by (simp add: utf8_chars.simps utf8_encode_def fromUTF8_def)
next
  case (Cons c cs)
  then show ?case using fromUTF8_encode_Cons [of c cs] by (subst utf8_chars.simps) simp
qed

lemma isUTF8_encode: "list_all utf8_ok cs \<Longrightarrow> isUTF8 (utf8_encode cs)"
proof (induction cs)
  case Nil
  then show ?case by (simp add: isUTF8.simps utf8_encode_def fromUTF8_def)
next
  case (Cons c cs)
  then show ?case using fromUTF8_encode_Cons [of c cs] utf8_ok_valid [of c] by (subst isUTF8.simps) simp
qed

lemma fromUTF8_canonical:
  assumes "fromUTF8 d = Some (c, rest)" "c \<noteq> s_invalid"
  shows "utf8_ok c \<and> d = fst (toUTF8 c) @ rest"
proof -
  from fromUTF8_accepted [OF assms] obtain b ts where
    a: "d = b # ts @ rest" "utf8_size b = Suc (length ts)" "\<forall>t\<in>set ts. t AND 0xc0 = 0x80"
    "c = utf8_char (Suc (length ts)) d" "s_minChar ! Suc (length ts) \<le> c"
    "\<not> (0xd800 \<le> c \<and> c \<le> 0xdfff)" "\<not> (0xfffe \<le> c \<and> c \<le> 0xffff)"
    by metis
  with utf8_char_encodes [OF a(2,3) _ a(5,6), of rest] show ?thesis by (auto simp: utf8_ok_def)
qed

lemma isUTF8_decode: "isUTF8 src \<Longrightarrow> \<exists>cs. list_all utf8_ok cs \<and> src = utf8_encode cs"
proof (induction src rule: isUTF8.induct)
  case (1 src)
  show ?case
  proof (cases "fromUTF8 src")
    case None
    then have "src = []" by (cases src) (auto simp: fromUTF8_def Let_def split: prod.splits if_splits)
    then show ?thesis by (intro exI [of _ "[]"]) (simp add: utf8_encode_def)
  next
    case (Some p)
    obtain c rest where p: "p = (c, rest)" by (cases p)
    with Some 1(2) have v: "c \<noteq> s_invalid" "isUTF8 rest"
      by (subst (asm) isUTF8.simps, auto split: if_splits)+
    from 1(1) [OF Some p [symmetric] v] obtain cs where cs: "list_all utf8_ok cs" "rest = utf8_encode cs" by blast
    from fromUTF8_canonical [OF _ v(1)] Some p cs show ?thesis
      by (intro exI [of _ "c # cs"]) (simp add: utf8_encode_def)
  qed
qed

section \<open>UTF-16 and UTF-32\<close>

lemma decode16_native: "rev (be16_split v) = [a, b] \<Longrightarrow> decode16 a b False = v"
  by (auto simp: decode16_def be16_split_def be_simps)

lemma words16_native: "words16 False (native16 v @ bs) = v # words16 False bs"
  using decode16_native [of v] by (simp add: native16_def be16_split_def)

lemma words32_native: "words32 False (native32 v @ bs) = v # words32 False bs"
  by (simp add: native32_def be32_split_def decode32_def be_simps)

text \<open>The code units of a character of the first seventeen planes.\<close>

definition utf16_units :: "u32 \<Rightarrow> u16 list" where
  "utf16_units c =
     (if c < 0x10000 then [ucast c]
      else [ucast (drop_bit 10 (c - 0x10000) + 0xd800), ucast ((c - 0x10000 AND 0x3ff) + 0xdc00)])"

definition utf16_ok :: "u32 \<Rightarrow> bool" where
  "utf16_ok c \<longleftrightarrow> utf8_ok c \<and> c < 0x110000"

lemma utf16_char_units:
  "utf16_ok c \<Longrightarrow> utf16_char c = (concat (map native16 (utf16_units c)), False)"
  using utf8_ok_valid [of c] by (auto simp: utf16_char_def utf16_units_def utf16_ok_def Let_def not_le)

lemma words16_units: "words16 False (concat (map native16 us) @ bs) = us @ words16 False bs"
  by (induction us) (simp_all add: words16_native)

lemma unat_ucast_u16: "unat (w :: u32) < 2 ^ 16 \<Longrightarrow> ucast (ucast w :: u16) = w"
proof -
  assume "unat w < 2 ^ 16"
  then have "unat (ucast (ucast w :: u16) :: u32) = unat w"
    by (simp add: unsigned_ucast_eq unsigned_take_bit_eq take_bit_nat_eq_self)
  then show ?thesis by (simp only: word_unat_eq_iff)
qed

text \<open>The surrogate pair of a supplementary character, and its reassembly.\<close>

lemma surrogates:
  fixes c :: u32
  assumes "\<not> c < 0x10000" "c < 0x110000"
  defines "h \<equiv> drop_bit 10 (c - 0x10000) + 0xd800" and "l \<equiv> (c - 0x10000 AND 0x3ff) + 0xdc00"
  shows "unat h = (unat c - 0x10000) div 1024 + 0xd800" "unat l = (unat c - 0x10000) mod 1024 + 0xdc00"
    "(push_bit 10 (h - 0xd800) OR (l - 0xdc00)) + 0x10000 = c"
proof -
  have d: "unat (c - 0x10000) = unat c - 0x10000" "unat c - 0x10000 < 0x100000"
    using assms(1,2) by (auto simp: unat_sub word_le_nat_alt word_less_nat_alt not_less)
  have "unat (drop_bit 10 (c - 0x10000)) = (unat c - 0x10000) div 1024"
    by (simp only: unat_drop_bit_eq d) (simp add: drop_bit_eq_div)
  then show "unat h = (unat c - 0x10000) div 1024 + 0xd800"
    using d(2) unfolding h_def by (simp add: unat_word_ariths)
  have "unat (c - 0x10000 AND 0x3ff) = (unat c - 0x10000) mod 1024"
    unfolding masks32 unat_and_mask d by simp
  then show "unat l = (unat c - 0x10000) mod 1024 + 0xdc00"
    unfolding l_def by (simp add: unat_word_ariths)
  have s: "h - 0xd800 = drop_bit 10 (c - 0x10000)" "l - 0xdc00 = (c - 0x10000) AND 0x3ff"
    by (simp_all add: h_def l_def)
  have "push_bit 10 (drop_bit 10 w) OR (w AND 0x3ff) = w" for w :: u32
    unfolding masks32 by (rule bit_word_eqI) (auto simp: bit_simps)
  then show "(push_bit 10 (h - 0xd800) OR (l - 0xdc00)) + 0x10000 = c" unfolding s by simp
qed

lemma utf16_loop_units:
  assumes "utf16_ok c"
  shows "utf16_loop (map ucast (utf16_units c) @ cs) =
    (fst (toUTF8 c) @ fst (utf16_loop cs), snd (utf16_loop cs))"
proof (cases "c < 0x10000")
  case True
  have "(ucast (ucast c :: u16) :: u32) = c"
    using True by (intro unat_ucast_u16) (simp add: word_less_nat_alt)
  moreover have "c < 0xd800 \<or> 0xdfff < c" using assms by (auto simp: utf16_ok_def utf8_ok_def not_le)
  ultimately show ?thesis
    using True toUTF8_ok(2) [of c] assms by (simp add: utf16_units_def utf16_ok_def split: prod.splits)
next
  case False
  define h where "h = drop_bit 10 (c - 0x10000) + 0xd800"
  define l where "l = (c - 0x10000 AND 0x3ff) + 0xdc00"
  have c: "c < 0x110000" "utf8_ok c" using assms by (auto simp: utf16_ok_def)
  note s = surrogates [OF False c(1), folded h_def l_def]
  have b: "unat c - 0x10000 < 0x100000" using c(1) False by (auto simp: word_less_nat_alt)
  then have q: "(unat c - 0x10000) div 1024 < 1024" "(unat c - 0x10000) mod 1024 < 1024" by auto
  have hl: "ucast (ucast h :: u16) = h" "ucast (ucast l :: u16) = l"
    by (intro unat_ucast_u16; use s(1,2) q in simp)+
  have r: "\<not> (h < 0xd800 \<or> 0xdfff < h)" "0xd800 \<le> h \<and> h \<le> 0xdbff" "\<not> (l < 0xdc00 \<or> 0xdfff < l)"
    using s(1,2) q by (simp_all add: word_less_nat_alt word_le_nat_alt)
  have "utf16_loop (h # l # cs) = (fst (toUTF8 c) @ fst (utf16_loop cs), snd (utf16_loop cs))"
    using r s(3) toUTF8_ok(2) [OF c(2)] by (simp add: Let_def split: prod.splits)
  then show ?thesis using False hl by (simp add: utf16_units_def h_def [symmetric] l_def [symmetric])
qed

lemma utf16_loop_all:
  "list_all utf16_ok cs \<Longrightarrow> utf16_loop (map ucast (concat (map utf16_units cs))) = (utf8_encode cs, False)"
  by (induction cs) (simp_all add: utf16_loop_units utf8_encode_def)

lemma concat_native16_units:
  "list_all utf16_ok cs \<Longrightarrow>
   convert_chars utf16_char cs = (concat (map native16 (concat (map utf16_units cs))), False)"
  by (induction cs) (simp_all add: convert_chars_def utf16_char_units)

text \<open>A first unit that is no byte order mark stays.\<close>

lemma utf16_first_unit:
  assumes "list_all utf16_ok cs" "cs \<noteq> []" "hd cs \<noteq> 0xfeff" "concat (map utf16_units cs) = u # us"
  shows "u \<noteq> 0xfeff" "u \<noteq> 0xfffe"
proof -
  obtain c cs' where cs: "cs = c # cs'" using assms(2) by (cases cs) auto
  have c: "utf8_ok c" "c < 0x110000" "c \<noteq> 0xfeff" using assms(1,3) cs by (auto simp: utf16_ok_def)
  have "u \<noteq> 0xfeff \<and> u \<noteq> 0xfffe"
  proof (cases "c < 0x10000")
    case True
    then have "(ucast u :: u32) = c"
      using assms(4) unat_ucast_u16 [of c] by (auto simp: cs utf16_units_def word_less_nat_alt)
    with c show ?thesis by (auto simp: utf8_ok_def)
  next
    case False
    have u: "u = ucast (drop_bit 10 (c - 0x10000) + 0xd800)"
      using assms(4) False by (simp add: cs utf16_units_def)
    have "unat c - 0x10000 < 0x100000" using c(2) False by (auto simp: word_less_nat_alt)
    then have "(unat c - 0x10000) div 1024 < 1024" by auto
    then have "unat u < 0xdc00"
      using surrogates(1) [OF False c(2)] u by (simp add: unsigned_ucast_eq take_bit_nat_eq_self)
    then show ?thesis by auto
  qed
  then show "u \<noteq> 0xfeff" "u \<noteq> 0xfffe" by auto
qed

lemma bom16_none:
  "words16 False d = u # us \<Longrightarrow> u \<noteq> 0xfeff \<Longrightarrow> u \<noteq> 0xfffe \<Longrightarrow> bom16 d = (False, d)"
  by (simp add: bom16_def)

lemma bom32_none: "c \<noteq> 0xfeff \<Longrightarrow> c \<noteq> 0xfffe \<Longrightarrow> bom32 (native32 c @ d) = (False, native32 c @ d)"
  by (simp add: bom32_def words32_native)

lemma words32_all: "words32 False (concat (map native32 cs)) = cs"
  by (induction cs) (simp_all add: words32_native)

lemma convert_chars_utf32:
  "list_all utf16_ok cs \<Longrightarrow> convert_chars utf32_char cs = (concat (map native32 cs), False)"
  using utf8_ok_valid by (induction cs) (auto simp: convert_chars_def utf32_char_def utf16_ok_def Let_def not_le)

lemma convert_chars_toUTF8:
  "list_all utf16_ok cs \<Longrightarrow>
   convert_chars (\<lambda>c. if 0x110000 \<le> c then (fst (toUTF8 s_replacement), True) else toUTF8 c) cs = (utf8_encode cs, False)"
  using toUTF8_ok(2) by (induction cs) (auto simp: convert_chars_def utf8_encode_def utf16_ok_def not_le [symmetric])

section \<open>Properties\<close>

text \<open>
  UTF-8 encoding of a character is inverted by decoding: for every character of 31 bits that is
  neither a surrogate nor one of the two markers FFFE and FFFF, \<open>toUTF8\<close> reports no error and
  \<open>fromUTF8\<close> reads the same character back and leaves exactly the data behind it.
\<close>

theorem utf8_char_roundtrip:
  assumes "utf8_ok c"
  shows "snd (toUTF8 c) = False \<and> fromUTF8 (fst (toUTF8 c) @ rest) = Some (c, rest)"
  using toUTF8_ok(2) [OF assms] fromUTF8_toUTF8 [OF assms] by simp

text \<open>
  C28. The decoder accepts exactly the strings the encoder produces: a byte string passes \<open>isUTF8\<close> iff
  it is the concatenation of the encodings of allowed characters. Overlong forms, surrogates,
  stray or missing continuation bytes and truncated ends are all rejected.
\<close>

theorem isUTF8_exact:
  "isUTF8 src \<longleftrightarrow> (\<exists>cs. list_all utf8_ok cs \<and> src = concat (map (\<lambda>c. fst (toUTF8 c)) cs))"
  using isUTF8_decode [of src] isUTF8_encode by (auto simp: utf8_encode_def)

text \<open>
  Converting valid UTF-8 to UTF-16 and back is the identity and reports no error, for text of
  the seventeen Unicode planes that does not begin with a byte order mark (which the way back drops).
\<close>

theorem utf16_roundtrip:
  assumes "isUTF8 src" and "list_all (\<lambda>c. c < 0x110000) (utf8_chars src)"
    and "utf8_chars src = [] \<or> hd (utf8_chars src) \<noteq> 0xfeff"
  shows "snd (UTF8ToUTF16 src) = False \<and> UTF16ToUTF8 (fst (UTF8ToUTF16 src)) = (src, False)"
proof -
  from isUTF8_decode [OF assms(1)] obtain cs where cs: "list_all utf8_ok cs" "src = utf8_encode cs" by blast
  then have u: "utf8_chars src = cs" by (simp add: utf8_chars_encode)
  have ok: "list_all utf16_ok cs" using cs(1) assms(2) u by (auto simp: list_all_iff utf16_ok_def)
  let ?us = "concat (map utf16_units cs)"
  have c: "UTF8ToUTF16 src = (concat (map native16 ?us), False)"
    unfolding UTF8ToUTF16_def u by (rule concat_native16_units [OF ok])
  have w: "words16 False (concat (map native16 ?us)) = ?us"
    using words16_units [of ?us "[]"] by simp
  have "bom16 (concat (map native16 ?us)) = (False, concat (map native16 ?us))"
  proof (cases ?us)
    case Nil
    show ?thesis unfolding bom16_def w by (simp only: Nil list.case)
  next
    case (Cons x xs)
    then have "cs \<noteq> []" by auto
    from utf16_first_unit [OF ok this _ Cons] assms(3) u \<open>cs \<noteq> []\<close> w Cons show ?thesis
      by (intro bom16_none [of _ x xs]) auto
  qed
  with c w utf16_loop_all [OF ok] cs(2) show ?thesis by (simp add: UTF16ToUTF8_def doUTF16ToUTF8_def)
qed

text \<open>
  The same for UTF-32.
\<close>

theorem utf32_roundtrip:
  assumes "isUTF8 src" and "list_all (\<lambda>c. c < 0x110000) (utf8_chars src)"
    and "utf8_chars src = [] \<or> hd (utf8_chars src) \<noteq> 0xfeff"
  shows "snd (UTF8ToUTF32 src) = False \<and> UTF32ToUTF8 (fst (UTF8ToUTF32 src)) = (src, False)"
proof -
  from isUTF8_decode [OF assms(1)] obtain cs where cs: "list_all utf8_ok cs" "src = utf8_encode cs" by blast
  then have u: "utf8_chars src = cs" by (simp add: utf8_chars_encode)
  have ok: "list_all utf16_ok cs" using cs(1) assms(2) u by (auto simp: list_all_iff utf16_ok_def)
  have c: "UTF8ToUTF32 src = (concat (map native32 cs), False)"
    unfolding UTF8ToUTF32_def u by (rule convert_chars_utf32 [OF ok])
  have "bom32 (concat (map native32 cs)) = (False, concat (map native32 cs))"
  proof (cases cs)
    case Nil
    then show ?thesis by (simp add: bom32_def)
  next
    case (Cons x xs)
    then have "x \<noteq> 0xfeff" "x \<noteq> 0xfffe" using assms(3) u cs(1) by (auto simp: utf8_ok_def)
    then show ?thesis using Cons by (simp add: bom32_none)
  qed
  with c words32_all [of cs] convert_chars_toUTF8 [OF ok] cs(2) show ?thesis
    by (simp add: UTF32ToUTF8_def doUTF32ToUTF8_def)
qed

text \<open>A big-endian 32 bit integer as the little-endian host reads it.\<close>

definition swapped32 :: "u32 \<Rightarrow> u32" where
  "swapped32 c = decode32 (be32_split c ! 0) (be32_split c ! 1) (be32_split c ! 2) (be32_split c ! 3) False"

lemma swapped32_large:
  assumes "c AND 0xff \<noteq> 0"
  shows "0x110000 \<le> swapped32 c"
proof -
  have "drop_bit 24 (swapped32 c) = c AND 0xff"
    unfolding swapped32_def decode32_def be32_split_def be32_join_def ff_mask8
    by (rule bit_word_eqI) (auto simp: bit_simps)
  then have "drop_bit 24 (unat (swapped32 c)) \<noteq> 0" using assms by (metis unat_drop_bit_eq unat_eq_0)
  then have "2 ^ 24 \<le> unat (swapped32 c)" by (simp add: drop_bit_eq_div div_eq_0_iff)
  then show ?thesis by (simp add: word_le_nat_alt)
qed

lemma words32_swapped: "words32 False (concat (map be32_split cs)) = map swapped32 cs"
  by (induction cs) (simp_all add: be32_split_def swapped32_def)

text \<open>
  The byte order mark of byte-swapped UTF-32 text is not recognised: the sources compare the
  first 32 bit word with FFFE, the swapped mark of 16 bit text, where the swapped 32 bit mark reads as
  FFFE0000. Big-endian UTF-32 text with its mark, of characters whose last byte is not zero, converts
  to nothing but replacement characters, one for the mark and one for every character.
\<close>

theorem utf32_swapped_mark_ignored:
  assumes "list_all (\<lambda>c. c AND 0xff \<noteq> 0) cs"
  shows "UTF32ToUTF8 (concat (map be32_split (0xfeff # cs))) =
    (concat (replicate (Suc (length cs)) (fst (toUTF8 s_replacement))), True)"
proof -
  have m: "swapped32 0xfeff = 0xfffe0000" by code_simp
  have "convert_chars (\<lambda>c. if 0x110000 \<le> c then (fst (toUTF8 s_replacement), True) else toUTF8 c)
      (map swapped32 (0xfeff # cs)) =
      (concat (replicate (Suc (length cs)) (fst (toUTF8 s_replacement))), True)"
    using assms by (induction cs) (auto simp: convert_chars_def swapped32_large m)
  moreover have "bom32 (concat (map be32_split (0xfeff # cs))) = (False, concat (map be32_split (0xfeff # cs)))"
    unfolding bom32_def words32_swapped by (simp add: m)
  ultimately show ?thesis
    unfolding UTF32ToUTF8_def doUTF32ToUTF8_def by (simp only: prod.case words32_swapped)
qed

text \<open>Witnesses.\<close>

theorem utf8_char_roundtrip_witness:
  "utf8_ok 0x20ac \<and> fst (toUTF8 0x20ac) = [0xe2, 0x82, 0xac] \<and>
   fromUTF8 (fst (toUTF8 0x20ac) @ [65]) = Some (0x20ac, [65])"
  using utf8_char_roundtrip [of "0x20ac" "[65]"]
  by (auto simp: utf8_ok_def toUTF8_def cont_def)

lemma demo_text: "isUTF8 [65, 0xf0, 0x9f, 0x98, 0x80]" "utf8_chars [65, 0xf0, 0x9f, 0x98, 0x80] = [65, 0x1f600]"
  by code_simp+

theorem utf16_roundtrip_witness:
  "UTF16ToUTF8 (fst (UTF8ToUTF16 [65, 0xf0, 0x9f, 0x98, 0x80])) = ([65, 0xf0, 0x9f, 0x98, 0x80], False)"
  using utf16_roundtrip [OF demo_text(1)] by (simp add: demo_text(2))

theorem utf32_roundtrip_witness:
  "UTF32ToUTF8 (fst (UTF8ToUTF32 [65, 0xf0, 0x9f, 0x98, 0x80])) = ([65, 0xf0, 0x9f, 0x98, 0x80], False)"
  using utf32_roundtrip [OF demo_text(1)] by (simp add: demo_text(2))

theorem utf32_swapped_mark_ignored_witness:
  "UTF32ToUTF8 [0, 0, 0xfe, 0xff, 0, 0, 0, 65] = ([0xef, 0xbf, 0xbd, 0xef, 0xbf, 0xbd], True)"
  using utf32_swapped_mark_ignored [of "[65]"]
  by (simp add: be32_split_def s_replacement_def toUTF8_def cont_def)

end
