(* ===== verification/StdMap.thy ===== *)
theory StdMap
  imports IL_Prelude
begin

text \<open>
  The \<^verbatim>\<open>std::map\<close> of the sources: an association list in the order of a comparison function, with
  the operations the program uses. Keys that compare neither way are the same key, and an insertion
  under a key that is there leaves the map alone. The comparison functions of the program all order
  by some key of a linear order; that is the locale \<open>keyed_map\<close>, in which the laws of the operations
  are proved once.
\<close>

type_synonym ('k, 'v) smap = "('k \<times> 'v) list"

text \<open>\<open>find\<close>: the entry with the given key, as the iterator shows it.\<close>

fun smap_find :: "('k \<Rightarrow> 'k \<Rightarrow> bool) \<Rightarrow> 'k \<Rightarrow> ('k, 'v) smap \<Rightarrow> ('k \<times> 'v) option" where
  "smap_find lt k [] = None"
| "smap_find lt k ((a, v) # m) =
     (if lt a k then smap_find lt k m else if lt k a then None else Some (a, v))"

fun smap_insert :: "('k \<Rightarrow> 'k \<Rightarrow> bool) \<Rightarrow> 'k \<Rightarrow> 'v \<Rightarrow> ('k, 'v) smap \<Rightarrow> ('k, 'v) smap" where
  "smap_insert lt k v [] = [(k, v)]"
| "smap_insert lt k v ((a, w) # m) =
     (if lt a k then (a, w) # smap_insert lt k v m
      else if lt k a then (k, v) # (a, w) # m else (a, w) # m)"

fun smap_erase :: "('k \<Rightarrow> 'k \<Rightarrow> bool) \<Rightarrow> 'k \<Rightarrow> ('k, 'v) smap \<Rightarrow> ('k, 'v) smap" where
  "smap_erase lt k [] = []"
| "smap_erase lt k ((a, w) # m) =
     (if lt a k then (a, w) # smap_erase lt k m else if lt k a then (a, w) # m else m)"

text \<open>Assignment through an iterator to the value stored under a key.\<close>

fun smap_modify :: "('k \<Rightarrow> 'k \<Rightarrow> bool) \<Rightarrow> 'k \<Rightarrow> ('v \<Rightarrow> 'v) \<Rightarrow> ('k, 'v) smap \<Rightarrow> ('k, 'v) smap" where
  "smap_modify lt k f [] = []"
| "smap_modify lt k f ((a, w) # m) =
     (if lt a k then (a, w) # smap_modify lt k f m else if lt k a then (a, w) # m else (a, f w) # m)"

text \<open>\<open>upper_bound\<close>: the map before and from the first entry whose key is greater.\<close>

definition smap_upper :: "('k \<Rightarrow> 'k \<Rightarrow> bool) \<Rightarrow> 'k \<Rightarrow> ('k, 'v) smap \<Rightarrow> ('k, 'v) smap \<times> ('k, 'v) smap" where
  "smap_upper lt k m = (takeWhile (\<lambda>e. \<not> lt k (fst e)) m, dropWhile (\<lambda>e. \<not> lt k (fst e)) m)"

text \<open>\<open>m[k] = v\<close>.\<close>

definition smap_assign :: "('k \<Rightarrow> 'k \<Rightarrow> bool) \<Rightarrow> 'k \<Rightarrow> 'v \<Rightarrow> ('k, 'v) smap \<Rightarrow> ('k, 'v) smap" where
  "smap_assign lt k v m = smap_modify lt k (\<lambda>_. v) (smap_insert lt k v m)"

declare smap_find.simps(2) [simp del] smap_insert.simps(2) [simp del]
  smap_erase.simps(2) [simp del] smap_modify.simps(2) [simp del]

lemmas smap_ops = smap_find.simps(2) smap_insert.simps(2) smap_erase.simps(2) smap_modify.simps(2)

lemma find_map_values:
  "smap_find lt k (map (\<lambda>(a, v). (a, f v)) m) = map_option (\<lambda>(a, v). (a, f v)) (smap_find lt k m)"
  by (induction m) (auto simp: smap_ops)

lemma option_eqI: "(\<And>v. x = Some v \<longleftrightarrow> y = Some v) \<Longrightarrow> x = y"
  by (metis option.exhaust)

locale keyed_map =
  fixes lt :: "'k \<Rightarrow> 'k \<Rightarrow> bool"
    and key :: "'k \<Rightarrow> 'o::linorder"
  assumes lt_key: "lt a b \<longleftrightarrow> key a < key b"
begin

definition ordered :: "('k, 'v) smap \<Rightarrow> bool" where
  "ordered m \<longleftrightarrow> sorted_wrt (\<lambda>x y. key (fst x) < key (fst y)) m"

lemma ordered_simps [simp]:
  "ordered []" "ordered ((a, v) # m) \<longleftrightarrow> (\<forall>e\<in>set m. key a < key (fst e)) \<and> ordered m"
  by (auto simp: ordered_def)

text \<open>The operations by the three ways two keys compare.\<close>

lemma less_ops [simp]:
  assumes "key a < key k"
  shows "smap_find lt k ((a, v) # m) = smap_find lt k m"
    "smap_insert lt k x ((a, v) # m) = (a, v) # smap_insert lt k x m"
    "smap_erase lt k ((a, v) # m) = (a, v) # smap_erase lt k m"
    "smap_modify lt k f ((a, v) # m) = (a, v) # smap_modify lt k f m"
  using assms lt_key [of a k] by (simp_all add: smap_ops)

lemma greater_ops [simp]:
  assumes "key k < key a"
  shows "smap_find lt k ((a, v) # m) = None"
    "smap_insert lt k x ((a, v) # m) = (k, x) # (a, v) # m"
    "smap_erase lt k ((a, v) # m) = (a, v) # m"
    "smap_modify lt k f ((a, v) # m) = (a, v) # m"
  using assms lt_key [of a k] lt_key [of k a] less_not_sym [of "key k" "key a"] by (simp_all add: smap_ops)

lemma same_ops [simp]:
  assumes "key a = key k"
  shows "smap_find lt k ((a, v) # m) = Some (a, v)"
    "smap_insert lt k x ((a, v) # m) = (a, v) # m"
    "smap_erase lt k ((a, v) # m) = m"
    "smap_modify lt k f ((a, v) # m) = (a, f v) # m"
  using assms lt_key [of a k] lt_key [of k a] by (simp_all add: smap_ops)

lemma three_ways:
  obtains "key a < key b" | "key b < key a" | "key a = key b"
  by fastforce

lemma above: "ordered ((a, v) # m) \<Longrightarrow> key k \<le> key a \<Longrightarrow> e \<in> set m \<Longrightarrow> key k < key (fst e)"
  by auto

lemma find_Some:
  "ordered m \<Longrightarrow> smap_find lt k m = Some (a, v) \<longleftrightarrow> (a, v) \<in> set m \<and> key a = key k"
proof (induction m)
  case (Cons e m)
  obtain b w where e: "e = (b, w)" by (cases e)
  from Cons.prems above [of b w m k] show ?case unfolding e
    by (cases b k rule: three_ways) (use Cons e in force)+
qed simp

lemma find_None: "ordered m \<Longrightarrow> smap_find lt k m = None \<longleftrightarrow> (\<forall>e\<in>set m. key (fst e) \<noteq> key k)"
proof -
  assume o: "ordered m"
  show ?thesis
  proof (cases "smap_find lt k m")
    case None
    then show ?thesis using find_Some [OF o, of k] by fastforce
  next
    case (Some p)
    then show ?thesis using find_Some [OF o, of k "fst p" "snd p"] by force
  qed
qed

lemma set_insert:
  "ordered m \<Longrightarrow> set (smap_insert lt k v m) =
     (if smap_find lt k m = None then insert (k, v) (set m) else set m)"
proof (induction m)
  case (Cons e m)
  obtain b w where e: "e = (b, w)" by (cases e)
  from Cons show ?case unfolding e by (cases b k rule: three_ways) auto
qed simp

lemma ordered_insert [simp]: "ordered m \<Longrightarrow> ordered (smap_insert lt k v m)"
proof (induction m)
  case (Cons e m)
  obtain b w where e: "e = (b, w)" by (cases e)
  have "set (smap_insert lt k v m) \<subseteq> insert (k, v) (set m)"
    using Cons.prems e set_insert [of m k v] by auto
  with Cons show ?case unfolding e by (cases b k rule: three_ways) force+
qed simp

lemma set_erase:
  "ordered m \<Longrightarrow> set (smap_erase lt k m) = {e \<in> set m. key (fst e) \<noteq> key k}"
proof (induction m)
  case (Cons e m)
  obtain b w where e: "e = (b, w)" by (cases e)
  from Cons above [of b w m k] show ?case unfolding e by (cases b k rule: three_ways) force+
qed simp

lemma ordered_erase [simp]: "ordered m \<Longrightarrow> ordered (smap_erase lt k m)"
proof (induction m)
  case (Cons e m)
  obtain b w where e: "e = (b, w)" by (cases e)
  from Cons set_erase [of m k] show ?case unfolding e by (cases b k rule: three_ways) auto
qed simp

lemma keys_modify: "map fst (smap_modify lt k f m) = map fst m"
  by (induction m) (auto simp: smap_ops)

lemma ordered_map_keys: "ordered m \<longleftrightarrow> sorted_wrt (\<lambda>a b. key a < key b) (map fst m)"
  by (simp add: ordered_def sorted_wrt_map)

lemma ordered_modify [simp]: "ordered (smap_modify lt k f m) \<longleftrightarrow> ordered m"
  by (simp add: ordered_map_keys keys_modify)

lemma set_modify:
  "ordered m \<Longrightarrow> set (smap_modify lt k f m) =
     (\<lambda>(a, v). (a, if key a = key k then f v else v)) ` set m"
proof (induction m)
  case (Cons e m)
  obtain b w where e: "e = (b, w)" by (cases e)
  have "(\<lambda>(a, v). (a, if key a = key k then f v else v)) ` set m = set m" if "key k \<le> key b"
    using above [of b w m k] Cons.prems e that by (force simp: image_iff)
  with Cons show ?case unfolding e by (cases b k rule: three_ways) auto
qed simp

lemma ordered_map_values [simp]: "ordered (map (\<lambda>(a, v). (a, f v)) m) \<longleftrightarrow> ordered m"
  by (simp add: ordered_map_keys comp_def case_prod_beta)

lemma ordered_filter [simp]: "ordered m \<Longrightarrow> ordered (filter P m)"
  by (simp add: ordered_def sorted_wrt_filter)

text \<open>\<open>upper_bound\<close> cuts the map at a key; beside the cut are the nearest entries.\<close>

lemma upper_split:
  assumes "ordered m" "smap_upper lt k m = (before, after)"
  shows "m = before @ after" "\<And>e. e \<in> set before \<Longrightarrow> key (fst e) \<le> key k" "\<And>e. e \<in> set after \<Longrightarrow> key k < key (fst e)"
proof -
  have d: "before = takeWhile (\<lambda>e. \<not> lt k (fst e)) m" "after = dropWhile (\<lambda>e. \<not> lt k (fst e)) m"
    using assms(2) by (auto simp: smap_upper_def)
  show m: "m = before @ after" using d by simp
  show "key (fst e) \<le> key k" if "e \<in> set before" for e
    using that set_takeWhileD [of e "\<lambda>e. \<not> lt k (fst e)" m] lt_key [of k "fst e"] by (auto simp: d not_less)
  show "key k < key (fst e)" if e: "e \<in> set after" for e
  proof -
    obtain h t where a: "after = h # t" using e by (cases after) auto
    then have "key k < key (fst h)"
      using hd_dropWhile [of "\<lambda>e. \<not> lt k (fst e)" m] d lt_key [of k "fst h"] by auto
    moreover have "sorted_wrt (\<lambda>x y. key (fst x) < key (fst y)) (h # t)"
      using assms(1) m a by (simp add: ordered_def sorted_wrt_append)
    ultimately show ?thesis using e a by auto
  qed
qed

lemma last_greatest: "ordered (xs @ ys) \<Longrightarrow> e \<in> set xs \<Longrightarrow> e = last xs \<or> key (fst e) < key (fst (last xs))"
  by (induction xs rule: rev_induct) (auto simp: ordered_def sorted_wrt_append)

lemma hd_least: "ordered (xs @ ys) \<Longrightarrow> e \<in> set ys \<Longrightarrow> e = hd ys \<or> key (fst (hd ys)) < key (fst e)"
  by (cases ys) (auto simp: ordered_def sorted_wrt_append)

lemma unique: "ordered m \<Longrightarrow> (a, v) \<in> set m \<Longrightarrow> (b, w) \<in> set m \<Longrightarrow> key a = key b \<Longrightarrow> a = b \<and> v = w"
  by (induction m) force+

lemma ordered_assign [simp]: "ordered m \<Longrightarrow> ordered (smap_assign lt k v m)"
  by (simp add: smap_assign_def)

lemma set_assign_new:
  assumes "ordered m" "\<forall>e\<in>set m. key (fst e) \<noteq> key k"
  shows "set (smap_assign lt k v m) = insert (k, v) (set m)"
proof -
  have "set (smap_insert lt k v m) = insert (k, v) (set m)"
    using assms set_insert [of m k v] find_None [of m k] by simp
  moreover have "(a, if key a = key k then v else w) = (a, w)" if "(a, w) \<in> insert (k, v) (set m)" for a w
    using assms(2) that by auto
  ultimately show ?thesis
    unfolding smap_assign_def set_modify [OF ordered_insert [OF assms(1)]] by (force simp: image_iff split: if_splits)
qed

lemma assigned:
  assumes "ordered m" "distinct (map (key \<circ> f) xs)" "\<forall>x\<in>set xs. \<forall>e\<in>set m. key (fst e) \<noteq> key (f x)"
  shows "ordered (fold (\<lambda>x. smap_assign lt (f x) (g x)) xs m) \<and>
    set (fold (\<lambda>x. smap_assign lt (f x) (g x)) xs m) = set m \<union> (\<lambda>x. (f x, g x)) ` set xs"
  using assms
proof (induction xs arbitrary: m)
  case (Cons x xs)
  have n: "set (smap_assign lt (f x) (g x) m) = insert (f x, g x) (set m)"
    using Cons.prems by (intro set_assign_new) auto
  have "ordered (smap_assign lt (f x) (g x) m)" "\<forall>y\<in>set xs. \<forall>e\<in>set (smap_assign lt (f x) (g x) m). key (fst e) \<noteq> key (f y)"
    using Cons.prems n by (auto simp: image_iff)
  from Cons.IH [OF this(1) _ this(2)] show ?case using Cons.prems(2) n by auto
qed simp

lemma distinct_keys: "ordered m \<Longrightarrow> distinct (map fst m)"
  by (induction m) fastforce+

lemma length_insert_new: "ordered m \<Longrightarrow> \<forall>e\<in>set m. key (fst e) \<noteq> key k \<Longrightarrow> length (smap_insert lt k v m) = Suc (length m)"
proof (induction m)
  case (Cons e m)
  obtain b w where e: "e = (b, w)" by (cases e)
  from Cons show ?case unfolding e by (cases b k rule: three_ways) auto
qed simp

lemma length_assign_new: "ordered m \<Longrightarrow> \<forall>e\<in>set m. key (fst e) \<noteq> key k \<Longrightarrow> length (smap_assign lt k v m) = Suc (length m)"
  using length_insert_new [of m k v] keys_modify [of k "\<lambda>_. v" "smap_insert lt k v m"]
  by (metis length_map smap_assign_def)

lemma length_erase: "ordered m \<Longrightarrow> smap_find lt k m \<noteq> None \<Longrightarrow> Suc (length (smap_erase lt k m)) = length m"
proof (induction m)
  case (Cons e m)
  obtain b w where e: "e = (b, w)" by (cases e)
  from Cons show ?case unfolding e by (cases b k rule: three_ways) auto
qed simp

text \<open>What a lookup finds after each change.\<close>

definition lookup :: "('k, 'v) smap \<Rightarrow> 'k \<Rightarrow> 'v option" where
  "lookup m k = map_option snd (smap_find lt k m)"

lemma lookup_eq: "ordered m \<Longrightarrow> lookup m k = Some v \<longleftrightarrow> (\<exists>a. (a, v) \<in> set m \<and> key a = key k)"
  using find_Some [of m k] by (auto simp: lookup_def)

lemma lookup_erase: "ordered m \<Longrightarrow> lookup (smap_erase lt k m) j = (if key j = key k then None else lookup m j)"
  by (rule option_eqI) (auto simp: lookup_eq set_erase)

lemma lookup_modify: "ordered m \<Longrightarrow> lookup (smap_modify lt k f m) j = (if key j = key k then map_option f (lookup m j) else lookup m j)"
  by (rule option_eqI) (force simp: lookup_eq set_modify)

lemma lookup_None: "ordered m \<Longrightarrow> lookup m k = None \<longleftrightarrow> (\<forall>e\<in>set m. key (fst e) \<noteq> key k)"
  by (simp add: lookup_def find_None)

lemma lookup_insert:
  assumes "ordered m"
  shows "lookup (smap_insert lt k v m) j = (if key j = key k \<and> lookup m k = None then Some v else lookup m j)"
proof (cases "lookup m k")
  case None
  then have "set (smap_insert lt k v m) = insert (k, v) (set m)" "\<forall>e\<in>set m. key (fst e) \<noteq> key k"
    using set_insert [OF assms, of k v] lookup_None [OF assms, of k] by (simp_all add: lookup_def)
  then show ?thesis using None by (intro option_eqI) (force simp: lookup_eq assms)
next
  case (Some w)
  then have "set (smap_insert lt k v m) = set m" using set_insert [OF assms, of k v] by (auto simp: lookup_def)
  then have "lookup (smap_insert lt k v m) j = lookup m j" by (intro option_eqI) (simp add: lookup_eq assms)
  then show ?thesis using Some by simp
qed

lemma lookup_same: "ordered m \<Longrightarrow> key j = key k \<Longrightarrow> lookup m j = lookup m k"
  by (rule option_eqI) (simp add: lookup_eq)

lemma lookup_assign: "ordered m \<Longrightarrow> lookup (smap_assign lt k v m) j = (if key j = key k then Some v else lookup m j)"
  using lookup_same [of m j k] by (cases "lookup m k") (simp_all add: smap_assign_def lookup_modify lookup_insert)

end

end
