(* ===== verification/ServerConfig.thy ===== *)
theory ServerConfig
  imports Complex_Main StdMap "HOL-Library.List_Lexorder" "HOL-Library.Product_Lexorder"
begin

text \<open>
  \<^verbatim>\<open>src/lib/server/Config.cpp\<close>: the screens of a server, their aliases, the links between their
  edges and their options, with the case-insensitive comparison of \<^verbatim>\<open>src/lib/base/String.cpp\<close>.
  Edge positions are floats: their order is exact, so positions are rationals, and the two
  computations on them take the rounding of the float unit as a parameter. A failed assertion
  or a loop that does not end is \<open>None\<close>.
\<close>

section \<open>Case-insensitive names\<close>

text \<open>A \<open>char\<close> is signed; \<open>tolower\<close> of the C locale moves the 26 capitals.\<close>

definition tolower :: "char \<Rightarrow> int" where
  "tolower c =
     (let b = int (of_char c) in if 128 \<le> b then b - 256 else if 65 \<le> b \<and> b \<le> 90 then b + 32 else b)"

definition cmpLess :: "char \<Rightarrow> char \<Rightarrow> bool" where
  "cmpLess a b \<longleftrightarrow> tolower a < tolower b"

fun lexicographical_compare :: "(char \<Rightarrow> char \<Rightarrow> bool) \<Rightarrow> string \<Rightarrow> string \<Rightarrow> bool" where
  "lexicographical_compare lt [] bs = (bs \<noteq> [])"
| "lexicographical_compare lt (a # as) [] = False"
| "lexicographical_compare lt (a # as) (b # bs) =
     (if lt a b then True else if lt b a then False else lexicographical_compare lt as bs)"

definition caseless_less :: "string \<Rightarrow> string \<Rightarrow> bool" where
  "caseless_less a b = lexicographical_compare cmpLess a b"

definition caseless_equal :: "string \<Rightarrow> string \<Rightarrow> bool" where
  "caseless_equal a b \<longleftrightarrow> \<not> (caseless_less a b \<or> caseless_less b a)"

text \<open>The key of a name: its folded characters.\<close>

definition fold_name :: "string \<Rightarrow> int list" where
  "fold_name s = map tolower s"

lemma Nil_less_list: "([] :: int list) < xs \<longleftrightarrow> xs \<noteq> []"
  by (cases xs) auto

lemma caseless_less_key: "caseless_less a b \<longleftrightarrow> fold_name a < fold_name b"
  unfolding caseless_less_def
  by (induction cmpLess a b rule: lexicographical_compare.induct)
     (auto simp: fold_name_def cmpLess_def Nil_less_list)

lemma caseless_equal_key: "caseless_equal a b \<longleftrightarrow> fold_name a = fold_name b"
  by (auto simp: caseless_equal_def caseless_less_key)

interpretation names: keyed_map caseless_less fold_name
  by unfold_locales (rule caseless_less_key)

section \<open>Edges of a screen\<close>

datatype EDirection = kNoDirection | kLeft | kRight | kTop | kBottom

primrec dir_num :: "EDirection \<Rightarrow> int" where
  "dir_num kNoDirection = 0"
| "dir_num kLeft = 1"
| "dir_num kRight = 2"
| "dir_num kTop = 3"
| "dir_num kBottom = 4"

type_synonym interval = "rat \<times> rat"

record cell_edge =
  ce_name :: string
  ce_side :: EDirection
  ce_interval :: interval

definition edge_at :: "EDirection \<Rightarrow> rat \<Rightarrow> cell_edge option" where
  "edge_at side position =
     (if side = kNoDirection then None
      else Some \<lparr>ce_name = [], ce_side = side, ce_interval = (position, position)\<rparr>)"

definition new_edge :: "string \<Rightarrow> EDirection \<Rightarrow> interval \<Rightarrow> cell_edge option" where
  "new_edge name side i =
     (if 0 \<le> fst i \<and> snd i \<le> 1 \<and> fst i < snd i \<and> side \<noteq> kNoDirection
      then Some \<lparr>ce_name = name, ce_side = side, ce_interval = i\<rparr> else None)"

definition edge_overlaps :: "cell_edge \<Rightarrow> cell_edge \<Rightarrow> bool" where
  "edge_overlaps e f =
     (let x = ce_interval e; y = ce_interval f
      in ce_side e = ce_side f \<and>
         (fst y \<le> fst x \<and> fst x < snd y \<or> fst y < snd x \<and> snd x \<le> snd y \<or>
          fst x \<le> fst y \<and> fst y < snd x \<or> fst x < snd y \<and> snd y \<le> snd x))"

definition isInside :: "cell_edge \<Rightarrow> rat \<Rightarrow> bool" where
  "isInside e x \<longleftrightarrow> fst (ce_interval e) \<le> x \<and> x < snd (ce_interval e)"

text \<open>\<open>fl\<close> rounds the result of one float operation.\<close>

definition transform :: "(rat \<Rightarrow> rat) \<Rightarrow> cell_edge \<Rightarrow> rat \<Rightarrow> rat" where
  "transform fl e x =
     fl (fl (x - fst (ce_interval e)) / fl (snd (ce_interval e) - fst (ce_interval e)))"

definition inverseTransform :: "(rat \<Rightarrow> rat) \<Rightarrow> cell_edge \<Rightarrow> rat \<Rightarrow> rat" where
  "inverseTransform fl e x =
     fl (fl (x * fl (snd (ce_interval e) - fst (ce_interval e))) + fst (ce_interval e))"

definition edge_less :: "cell_edge \<Rightarrow> cell_edge \<Rightarrow> bool" where
  "edge_less e f =
     (if dir_num (ce_side e) < dir_num (ce_side f) then True
      else if dir_num (ce_side f) < dir_num (ce_side e) then False
      else fst (ce_interval e) < fst (ce_interval f))"

definition edge_equal :: "cell_edge \<Rightarrow> cell_edge \<Rightarrow> bool" where
  "edge_equal e f \<longleftrightarrow> ce_side e = ce_side f \<and> ce_interval e = ce_interval f"

definition edge_key :: "cell_edge \<Rightarrow> int \<times> rat" where
  "edge_key e = (dir_num (ce_side e), fst (ce_interval e))"

lemma edge_less_key: "edge_less a b \<longleftrightarrow> edge_key a < edge_key b"
  by (auto simp: edge_less_def edge_key_def)

interpretation edges: keyed_map edge_less edge_key
  by unfold_locales (rule edge_less_key)

section \<open>The links of a screen\<close>

type_synonym OptionID = u32
type_synonym OptionValue = int
type_synonym options = "(OptionID, OptionValue) smap"

record cell =
  m_neighbors :: "(cell_edge, cell_edge) smap"
  m_options :: options

definition cell_new :: cell where
  "cell_new = \<lparr>m_neighbors = [], m_options = []\<rparr>"

definition cell_hasEdge :: "cell_edge \<Rightarrow> cell \<Rightarrow> bool" where
  "cell_hasEdge e c =
     (case smap_find edge_less e (m_neighbors c) of
        None \<Rightarrow> False
      | Some (f, _) \<Rightarrow> edge_equal f e)"

definition cell_overlaps :: "cell_edge \<Rightarrow> cell \<Rightarrow> bool" where
  "cell_overlaps e c =
     (case smap_upper edge_less e (m_neighbors c) of
        (before, after) \<Rightarrow>
          (after \<noteq> [] \<and> edge_overlaps (fst (hd after)) e) \<or>
          (before \<noteq> [] \<and> edge_overlaps (fst (last before)) e))"

definition cell_add :: "cell_edge \<Rightarrow> cell_edge \<Rightarrow> cell \<Rightarrow> bool \<times> cell" where
  "cell_add src dst c =
     (if \<not> cell_hasEdge src c \<and> cell_overlaps src c then (False, c)
      else (True, c\<lparr>m_neighbors :=
              smap_insert edge_less src dst (smap_erase edge_less src (m_neighbors c))\<rparr>))"

definition cell_remove_side :: "EDirection \<Rightarrow> cell \<Rightarrow> cell" where
  "cell_remove_side side c = c\<lparr>m_neighbors := filter (\<lambda>l. ce_side (fst l) \<noteq> side) (m_neighbors c)\<rparr>"

fun remove_first :: "('x \<Rightarrow> bool) \<Rightarrow> 'x list \<Rightarrow> 'x list" where
  "remove_first P [] = []"
| "remove_first P (x # xs) = (if P x then xs else x # remove_first P xs)"

definition cell_remove_at :: "EDirection \<Rightarrow> rat \<Rightarrow> cell \<Rightarrow> cell" where
  "cell_remove_at side position c =
     c\<lparr>m_neighbors := remove_first (\<lambda>l. ce_side (fst l) = side \<and> isInside (fst l) position) (m_neighbors c)\<rparr>"

text \<open>Links to a name, where \<open>is_name\<close> is the comparison of \<open>Config::Name\<close>.\<close>

definition cell_remove_name :: "(string \<Rightarrow> bool) \<Rightarrow> cell \<Rightarrow> cell" where
  "cell_remove_name is_name c = c\<lparr>m_neighbors := filter (\<lambda>l. \<not> is_name (ce_name (snd l))) (m_neighbors c)\<rparr>"

definition cell_rename :: "(string \<Rightarrow> bool) \<Rightarrow> string \<Rightarrow> cell \<Rightarrow> cell" where
  "cell_rename is_name newName c =
     c\<lparr>m_neighbors := map (\<lambda>(e, d). (e, if is_name (ce_name d) then d\<lparr>ce_name := newName\<rparr> else d)) (m_neighbors c)\<rparr>"

definition cell_getLink :: "EDirection \<Rightarrow> rat \<Rightarrow> cell \<Rightarrow> (cell_edge \<times> cell_edge) option option" where
  "cell_getLink side position c =
     (case edge_at side position of
        None \<Rightarrow> None
      | Some e \<Rightarrow>
          (case smap_upper edge_less e (m_neighbors c) of
             (before, after) \<Rightarrow>
               Some (if before = [] then None
                     else if ce_side (fst (last before)) = side \<and> isInside (fst (last before)) position
                     then Some (last before) else None)))"

definition cell_equal :: "cell \<Rightarrow> cell \<Rightarrow> bool" where
  "cell_equal c x \<longleftrightarrow>
     m_options c = m_options x \<and> length (m_neighbors c) = length (m_neighbors x) \<and>
     list_all2 (\<lambda>a b. edge_equal (fst a) (fst b) \<and> edge_equal (snd a) (snd b) \<and>
       caseless_equal (ce_name (snd a)) (ce_name (snd b))) (m_neighbors c) (m_neighbors x)"

section \<open>The configuration\<close>

record config =
  m_map :: "(string, cell) smap"
  m_nameToCanonicalName :: "(string, string) smap"
  m_globalOptions :: options
  m_hasLockToScreenAction :: bool

definition config_new :: config where
  "config_new = \<lparr>m_map = [], m_nameToCanonicalName = [], m_globalOptions = [], m_hasLockToScreenAction = False\<rparr>"

definition find_name :: "string \<Rightarrow> config \<Rightarrow> (string \<times> string) option" where
  "find_name n c = smap_find caseless_less n (m_nameToCanonicalName c)"

definition find_cell :: "string \<Rightarrow> config \<Rightarrow> (string \<times> cell) option" where
  "find_cell n c = smap_find caseless_less n (m_map c)"

definition getCanonicalName :: "string \<Rightarrow> config \<Rightarrow> string" where
  "getCanonicalName n c = (case find_name n c of None \<Rightarrow> [] | Some (_, t) \<Rightarrow> t)"

definition isScreen :: "string \<Rightarrow> config \<Rightarrow> bool" where
  "isScreen n c \<longleftrightarrow> find_name n c \<noteq> None"

definition isCanonicalName :: "string \<Rightarrow> config \<Rightarrow> bool" where
  "isCanonicalName n c \<longleftrightarrow> n \<noteq> [] \<and> caseless_equal (getCanonicalName n c) n"

text \<open>\<open>Config::Name\<close>: built from a name in one configuration, compared in another.\<close>

definition name_eq :: "string \<Rightarrow> config \<Rightarrow> string \<Rightarrow> bool" where
  "name_eq m c n \<longleftrightarrow> caseless_equal (getCanonicalName n c) m"

definition addScreen :: "string \<Rightarrow> config \<Rightarrow> bool \<times> config" where
  "addScreen name c =
     (if find_name name c \<noteq> None then (False, c)
      else (True, c\<lparr>m_map := smap_insert caseless_less name cell_new (m_map c),
                    m_nameToCanonicalName := smap_insert caseless_less name name (m_nameToCanonicalName c)\<rparr>))"

definition renameScreen :: "string \<Rightarrow> string \<Rightarrow> config \<Rightarrow> bool \<times> config" where
  "renameScreen oldName newName c =
     (let oldCanonical = getCanonicalName oldName c
      in case find_cell oldCanonical c of
           None \<Rightarrow> (False, c)
         | Some (k, tmpCell) \<Rightarrow>
             if \<not> caseless_equal oldName newName \<and> find_name newName c \<noteq> None then (False, c)
             else
               let c1 = c\<lparr>m_map := smap_insert caseless_less newName tmpCell (smap_erase caseless_less k (m_map c)),
                          m_nameToCanonicalName := smap_insert caseless_less newName newName
                            (smap_erase caseless_less oldCanonical (m_nameToCanonicalName c))\<rparr>;
                   oldNameObj = getCanonicalName oldName c1;
                   c2 = c1\<lparr>m_map := map (\<lambda>(n, x). (n, cell_rename (name_eq oldNameObj c1) newName x)) (m_map c1)\<rparr>
               in (True,
                   if caseless_equal oldName oldCanonical
                   then c2\<lparr>m_nameToCanonicalName :=
                             map (\<lambda>(n, t). (n, if caseless_equal t oldCanonical then newName else t)) (m_nameToCanonicalName c2)\<rparr>
                   else c2))"

text \<open>
  The last loop of \<open>removeScreen\<close>: an entry of another screen advances the wrong iterator
  (\<open>++index\<close>, which is past the end), so the loop stays at that entry for ever.
\<close>

fun remove_names :: "string \<Rightarrow> (string, string) smap \<Rightarrow> (string, string) smap option" where
  "remove_names canonical [] = Some []"
| "remove_names canonical ((n, t) # m) = (if t = canonical then remove_names canonical m else None)"

definition removeScreen :: "string \<Rightarrow> config \<Rightarrow> config option" where
  "removeScreen name c =
     (let canonical = getCanonicalName name c
      in case find_cell canonical c of
           None \<Rightarrow> Some c
         | Some (k, _) \<Rightarrow>
             let c1 = c\<lparr>m_map := smap_erase caseless_less k (m_map c)\<rparr>;
                 nameObj = getCanonicalName name c1;
                 c2 = c1\<lparr>m_map := map (\<lambda>(n, x). (n, cell_remove_name (name_eq nameObj c1) x)) (m_map c1)\<rparr>
             in map_option (\<lambda>m. c2\<lparr>m_nameToCanonicalName := m\<rparr>) (remove_names canonical (m_nameToCanonicalName c2)))"

definition removeAllScreens :: "config \<Rightarrow> config" where
  "removeAllScreens c = c\<lparr>m_map := [], m_nameToCanonicalName := []\<rparr>"

definition addAlias :: "string \<Rightarrow> string \<Rightarrow> config \<Rightarrow> bool \<times> config" where
  "addAlias canonical alias c =
     (if find_name alias c \<noteq> None then (False, c)
      else if find_cell canonical c = None then (False, c)
      else (True, c\<lparr>m_nameToCanonicalName := smap_insert caseless_less alias canonical (m_nameToCanonicalName c)\<rparr>))"

definition removeAlias :: "string \<Rightarrow> config \<Rightarrow> bool \<times> config" where
  "removeAlias alias c =
     (if find_cell alias c \<noteq> None then (False, c)
      else case find_name alias c of
             None \<Rightarrow> (False, c)
           | Some (k, _) \<Rightarrow> (True, c\<lparr>m_nameToCanonicalName := smap_erase caseless_less k (m_nameToCanonicalName c)\<rparr>))"

definition removeAliases :: "string \<Rightarrow> config \<Rightarrow> bool \<times> config" where
  "removeAliases canonical c =
     (if find_cell canonical c = None then (False, c)
      else (True, c\<lparr>m_nameToCanonicalName :=
              filter (\<lambda>(n, t). \<not> (t = canonical \<and> n \<noteq> canonical)) (m_nameToCanonicalName c)\<rparr>))"

definition removeAllAliases :: "config \<Rightarrow> config" where
  "removeAllAliases c =
     c\<lparr>m_nameToCanonicalName := fold (\<lambda>(n, _). smap_insert caseless_less n n) (m_map c) []\<rparr>"

definition connect :: "string \<Rightarrow> EDirection \<Rightarrow> interval \<Rightarrow> string \<Rightarrow> interval \<Rightarrow> config \<Rightarrow> (bool \<times> config) option" where
  "connect srcName srcSide src dstName dst c =
     (if srcSide = kNoDirection then None
      else case find_cell (getCanonicalName srcName c) c of
             None \<Rightarrow> Some (False, c)
           | Some (k, x) \<Rightarrow>
               (case (new_edge [] srcSide src, new_edge dstName srcSide dst) of
                  (Some e, Some f) \<Rightarrow>
                    Some (fst (cell_add e f x), c\<lparr>m_map := smap_modify caseless_less k (\<lambda>x. snd (cell_add e f x)) (m_map c)\<rparr>)
                | _ \<Rightarrow> None))"

definition disconnect :: "string \<Rightarrow> EDirection \<Rightarrow> config \<Rightarrow> (bool \<times> config) option" where
  "disconnect srcName srcSide c =
     (if srcSide = kNoDirection then None
      else case find_cell srcName c of
             None \<Rightarrow> Some (False, c)
           | Some (k, _) \<Rightarrow> Some (True, c\<lparr>m_map := smap_modify caseless_less k (cell_remove_side srcSide) (m_map c)\<rparr>))"

definition disconnect_at :: "string \<Rightarrow> EDirection \<Rightarrow> rat \<Rightarrow> config \<Rightarrow> (bool \<times> config) option" where
  "disconnect_at srcName srcSide position c =
     (if srcSide = kNoDirection then None
      else case find_cell srcName c of
             None \<Rightarrow> Some (False, c)
           | Some (k, _) \<Rightarrow>
               Some (True, c\<lparr>m_map := smap_modify caseless_less k (cell_remove_at srcSide position) (m_map c)\<rparr>))"

text \<open>The options of the server (no name) or of a screen, updated by \<open>f\<close>.\<close>

definition with_options :: "string \<Rightarrow> (options \<Rightarrow> options) \<Rightarrow> config \<Rightarrow> bool \<times> config" where
  "with_options name f c =
     (if name = [] then (True, c\<lparr>m_globalOptions := f (m_globalOptions c)\<rparr>)
      else case find_cell name c of
             None \<Rightarrow> (False, c)
           | Some (k, _) \<Rightarrow>
               (True, c\<lparr>m_map := smap_modify caseless_less k (\<lambda>x. x\<lparr>m_options := f (m_options x)\<rparr>) (m_map c)\<rparr>))"

definition addOption :: "string \<Rightarrow> OptionID \<Rightarrow> OptionValue \<Rightarrow> config \<Rightarrow> bool \<times> config" where
  "addOption name opt v c = with_options name (smap_insert (<) opt v) c"

definition removeOption :: "string \<Rightarrow> OptionID \<Rightarrow> config \<Rightarrow> bool \<times> config" where
  "removeOption name opt c = with_options name (smap_erase (<) opt) c"

definition removeOptions :: "string \<Rightarrow> config \<Rightarrow> bool \<times> config" where
  "removeOptions name c = with_options name (\<lambda>_. []) c"

definition getOptions :: "string \<Rightarrow> config \<Rightarrow> options option" where
  "getOptions name c =
     (if name = [] then Some (m_globalOptions c)
      else map_option (\<lambda>(_, x). m_options x) (find_cell name c))"

text \<open>\<open>getNeighbor\<close>: the neighbor's name (none is the empty name) and the position on its edge.\<close>

definition getNeighbor :: "(rat \<Rightarrow> rat) \<Rightarrow> string \<Rightarrow> EDirection \<Rightarrow> rat \<Rightarrow> config \<Rightarrow> (string \<times> rat option) option" where
  "getNeighbor fl srcName srcSide position c =
     (if srcSide = kNoDirection then None
      else case find_cell (getCanonicalName srcName c) c of
             None \<Rightarrow> Some ([], None)
           | Some (_, x) \<Rightarrow>
               map_option (\<lambda>l. case l of
                   None \<Rightarrow> ([], None)
                 | Some (srcEdge, dstEdge) \<Rightarrow>
                     (getCanonicalName (ce_name dstEdge) c,
                      Some (inverseTransform fl dstEdge (transform fl srcEdge position))))
                 (cell_getLink srcSide position x))"

definition hasNeighbor :: "string \<Rightarrow> EDirection \<Rightarrow> interval \<Rightarrow> config \<Rightarrow> bool option" where
  "hasNeighbor srcName srcSide i c =
     (if srcSide = kNoDirection then None
      else case find_cell (getCanonicalName srcName c) c of
             None \<Rightarrow> Some False
           | Some (_, x) \<Rightarrow> map_option (\<lambda>e. cell_overlaps e x) (new_edge [] srcSide i))"

section \<open>The links of a screen do not overlap\<close>

definition edge_ok :: "cell_edge \<Rightarrow> bool" where
  "edge_ok e \<longleftrightarrow> ce_side e \<noteq> kNoDirection \<and> 0 \<le> fst (ce_interval e) \<and>
     fst (ce_interval e) < snd (ce_interval e) \<and> snd (ce_interval e) \<le> 1"

definition cell_inv :: "cell \<Rightarrow> bool" where
  "cell_inv c \<longleftrightarrow> edges.ordered (m_neighbors c) \<and> (\<forall>l\<in>set (m_neighbors c). edge_ok (fst l) \<and> edge_ok (snd l)) \<and>
     (\<forall>l\<in>set (m_neighbors c). \<forall>l'\<in>set (m_neighbors c). l \<noteq> l' \<longrightarrow> \<not> edge_overlaps (fst l) (fst l'))"

lemma new_edge_ok: "new_edge n s i = Some e \<Longrightarrow> edge_ok e"
  by (auto simp: new_edge_def edge_ok_def split: if_splits)

lemma overlaps_iff:
  "edge_ok e \<Longrightarrow> edge_ok f \<Longrightarrow> edge_overlaps e f \<longleftrightarrow>
     ce_side e = ce_side f \<and> fst (ce_interval e) < snd (ce_interval f) \<and> fst (ce_interval f) < snd (ce_interval e)"
  by (auto simp: edge_overlaps_def edge_ok_def Let_def)

lemma dir_num_inj: "dir_num a = dir_num b \<longleftrightarrow> a = b"
  by (cases a; cases b) auto

lemma edge_key_less:
  "edge_key a < edge_key b \<longleftrightarrow> dir_num (ce_side a) < dir_num (ce_side b) \<or>
     ce_side a = ce_side b \<and> fst (ce_interval a) < fst (ce_interval b)"
  by (auto simp: edge_key_def dir_num_inj)

lemma edge_key_eq:
  "edge_key a = edge_key b \<longleftrightarrow> ce_side a = ce_side b \<and> fst (ce_interval a) = fst (ce_interval b)"
  by (auto simp: edge_key_def dir_num_inj)

text \<open>An edge between two edges of the same side is on that side.\<close>

lemma edge_key_between:
  assumes "edge_key a \<le> edge_key b" "edge_key b \<le> edge_key c" "ce_side a = ce_side c"
  shows "ce_side b = ce_side a \<and> fst (ce_interval a) \<le> fst (ce_interval b) \<and> fst (ce_interval b) \<le> fst (ce_interval c)"
  using assms by (auto simp: edge_key_def dir_num_inj)

text \<open>Looking at the two nearest links is enough.\<close>

lemma cell_overlaps_exact:
  assumes "cell_inv c" "edge_ok e"
  shows "cell_overlaps e c \<longleftrightarrow> (\<exists>l\<in>set (m_neighbors c). edge_overlaps (fst l) e)"
proof -
  obtain before after where u: "smap_upper edge_less e (m_neighbors c) = (before, after)" by fastforce
  have o: "edges.ordered (m_neighbors c)" using assms(1) by (simp add: cell_inv_def)
  note sp = edges.upper_split [OF o u]
  have ok: "edge_ok (fst l)" if "l \<in> set (m_neighbors c)" for l using assms(1) that by (auto simp: cell_inv_def)
  have dj: "\<not> edge_overlaps (fst l) (fst l')" if "l \<in> set (m_neighbors c)" "l' \<in> set (m_neighbors c)" "l \<noteq> l'" for l l'
    using assms(1) that by (auto simp: cell_inv_def)
  have "cell_overlaps e c" if l: "l \<in> set (m_neighbors c)" "edge_overlaps (fst l) e" for l
  proof (cases "l \<in> set after")
    case True
    let ?h = "hd after"
    have h: "?h \<in> set after" using True by (cases after) auto
    then have hm: "?h \<in> set (m_neighbors c)" using sp(1) by auto
    from edges.hd_least [of before after l] True o sp(1)
    have "edge_key (fst ?h) \<le> edge_key (fst l)" by auto
    moreover have "edge_key e < edge_key (fst ?h)" using sp(3) [OF h] .
    ultimately have b: "ce_side (fst ?h) = ce_side e" "fst (ce_interval e) \<le> fst (ce_interval (fst ?h))"
      "fst (ce_interval (fst ?h)) \<le> fst (ce_interval (fst l))"
      using edge_key_between [of e "fst ?h" "fst l"] l(2) by (auto simp: edge_overlaps_def Let_def)
    then have "edge_overlaps (fst ?h) e"
      using l ok [OF l(1)] ok [OF hm] assms(2) by (auto simp: overlaps_iff edge_ok_def)
    then show ?thesis using u True by (auto simp: cell_overlaps_def)
  next
    case False
    then have lb: "l \<in> set before" using l(1) sp(1) by auto
    let ?b = "last before"
    have b: "?b \<in> set before" using lb by (cases before) auto
    then have bm: "?b \<in> set (m_neighbors c)" using sp(1) by auto
    from edges.last_greatest [of before after l] lb o sp(1)
    have le: "l = ?b \<or> edge_key (fst l) < edge_key (fst ?b)" by auto
    have "l = ?b"
    proof (rule ccontr)
      assume n: "l \<noteq> ?b"
      with le have "edge_key (fst l) < edge_key (fst ?b)" by simp
      moreover have "edge_key (fst ?b) \<le> edge_key e" using sp(2) [OF b] .
      ultimately have "ce_side (fst ?b) = ce_side (fst l)" "fst (ce_interval (fst l)) \<le> fst (ce_interval (fst ?b))"
        "fst (ce_interval (fst ?b)) \<le> fst (ce_interval e)"
        using edge_key_between [of "fst l" "fst ?b" e] l(2) by (auto simp: edge_overlaps_def Let_def)
      with dj [OF l(1) bm n] l ok [OF l(1)] ok [OF bm] assms(2) show False
        by (auto simp: overlaps_iff edge_ok_def)
    qed
    then show ?thesis using u l(2) lb by (auto simp: cell_overlaps_def)
  qed
  moreover have "\<exists>l\<in>set (m_neighbors c). edge_overlaps (fst l) e" if "cell_overlaps e c"
    using that u sp(1) hd_in_set [of after] last_in_set [of before] by (auto simp: cell_overlaps_def)
  ultimately show ?thesis by blast
qed

lemma cell_hasEdge_iff:
  assumes "cell_inv c"
  shows "cell_hasEdge e c \<longleftrightarrow> (\<exists>l\<in>set (m_neighbors c). edge_equal (fst l) e)"
proof -
  have o: "edges.ordered (m_neighbors c)" using assms by (simp add: cell_inv_def)
  show ?thesis
  proof (cases "smap_find edge_less e (m_neighbors c)")
    case None
    then show ?thesis using edges.find_None [OF o, of e]
      by (auto simp: cell_hasEdge_def edge_equal_def edge_key_eq)
  next
    case (Some p)
    obtain f d where p: "p = (f, d)" by (cases p)
    with Some edges.find_Some [OF o, of e f d] have f: "(f, d) \<in> set (m_neighbors c)" "edge_key f = edge_key e" by auto
    have "edge_equal f e" if "(f', d') \<in> set (m_neighbors c)" "edge_equal f' e" for f' d'
      using edges.unique [OF o f(1) that(1)] f(2) that(2) by (auto simp: edge_equal_def edge_key_eq)
    moreover have "cell_hasEdge e c \<longleftrightarrow> edge_equal f e" using Some p by (simp add: cell_hasEdge_def)
    ultimately show ?thesis using f(1) by (metis fst_conv prod.collapse)
  qed
qed

text \<open>
  What adding a link does: it replaces a link from exactly the same edge, is refused where it
  would overlap another one, and otherwise is added beside the others.
\<close>

lemma cell_add_spec:
  assumes "cell_inv c" "edge_ok src" "edge_ok dst"
  shows "cell_inv (snd (cell_add src dst c))"
    "fst (cell_add src dst c) \<longleftrightarrow>
       (\<forall>l\<in>set (m_neighbors c). edge_overlaps (fst l) src \<longrightarrow> edge_equal (fst l) src)"
    "fst (cell_add src dst c) \<Longrightarrow> set (m_neighbors (snd (cell_add src dst c))) =
       insert (src, dst) {l \<in> set (m_neighbors c). \<not> edge_equal (fst l) src}"
    "\<not> fst (cell_add src dst c) \<Longrightarrow> snd (cell_add src dst c) = c"
proof -
  have o: "edges.ordered (m_neighbors c)"
    and ok: "\<And>l. l \<in> set (m_neighbors c) \<Longrightarrow> edge_ok (fst l) \<and> edge_ok (snd l)"
    and dj: "\<And>l l'. l \<in> set (m_neighbors c) \<Longrightarrow> l' \<in> set (m_neighbors c) \<Longrightarrow> l \<noteq> l' \<Longrightarrow> \<not> edge_overlaps (fst l) (fst l')"
    using assms(1) by (auto simp: cell_inv_def)
  have self: "edge_overlaps (fst l) src" if "l \<in> set (m_neighbors c)" "edge_key (fst l) = edge_key src" for l
    using that ok [OF that(1)] assms(2) by (auto simp: overlaps_iff edge_key_eq edge_ok_def)
  have eqo: "edge_overlaps (fst l) src" if "l \<in> set (m_neighbors c)" "edge_equal (fst l) src" for l
    using that self by (auto simp: edge_equal_def edge_key_eq)
  have same: "edge_overlaps (fst l') (fst l) \<longleftrightarrow> edge_overlaps (fst l') src" if "edge_equal (fst l) src" for l l' :: "cell_edge \<times> cell_edge"
    using that by (auto simp: edge_equal_def edge_overlaps_def Let_def)
  let ?free = "\<forall>l\<in>set (m_neighbors c). edge_overlaps (fst l) src \<longrightarrow> edge_equal (fst l) src"
  have "cell_hasEdge src c \<or> \<not> cell_overlaps src c \<longleftrightarrow> ?free"
    using cell_hasEdge_iff [OF assms(1), of src] cell_overlaps_exact [OF assms(1,2)] dj same by blast
  then show iff: "fst (cell_add src dst c) \<longleftrightarrow> ?free" by (auto simp: cell_add_def)
  show "\<not> fst (cell_add src dst c) \<Longrightarrow> snd (cell_add src dst c) = c" by (auto simp: cell_add_def)
  let ?m = "smap_erase edge_less src (m_neighbors c)"
  have e: "set ?m = {l \<in> set (m_neighbors c). edge_key (fst l) \<noteq> edge_key src}" by (rule edges.set_erase [OF o])
  have oe: "edges.ordered ?m" using o by simp
  have n: "smap_find edge_less src ?m = None" using edges.find_None [OF oe, of src] e by auto
  have k: "{l \<in> set (m_neighbors c). edge_key (fst l) \<noteq> edge_key src} = {l \<in> set (m_neighbors c). \<not> edge_equal (fst l) src}" if ?free
    using that self by (auto simp: edge_equal_def edge_key_eq)
  show set: "set (m_neighbors (snd (cell_add src dst c))) =
       insert (src, dst) {l \<in> set (m_neighbors c). \<not> edge_equal (fst l) src}" if "fst (cell_add src dst c)"
    using that iff edges.set_insert [OF oe, of src dst] n e k by (auto simp: cell_add_def split: if_splits)
  have sym: "edge_overlaps a b = edge_overlaps b a" for a b by (auto simp: edge_overlaps_def Let_def)
  show "cell_inv (snd (cell_add src dst c))"
  proof (cases "fst (cell_add src dst c)")
    case False
    then show ?thesis using assms(1) by (auto simp: cell_add_def)
  next
    case True
    have "edges.ordered (m_neighbors (snd (cell_add src dst c)))" using o by (simp add: cell_add_def)
    moreover have "\<not> edge_overlaps (fst l) src" if "l \<in> set (m_neighbors c)" "\<not> edge_equal (fst l) src" for l
      using True iff that by blast
    ultimately show ?thesis
      unfolding cell_inv_def set [OF True] using ok dj assms(2,3) sym by auto
  qed
qed

text \<open>A position belongs to at most one link, and the lookup finds it.\<close>

lemma cell_getLink_spec:
  assumes "cell_inv c" "side \<noteq> kNoDirection"
  shows "\<exists>r. cell_getLink side p c = Some r \<and>
    (\<forall>l. r = Some l \<longleftrightarrow> l \<in> set (m_neighbors c) \<and> ce_side (fst l) = side \<and> isInside (fst l) p)"
proof -
  define e where "e = \<lparr>ce_name = [], ce_side = side, ce_interval = (p, p)\<rparr>"
  obtain before after where u: "smap_upper edge_less e (m_neighbors c) = (before, after)" by fastforce
  have o: "edges.ordered (m_neighbors c)" using assms(1) by (simp add: cell_inv_def)
  note sp = edges.upper_split [OF o u]
  have dj: "\<not> edge_overlaps (fst l) (fst l')" if "l \<in> set (m_neighbors c)" "l' \<in> set (m_neighbors c)" "l \<noteq> l'" for l l'
    using assms(1) that by (auto simp: cell_inv_def)
  have last: "before \<noteq> [] \<and> l = last before"
    if l: "l \<in> set (m_neighbors c)" "ce_side (fst l) = side" "isInside (fst l) p" for l
  proof -
    have "\<not> edge_key e < edge_key (fst l)" using l(2,3) by (auto simp: e_def edge_key_less isInside_def)
    then have lb: "l \<in> set before" using l(1) sp(1) sp(3) [of l] by auto
    let ?b = "last before"
    have b: "?b \<in> set before" using lb by (cases before) auto
    have "l = ?b"
    proof (rule ccontr)
      assume n: "l \<noteq> ?b"
      with edges.last_greatest [of before after l] lb o sp(1)
      have "edge_key (fst l) < edge_key (fst ?b)" by auto
      moreover have "edge_key (fst ?b) \<le> edge_key e" using sp(2) [OF b] .
      ultimately have "ce_side (fst ?b) = side" "fst (ce_interval (fst l)) \<le> fst (ce_interval (fst ?b))"
        "fst (ce_interval (fst ?b)) \<le> p"
        using edge_key_between [of "fst l" "fst ?b" e] l(2) by (auto simp: e_def)
      moreover have "?b \<in> set (m_neighbors c)" using b sp(1) by auto
      moreover from this have "edge_ok (fst ?b)" "edge_ok (fst l)" using assms(1) l(1) by (auto simp: cell_inv_def)
      ultimately show False using dj [OF l(1) _ n] l(2,3) by (auto simp: overlaps_iff isInside_def edge_ok_def)
    qed
    then show ?thesis using lb by auto
  qed
  have mem: "before \<noteq> [] \<Longrightarrow> last before \<in> set (m_neighbors c)" using sp(1) by auto
  let ?r = "if before = [] then None
    else if ce_side (fst (last before)) = side \<and> isInside (fst (last before)) p then Some (last before) else None"
  have "cell_getLink side p c = Some ?r"
    using u assms(2) by (simp add: cell_getLink_def edge_at_def e_def)
  moreover have "?r = Some l \<longleftrightarrow> l \<in> set (m_neighbors c) \<and> ce_side (fst l) = side \<and> isInside (fst l) p" for l
    using last [of l] mem by (auto split: if_splits)
  ultimately show ?thesis by blast
qed

section \<open>Names resolve to screens\<close>

text \<open>
  Every screen is listed under its own name, every listed name resolves to a screen, no screen
  has the empty name (which stands for no screen), and the links of every screen are in order.
\<close>

definition config_inv :: "config \<Rightarrow> bool" where
  "config_inv c \<longleftrightarrow>
     names.ordered (m_map c) \<and> names.ordered (m_nameToCanonicalName c) \<and>
     (\<forall>(n, t)\<in>set (m_nameToCanonicalName c). \<exists>(k, x)\<in>set (m_map c). fold_name k = fold_name t) \<and>
     (\<forall>(k, x)\<in>set (m_map c). k \<noteq> [] \<and> (k, k) \<in> set (m_nameToCanonicalName c) \<and> cell_inv x)"

lemma config_invI:
  assumes "names.ordered (m_map c)" "names.ordered (m_nameToCanonicalName c)"
    "\<And>n t. (n, t) \<in> set (m_nameToCanonicalName c) \<Longrightarrow> \<exists>k x. (k, x) \<in> set (m_map c) \<and> fold_name k = fold_name t"
    "\<And>k x. (k, x) \<in> set (m_map c) \<Longrightarrow> k \<noteq> [] \<and> (k, k) \<in> set (m_nameToCanonicalName c) \<and> cell_inv x"
  shows "config_inv c"
  unfolding config_inv_def using assms by fast

lemma config_invD:
  assumes "config_inv c"
  shows "names.ordered (m_map c)" "names.ordered (m_nameToCanonicalName c)"
    "(n, t) \<in> set (m_nameToCanonicalName c) \<Longrightarrow> \<exists>k x. (k, x) \<in> set (m_map c) \<and> fold_name k = fold_name t"
    "(k, x) \<in> set (m_map c) \<Longrightarrow> k \<noteq> [] \<and> (k, k) \<in> set (m_nameToCanonicalName c) \<and> cell_inv x"
  using assms unfolding config_inv_def by fast+

lemma find_name_Some:
  "config_inv c \<Longrightarrow> find_name n c = Some (m, t) \<longleftrightarrow> (m, t) \<in> set (m_nameToCanonicalName c) \<and> fold_name m = fold_name n"
  using names.find_Some [OF config_invD(2)] by (simp add: find_name_def)

lemma find_name_None:
  "config_inv c \<Longrightarrow> find_name n c = None \<longleftrightarrow> (\<forall>(m, t)\<in>set (m_nameToCanonicalName c). fold_name m \<noteq> fold_name n)"
  using names.find_None [OF config_invD(2)] by (auto simp: find_name_def)

lemma find_cell_Some:
  "config_inv c \<Longrightarrow> find_cell n c = Some (k, x) \<longleftrightarrow> (k, x) \<in> set (m_map c) \<and> fold_name k = fold_name n"
  using names.find_Some [OF config_invD(1)] by (simp add: find_cell_def)

lemma find_cell_None:
  "config_inv c \<Longrightarrow> find_cell n c = None \<longleftrightarrow> (\<forall>(k, x)\<in>set (m_map c). fold_name k \<noteq> fold_name n)"
  using names.find_None [OF config_invD(1)] by (auto simp: find_cell_def)

text \<open>A name that is not listed is no screen's name either.\<close>

lemma unlisted_no_cell:
  assumes "config_inv c" "find_name n c = None"
  shows "find_cell n c = None"
  using assms(2) unfolding find_cell_None [OF assms(1)] find_name_None [OF assms(1)]
  using config_invD(4) [OF assms(1)] by fast

text \<open>Every listed name leads to a cell.\<close>

lemma listed_has_cell:
  assumes "config_inv c" "find_name n c = Some (m, t)"
  shows "\<exists>k x. find_cell t c = Some (k, x) \<and> t \<noteq> []"
proof -
  from assms obtain k x where k: "(k, x) \<in> set (m_map c)" "fold_name k = fold_name t"
    using find_name_Some [OF assms(1)] config_invD(3) [OF assms(1)] by blast
  moreover have "k \<noteq> []" using config_invD(4) [OF assms(1) k(1)] by simp
  ultimately have "t \<noteq> []" by (auto simp: fold_name_def)
  with k find_cell_Some [OF assms(1)] show ?thesis by blast
qed

lemma config_new_inv: "config_inv config_new"
  by (simp add: config_inv_def config_new_def)

lemma addScreen_inv:
  assumes "config_inv c" "name \<noteq> []"
  shows "config_inv (snd (addScreen name c))"
proof (cases "find_name name c")
  case (Some p)
  then show ?thesis using assms by (simp add: addScreen_def)
next
  case None
  note fc = unlisted_no_cell [OF assms(1) None]
  note D = config_invD [OF assms(1)]
  have s: "set (smap_insert caseless_less name cell_new (m_map c)) = insert (name, cell_new) (set (m_map c))"
    "set (smap_insert caseless_less name name (m_nameToCanonicalName c)) = insert (name, name) (set (m_nameToCanonicalName c))"
    using names.set_insert [OF D(1)] names.set_insert [OF D(2)] fc None by (auto simp: find_cell_def find_name_def)
  have "cell_inv cell_new" by (simp add: cell_inv_def cell_new_def)
  then show ?thesis
    using None D(1,2) assms(2) s by (auto simp: addScreen_def intro!: config_invI dest!: D(3) dest: D(4)) blast+
qed

lemma modify_inv:
  assumes "config_inv c" "\<And>x. cell_inv x \<Longrightarrow> cell_inv (f x)"
  shows "config_inv (c\<lparr>m_map := smap_modify caseless_less k f (m_map c)\<rparr>)"
proof -
  note D = config_invD [OF assms(1)]
  note s = names.set_modify [OF D(1), of k f]
  show ?thesis
  proof (rule config_invI, goal_cases)
    case (3 n t)
    then have "(n, t) \<in> set (m_nameToCanonicalName c)" by simp
    from D(3) [OF this] obtain k' x where "(k', x) \<in> set (m_map c)" "fold_name k' = fold_name t" by blast
    moreover from this have "(k', if fold_name k' = fold_name k then f x else x) \<in> set (smap_modify caseless_less k f (m_map c))"
      unfolding s by (intro image_eqI [of _ _ "(k', x)"]) auto
    ultimately show ?case by auto
  next
    case (4 k x)
    then show ?case using D(4) assms(2) s by (auto split: if_splits)
  qed (use D in simp_all)
qed

lemma addAlias_inv:
  assumes "config_inv c"
  shows "config_inv (snd (addAlias canonical alias c))"
proof (cases "find_name alias c = None \<and> find_cell canonical c \<noteq> None")
  case True
  note D = config_invD [OF assms]
  from True obtain k x where "(k, x) \<in> set (m_map c)" "fold_name k = fold_name canonical"
    using find_cell_Some [OF assms, of canonical] by auto
  then show ?thesis
    using True D(1,2) names.set_insert [OF D(2), of "alias" canonical]
    by (auto simp: addAlias_def find_name_def intro!: config_invI dest!: D(3) dest: D(4)) blast+
next
  case False
  then show ?thesis using assms by (auto simp: addAlias_def)
qed

lemma names_subset_inv:
  assumes "config_inv c" "names.ordered ns" "set ns \<subseteq> set (m_nameToCanonicalName c)"
    "\<And>k x. (k, x) \<in> set (m_map c) \<Longrightarrow> (k, k) \<in> set ns"
  shows "config_inv (c\<lparr>m_nameToCanonicalName := ns\<rparr>)"
proof (rule config_invI, goal_cases)
  case (3 n t)
  then have "(n, t) \<in> set (m_nameToCanonicalName c)" using assms(3) by auto
  from config_invD(3) [OF assms(1) this] show ?case by simp
next
  case (4 k x)
  then show ?case using config_invD(4) [OF assms(1), of k x] assms(4) by auto
qed (use assms(2) config_invD(1) [OF assms(1)] in simp_all)

lemma removeAlias_inv:
  assumes "config_inv c"
  shows "config_inv (snd (removeAlias alias c))"
proof (cases "find_cell alias c = None \<and> find_name alias c \<noteq> None")
  case True
  note D = config_invD [OF assms]
  from True obtain m t where m: "find_name alias c = Some (m, t)" by auto
  then have "fold_name m = fold_name alias" using find_name_Some [OF assms] by blast
  then show ?thesis
    using True m names.set_erase [OF D(2), of m] find_cell_None [OF assms, of "alias"] D
    by (auto simp: removeAlias_def intro!: names_subset_inv [OF assms])
next
  case False
  then show ?thesis using assms by (auto simp: removeAlias_def split: option.splits)
qed

lemma removeAliases_inv:
  assumes "config_inv c"
  shows "config_inv (snd (removeAliases canonical c))"
  using assms config_invD [OF assms]
  by (auto simp: removeAliases_def intro!: names_subset_inv [OF assms])

lemma fold_insert_names:
  "names.ordered acc \<Longrightarrow> names.ordered m \<Longrightarrow> (\<forall>(k, x)\<in>set m. \<forall>(n, t)\<in>set acc. fold_name n \<noteq> fold_name k) \<Longrightarrow>
   names.ordered (fold (\<lambda>(n, _). smap_insert caseless_less n n) m acc) \<and>
   set (fold (\<lambda>(n, _). smap_insert caseless_less n n) m acc) = set acc \<union> (\<lambda>(k, x). (k, k)) ` set m"
proof (induction m arbitrary: acc)
  case (Cons e m)
  obtain k x where e: "e = (k, x)" by (cases e)
  have "smap_find caseless_less k acc = None" using names.find_None [OF Cons.prems(1), of k] Cons.prems(3) e by auto
  then have s: "set (smap_insert caseless_less k k acc) = insert (k, k) (set acc)"
    using names.set_insert [OF Cons.prems(1), of k k] by simp
  have "\<forall>(j, x)\<in>set m. \<forall>(n, t)\<in>set (smap_insert caseless_less k k acc). fold_name n \<noteq> fold_name j"
    unfolding s using Cons.prems(2,3) e by auto
  from Cons.IH [OF _ _ this] Cons.prems e s show ?case by auto
qed simp

lemma removeAllAliases_inv:
  assumes "config_inv c"
  shows "config_inv (removeAllAliases c)"
proof -
  note D = config_invD [OF assms]
  from fold_insert_names [of "[]" "m_map c"] D(1)
  have f: "names.ordered (fold (\<lambda>(n, _). smap_insert caseless_less n n) (m_map c) [])"
    "set (fold (\<lambda>(n, _). smap_insert caseless_less n n) (m_map c) []) = (\<lambda>(k, x). (k, k)) ` set (m_map c)"
    by auto
  show ?thesis unfolding removeAllAliases_def
    by (rule names_subset_inv [OF assms f(1)]) (use f(2) D(4) in force)+
qed

lemma cell_subset_inv:
  "cell_inv x \<Longrightarrow> edges.ordered ls \<Longrightarrow> set ls \<subseteq> set (m_neighbors x) \<Longrightarrow> cell_inv (x\<lparr>m_neighbors := ls\<rparr>)"
  unfolding cell_inv_def by (simp, meson subsetD)

lemma remove_first_sub: "set (remove_first P xs) \<subseteq> set xs"
  by (induction xs) auto

lemma remove_first_ordered: "edges.ordered xs \<Longrightarrow> edges.ordered (remove_first P xs)"
proof (induction xs)
  case (Cons x xs)
  then show ?case using remove_first_sub [of P xs] by (cases x) auto
qed simp

lemma cell_ops_inv:
  assumes "cell_inv x"
  shows "cell_inv (cell_remove_side s x)" "cell_inv (cell_remove_at s p x)" "cell_inv (cell_remove_name N x)"
    "cell_inv (x\<lparr>m_options := os\<rparr>)"
proof -
  have o: "edges.ordered (m_neighbors x)" using assms by (simp add: cell_inv_def)
  show "cell_inv (cell_remove_side s x)" "cell_inv (cell_remove_name N x)"
    using o by (auto simp: cell_remove_side_def cell_remove_name_def intro!: cell_subset_inv [OF assms])
  show "cell_inv (cell_remove_at s p x)"
    unfolding cell_remove_at_def by (intro cell_subset_inv [OF assms] remove_first_ordered o remove_first_sub)
  show "cell_inv (x\<lparr>m_options := os\<rparr>)" using assms by (simp add: cell_inv_def)
qed

lemma cell_rename_inv:
  assumes "cell_inv x"
  shows "cell_inv (cell_rename N n x)"
proof -
  let ?f = "\<lambda>(e, d). (e, if N (ce_name d) then d\<lparr>ce_name := n\<rparr> else d)"
  have k: "map fst (map ?f (m_neighbors x)) = map fst (m_neighbors x)" by (simp add: comp_def case_prod_beta)
  have "edges.ordered (m_neighbors x)" using assms by (simp add: cell_inv_def)
  then have "edges.ordered (map ?f (m_neighbors x))" unfolding edges.ordered_map_keys k .
  moreover have "edge_ok (fst (?f l)) \<and> edge_ok (snd (?f l))" if "l \<in> set (m_neighbors x)" for l
    using assms that by (auto simp: cell_inv_def edge_ok_def split: prod.splits)
  moreover have "\<not> edge_overlaps (fst (?f l)) (fst (?f l'))"
    if "l \<in> set (m_neighbors x)" "l' \<in> set (m_neighbors x)" "?f l \<noteq> ?f l'" for l l'
  proof -
    from that have "l \<noteq> l'" by blast
    with assms that have "\<not> edge_overlaps (fst l) (fst l')" by (simp add: cell_inv_def)
    then show ?thesis by (simp add: case_prod_beta)
  qed
  ultimately show ?thesis
    unfolding cell_inv_def cell_rename_def by (simp del: split_paired_All)
qed

lemma connect_inv:
  assumes "config_inv c" "connect a s i b j c = Some (r, c')"
  shows "config_inv c'"
  using assms
  by (auto simp: connect_def split: if_splits option.splits intro!: modify_inv cell_add_spec(1) intro: new_edge_ok)

lemma disconnect_inv:
  assumes "config_inv c" "disconnect a s c = Some (r, c')"
  shows "config_inv c'"
  using assms by (auto simp: disconnect_def split: if_splits option.splits intro!: modify_inv cell_ops_inv)

lemma disconnect_at_inv:
  assumes "config_inv c" "disconnect_at a s p c = Some (r, c')"
  shows "config_inv c'"
  using assms by (auto simp: disconnect_at_def split: if_splits option.splits intro!: modify_inv cell_ops_inv)

lemma with_options_inv:
  assumes "config_inv c"
  shows "config_inv (snd (with_options name f c))"
proof (cases "name = []")
  case True
  then show ?thesis using assms by (simp add: with_options_def config_inv_def)
next
  case False
  then show ?thesis using assms by (auto simp: with_options_def split: option.splits intro!: modify_inv cell_ops_inv)
qed

section \<open>Renaming and removing screens\<close>

text \<open>The configuration after the first half of \<open>renameScreen\<close>: the screen and its name moved.\<close>

definition renamed :: "string \<Rightarrow> cell \<Rightarrow> string \<Rightarrow> string \<Rightarrow> config \<Rightarrow> config" where
  "renamed k x oldCanonical newName c =
     c\<lparr>m_map := smap_insert caseless_less newName x (smap_erase caseless_less k (m_map c)),
       m_nameToCanonicalName := smap_insert caseless_less newName newName
         (smap_erase caseless_less oldCanonical (m_nameToCanonicalName c))\<rparr>"

lemma renamed_sets:
  assumes inv: "config_inv c" and k: "(k, x) \<in> set (m_map c)" "fold_name k = fold_name old"
    and new: "fold_name newName = fold_name old \<or> find_name newName c = None"
  shows "set (m_map (renamed k x old newName c)) = insert (newName, x) {e \<in> set (m_map c). fold_name (fst e) \<noteq> fold_name old}"
    "set (m_nameToCanonicalName (renamed k x old newName c)) =
       insert (newName, newName) {e \<in> set (m_nameToCanonicalName c). fold_name (fst e) \<noteq> fold_name old}"
    "names.ordered (m_map (renamed k x old newName c))" "names.ordered (m_nameToCanonicalName (renamed k x old newName c))"
proof -
  note D = config_invD [OF inv]
  show "names.ordered (m_map (renamed k x old newName c))" "names.ordered (m_nameToCanonicalName (renamed k x old newName c))"
    using D(1,2) by (simp_all add: renamed_def)
  have e: "set (smap_erase caseless_less k (m_map c)) = {e \<in> set (m_map c). fold_name (fst e) \<noteq> fold_name old}"
    "set (smap_erase caseless_less old (m_nameToCanonicalName c)) = {e \<in> set (m_nameToCanonicalName c). fold_name (fst e) \<noteq> fold_name old}"
    using names.set_erase [OF D(1), of k] names.set_erase [OF D(2), of old] k(2) by auto
  have "smap_find caseless_less newName (smap_erase caseless_less old (m_nameToCanonicalName c)) = None"
    using new find_name_None [OF inv, of newName] D(2) e(2) by (subst names.find_None) auto
  then show "set (m_nameToCanonicalName (renamed k x old newName c)) =
       insert (newName, newName) {e \<in> set (m_nameToCanonicalName c). fold_name (fst e) \<noteq> fold_name old}"
    using names.set_insert [of "smap_erase caseless_less old (m_nameToCanonicalName c)"] D(2) e(2) by (simp add: renamed_def)
  have "find_name newName c = None \<Longrightarrow> find_cell newName c = None" by (rule unlisted_no_cell [OF inv])
  then have "smap_find caseless_less newName (smap_erase caseless_less k (m_map c)) = None"
    using new find_cell_None [OF inv, of newName] D(1) e(1) by (subst names.find_None) auto
  then show "set (m_map (renamed k x old newName c)) = insert (newName, x) {e \<in> set (m_map c). fold_name (fst e) \<noteq> fold_name old}"
    using names.set_insert [of "smap_erase caseless_less k (m_map c)"] D(1) e(1) by (simp add: renamed_def)
qed

text \<open>Looking a name up after that first half.\<close>

lemma find_name_renamed:
  assumes "config_inv c" "(k, x) \<in> set (m_map c)" "fold_name k = fold_name old"
    "fold_name newName = fold_name old \<or> find_name newName c = None"
  shows "find_name n (renamed k x old newName c) =
    (if fold_name n = fold_name newName then Some (newName, newName)
     else if fold_name n = fold_name old then None else find_name n c)"
proof -
  let ?c = "renamed k x old newName c"
  note s = renamed_sets [OF assms]
  have S: "find_name n ?c = Some (m, t) \<longleftrightarrow> (m, t) \<in> set (m_nameToCanonicalName ?c) \<and> fold_name m = fold_name n" for m t
    unfolding find_name_def by (rule names.find_Some [OF s(4)])
  have N: "find_name n ?c = None \<longleftrightarrow> (\<forall>e\<in>set (m_nameToCanonicalName ?c). fold_name (fst e) \<noteq> fold_name n)"
    unfolding find_name_def by (rule names.find_None [OF s(4)])
  consider "fold_name n = fold_name newName" | "fold_name n \<noteq> fold_name newName" "fold_name n = fold_name old"
    | "fold_name n \<noteq> fold_name newName" "fold_name n \<noteq> fold_name old" by blast
  then show ?thesis
  proof cases
    case 1
    then show ?thesis using S [of newName newName] s(2) by simp
  next
    case 2
    then show ?thesis using N s(2) by auto
  next
    case 3
    show ?thesis
    proof (cases "find_name n c")
      case None
      then show ?thesis using 3 N s(2) find_name_None [OF assms(1), of n] by auto
    next
      case (Some p)
      then show ?thesis
        using 3 S [of "fst p" "snd p"] s(2) find_name_Some [OF assms(1), of n "fst p" "snd p"] by auto
    qed
  qed
qed

definition link_target :: "config \<Rightarrow> cell_edge \<times> cell_edge \<Rightarrow> string" where
  "link_target c l = getCanonicalName (ce_name (snd l)) c"

definition retarget :: "string \<Rightarrow> string \<Rightarrow> string \<Rightarrow> string" where
  "retarget oldName newName t = (if caseless_equal t oldName then newName else t)"

text \<open>The whole of \<open>renameScreen\<close> on a canonical name.\<close>

definition rename_done :: "string \<Rightarrow> string \<Rightarrow> config \<Rightarrow> config" where
  "rename_done k newName c1 =
     c1\<lparr>m_map := map (\<lambda>(n, y). (n, cell_rename (name_eq (getCanonicalName k c1) c1) newName y)) (m_map c1),
        m_nameToCanonicalName := map (\<lambda>(n, t). (n, retarget k newName t)) (m_nameToCanonicalName c1)\<rparr>"

lemma find_name_cong: "fold_name a = fold_name b \<Longrightarrow> find_name a c = find_name b c"
proof -
  assume "fold_name a = fold_name b"
  then have "smap_find caseless_less a m = smap_find caseless_less b m" for m :: "(string, string) smap"
    by (induction m) (auto simp: smap_ops caseless_less_key)
  then show ?thesis by (simp add: find_name_def)
qed

lemma canonical_entry:
  assumes "config_inv c" "isCanonicalName n c"
  shows "\<exists>k x. (k, x) \<in> set (m_map c) \<and> fold_name k = fold_name n \<and> find_name n c = Some (k, k) \<and>
    find_cell k c = Some (k, x) \<and> getCanonicalName n c = k"
proof -
  from assms(2) obtain m t where f: "find_name n c = Some (m, t)" "fold_name t = fold_name n"
    by (auto simp: isCanonicalName_def getCanonicalName_def caseless_equal_key fold_name_def split: option.splits)
  from listed_has_cell [OF assms(1) f(1)] obtain k x where "find_cell t c = Some (k, x)" by blast
  then have k: "(k, x) \<in> set (m_map c)" "fold_name k = fold_name n" using find_cell_Some [OF assms(1)] f(2) by auto
  then have "find_name n c = Some (k, k)" using find_name_Some [OF assms(1)] config_invD(4) [OF assms(1) k(1)] by auto
  moreover have "find_cell k c = Some (k, x)" using find_cell_Some [OF assms(1)] k(1) by auto
  ultimately show ?thesis using k by (auto simp: getCanonicalName_def)
qed

lemma renameScreen_canonical:
  assumes "config_inv c" "isCanonicalName oldName c" "caseless_equal oldName newName \<or> \<not> isScreen newName c"
  shows "\<exists>k x. (k, x) \<in> set (m_map c) \<and> fold_name k = fold_name oldName \<and>
    (fold_name newName = fold_name k \<or> find_name newName c = None) \<and>
    renameScreen oldName newName c = (True, rename_done k newName (renamed k x k newName c))"
proof -
  from canonical_entry [OF assms(1,2)] obtain k x where
    k: "(k, x) \<in> set (m_map c)" "fold_name k = fold_name oldName" "find_cell k c = Some (k, x)" "getCanonicalName oldName c = k"
    by blast
  have new: "fold_name newName = fold_name k \<or> find_name newName c = None"
    using assms(3) k(2) by (auto simp: caseless_equal_key isScreen_def)
  have obj: "getCanonicalName oldName (renamed k x k newName c) = getCanonicalName k (renamed k x k newName c)"
    using find_name_renamed [OF assms(1) k(1) refl new] k(2) by (simp add: getCanonicalName_def)
  have "renameScreen oldName newName c = (True, rename_done k newName (renamed k x k newName c))"
    using k(2-4) assms(3) obj
    by (auto simp: renameScreen_def Let_def renamed_def rename_done_def retarget_def isScreen_def caseless_equal_key)
  with k new show ?thesis by blast
qed

lemma rename_done_inv:
  assumes inv: "config_inv c" and k: "(k, x) \<in> set (m_map c)" and n: "newName \<noteq> []"
    and new: "fold_name newName = fold_name k \<or> find_name newName c = None"
  shows "config_inv (rename_done k newName (renamed k x k newName c))"
proof -
  let ?c = "renamed k x k newName c"
  note s = renamed_sets [OF inv k refl new]
  note D = config_invD [OF inv]
  show ?thesis
  proof (rule config_invI, goal_cases)
    case (3 m t)
    then obtain t0 where t: "(m, t0) \<in> set (m_nameToCanonicalName ?c)" "t = retarget k newName t0"
      by (auto simp: rename_done_def)
    show ?case
    proof (cases "fold_name t0 = fold_name k \<or> (m, t0) = (newName, newName)")
      case True
      then have "t = newName" using t(2) by (auto simp: retarget_def caseless_equal_key)
      then show ?thesis using s(1) by (force simp: rename_done_def)
    next
      case False
      with t(1) s(2) have "(m, t0) \<in> set (m_nameToCanonicalName c)" by auto
      from D(3) [OF this] obtain k' y where "(k', y) \<in> set (m_map c)" "fold_name k' = fold_name t0" by blast
      moreover from this have "(k', y) \<in> set (m_map ?c)" using s(1) False by auto
      moreover have "t = t0" using False t(2) by (auto simp: retarget_def caseless_equal_key)
      ultimately show ?thesis by (force simp: rename_done_def)
    qed
  next
    case (4 k' y)
    then obtain y0 where y: "(k', y0) \<in> set (m_map ?c)" "y = cell_rename (name_eq (getCanonicalName k ?c) ?c) newName y0"
      by (auto simp: rename_done_def)
    have "k' \<noteq> [] \<and> (k', k') \<in> set (m_nameToCanonicalName (rename_done k newName ?c)) \<and> cell_inv y0"
    proof (cases "(k', y0) = (newName, x)")
      case True
      then have "retarget k newName k' = k'" by (simp add: retarget_def)
      then show ?thesis using True n s(2) D(4) [OF k] by (force simp: rename_done_def)
    next
      case False
      then have m: "(k', y0) \<in> set (m_map c)" "fold_name k' \<noteq> fold_name k" using y(1) s(1) by auto
      then have "(k', k') \<in> set (m_nameToCanonicalName ?c)" using D(4) [OF m(1)] s(2) by auto
      moreover have "retarget k newName k' = k'" using m(2) by (simp add: retarget_def caseless_equal_key)
      ultimately show ?thesis using D(4) [OF m(1)] by (force simp: rename_done_def)
    qed
    then show ?case using y(2) cell_rename_inv by auto
  qed (use s(3,4) in \<open>simp_all add: rename_done_def\<close>)
qed

text \<open>Where a listed name leads after the renaming.\<close>

lemma rename_done_names:
  assumes "config_inv c" "(k, x) \<in> set (m_map c)"
    "fold_name newName = fold_name k \<or> find_name newName c = None" "find_name n c = Some (m, t)"
  shows "fold_name n \<noteq> fold_name k \<or> fold_name newName = fold_name k \<Longrightarrow>
     getCanonicalName n (rename_done k newName (renamed k x k newName c)) = retarget k newName t"
    and "getCanonicalName newName (rename_done k newName (renamed k x k newName c)) = newName"
proof -
  let ?c = "renamed k x k newName c"
  note f = find_name_renamed [OF assms(1,2) refl assms(3)]
  have g: "find_name j (rename_done k newName ?c) = map_option (\<lambda>(a, v). (a, retarget k newName v)) (find_name j ?c)" for j
    using find_map_values [of caseless_less j "retarget k newName" "m_nameToCanonicalName ?c"]
    by (simp add: find_name_def rename_done_def)
  show "getCanonicalName newName (rename_done k newName ?c) = newName"
    by (simp add: getCanonicalName_def g f retarget_def)
  assume n: "fold_name n \<noteq> fold_name k \<or> fold_name newName = fold_name k"
  have "t = k" if "fold_name n = fold_name k"
    using that assms(4) find_name_Some [OF assms(1), of n k k] config_invD(4) [OF assms(1,2)] by auto
  then show "getCanonicalName n (rename_done k newName ?c) = retarget k newName t"
    using n assms(3,4) find_name_cong [of n newName c] by (auto simp: getCanonicalName_def g f retarget_def caseless_equal_key)
qed

text \<open>Where a link leads after the renaming, provided its target was a screen before.\<close>

lemma rename_done_links:
  assumes "config_inv c" "(k, x) \<in> set (m_map c)"
    "fold_name newName = fold_name k \<or> find_name newName c = None" "isScreen (ce_name d) c"
  defines "c1 \<equiv> renamed k x k newName c"
  shows "getCanonicalName (ce_name (if name_eq (getCanonicalName k c1) c1 (ce_name d) then d\<lparr>ce_name := newName\<rparr> else d))
      (rename_done k newName c1) = retarget k newName (getCanonicalName (ce_name d) c)"
proof -
  let ?m = "ce_name d"
  note f = find_name_renamed [OF assms(1,2) refl assms(3), folded c1_def]
  from assms(4) obtain m t where t: "find_name ?m c = Some (m, t)" by (auto simp: isScreen_def)
  note r = rename_done_names [OF assms(1-3) t, folded c1_def]
  from listed_has_cell [OF assms(1) t] have "t \<noteq> []" by blast
  have kk: "find_name k c = Some (k, k)"
    using find_name_Some [OF assms(1)] config_invD(4) [OF assms(1,2)] by auto
  have g: "getCanonicalName ?m c = t" using t by (simp add: getCanonicalName_def)
  show ?thesis
  proof (cases "fold_name ?m = fold_name k")
    case True
    have "t = k" using find_name_cong [OF True, of c] kk t by simp
    moreover have "name_eq (getCanonicalName k c1) c1 ?m"
      using f True by (simp add: name_eq_def getCanonicalName_def caseless_equal_key)
    ultimately show ?thesis using r(2) g by (simp add: retarget_def caseless_equal_key)
  next
    case False
    have mn: "fold_name ?m \<noteq> fold_name newName"
      using find_name_cong [of ?m newName c] assms(3) t False by auto
    have c1t: "getCanonicalName ?m c1 = t" using f False mn t by (simp add: getCanonicalName_def)
    have "name_eq (getCanonicalName k c1) c1 ?m \<longleftrightarrow> fold_name newName = fold_name k \<and> fold_name t = fold_name k"
      using f c1t \<open>t \<noteq> []\<close> by (auto simp: name_eq_def getCanonicalName_def caseless_equal_key fold_name_def)
    then show ?thesis using r False g by (auto simp: retarget_def caseless_equal_key)
  qed
qed

section \<open>Properties\<close>

text \<open>
  Adding a link: on a screen whose links do not overlap, a link from a valid edge interval is
  accepted iff every link it would overlap leaves from exactly the same interval (which it then
  replaces), the links still do not overlap afterwards, and a refused link changes nothing. The
  sources look only at the two nearest links; this is enough.
\<close>

theorem cell_add_correct:
  assumes "cell_inv c" and "new_edge [] side i = Some src" and "new_edge name side j = Some dst"
  shows "cell_inv (snd (cell_add src dst c)) \<and>
    (fst (cell_add src dst c) \<longleftrightarrow>
       (\<forall>l\<in>set (m_neighbors c). edge_overlaps (fst l) src \<longrightarrow> edge_equal (fst l) src)) \<and>
    set (m_neighbors (snd (cell_add src dst c))) =
      (if fst (cell_add src dst c)
       then insert (src, dst) {l \<in> set (m_neighbors c). \<not> edge_equal (fst l) src}
       else set (m_neighbors c))"
  using cell_add_spec [OF assms(1) new_edge_ok [OF assms(2)] new_edge_ok [OF assms(3)]] by auto

text \<open>
  Looking up a position on a side of a screen finds the link whose interval contains it: there
  is at most one, and the lookup, which inspects a single link, returns it exactly when there is one.
\<close>

theorem cell_getLink_correct:
  assumes "cell_inv c" and "side \<noteq> kNoDirection"
  shows "\<exists>r. cell_getLink side p c = Some r \<and>
    (\<forall>l. r = Some l \<longleftrightarrow> l \<in> set (m_neighbors c) \<and> ce_side (fst l) = side \<and> isInside (fst l) p)"
  by (rule cell_getLink_spec [OF assms])

text \<open>
  The operations that edit a configuration, in any order, on names that are not empty. The flag tells
  whether every screen that was renamed was renamed by its canonical name.
\<close>

inductive config_reachable :: "bool \<Rightarrow> config \<Rightarrow> bool" where
  new: "config_reachable True config_new"
| add_screen: "config_reachable b c \<Longrightarrow> name \<noteq> [] \<Longrightarrow> config_reachable b (snd (addScreen name c))"
| rename: "config_reachable b c \<Longrightarrow> newName \<noteq> [] \<Longrightarrow> renameScreen oldName newName c = (ok, c') \<Longrightarrow>
    config_reachable (b \<and> (ok \<longrightarrow> isCanonicalName oldName c)) c'"
| remove: "config_reachable b c \<Longrightarrow> removeScreen name c = Some c' \<Longrightarrow> config_reachable b c'"
| remove_all: "config_reachable b c \<Longrightarrow> config_reachable b (removeAllScreens c)"
| add_alias: "config_reachable b c \<Longrightarrow> config_reachable b (snd (addAlias n a c))"
| remove_alias: "config_reachable b c \<Longrightarrow> config_reachable b (snd (removeAlias a c))"
| remove_aliases: "config_reachable b c \<Longrightarrow> config_reachable b (snd (removeAliases n c))"
| remove_all_aliases: "config_reachable b c \<Longrightarrow> config_reachable b (removeAllAliases c)"
| link: "config_reachable b c \<Longrightarrow> connect n s i m j c = Some (r, c') \<Longrightarrow> config_reachable b c'"
| unlink: "config_reachable b c \<Longrightarrow> disconnect n s c = Some (r, c') \<Longrightarrow> config_reachable b c'"
| unlink_at: "config_reachable b c \<Longrightarrow> disconnect_at n s p c = Some (r, c') \<Longrightarrow> config_reachable b c'"
| add_option: "config_reachable b c \<Longrightarrow> config_reachable b (snd (addOption n opt v c))"
| remove_option: "config_reachable b c \<Longrightarrow> config_reachable b (snd (removeOption n opt c))"
| remove_options: "config_reachable b c \<Longrightarrow> config_reachable b (snd (removeOptions n c))"

lemma renameScreen_inv:
  assumes "config_inv c" "newName \<noteq> []" "isCanonicalName oldName c"
  shows "config_inv (snd (renameScreen oldName newName c))"
proof (cases "caseless_equal oldName newName \<or> \<not> isScreen newName c")
  case True
  from renameScreen_canonical [OF assms(1,3) True] rename_done_inv [OF assms(1) _ assms(2)]
  show ?thesis by auto
next
  case False
  then show ?thesis using assms(1)
    by (auto simp: renameScreen_def Let_def isScreen_def split: option.splits)
qed

lemma remove_names_all: "remove_names t m = Some m' \<Longrightarrow> m' = [] \<and> (\<forall>e\<in>set m. snd e = t)"
  by (induction t m arbitrary: m' rule: remove_names.induct) (auto split: if_splits)

text \<open>When \<open>removeScreen\<close> does return, the screen was the last one.\<close>

lemma removeScreen_returns:
  assumes "config_inv c" "removeScreen name c = Some c'" "find_cell (getCanonicalName name c) c \<noteq> None"
  shows "m_map c' = [] \<and> m_nameToCanonicalName c' = []"
proof -
  let ?t = "getCanonicalName name c"
  from assms(3) obtain k x where f: "find_cell ?t c = Some (k, x)" by auto
  then have k: "(k, x) \<in> set (m_map c)" "fold_name k = fold_name ?t" using find_cell_Some [OF assms(1)] by auto
  from assms(2) f obtain m' where m: "remove_names ?t (m_nameToCanonicalName c) = Some m'"
    and c': "m_nameToCanonicalName c' = m'" "map fst (m_map c') = map fst (smap_erase caseless_less k (m_map c))"
    by (auto simp: removeScreen_def Let_def comp_def case_prod_beta)
  from remove_names_all [OF m] have all: "m' = []" "\<forall>e\<in>set (m_nameToCanonicalName c). snd e = ?t" by auto
  have "y \<notin> set (smap_erase caseless_less k (m_map c))" for y
  proof
    assume "y \<in> set (smap_erase caseless_less k (m_map c))"
    then have y: "(fst y, snd y) \<in> set (m_map c)" "fold_name (fst y) \<noteq> fold_name k"
      using names.set_erase [OF config_invD(1) [OF assms(1)], of k] by auto
    from config_invD(4) [OF assms(1) y(1)] all(2) have "fst y = ?t" by force
    with y(2) k(2) show False by simp
  qed
  then have "smap_erase caseless_less k (m_map c) = []" by (metis ex_in_conv set_empty)
  with c' all(1) show ?thesis by simp
qed

lemma removeScreen_inv:
  assumes "config_inv c" "removeScreen name c = Some c'"
  shows "config_inv c'"
proof (cases "find_cell (getCanonicalName name c) c = None")
  case True
  then show ?thesis using assms by (simp add: removeScreen_def Let_def)
next
  case False
  with removeScreen_returns [OF assms] show ?thesis by (simp add: config_inv_def)
qed

lemma removeAllScreens_inv: "config_inv (removeAllScreens c)"
  by (simp add: removeAllScreens_def config_inv_def)

text \<open>What no editing operation breaks, whatever it is called on.\<close>

definition config_sane :: "config \<Rightarrow> bool" where
  "config_sane c \<longleftrightarrow>
     names.ordered (m_map c) \<and> names.ordered (m_nameToCanonicalName c) \<and> (\<forall>(k, x)\<in>set (m_map c). k \<noteq> [] \<and> cell_inv x)"

lemma config_inv_sane: "config_inv c \<Longrightarrow> config_sane c"
  by (auto simp: config_inv_def config_sane_def)

lemma sane_cells:
  assumes "config_sane c" "names.ordered m" "\<forall>(k, x)\<in>set m. k \<noteq> [] \<and> cell_inv x"
  shows "config_sane (c\<lparr>m_map := m\<rparr>)"
  using assms by (simp add: config_sane_def)

lemma sane_names: "config_sane c \<Longrightarrow> names.ordered ns \<Longrightarrow> config_sane (c\<lparr>m_nameToCanonicalName := ns\<rparr>)"
  by (simp add: config_sane_def)

lemma sane_modify:
  assumes "config_sane c" "\<And>x. cell_inv x \<Longrightarrow> cell_inv (f x)"
  shows "config_sane (c\<lparr>m_map := smap_modify caseless_less k f (m_map c)\<rparr>)"
  using assms names.set_modify [of "m_map c" k f] by (intro sane_cells) (auto simp: config_sane_def split: if_splits)

lemma addScreen_sane: "config_sane c \<Longrightarrow> name \<noteq> [] \<Longrightarrow> config_sane (snd (addScreen name c))"
  using names.set_insert [of "m_map c" name cell_new]
  by (auto simp: config_sane_def addScreen_def cell_inv_def [of "\<lparr>m_neighbors = [], m_options = []\<rparr>"] cell_new_def split: if_splits)

lemma renameScreen_sane:
  assumes "config_sane c" "newName \<noteq> []"
  shows "config_sane (snd (renameScreen oldName newName c))"
proof (cases "fst (renameScreen oldName newName c)")
  case False
  then show ?thesis using assms(1) by (auto simp: renameScreen_def Let_def split: option.splits if_splits)
next
  case True
  then obtain k x where f: "find_cell (getCanonicalName oldName c) c = Some (k, x)"
    by (auto simp: renameScreen_def Let_def split: option.splits)
  have o: "names.ordered (m_map c)" using assms(1) by (simp add: config_sane_def)
  then have "(k, x) \<in> set (m_map c)" using f names.find_Some [OF o] by (auto simp: find_cell_def)
  let ?m = "smap_insert caseless_less newName x (smap_erase caseless_less k (m_map c))"
  have "set ?m \<subseteq> insert (newName, x) (set (m_map c))"
    using names.set_insert [of "smap_erase caseless_less k (m_map c)" newName x] names.set_erase [OF o, of k] o by auto
  then have m: "names.ordered ?m" "\<forall>(n, y)\<in>set ?m. n \<noteq> [] \<and> cell_inv y"
    using \<open>(k, x) \<in> set (m_map c)\<close> assms o by (auto simp: config_sane_def)
  have "names.ordered (m_nameToCanonicalName c)" using assms(1) by (simp add: config_sane_def)
  moreover have "\<exists>N. m_map (snd (renameScreen oldName newName c)) = map (\<lambda>(n, y). (n, cell_rename N newName y)) ?m"
    using f True by (auto simp: renameScreen_def Let_def split: if_splits)
  ultimately show ?thesis
    using f True m cell_rename_inv by (auto simp: config_sane_def renameScreen_def Let_def split: if_splits)
qed

lemma removeScreen_sane:
  assumes "config_sane c" "removeScreen name c = Some c'"
  shows "config_sane c'"
proof (cases "find_cell (getCanonicalName name c) c")
  case None
  then show ?thesis using assms by (simp add: removeScreen_def Let_def)
next
  case (Some p)
  obtain k x where p: "p = (k, x)" by (cases p)
  let ?m = "smap_erase caseless_less k (m_map c)"
  have o: "names.ordered (m_map c)" using assms(1) by (simp add: config_sane_def)
  obtain N ns where c': "c' = c\<lparr>m_map := map (\<lambda>(n, y). (n, cell_remove_name N y)) ?m, m_nameToCanonicalName := ns\<rparr>" "ns = []"
    using assms(2) Some p by (auto simp: removeScreen_def Let_def dest: remove_names_all)
  have "\<forall>(n, y)\<in>set ?m. n \<noteq> [] \<and> cell_inv y" using assms(1) names.set_erase [OF o, of k] by (auto simp: config_sane_def)
  then show ?thesis using o cell_ops_inv(3) unfolding c' by (auto simp: config_sane_def)
qed

lemma fold_insert_ordered: "names.ordered acc \<Longrightarrow> names.ordered (fold (\<lambda>(n, _). smap_insert caseless_less n n) m acc)"
proof (induction m arbitrary: acc)
  case (Cons e m)
  then show ?case by (cases e) simp
qed simp

lemma aliases_sane:
  assumes "config_sane c"
  shows "config_sane (snd (addAlias n a c))" "config_sane (snd (removeAlias a c))" "config_sane (snd (removeAliases n c))"
    "config_sane (removeAllAliases c)"
proof -
  have "names.ordered (m_nameToCanonicalName c)" using assms by (simp add: config_sane_def)
  then show "config_sane (snd (addAlias n a c))" "config_sane (snd (removeAlias a c))" "config_sane (snd (removeAliases n c))"
    "config_sane (removeAllAliases c)"
    using assms fold_insert_ordered [of "[]" "m_map c"]
    by (auto simp: addAlias_def removeAlias_def removeAliases_def removeAllAliases_def intro!: sane_names split: option.splits)
qed

lemma connect_sane: "config_sane c \<Longrightarrow> connect n s i m j c = Some (r, c') \<Longrightarrow> config_sane c'"
  by (auto simp: connect_def split: if_splits option.splits intro!: sane_modify cell_add_spec(1) intro: new_edge_ok)

lemma disconnect_sane:
  "config_sane c \<Longrightarrow> disconnect n s c = Some (r, c') \<Longrightarrow> config_sane c'"
  "config_sane c \<Longrightarrow> disconnect_at n s p c = Some (r, c') \<Longrightarrow> config_sane c'"
  by (auto simp: disconnect_def disconnect_at_def split: if_splits option.splits intro!: sane_modify cell_ops_inv)

lemma with_options_sane: "config_sane c \<Longrightarrow> config_sane (snd (with_options n f c))"
  by (cases "n = []") (auto simp: with_options_def config_sane_def [of "c\<lparr>m_globalOptions := _\<rparr>"] config_sane_def [of c]
    split: option.splits intro!: sane_modify cell_ops_inv)

lemma rename_keeps:
  assumes "config_inv c" "newName \<noteq> []" "renameScreen oldName newName c = (ok, c')" "ok \<longrightarrow> isCanonicalName oldName c"
  shows "config_inv c'"
proof (cases ok)
  case True
  then show ?thesis using renameScreen_inv [OF assms(1,2)] assms(3,4) by (metis snd_conv)
next
  case False
  then have "c' = c" using assms(3) by (auto simp: renameScreen_def Let_def split: option.splits if_splits)
  then show ?thesis using assms(1) by simp
qed

text \<open>
  C10. Whatever sequence of editing operations, on names that are not empty, builds a configuration,
  its two maps are ordered without duplicates up to case, no screen has an empty name, and the links
  of a screen are valid and disjoint. As long as screens are renamed by their canonical names only,
  also every listed name leads to a screen and every screen is listed under its own name. (Renaming
  a screen through an alias breaks this: \<open>renameScreen_alias_dangles\<close>.)
\<close>

theorem config_reachable_inv:
  assumes "config_reachable canonical c"
  shows "config_sane c \<and> (canonical \<longrightarrow> config_inv c)"
  using assms
proof (induction rule: config_reachable.induct)
  case (rename b c newName oldName ok c')
  then show ?case using renameScreen_sane [of c newName oldName] rename_keeps [of c newName oldName ok c'] by auto
next
  case (remove b c name c')
  then show ?case using removeScreen_sane removeScreen_inv by blast
next
  case (link b c n s i m j r c')
  then show ?case using connect_sane connect_inv by blast
next
  case (unlink b c n s r c')
  then show ?case using disconnect_sane(1) disconnect_inv by blast
next
  case (unlink_at b c n s p r c')
  then show ?case using disconnect_sane(2) disconnect_at_inv by blast
qed (use config_new_inv config_inv_sane [OF config_new_inv] config_inv_sane [OF removeAllScreens_inv] in
  \<open>simp_all add: addScreen_sane addScreen_inv removeAllScreens_inv aliases_sane addAlias_inv removeAlias_inv removeAliases_inv
    removeAllAliases_inv addOption_def removeOption_def removeOptions_def with_options_inv with_options_sane\<close>)

text \<open>What renaming does to the links of one screen.\<close>

definition links_renamed :: "string \<Rightarrow> string \<Rightarrow> config \<Rightarrow> config \<Rightarrow> cell \<Rightarrow> cell \<Rightarrow> bool" where
  "links_renamed oldName newName c c' x x' \<longleftrightarrow> m_options x' = m_options x \<and>
     list_all2 (\<lambda>l l'. fst l' = fst l \<and> edge_equal (snd l') (snd l) \<and>
       (isScreen (ce_name (snd l)) c \<longrightarrow> link_target c' l' = retarget oldName newName (link_target c l)))
     (m_neighbors x) (m_neighbors x')"

lemma retarget_cong: "fold_name k = fold_name oldName \<Longrightarrow> retarget k newName = retarget oldName newName"
  by (auto simp: retarget_def caseless_equal_key)

lemma rename_done_cells:
  assumes "config_inv c" "(k, x) \<in> set (m_map c)"
    "fold_name newName = fold_name k \<or> find_name newName c = None" "(n, y) \<in> set (m_map c)"
  defines "c' \<equiv> rename_done k newName (renamed k x k newName c)"
  shows "\<exists>y'. (retarget k newName n, y') \<in> set (m_map c') \<and> links_renamed k newName c c' y y'"
proof -
  let ?c = "renamed k x k newName c"
  let ?y = "cell_rename (name_eq (getCanonicalName k ?c) ?c) newName y"
  have in1: "(retarget k newName n, y) \<in> set (m_map ?c)"
  proof (cases "fold_name n = fold_name k")
    case True
    from find_cell_Some [OF assms(1), of k k x] find_cell_Some [OF assms(1), of k n y] assms(2,4) True
    have "y = x" by simp
    with True renamed_sets(1) [OF assms(1,2) refl assms(3)] show ?thesis by (simp add: retarget_def caseless_equal_key)
  next
    case False
    with assms(4) renamed_sets(1) [OF assms(1,2) refl assms(3)] show ?thesis by (simp add: retarget_def caseless_equal_key)
  qed
  then have "(retarget k newName n, ?y) \<in> set (m_map c')" by (force simp: c'_def rename_done_def)
  moreover
  have lk: "getCanonicalName (ce_name (if name_eq (getCanonicalName k ?c) ?c (ce_name d) then d\<lparr>ce_name := newName\<rparr> else d)) c' =
      retarget k newName (getCanonicalName (ce_name d) c)" if "isScreen (ce_name d) c" for d
    using rename_done_links [OF assms(1-3) that] by (simp only: c'_def)
  have "links_renamed k newName c c' y ?y"
    unfolding links_renamed_def
  proof (intro conjI)
    show "list_all2 (\<lambda>l l'. fst l' = fst l \<and> edge_equal (snd l') (snd l) \<and>
       (isScreen (ce_name (snd l)) c \<longrightarrow> link_target c' l' = retarget k newName (link_target c l)))
     (m_neighbors y) (m_neighbors ?y)"
      unfolding cell_rename_def
      using lk by (fastforce simp: list.rel_map edge_equal_def link_target_def case_prod_beta list_all2_same split: if_splits)
  qed (simp add: cell_rename_def)
  ultimately show ?thesis by blast
qed

text \<open>
  Renaming a screen by its canonical name to a free name (or to another spelling of its own
  name) succeeds and keeps the configuration well formed: the new name is canonical, every other
  name of the configuration leads where it led before with the old screen replaced by the new one,
  every screen keeps its options and its edges, and every link to a screen leads to the same screen
  under its new name.
\<close>

theorem renameScreen_correct:
  assumes "config_inv c" and "isCanonicalName oldName c" and "newName \<noteq> []"
    and "caseless_equal oldName newName \<or> \<not> isScreen newName c"
  shows "\<exists>c'. renameScreen oldName newName c = (True, c') \<and> config_inv c' \<and>
    getCanonicalName newName c' = newName \<and>
    (\<forall>n. isScreen n c \<and> (caseless_equal oldName newName \<or> \<not> caseless_equal n oldName) \<longrightarrow>
         getCanonicalName n c' = retarget oldName newName (getCanonicalName n c)) \<and>
    (\<forall>(n, x)\<in>set (m_map c). \<exists>x'. (retarget oldName newName n, x') \<in> set (m_map c') \<and>
         links_renamed oldName newName c c' x x')"
proof -
  from renameScreen_canonical [OF assms(1,2,4)] obtain k x where
    k: "(k, x) \<in> set (m_map c)" "fold_name k = fold_name oldName"
      "fold_name newName = fold_name k \<or> find_name newName c = None"
    and r: "renameScreen oldName newName c = (True, rename_done k newName (renamed k x k newName c))" by blast
  let ?c = "rename_done k newName (renamed k x k newName c)"
  have self: "find_name k c = Some (k, k)"
    using find_name_Some [OF assms(1)] config_invD(4) [OF assms(1) k(1)] by auto
  have names: "getCanonicalName n ?c = retarget oldName newName (getCanonicalName n c)"
    if "isScreen n c" "caseless_equal oldName newName \<or> \<not> caseless_equal n oldName" for n
  proof -
    from that(1) obtain m t where f: "find_name n c = Some (m, t)" by (auto simp: isScreen_def)
    from rename_done_names(1) [OF assms(1) k(1,3) f] that(2) k(2) f show ?thesis
      by (auto simp: caseless_equal_key retarget_cong [OF k(2)] getCanonicalName_def)
  qed
  have cells: "\<exists>x'. (retarget oldName newName n, x') \<in> set (m_map ?c) \<and> links_renamed oldName newName c ?c y x'"
    if "(n, y) \<in> set (m_map c)" for n y
    using rename_done_cells [OF assms(1) k(1,3) that] by (simp add: links_renamed_def retarget_cong [OF k(2)])
  show ?thesis
    using r rename_done_inv [OF assms(1) k(1) assms(3) k(3)] rename_done_names(2) [OF assms(1) k(1,3) self] names cells
    by blast
qed

lemma remove_names_Some: "\<forall>e\<in>set m. snd e = t \<Longrightarrow> remove_names t m = Some []"
  by (induction t m rule: remove_names.induct) auto

lemma all_targets:
  assumes "config_inv c"
  shows "(\<forall>e\<in>set (m_nameToCanonicalName c). snd e = t) \<longleftrightarrow> (\<forall>n. isScreen n c \<longrightarrow> getCanonicalName n c = t)"
proof (intro iffI allI ballI impI)
  fix n assume all: "\<forall>e\<in>set (m_nameToCanonicalName c). snd e = t" "isScreen n c"
  then obtain m u where f: "find_name n c = Some (m, u)" by (auto simp: isScreen_def)
  then have "(m, u) \<in> set (m_nameToCanonicalName c)" using find_name_Some [OF assms] by blast
  with all(1) f show "getCanonicalName n c = t" by (auto simp: getCanonicalName_def)
next
  fix e assume all: "\<forall>n. isScreen n c \<longrightarrow> getCanonicalName n c = t" "e \<in> set (m_nameToCanonicalName c)"
  then have "find_name (fst e) c = Some (fst e, snd e)" using find_name_Some [OF assms, of "fst e" "fst e" "snd e"] by simp
  with all(1) [rule_format, of "fst e"] show "snd e = t" by (simp add: isScreen_def getCanonicalName_def case_prod_beta)
qed

text \<open>
  C34. Removing a screen: the loop that drops the aliases never ends as soon as the configuration
  lists a name of another screen (it advances the iterator of the loop before it); it returns only
  for the last screen, and then the configuration is empty.
\<close>

theorem removeScreen_returns_iff_last:
  assumes "config_inv c" and "isScreen name c"
  shows "(removeScreen name c = None \<longleftrightarrow>
      (\<exists>other. isScreen other c \<and> getCanonicalName other c \<noteq> getCanonicalName name c)) \<and>
    (\<forall>c'. removeScreen name c = Some c' \<longrightarrow> m_map c' = [] \<and> m_nameToCanonicalName c' = [])"
proof -
  let ?t = "getCanonicalName name c"
  from assms(2) obtain m where "find_name name c = Some (m, ?t)" by (auto simp: isScreen_def getCanonicalName_def)
  from listed_has_cell [OF assms(1) this] obtain k x where f: "find_cell ?t c = Some (k, x)" by blast
  have "removeScreen name c = None \<longleftrightarrow> remove_names ?t (m_nameToCanonicalName c) = None"
    using f by (simp add: removeScreen_def Let_def)
  also have "\<dots> \<longleftrightarrow> \<not> (\<forall>e\<in>set (m_nameToCanonicalName c). snd e = ?t)"
    using remove_names_Some remove_names_all by (metis not_None_eq)
  finally show ?thesis using all_targets [OF assms(1), of ?t] removeScreen_returns [OF assms(1)] f by auto
qed

text \<open>
  Renaming a screen through one of its aliases breaks the configuration: the alias goes on
  leading to the old canonical name, which is no longer a screen.
\<close>

theorem renameScreen_alias_dangles:
  assumes "config_inv c" and "isScreen aka c" and "\<not> caseless_equal aka (getCanonicalName aka c)"
    and "\<not> isScreen newName c"
  shows "\<exists>c'. renameScreen aka newName c = (True, c') \<and> getCanonicalName aka c' = getCanonicalName aka c \<and>
    \<not> isScreen (getCanonicalName aka c) c' \<and> \<not> config_inv c'"
proof -
  let ?t = "getCanonicalName aka c"
  from assms(2) obtain m where a: "find_name aka c = Some (m, ?t)" by (auto simp: isScreen_def getCanonicalName_def)
  from listed_has_cell [OF assms(1) a] obtain k x where f: "find_cell ?t c = Some (k, x)" by blast
  then have k: "(k, x) \<in> set (m_map c)" "fold_name k = fold_name ?t" using find_cell_Some [OF assms(1)] by auto
  from assms(4) have new: "find_name newName c = None" unfolding isScreen_def by blast
  let ?c = "renamed k x ?t newName c"
  note g = find_name_renamed [OF assms(1) k disjI2 [OF new]]
  have na: "fold_name aka \<noteq> fold_name newName" using a new find_name_cong [of aka newName c] by auto
  have kk: "find_name k c = Some (k, k)"
    using find_name_Some [OF assms(1)] config_invD(4) [OF assms(1) k(1)] by auto
  have nt: "fold_name ?t \<noteq> fold_name newName" using kk k(2) new find_name_cong [of k newName c] by auto
  obtain c' where r: "renameScreen aka newName c = (True, c')" "m_nameToCanonicalName c' = m_nameToCanonicalName ?c"
    using f new assms(3) by (auto simp: renameScreen_def Let_def renamed_def)
  then have n: "find_name i c' = find_name i ?c" for i by (simp add: find_name_def)
  have l: "find_name aka c' = Some (m, ?t)" using g [of aka] n [of aka] na assms(3) a by (simp add: caseless_equal_key)
  have t: "find_name ?t c' = None" using g [of ?t] n [of ?t] nt by simp
  have "\<not> config_inv c'"
  proof
    assume i: "config_inv c'"
    from listed_has_cell [OF i l] unlisted_no_cell [OF i t] show False by auto
  qed
  with r(1) l t show ?thesis by (auto simp: getCanonicalName_def isScreen_def)
qed

text \<open>
  What the float unit gives: rounding is monotone, keeps zero and the stored end points, and two
  different end points have a difference that does not round to zero.
\<close>

definition rounds :: "(rat \<Rightarrow> rat) \<Rightarrow> cell_edge \<Rightarrow> bool" where
  "rounds fl e \<longleftrightarrow> mono fl \<and> fl 0 = 0 \<and> fl (fst (ce_interval e)) = fst (ce_interval e) \<and>
     0 < fl (snd (ce_interval e) - fst (ce_interval e))"

lemma transform_mono:
  assumes "rounds fl e" "p \<le> q"
  shows "transform fl e p \<le> transform fl e q"
  using assms unfolding rounds_def transform_def
  by (intro monoD [of fl] divide_right_mono) (auto intro: monoD [of fl])

lemma transform_nonneg:
  assumes "rounds fl e" "isInside e p"
  shows "0 \<le> transform fl e p"
  using transform_mono [OF assms(1), of "fst (ce_interval e)" p] assms by (simp add: transform_def rounds_def isInside_def)

lemma inverseTransform_mono:
  assumes "rounds fl e" "p \<le> q"
  shows "inverseTransform fl e p \<le> inverseTransform fl e q"
  using assms unfolding rounds_def inverseTransform_def
  by (intro monoD [of fl] add_right_mono mult_right_mono) (auto intro: monoD [of fl])

lemma inverseTransform_start: "rounds fl e \<Longrightarrow> inverseTransform fl e 0 = fst (ce_interval e)"
  by (simp add: rounds_def inverseTransform_def)

text \<open>
  C24. The neighbor at a position: no link whose interval contains the position means no neighbor;
  otherwise the neighbor is the screen the link leads to, the cursor arrives at or after the
  start of the target interval of the link, and positions further along the edge arrive no earlier, whatever the
  rounding of the float unit.
\<close>

theorem getNeighbor_correct:
  assumes "config_inv c" and "side \<noteq> kNoDirection" and "find_cell (getCanonicalName src c) c = Some (k, x)"
    and "\<forall>l\<in>set (m_neighbors x). rounds fl (fst l) \<and> rounds fl (snd l)"
  shows "((\<forall>l\<in>set (m_neighbors x). ce_side (fst l) = side \<longrightarrow> \<not> isInside (fst l) p) \<longrightarrow>
      getNeighbor fl src side p c = Some ([], None)) \<and>
    (\<forall>l\<in>set (m_neighbors x). ce_side (fst l) = side \<and> isInside (fst l) p \<longrightarrow>
      (\<exists>y. getNeighbor fl src side p c = Some (getCanonicalName (ce_name (snd l)) c, Some y) \<and>
         fst (ce_interval (snd l)) \<le> y \<and>
         (\<forall>q z. p \<le> q \<and> isInside (fst l) q \<and>
            getNeighbor fl src side q c = Some (getCanonicalName (ce_name (snd l)) c, Some z) \<longrightarrow> y \<le> z)))"
proof -
  have ci: "cell_inv x" using find_cell_Some [OF assms(1)] config_invD(4) [OF assms(1)] assms(3) by blast
  note G = cell_getLink_spec [OF ci assms(2)]
  have link: "getNeighbor fl src side q c =
      Some (getCanonicalName (ce_name (snd l)) c, Some (inverseTransform fl (snd l) (transform fl (fst l) q)))"
    if "l \<in> set (m_neighbors x)" "ce_side (fst l) = side" "isInside (fst l) q" for l q
  proof -
    from G [of q] that have "cell_getLink side q x = Some (Some l)" by metis
    then show ?thesis using assms(2,3) by (simp add: getNeighbor_def case_prod_beta)
  qed
  show ?thesis
  proof (intro conjI impI ballI)
    assume none: "\<forall>l\<in>set (m_neighbors x). ce_side (fst l) = side \<longrightarrow> \<not> isInside (fst l) p"
    from G [of p] obtain r where r: "cell_getLink side p x = Some r"
      "\<forall>l. r = Some l \<longleftrightarrow> l \<in> set (m_neighbors x) \<and> ce_side (fst l) = side \<and> isInside (fst l) p" by blast
    with none have "r = None" by (metis not_None_eq)
    then show "getNeighbor fl src side p c = Some ([], None)" using r(1) assms(2,3) by (simp add: getNeighbor_def)
  next
    fix l assume l: "l \<in> set (m_neighbors x)" "ce_side (fst l) = side \<and> isInside (fst l) p"
    have rd: "rounds fl (fst l)" "rounds fl (snd l)" using assms(4) l(1) by auto
    let ?y = "inverseTransform fl (snd l) (transform fl (fst l) p)"
    have "fst (ce_interval (snd l)) \<le> ?y"
      using inverseTransform_mono [OF rd(2) transform_nonneg [OF rd(1)]] inverseTransform_start [OF rd(2)] l(2) by metis
    moreover have "?y \<le> inverseTransform fl (snd l) (transform fl (fst l) q)" if "p \<le> q" for q
      by (intro inverseTransform_mono [OF rd(2)] transform_mono [OF rd(1)] that)
    ultimately show "\<exists>y. getNeighbor fl src side p c = Some (getCanonicalName (ce_name (snd l)) c, Some y) \<and>
         fst (ce_interval (snd l)) \<le> y \<and>
         (\<forall>q z. p \<le> q \<and> isInside (fst l) q \<and>
            getNeighbor fl src side q c = Some (getCanonicalName (ce_name (snd l)) c, Some z) \<longrightarrow> y \<le> z)"
      using link [OF l(1)] l(2) by auto
  qed
qed

section \<open>Witnesses\<close>

text \<open>The upper half of the right edge of a screen leads to the whole left edge of \<open>b\<close>.\<close>

definition demo_cell :: cell where
  "demo_cell = \<lparr>m_neighbors =
       [(\<lparr>ce_name = [], ce_side = kRight, ce_interval = (0, 1/2)\<rparr>,
         \<lparr>ce_name = ''b'', ce_side = kRight, ce_interval = (0, 1)\<rparr>)], m_options = []\<rparr>"

lemma demo_cell_inv: "cell_inv demo_cell"
  by (simp add: demo_cell_def cell_inv_def edge_ok_def)

text \<open>Two screens, an alias of the first, and a link from the first to the second.\<close>

definition demo_screens :: config where
  "demo_screens = snd (addAlias ''a'' ''aka'' (snd (addScreen ''b'' (snd (addScreen ''a'' config_new)))))"

definition demo_config :: config where
  "demo_config = (case connect ''a'' kRight (0, 1/2) ''b'' (0, 1) demo_screens of
     None \<Rightarrow> demo_screens | Some (_, c) \<Rightarrow> c)"

lemma demo_config_eq:
  "demo_config = \<lparr>m_map = [(''a'', demo_cell), (''b'', cell_new)],
     m_nameToCanonicalName = [(''a'', ''a''), (''aka'', ''a''), (''b'', ''b'')],
     m_globalOptions = [], m_hasLockToScreenAction = False\<rparr>"
  by code_simp

theorem cell_add_correct_witness:
  "fst (cell_add \<lparr>ce_name = [], ce_side = kRight, ce_interval = (1/2, 1)\<rparr>
     \<lparr>ce_name = ''c'', ce_side = kRight, ce_interval = (0, 1)\<rparr> demo_cell) \<and>
   \<not> fst (cell_add \<lparr>ce_name = [], ce_side = kRight, ce_interval = (1/4, 1)\<rparr>
     \<lparr>ce_name = ''c'', ce_side = kRight, ce_interval = (0, 1)\<rparr> demo_cell)"
  using cell_add_correct [OF demo_cell_inv, of kRight "(1/2, 1)" _ "''c''" "(0, 1)"]
    cell_add_correct [OF demo_cell_inv, of kRight "(1/4, 1)" _ "''c''" "(0, 1)"]
  by (simp add: new_edge_def demo_cell_def edge_overlaps_def edge_equal_def)

theorem cell_getLink_correct_witness:
  "\<exists>l. cell_getLink kRight (1/4) demo_cell = Some (Some l) \<and> ce_name (snd l) = ''b''"
proof -
  from cell_getLink_correct [OF demo_cell_inv, of kRight "1/4"]
  obtain r where r: "cell_getLink kRight (1/4) demo_cell = Some r"
    "\<forall>l. r = Some l \<longleftrightarrow> l \<in> set (m_neighbors demo_cell) \<and> ce_side (fst l) = kRight \<and> isInside (fst l) (1/4)"
    by auto
  from r(2) [rule_format, of "hd (m_neighbors demo_cell)"] have "r = Some (hd (m_neighbors demo_cell))"
    by (simp add: demo_cell_def isInside_def)
  with r(1) show ?thesis by (simp add: demo_cell_def)
qed

theorem config_reachable_inv_witness: "config_inv demo_config"
proof -
  have "connect ''a'' kRight (0, 1/2) ''b'' (0, 1) demo_screens = Some (True, demo_config)" by code_simp
  moreover have "config_reachable True demo_screens"
    unfolding demo_screens_def by (intro config_reachable.new config_reachable.add_screen config_reachable.add_alias) simp_all
  ultimately have "config_reachable True demo_config" by (blast intro: config_reachable.link)
  from config_reachable_inv [OF this] show ?thesis by simp
qed

lemma demo_config_inv: "config_inv demo_config"
  using demo_cell_inv
  by (simp add: demo_config_eq config_inv_def names.ordered_def cell_new_def cell_inv_def fold_name_def tolower_def)

theorem renameScreen_correct_witness:
  "\<exists>c'. renameScreen ''a'' ''z'' demo_config = (True, c') \<and> getCanonicalName ''aka'' c' = ''z''"
proof -
  have "isCanonicalName ''a'' demo_config" "\<not> isScreen ''z'' demo_config" "isScreen ''aka'' demo_config"
    "\<not> caseless_equal ''aka'' ''a''" "retarget ''a'' ''z'' (getCanonicalName ''aka'' demo_config) = ''z''"
    unfolding demo_config_eq by code_simp+
  with renameScreen_correct [OF demo_config_inv, of "''a''" "''z''"] show ?thesis by fastforce
qed

theorem removeScreen_returns_iff_last_witness: "removeScreen ''b'' demo_config = None"
proof -
  have "isScreen ''b'' demo_config" "isScreen ''a'' demo_config"
    "getCanonicalName ''a'' demo_config \<noteq> getCanonicalName ''b'' demo_config"
    unfolding demo_config_eq by code_simp+
  with removeScreen_returns_iff_last [OF demo_config_inv, of "''b''"] show ?thesis by blast
qed

theorem renameScreen_alias_dangles_witness:
  "\<exists>c'. renameScreen ''aka'' ''z'' demo_config = (True, c') \<and> \<not> config_inv c'"
proof -
  have "isScreen ''aka'' demo_config" "\<not> caseless_equal ''aka'' (getCanonicalName ''aka'' demo_config)"
    "\<not> isScreen ''z'' demo_config"
    unfolding demo_config_eq by code_simp+
  from renameScreen_alias_dangles [OF demo_config_inv this] show ?thesis by blast
qed

theorem getNeighbor_correct_witness:
  "\<exists>y. getNeighbor (\<lambda>x. x) ''aka'' kRight (1/4) demo_config = Some (''b'', Some y) \<and> 0 \<le> y"
proof -
  have f: "find_cell (getCanonicalName ''aka'' demo_config) demo_config = Some (''a'', demo_cell)"
    "getCanonicalName ''b'' demo_config = ''b''"
    unfolding demo_config_eq by code_simp+
  have "\<forall>l\<in>set (m_neighbors demo_cell). rounds (\<lambda>x. x) (fst l) \<and> rounds (\<lambda>x. x) (snd l)"
    by (simp add: demo_cell_def rounds_def mono_def)
  from getNeighbor_correct [OF demo_config_inv _ f(1) this, of kRight "1/4"] f(2) show ?thesis
    by (auto simp: demo_cell_def isInside_def)
qed

end
