(* ===== verification/DisplayGeometry.thy ===== *)
theory DisplayGeometry
  imports ServerConfig
begin

text \<open>
  \<^verbatim>\<open>src/fork/lib/server/DisplayGeometry.cpp\<close>: a computer's desktop is the box around its monitors,
  and these functions keep the cursor on the monitors where they do not fill the box. Coordinates
  are unbounded integers here; a signed overflow of the sources is outside the model, and the
  properties that need it ask for coordinates that cannot overflow. The index -1 is \<open>None\<close>.
\<close>

section \<open>Monitors\<close>

record display_rect =
  d_x :: int
  d_y :: int
  d_w :: int
  d_h :: int

definition contains :: "display_rect \<Rightarrow> int \<Rightarrow> int \<Rightarrow> bool" where
  "contains d px py \<longleftrightarrow> d_x d \<le> px \<and> px < d_x d + d_w d \<and> d_y d \<le> py \<and> py < d_y d + d_h d"

definition upright :: "EDirection \<Rightarrow> bool" where
  "upright side \<longleftrightarrow> side = kLeft \<or> side = kRight"

definition spans :: "display_rect \<Rightarrow> EDirection \<Rightarrow> int \<Rightarrow> bool" where
  "spans d side along =
     (if upright side then d_y d \<le> along \<and> along < d_y d + d_h d else d_x d \<le> along \<and> along < d_x d + d_w d)"

definition clamp :: "int \<Rightarrow> int \<Rightarrow> int \<Rightarrow> int" where
  "clamp v lo hi = (if v < lo then lo else if hi < v then hi else v)"

definition clampInto :: "display_rect \<Rightarrow> int \<times> int \<Rightarrow> int \<times> int" where
  "clampInto d p = (clamp (fst p) (d_x d) (d_x d + d_w d - 1), clamp (snd p) (d_y d) (d_y d + d_h d - 1))"

fun nearest_loop :: "display_rect list \<Rightarrow> nat \<Rightarrow> int \<times> int \<Rightarrow> nat option \<Rightarrow> int \<Rightarrow> nat option" where
  "nearest_loop [] i p best bestDistance = best"
| "nearest_loop (d # ds) i p best bestDistance =
     (let c = clampInto d p; dx = fst c - fst p; dy = snd c - snd p
      in if dx * dx + dy * dy < bestDistance then nearest_loop ds (i + 1) p (Some i) (dx * dx + dy * dy)
         else nearest_loop ds (i + 1) p best bestDistance)"

definition nearest :: "display_rect list \<Rightarrow> int \<times> int \<Rightarrow> nat option" where
  "nearest displays p = nearest_loop displays 0 p None (2 ^ 63 - 1)"

fun display_from :: "display_rect list \<Rightarrow> nat \<Rightarrow> int \<times> int \<Rightarrow> nat option" where
  "display_from [] i p = None"
| "display_from (d # ds) i p = (if contains d (fst p) (snd p) then Some i else display_from ds (i + 1) p)"

definition displayAt :: "display_rect list \<Rightarrow> int \<times> int \<Rightarrow> nat option" where
  "displayAt displays p = display_from displays 0 p"

definition beyond :: "EDirection \<Rightarrow> display_rect \<Rightarrow> display_rect \<Rightarrow> bool" where
  "beyond side d e =
     (case side of
        kLeft \<Rightarrow> d_x e + d_w e \<le> d_x d
      | kRight \<Rightarrow> d_x d + d_w d \<le> d_x e
      | kTop \<Rightarrow> d_y e + d_h e \<le> d_y d
      | kBottom \<Rightarrow> d_y d + d_h d \<le> d_y e
      | kNoDirection \<Rightarrow> False)"

definition facesOut :: "display_rect list \<Rightarrow> nat \<Rightarrow> EDirection \<Rightarrow> int \<Rightarrow> bool" where
  "facesOut displays index side along =
     list_all (\<lambda>i. i = index \<or> \<not> spans (displays ! i) side along \<or> \<not> beyond side (displays ! index) (displays ! i))
       [0..<length displays]"

text \<open>The side by which a cursor that moves in a direction enters.\<close>

definition enter_side :: "EDirection \<Rightarrow> EDirection" where
  "enter_side dir =
     (if dir = kLeft then kRight else if dir = kRight then kLeft else if dir = kTop then kBottom else kTop)"

definition pick_facing :: "display_rect list \<Rightarrow> EDirection \<Rightarrow> int \<Rightarrow> nat option" where
  "pick_facing displays side along =
     find (\<lambda>i. spans (displays ! i) side along \<and> facesOut displays i side along) [0..<length displays]"

definition shift_in :: "EDirection \<Rightarrow> display_rect \<Rightarrow> display_rect \<Rightarrow> int \<times> int \<Rightarrow> int \<times> int" where
  "shift_in side box d p =
     (case side of
        kLeft \<Rightarrow> (fst p + (d_x d - d_x box), snd p)
      | kRight \<Rightarrow> (fst p - ((d_x box + d_w box) - (d_x d + d_w d)), snd p)
      | kTop \<Rightarrow> (fst p, snd p + (d_y d - d_y box))
      | kBottom \<Rightarrow> (fst p, snd p - ((d_y box + d_h box) - (d_y d + d_h d)))
      | kNoDirection \<Rightarrow> p)"

text \<open>\<open>None\<close>: no monitor was found to enter, which would be an access outside the vector.\<close>

definition enter :: "display_rect list \<Rightarrow> display_rect \<Rightarrow> EDirection \<Rightarrow> int \<times> int \<Rightarrow> (int \<times> int) option" where
  "enter displays box dir p =
     (if displays = [] \<or> displayAt displays p \<noteq> None then Some p
      else
        let side = enter_side dir; along = (if upright side then snd p else fst p)
        in case pick_facing displays side along of
             None \<Rightarrow> map_option (\<lambda>i. clampInto (displays ! i) p) (nearest displays p)
           | Some i \<Rightarrow> Some (clampInto (displays ! i) (shift_in side box (displays ! i) p)))"

definition leave_side :: "display_rect \<Rightarrow> int \<times> int \<Rightarrow> EDirection" where
  "leave_side d p =
     (if fst p < d_x d then kLeft
      else if d_x d + d_w d \<le> fst p then kRight
      else if snd p < d_y d then kTop
      else kBottom)"

definition carry_out :: "EDirection \<Rightarrow> display_rect \<Rightarrow> display_rect \<Rightarrow> int \<times> int \<Rightarrow> int \<times> int" where
  "carry_out side box d p =
     (case side of
        kLeft \<Rightarrow> (d_x box - (d_x d - fst p), snd p)
      | kRight \<Rightarrow> (d_x box + d_w box - 1 + (fst p - (d_x d + d_w d - 1)), snd p)
      | kTop \<Rightarrow> (fst p, d_y box - (d_y d - snd p))
      | _ \<Rightarrow> (fst p, d_y box + d_h box - 1 + (snd p - (d_y d + d_h d - 1))))"

definition leave :: "display_rect list \<Rightarrow> display_rect \<Rightarrow> int \<times> int \<Rightarrow> int \<times> int \<Rightarrow> (bool \<times> int \<times> int) option" where
  "leave displays box old p =
     (if displays = [] \<or> displayAt displays p \<noteq> None then Some (False, p)
      else
        map_option
          (\<lambda>from. let d = displays ! from; c = clampInto d p; side = leave_side d p
                  in if \<not> facesOut displays from side (if upright side then snd c else fst c) then (False, p)
                     else (True, carry_out side box d p))
          (case displayAt displays old of None \<Rightarrow> nearest displays old | Some i \<Rightarrow> Some i))"

definition stay :: "display_rect list \<Rightarrow> int \<times> int \<Rightarrow> int \<times> int \<Rightarrow> (int \<times> int) option" where
  "stay displays old p =
     (if displays = [] \<or> displayAt displays p \<noteq> None then Some p
      else
        map_option (\<lambda>from. clampInto (displays ! from) p)
          (case displayAt displays old of None \<Rightarrow> nearest displays p | Some i \<Rightarrow> Some i))"

definition toBoxEdge :: "display_rect list \<Rightarrow> display_rect \<Rightarrow> int \<Rightarrow> int \<times> int \<Rightarrow> int \<times> int" where
  "toBoxEdge displays box zone p =
     (case displayAt displays p of
        None \<Rightarrow> p
      | Some i \<Rightarrow>
          let d = displays ! i; px = fst p; py = snd p
          in (if d_x box < d_x d \<and> px < d_x d + zone \<and> facesOut displays i kLeft py then d_x box + (px - d_x d)
              else if d_x d + d_w d < d_x box + d_w box \<and> d_x d + d_w d - zone \<le> px \<and> facesOut displays i kRight py
              then d_x box + d_w box - (d_x d + d_w d - px)
              else px,
              if d_y box < d_y d \<and> py < d_y d + zone \<and> facesOut displays i kTop px then d_y box + (py - d_y d)
              else if d_y d + d_h d < d_y box + d_h box \<and> d_y d + d_h d - zone \<le> py \<and> facesOut displays i kBottom px
              then d_y box + d_h box - (d_y d + d_h d - py)
              else py))"

section \<open>Finding a monitor\<close>

definition display_ok :: "display_rect \<Rightarrow> bool" where
  "display_ok d \<longleftrightarrow> 0 < d_w d \<and> 0 < d_h d \<and> \<bar>d_x d\<bar> \<le> 2 ^ 28 \<and> \<bar>d_y d\<bar> \<le> 2 ^ 28 \<and> d_w d \<le> 2 ^ 28 \<and> d_h d \<le> 2 ^ 28"

definition point_ok :: "int \<times> int \<Rightarrow> bool" where
  "point_ok p \<longleftrightarrow> \<bar>fst p\<bar> \<le> 2 ^ 28 \<and> \<bar>snd p\<bar> \<le> 2 ^ 28"

lemma display_from_None: "display_from ds i p = None \<longleftrightarrow> (\<forall>d\<in>set ds. \<not> contains d (fst p) (snd p))"
  by (induction ds i p rule: display_from.induct) auto

lemma display_from_Some: "display_from ds i p = Some k \<Longrightarrow> i \<le> k \<and> k < i + length ds \<and> contains (ds ! (k - i)) (fst p) (snd p)"
proof (induction ds i p arbitrary: k rule: display_from.induct)
  case (2 d ds i p)
  show ?case
  proof (cases "contains d (fst p) (snd p)")
    case True
    with 2(2) show ?thesis by auto
  next
    case False
    with 2 have "Suc i \<le> k \<and> k < Suc i + length ds \<and> contains (ds ! (k - Suc i)) (fst p) (snd p)" by simp
    then show ?thesis by (simp add: nth_Cons' Suc_diff_Suc)
  qed
qed simp

lemma displayAt_None: "displayAt ds p = None \<longleftrightarrow> (\<forall>d\<in>set ds. \<not> contains d (fst p) (snd p))"
  by (simp add: displayAt_def display_from_None)

lemma displayAt_Some: "displayAt ds p = Some k \<Longrightarrow> k < length ds \<and> contains (ds ! k) (fst p) (snd p)"
  using display_from_Some [of ds 0 p k] by (simp add: displayAt_def)

lemma clampInto_contains: "0 < d_w d \<Longrightarrow> 0 < d_h d \<Longrightarrow> contains d (fst (clampInto d p)) (snd (clampInto d p))"
  by (auto simp: contains_def clampInto_def clamp_def)

lemma clampInto_on_display:
  assumes "k < length ds" "display_ok (ds ! k)"
  shows "displayAt ds (clampInto (ds ! k) p) \<noteq> None"
proof -
  have "contains (ds ! k) (fst (clampInto (ds ! k) p)) (snd (clampInto (ds ! k) p))"
    using assms(2) by (intro clampInto_contains) (auto simp: display_ok_def)
  with assms(1) show ?thesis unfolding displayAt_None using nth_mem by blast
qed

lemma clamp_distance: "\<bar>v\<bar> \<le> 2 ^ 28 \<Longrightarrow> \<bar>lo\<bar> \<le> 2 ^ 28 \<Longrightarrow> 0 < w \<Longrightarrow> w \<le> 2 ^ 28 \<Longrightarrow> \<bar>clamp v lo (lo + w - 1) - v\<bar> \<le> 2 ^ 30"
  by (auto simp: clamp_def)

lemma square_bound: "\<bar>v :: int\<bar> \<le> 2 ^ 30 \<Longrightarrow> v * v \<le> 2 ^ 60"
proof -
  assume "\<bar>v\<bar> \<le> 2 ^ 30"
  then have "\<bar>v\<bar> * \<bar>v\<bar> \<le> 2 ^ 30 * 2 ^ 30" by (intro mult_mono) auto
  then show ?thesis by (simp add: abs_mult_self_eq)
qed

lemma nearest_loop_Some:
  "nearest_loop ds i p best bestDistance = Some k \<Longrightarrow> best = Some k \<or> i \<le> k \<and> k < i + length ds"
  by (induction ds arbitrary: i best bestDistance) (fastforce simp: Let_def split: if_splits)+

lemma nearest_loop_keeps: "nearest_loop ds i p (Some b) bestDistance \<noteq> None"
  by (induction ds arbitrary: i b bestDistance) (auto simp: Let_def)

lemma nearest_exists:
  assumes "ds \<noteq> []" "\<forall>d\<in>set ds. display_ok d" "point_ok p"
  shows "\<exists>k. nearest ds p = Some k \<and> k < length ds"
proof -
  obtain d ds' where ds: "ds = d # ds'" using assms(1) by (cases ds) auto
  let ?c = "clampInto d p"
  have b: "(fst ?c - fst p) * (fst ?c - fst p) \<le> 2 ^ 60" "(snd ?c - snd p) * (snd ?c - snd p) \<le> 2 ^ 60"
    unfolding clampInto_def fst_conv snd_conv
    by (intro square_bound clamp_distance; use assms(2,3) ds in \<open>simp add: display_ok_def point_ok_def\<close>)+
  have "(fst ?c - fst p) * (fst ?c - fst p) + (snd ?c - snd p) * (snd ?c - snd p) \<le> 2 ^ 60 + 2 ^ 60"
    using b by (rule add_mono)
  then have "(fst ?c - fst p) * (fst ?c - fst p) + (snd ?c - snd p) * (snd ?c - snd p) < 2 ^ 63 - 1" by simp
  then have "nearest ds p \<noteq> None" using nearest_loop_keeps by (simp add: nearest_def ds Let_def)
  then obtain k where k: "nearest ds p = Some k" by auto
  then have "k < length ds" using nearest_loop_Some [of ds 0 p None _ k] by (simp add: nearest_def)
  with k show ?thesis by blast
qed
section \<open>Monitors that face out\<close>

text \<open>How far a monitor's edge lies towards a side: the smallest faces out.\<close>

fun edge_at_side :: "EDirection \<Rightarrow> display_rect \<Rightarrow> int" where
  "edge_at_side kLeft d = d_x d"
| "edge_at_side kRight d = - (d_x d + d_w d)"
| "edge_at_side kTop d = d_y d"
| "edge_at_side kBottom d = - (d_y d + d_h d)"
| "edge_at_side kNoDirection d = 0"

lemma beyond_edge: "beyond side d e \<Longrightarrow> display_ok e \<Longrightarrow> edge_at_side side e < edge_at_side side d"
  by (cases side) (auto simp: beyond_def display_ok_def)

lemma facing_exists:
  assumes "\<forall>d\<in>set ds. display_ok d" "i < length ds" "spans (ds ! i) side along"
  shows "\<exists>j. pick_facing ds side along = Some j \<and> j < length ds \<and> spans (ds ! j) side along"
proof -
  let ?S = "{j. j < length ds \<and> spans (ds ! j) side along}" and ?f = "\<lambda>j. edge_at_side side (ds ! j)"
  have fin: "finite ?S" "?S \<noteq> {}" using assms(2,3) by auto
  have "Min (?f ` ?S) \<in> ?f ` ?S" by (rule Min_in) (use fin in blast)+
  then obtain j where j: "j \<in> ?S" "?f j = Min (?f ` ?S)" by (metis (no_types, lifting) imageE)
  have "\<not> beyond side (ds ! j) (ds ! k)" if "k < length ds" "spans (ds ! k) side along" for k
    using beyond_edge [of side "ds ! j" "ds ! k"] that assms(1) j(2) Min_le [of "?f ` ?S" "?f k"] fin(1) by fastforce
  then have "facesOut ds j side along" by (auto simp: facesOut_def list_all_iff)
  then have "pick_facing ds side along \<noteq> None" using j(1) by (auto simp: pick_facing_def find_None_iff)
  then obtain k where k: "pick_facing ds side along = Some k" by auto
  then show ?thesis by (auto simp: pick_facing_def find_Some_iff)
qed

lemma pick_facing_spans: "pick_facing ds side along = Some j \<Longrightarrow> j < length ds \<and> spans (ds ! j) side along"
  by (auto simp: pick_facing_def find_Some_iff)

lemma clampInto_keeps_along:
  assumes "spans d side along" "along = (if upright side then snd p else fst p)"
  shows "(if upright side then snd (clampInto d (shift_in side box d p)) else fst (clampInto d (shift_in side box d p))) = along"
  using assms by (cases side) (auto simp: spans_def upright_def clampInto_def clamp_def shift_in_def)

text \<open>
  C13. A cursor that enters a computer, or stays on it, is on one of its monitors: a point on a
  monitor is kept; entering ends on a monitor, and in the same row (or column) whenever any monitor
  spans it; staying ends on a monitor, the one the cursor was on if it was on one.
\<close>

theorem cursor_on_monitor:
  assumes "displays \<noteq> []" and "\<forall>d\<in>set displays. display_ok d" and "point_ok p"
  shows "\<exists>q r. enter displays box dir p = Some q \<and> stay displays old p = Some r \<and>
    displayAt displays q \<noteq> None \<and> displayAt displays r \<noteq> None \<and>
    (displayAt displays p \<noteq> None \<longrightarrow> q = p \<and> r = p) \<and>
    (\<forall>i. displayAt displays old = Some i \<and> displayAt displays p = None \<longrightarrow> contains (displays ! i) (fst r) (snd r)) \<and>
    (\<forall>d\<in>set displays. spans d (enter_side dir) (if upright (enter_side dir) then snd p else fst p) \<longrightarrow>
       (if upright (enter_side dir) then snd q = snd p else fst q = fst p))"
proof (cases "displayAt displays p = None")
  case False
  then show ?thesis by (auto simp: enter_def stay_def)
next
  case None: True
  let ?side = "enter_side dir" and ?along = "if upright (enter_side dir) then snd p else fst p"
  from nearest_exists [OF assms] obtain n where n: "nearest displays p = Some n" "n < length displays" by blast
  have ok: "display_ok (displays ! k)" if "k < length displays" for k using assms(2) that by simp
  obtain r where r: "stay displays old p = Some r" "displayAt displays r \<noteq> None"
    "\<forall>i. displayAt displays old = Some i \<longrightarrow> contains (displays ! i) (fst r) (snd r)"
  proof (cases "displayAt displays old")
    case 1: None
    with None n assms(1) that [of "clampInto (displays ! n) p"] clampInto_on_display [OF n(2) ok [OF n(2)]] show ?thesis
      by (auto simp: stay_def)
  next
    case (Some i)
    then have i: "i < length displays" using displayAt_Some by blast
    have "contains (displays ! i) (fst (clampInto (displays ! i) p)) (snd (clampInto (displays ! i) p))"
      using ok [OF i] by (intro clampInto_contains) (auto simp: display_ok_def)
    with None Some assms(1) that [of "clampInto (displays ! i) p"] clampInto_on_display [OF i ok [OF i]] show ?thesis
      by (auto simp: stay_def)
  qed
  have "\<exists>q. enter displays box dir p = Some q \<and> displayAt displays q \<noteq> None \<and>
    (\<forall>d\<in>set displays. spans d ?side ?along \<longrightarrow> (if upright ?side then snd q = snd p else fst q = fst p))"
  proof (cases "pick_facing displays ?side ?along")
    case 1: None
    have "\<not> spans d ?side ?along" if "d \<in> set displays" for d
      using that facing_exists [OF assms(2), of _ ?side ?along] 1 by (auto simp: in_set_conv_nth)
    with 1 None n assms(1) clampInto_on_display [OF n(2) ok [OF n(2)], of p] show ?thesis
      by (auto simp: enter_def Let_def)
  next
    case (Some j)
    from pick_facing_spans [OF Some] have j: "j < length displays" "spans (displays ! j) ?side ?along" by auto
    from clampInto_keeps_along [OF j(2) refl, of box] Some None assms(1) clampInto_on_display [OF j(1) ok [OF j(1)]]
    show ?thesis by (auto simp: enter_def Let_def)
  qed
  with r None show ?thesis by blast
qed

text \<open>
  A cursor that moves off the monitors is handed on or left alone: past an edge that faces out
  it is carried outside the box of the computer, where the server looks for a neighbor; otherwise it
  is not moved, and on a monitor it always stays.
\<close>

theorem leave_carries_out:
  assumes "displays \<noteq> []" and "\<forall>d\<in>set displays. display_ok d" and "point_ok old"
  shows "\<exists>out q. leave displays box old p = Some (out, q) \<and>
    (out \<longrightarrow> \<not> contains box (fst q) (snd q) \<and> displayAt displays p = None) \<and> (\<not> out \<longrightarrow> q = p)"
proof (cases "displayAt displays p = None")
  case False
  then show ?thesis by (auto simp: leave_def)
next
  case True
  from nearest_exists [OF assms] displayAt_Some [of displays old]
  obtain i where i: "(case displayAt displays old of None \<Rightarrow> nearest displays old | Some i \<Rightarrow> Some i) = Some i" "i < length displays"
    by (cases "displayAt displays old") auto
  have "\<not> contains (displays ! i) (fst p) (snd p)" using True i(2) by (simp add: displayAt_None)
  then have "\<not> contains box (fst (carry_out (leave_side (displays ! i) p) box (displays ! i) p))
      (snd (carry_out (leave_side (displays ! i) p) box (displays ! i) p))"
    by (auto simp: contains_def carry_out_def leave_side_def)
  then show ?thesis using True assms(1) i(1) by (auto simp: leave_def Let_def simp del: split_paired_Ex)
qed

section \<open>Witnesses\<close>

text \<open>A laptop under the left half of a wider monitor.\<close>

definition demo_displays :: "display_rect list" where
  "demo_displays = [\<lparr>d_x = 0, d_y = 0, d_w = 200, d_h = 100\<rparr>, \<lparr>d_x = 0, d_y = 100, d_w = 100, d_h = 50\<rparr>]"

lemma demo_displays_ok: "demo_displays \<noteq> []" "\<forall>d\<in>set demo_displays. display_ok d"
  by (auto simp: demo_displays_def display_ok_def)

theorem cursor_on_monitor_witness:
  "\<exists>q. enter demo_displays \<lparr>d_x = 0, d_y = 0, d_w = 200, d_h = 150\<rparr> kLeft (199, 120) = Some q \<and>
     displayAt demo_displays q \<noteq> None \<and> snd q = 120"
proof -
  have "\<exists>d\<in>set demo_displays. spans d (enter_side kLeft) 120" by (simp add: demo_displays_def spans_def upright_def enter_side_def)
  moreover have "upright (enter_side kLeft)" by (simp add: upright_def enter_side_def)
  moreover have "point_ok (199, 120)" by (simp add: point_ok_def)
  ultimately show ?thesis
    using cursor_on_monitor [OF demo_displays_ok, of "(199, 120)" "\<lparr>d_x = 0, d_y = 0, d_w = 200, d_h = 150\<rparr>" kLeft "(0, 0)"]
    by auto
qed

theorem leave_carries_out_witness:
  "\<exists>q. leave demo_displays \<lparr>d_x = 0, d_y = 0, d_w = 200, d_h = 150\<rparr> (90, 120) (105, 120) = Some (True, q) \<and> fst q = 205"
proof -
  have "point_ok (90, 120)" by (simp add: point_ok_def)
  from leave_carries_out [OF demo_displays_ok this, of "\<lparr>d_x = 0, d_y = 0, d_w = 200, d_h = 150\<rparr>" "(105, 120)"]
  obtain out q where l: "leave demo_displays \<lparr>d_x = 0, d_y = 0, d_w = 200, d_h = 150\<rparr> (90, 120) (105, 120) = Some (out, q)" by blast
  moreover have "leave demo_displays \<lparr>d_x = 0, d_y = 0, d_w = 200, d_h = 150\<rparr> (90, 120) (105, 120) = Some (True, (205, 120))"
    by code_simp
  ultimately show ?thesis by auto
qed

end
