(* ===== verification/ServerScreens.thy ===== *)
theory ServerScreens
  imports DisplayGeometry Clipboards
begin

text \<open>
  The state of the server (\<^verbatim>\<open>src/lib/server/Server.cpp\<close>) and its search for the screen beyond an
  edge. A screen is a number standing for its proxy; what the server asks of a proxy or of the
  platform (shapes, cursor positions, modifiers, whether a screen can be left, the time since the
  last tap) is in the record \<open>world\<close>, and what it tells them is a list of calls. \<open>fl\<close> rounds the
  results of float operations. \<open>None\<close> stands for a call that does not return: a failed assertion or
  a loop without end.
\<close>

section \<open>State\<close>

type_synonym screen_id = nat
type_synonym point = "int \<times> int"

record shape =
  sh_x :: int
  sh_y :: int
  sh_w :: int
  sh_h :: int

record world =
  w_name :: "screen_id \<Rightarrow> string"
  w_shape :: "screen_id \<Rightarrow> shape"
  w_cursor :: "screen_id \<Rightarrow> point"
  w_center :: point
  w_leaves :: "screen_id \<Rightarrow> bool"
  w_clipboard :: "screen_id \<Rightarrow> nat \<Rightarrow> clipboard option"
  w_zone :: int
  w_primaryLocked :: bool
  w_toggleMask :: u32
  w_tapTime :: rat
  w_dragging :: bool

datatype call =
    Leave screen_id
  | Enter screen_id int int u32 u32 bool
  | MouseMove screen_id int int
  | MouseRelativeMove screen_id int int
  | KeyDown screen_id u32 u32 u16
  | KeyUp screen_id u32 u32 u16
  | KeyRepeat screen_id u32 u32 int u16
  | MouseDown screen_id u8
  | MouseUp screen_id u8
  | MouseWheel screen_id int int
  | Screensaver screen_id bool
  | GrabClipboard screen_id nat
  | SetClipboardDirty screen_id nat bool
  | SetClipboard screen_id nat bytes
  | ResetOptions screen_id
  | SetOptions screen_id "u32 list"
  | CloseScreen screen_id string
  | DimScreen screen_id bool
  | LockState screen_id bool
  | Reconfigure u32
  | NewTimer
  | DeleteTimer
  | Switched string
  | Connected string
  | Disconnected
  | SendDragInfo screen_id
  | InterruptFile

record clipboard_info =
  m_clipboard :: clipboard
  m_clipboardData :: bytes
  m_clipboardOwner :: string
  m_clipboardSeqNum :: u32

record server =
  m_primaryClient :: screen_id
  m_clients :: "(string, screen_id) smap"
  m_clientSet :: "screen_id set"
  m_oldClients :: "screen_id list"
  m_active :: screen_id
  m_seqNum :: u32
  m_x :: int
  m_y :: int
  m_xDelta :: int
  m_yDelta :: int
  m_xDelta2 :: int
  m_yDelta2 :: int
  m_config :: config
  m_displays :: "(string, display_rect list) smap"
  m_clipboards :: "nat \<Rightarrow> clipboard_info"
  m_activeSaver :: "screen_id option"
  m_xSaver :: int
  m_ySaver :: int
  m_switchDir :: EDirection
  m_switchScreen :: "screen_id option"
  m_switchWaitDelay :: rat
  m_switchWaitTimer :: bool
  m_switchWaitX :: int
  m_switchWaitY :: int
  m_switchTwoTapDelay :: rat
  m_switchTwoTapEngaged :: bool
  m_switchTwoTapArmed :: bool
  m_switchTwoTapZone :: int
  m_switchNeedsShift :: bool
  m_switchNeedsControl :: bool
  m_switchNeedsAlt :: bool
  m_relativeMoves :: bool
  m_keyboardBroadcasting :: bool
  m_keyboardBroadcastingScreens :: string
  m_lockedToScreen :: bool
  m_enableClipboard :: bool
  m_maximumClipboardSize :: nat
  m_waitDragInfoThread :: bool
  m_sendDragInfoThread :: bool
  m_sendFileThread :: bool
  jump_pos :: "screen_id \<Rightarrow> point"
  calls :: "call list"

definition emit :: "call \<Rightarrow> server \<Rightarrow> server" where
  "emit k s = s\<lparr>calls := calls s @ [k]\<rparr>"

definition clipboard_info_new :: clipboard_info where
  "clipboard_info_new = \<lparr>m_clipboard = cb_new, m_clipboardData = [], m_clipboardOwner = [], m_clipboardSeqNum = 0\<rparr>"

text \<open>The members as the constructor initializes them.\<close>

definition server_new :: "screen_id \<Rightarrow> config \<Rightarrow> (string, display_rect list) smap \<Rightarrow> server" where
  "server_new primaryClient c displays =
     \<lparr>m_primaryClient = primaryClient, m_clients = [], m_clientSet = {}, m_oldClients = [], m_active = primaryClient,
      m_seqNum = 0, m_x = 0, m_y = 0, m_xDelta = 0, m_yDelta = 0, m_xDelta2 = 0, m_yDelta2 = 0,
      m_config = c, m_displays = displays, m_clipboards = (\<lambda>_. clipboard_info_new),
      m_activeSaver = None, m_xSaver = 0, m_ySaver = 0, m_switchDir = kNoDirection, m_switchScreen = None,
      m_switchWaitDelay = 0, m_switchWaitTimer = False, m_switchWaitX = 0, m_switchWaitY = 0,
      m_switchTwoTapDelay = 0, m_switchTwoTapEngaged = False, m_switchTwoTapArmed = False, m_switchTwoTapZone = 3,
      m_switchNeedsShift = False, m_switchNeedsControl = False, m_switchNeedsAlt = False, m_relativeMoves = False,
      m_keyboardBroadcasting = False, m_keyboardBroadcastingScreens = [], m_lockedToScreen = False,
      m_enableClipboard = True, m_maximumClipboardSize = 2147483647,
      m_waitDragInfoThread = True, m_sendDragInfoThread = False, m_sendFileThread = False, jump_pos = (\<lambda>_. (0, 0)), calls = []\<rparr>"

text \<open>\<open>std::string\<close> compares its characters as unsigned bytes.\<close>

definition str_key :: "string \<Rightarrow> nat list" where
  "str_key = map of_char"

definition str_less :: "string \<Rightarrow> string \<Rightarrow> bool" where
  "str_less a b \<longleftrightarrow> str_key a < str_key b"

interpretation strs: keyed_map str_less str_key
  by unfold_locales (rule str_less_def)

lemma str_key_inj: "str_key a = str_key b \<longleftrightarrow> a = b"
  by (simp add: str_key_def inj_map_eq_map inj_of_char)

definition find_client :: "string \<Rightarrow> server \<Rightarrow> screen_id option" where
  "find_client n s = map_option snd (smap_find str_less n (m_clients s))"

definition getName :: "world \<Rightarrow> server \<Rightarrow> screen_id \<Rightarrow> string" where
  "getName w s client =
     (let name = getCanonicalName (w_name w client) (m_config s)
      in if name = [] then w_name w client else name)"

section \<open>The edges of a screen\<close>

definition mapToFraction :: "(rat \<Rightarrow> rat) \<Rightarrow> world \<Rightarrow> screen_id \<Rightarrow> EDirection \<Rightarrow> point \<Rightarrow> rat option" where
  "mapToFraction fl w client dir p =
     (let sh = w_shape w client
      in if dir = kNoDirection then None
         else if upright dir
         then Some (fl (fl (fl (of_int (snd p - sh_y sh)) + 1 / 2) / fl (of_int (sh_h sh))))
         else Some (fl (fl (fl (of_int (fst p - sh_x sh)) + 1 / 2) / fl (of_int (sh_w sh)))))"

definition truncate :: "rat \<Rightarrow> int" where
  "truncate r = (if 0 \<le> r then \<lfloor>r\<rfloor> else \<lceil>r\<rceil>)"

definition mapToPixel :: "(rat \<Rightarrow> rat) \<Rightarrow> world \<Rightarrow> screen_id \<Rightarrow> EDirection \<Rightarrow> rat \<Rightarrow> point \<Rightarrow> point" where
  "mapToPixel fl w client dir f p =
     (let sh = w_shape w client
      in if upright dir then (fst p, truncate (fl (f * fl (of_int (sh_h sh)))) + sh_y sh)
         else (truncate (fl (f * fl (of_int (sh_w sh)))) + sh_x sh, snd p))"

definition hasAnyNeighbor :: "world \<Rightarrow> server \<Rightarrow> screen_id \<Rightarrow> EDirection \<Rightarrow> bool" where
  "hasAnyNeighbor w s client dir = (hasNeighbor (getName w s client) dir (0, 1) (m_config s) = Some True)"

definition getActivePrimarySides :: "world \<Rightarrow> server \<Rightarrow> u32" where
  "getActivePrimarySides w s =
     (if m_lockedToScreen s then 0
      else (if hasAnyNeighbor w s (m_primaryClient s) kLeft then 2 else 0) OR
           (if hasAnyNeighbor w s (m_primaryClient s) kRight then 4 else 0) OR
           (if hasAnyNeighbor w s (m_primaryClient s) kTop then 8 else 0) OR
           (if hasAnyNeighbor w s (m_primaryClient s) kBottom then 16 else 0))"

text \<open>The loop of \<open>Server::getNeighbor\<close>: screens that are not connected are skipped.\<close>

partial_function (option) neighbor_loop ::
  "(rat \<Rightarrow> rat) \<Rightarrow> server \<Rightarrow> EDirection \<Rightarrow> string \<Rightarrow> rat \<Rightarrow> (screen_id \<times> rat) option option" where
  "neighbor_loop fl s dir srcName t =
     (case getNeighbor fl srcName dir t (m_config s) of
        None \<Rightarrow> None
      | Some (dstName, tTmp) \<Rightarrow>
          if dstName = [] then Some None
          else (case find_client dstName s of
                  Some c \<Rightarrow> Some (Some (c, the tTmp))
                | None \<Rightarrow> neighbor_loop fl s dir dstName (the tTmp)))"

declare neighbor_loop.simps [code]

definition getNeighbor_server ::
  "(rat \<Rightarrow> rat) \<Rightarrow> world \<Rightarrow> server \<Rightarrow> screen_id \<Rightarrow> EDirection \<Rightarrow> point \<Rightarrow> (screen_id \<times> point) option option" where
  "getNeighbor_server fl w s src dir p =
     (if getName w s src = [] then None
      else case mapToFraction fl w src dir p of
             None \<Rightarrow> None
           | Some t \<Rightarrow>
               map_option (map_option (\<lambda>(c, f). (c, mapToPixel fl w c dir f p))) (neighbor_loop fl s dir (getName w s src) t))"

text \<open>
  The searches of \<open>mapToNeighbor\<close>, along \<open>x\<close> for left and right and along \<open>y\<close> for up and down:
  \<open>along\<close> and \<open>moved\<close> read and change that coordinate, \<open>origin\<close> and \<open>extent\<close> are those of a screen.
\<close>

definition along :: "EDirection \<Rightarrow> point \<Rightarrow> int" where
  "along dir p = (if upright dir then fst p else snd p)"

definition moved :: "EDirection \<Rightarrow> int \<Rightarrow> point \<Rightarrow> point" where
  "moved dir d p = (if upright dir then (fst p + d, snd p) else (fst p, snd p + d))"

definition origin :: "world \<Rightarrow> EDirection \<Rightarrow> screen_id \<Rightarrow> int" where
  "origin w dir c = (if upright dir then sh_x (w_shape w c) else sh_y (w_shape w c))"

definition extent :: "world \<Rightarrow> EDirection \<Rightarrow> screen_id \<Rightarrow> int" where
  "extent w dir c = (if upright dir then sh_w (w_shape w c) else sh_h (w_shape w c))"

partial_function (option) search_back ::
  "(rat \<Rightarrow> rat) \<Rightarrow> world \<Rightarrow> server \<Rightarrow> EDirection \<Rightarrow> screen_id \<Rightarrow> point \<Rightarrow> (screen_id \<times> point) option" where
  "search_back fl w s dir dst p =
     (let p' = moved dir (extent w dir dst) p
      in if 0 \<le> along dir p' then Some (dst, p')
         else (case getNeighbor_server fl w s dst dir p' of
                 None \<Rightarrow> None
               | Some None \<Rightarrow> Some (dst, p')
               | Some (Some (dst', q)) \<Rightarrow> search_back fl w s dir dst' q))"

partial_function (option) search_forth ::
  "(rat \<Rightarrow> rat) \<Rightarrow> world \<Rightarrow> server \<Rightarrow> EDirection \<Rightarrow> screen_id \<Rightarrow> screen_id \<Rightarrow> point \<Rightarrow> (screen_id \<times> point) option" where
  "search_forth fl w s dir lastGoodScreen dst p =
     (let p' = moved dir (- extent w dir lastGoodScreen) p
      in if along dir p' < extent w dir dst then Some (dst, p')
         else (case getNeighbor_server fl w s dst dir p' of
                 None \<Rightarrow> None
               | Some None \<Rightarrow> Some (dst, p')
               | Some (Some (dst', q)) \<Rightarrow> search_forth fl w s dir dst dst' q))"

declare search_back.simps [code] search_forth.simps [code]

definition opposite :: "EDirection \<Rightarrow> EDirection" where
  "opposite dir =
     (case dir of kLeft \<Rightarrow> kRight | kRight \<Rightarrow> kLeft | kTop \<Rightarrow> kBottom | kBottom \<Rightarrow> kTop | kNoDirection \<Rightarrow> kNoDirection)"

definition avoidJumpZone :: "(rat \<Rightarrow> rat) \<Rightarrow> world \<Rightarrow> server \<Rightarrow> screen_id \<Rightarrow> EDirection \<Rightarrow> point \<Rightarrow> point option" where
  "avoidJumpZone fl w s dst dir p =
     (if dst \<noteq> m_primaryClient s then Some p
      else case mapToFraction fl w dst dir p of
             None \<Rightarrow> None
           | Some t \<Rightarrow>
           case getNeighbor fl (getName w s dst) (opposite dir) t (m_config s) of
             None \<Rightarrow> None
           | Some (n, _) \<Rightarrow>
               let z = w_zone w; lo = origin w dir dst; len = extent w dir dst; a = along dir p
               in Some (if n = [] then p
                        else if dir = kLeft \<or> dir = kTop
                        then (if lo + len - 1 - z < a then moved dir (lo + len - 1 - z - a) p else p)
                        else (if a < lo + z then moved dir (lo + z - a) p else p)))"

definition shape_rect :: "shape \<Rightarrow> display_rect" where
  "shape_rect sh = \<lparr>d_x = sh_x sh, d_y = sh_y sh, d_w = sh_w sh, d_h = sh_h sh\<rparr>"

text \<open>The monitors configured for a screen, when there are several and they match its shape.\<close>

definition fork_displaysOf :: "world \<Rightarrow> server \<Rightarrow> screen_id \<Rightarrow> display_rect list" where
  "fork_displaysOf w s client =
     (let sh = w_shape w client
      in case smap_find str_less (getCanonicalName (getName w s client) (m_config s)) (m_displays s) of
           None \<Rightarrow> []
         | Some (_, given) \<Rightarrow>
             if length given < 2 then []
             else
               let left = fold (\<lambda>d v. min v (d_x d)) given (d_x (hd given));
                   top = fold (\<lambda>d v. min v (d_y d)) given (d_y (hd given));
                   right = fold (\<lambda>d v. max v (d_x d + d_w d)) given 0;
                   bottom = fold (\<lambda>d v. max v (d_y d + d_h d)) given 0
               in if left \<noteq> 0 \<or> top \<noteq> 0 \<or> right \<noteq> sh_w sh \<or> bottom \<noteq> sh_h sh then []
                  else map (\<lambda>d. d\<lparr>d_x := d_x d + sh_x sh, d_y := d_y d + sh_y sh\<rparr>) given)"

definition fork_enterDisplays :: "world \<Rightarrow> server \<Rightarrow> screen_id \<Rightarrow> EDirection \<Rightarrow> point \<Rightarrow> point option" where
  "fork_enterDisplays w s dst dir p = enter (fork_displaysOf w s dst) (shape_rect (w_shape w dst)) dir p"

definition fork_leaveDisplays :: "world \<Rightarrow> server \<Rightarrow> screen_id \<Rightarrow> point \<Rightarrow> point \<Rightarrow> point option" where
  "fork_leaveDisplays w s client old p =
     map_option snd (leave (fork_displaysOf w s client) (shape_rect (w_shape w client)) old p)"

definition fork_stayOnDisplays :: "world \<Rightarrow> server \<Rightarrow> screen_id \<Rightarrow> point \<Rightarrow> point \<Rightarrow> point option" where
  "fork_stayOnDisplays w s client old p = stay (fork_displaysOf w s client) old p"

definition fork_toBoxEdge :: "world \<Rightarrow> server \<Rightarrow> screen_id \<Rightarrow> int \<Rightarrow> point \<Rightarrow> point" where
  "fork_toBoxEdge w s client zone p =
     toBoxEdge (fork_displaysOf w s client) (shape_rect (w_shape w client)) zone p"

definition mapToNeighbor ::
  "(rat \<Rightarrow> rat) \<Rightarrow> world \<Rightarrow> server \<Rightarrow> screen_id \<Rightarrow> EDirection \<Rightarrow> point \<Rightarrow> (screen_id option \<times> point) option" where
  "mapToNeighbor fl w s src srcSide p =
     (case getNeighbor_server fl w s src srcSide p of
        None \<Rightarrow> None
      | Some None \<Rightarrow> Some (None, p)
      | Some (Some (dst, q)) \<Rightarrow>
          let q' = moved srcSide (- origin w srcSide src) q
          in case (if srcSide = kLeft \<or> srcSide = kTop then search_back fl w s srcSide dst q'
                   else search_forth fl w s srcSide src dst q') of
               None \<Rightarrow> None
             | Some (dst, r) \<Rightarrow>
                 (case avoidJumpZone fl w s dst srcSide (moved srcSide (origin w srcSide dst) r) of
                    None \<Rightarrow> None
                  | Some r' \<Rightarrow> map_option (\<lambda>r''. (Some dst, r'')) (fork_enterDisplays w s dst srcSide r')))"

section \<open>The search for a connected neighbor\<close>

text \<open>One step of the search: the name and position it goes on from.\<close>

definition next_offline :: "(rat \<Rightarrow> rat) \<Rightarrow> server \<Rightarrow> EDirection \<Rightarrow> string \<times> rat \<Rightarrow> string \<times> rat \<Rightarrow> bool" where
  "next_offline fl s dir a b \<longleftrightarrow>
     (\<exists>u. getNeighbor fl (fst a) dir (snd a) (m_config s) = Some (fst b, u) \<and> snd b = the u) \<and>
     fst b \<noteq> [] \<and> find_client (fst b) s = None"

lemma neighbor_loop_connected:
  "neighbor_loop fl s dir n t = Some (Some (c, f)) \<Longrightarrow> \<exists>name. find_client name s = Some c"
proof -
  have "r = Some (c, f) \<longrightarrow> (\<exists>name. find_client name s = Some c)" if "neighbor_loop fl s dir n t = Some r" for r
    using that by (rule neighbor_loop.raw_induct [where P = "\<lambda>fl s dir n t r. r = Some (c, f) \<longrightarrow> (\<exists>name. find_client name s = Some c)", rotated])
      (auto split: option.splits prod.splits if_splits)
  then show "neighbor_loop fl s dir n t = Some (Some (c, f)) \<Longrightarrow> ?thesis" by blast
qed

lemma getNeighbor_returns: "dir \<noteq> kNoDirection \<Longrightarrow> \<exists>r. getNeighbor fl n dir t c = Some r"
  by (auto simp: getNeighbor_def cell_getLink_def edge_at_def case_prod_beta split: option.splits)

text \<open>The search ends when the screens that are not connected do not go round in a circle.\<close>

lemma neighbor_loop_returns:
  assumes "dir \<noteq> kNoDirection" "\<And>a b. next_offline fl s dir a b \<Longrightarrow> rank (fst b) < (rank (fst a) :: nat)"
  shows "\<exists>r. neighbor_loop fl s dir n t = Some r"
proof (induction "rank n" arbitrary: n t rule: less_induct)
  case less
  obtain dst u where g: "getNeighbor fl n dir t (m_config s) = Some (dst, u)"
    using getNeighbor_returns [OF assms(1)] by fastforce
  show ?case
  proof (cases "dst = [] \<or> find_client dst s \<noteq> None")
    case True
    then show ?thesis using g by (subst neighbor_loop.simps) auto
  next
    case False
    then have "next_offline fl s dir (n, t) (dst, the u)" using g by (auto simp: next_offline_def)
    from less [of dst "the u"] assms(2) [OF this] False g show ?thesis by (subst neighbor_loop.simps) auto
  qed
qed

text \<open>The search does not end when it is inside a set of positions that it does not leave.\<close>

lemma neighbor_loop_diverges:
  assumes "\<And>a. a \<in> S \<Longrightarrow> \<exists>b\<in>S. next_offline fl s dir a b" "(n, t) \<in> S"
  shows "neighbor_loop fl s dir n t = None"
proof -
  have "(n, t) \<notin> S" if "neighbor_loop fl s dir n t = Some r" for r
  proof -
    have "fl' = fl \<and> s' = s \<and> dir' = dir \<longrightarrow> (n, t) \<notin> S" if "neighbor_loop fl' s' dir' n t = Some r" for fl' s' dir'
      using that
    proof (rule neighbor_loop.raw_induct [where P = "\<lambda>fl' s' dir' n t r. fl' = fl \<and> s' = s \<and> dir' = dir \<longrightarrow> (n, t) \<notin> S", rotated])
      fix loop fl' s' dir' m u r
      assume IH: "\<And>fl' s' dir' m u r. loop fl' s' dir' m u = Some r \<Longrightarrow> fl' = fl \<and> s' = s \<and> dir' = dir \<longrightarrow> (m, u) \<notin> S"
        and b: "(case getNeighbor fl' m dir' u (m_config s') of None \<Rightarrow> None
          | Some (dstName, tTmp) \<Rightarrow>
              if dstName = [] then Some None
              else case find_client dstName s' of None \<Rightarrow> loop fl' s' dir' dstName (the tTmp)
                   | Some c \<Rightarrow> Some (Some (c, the tTmp))) = Some r"
      show "fl' = fl \<and> s' = s \<and> dir' = dir \<longrightarrow> (m, u) \<notin> S"
      proof (intro impI notI)
        assume e: "fl' = fl \<and> s' = s \<and> dir' = dir" and i: "(m, u) \<in> S"
        from assms(1) [OF i] obtain b where "b \<in> S" "next_offline fl s dir (m, u) b" by blast
        then have "loop fl s dir (fst b) (snd b) = Some r" using \<open>_ = Some r\<close> e by (auto simp: next_offline_def)
        with IH \<open>b \<in> S\<close> show False by (metis prod.collapse)
      qed
    qed
    with that show ?thesis by blast
  qed
  then show ?thesis using assms(2) by (cases "neighbor_loop fl s dir n t") auto
qed

section \<open>Where the cursor arrives\<close>

lemma along_moved [simp]: "along dir (moved dir d p) = along dir p + d"
  by (simp add: along_def moved_def)

lemma along_mapToPixel [simp]: "along dir (mapToPixel fl w c dir f p) = along dir p"
  by (simp add: along_def mapToPixel_def Let_def)

lemma getNeighbor_server_along:
  "getNeighbor_server fl w s src dir p = Some (Some (c, q)) \<Longrightarrow> along dir q = along dir p \<and> (\<exists>n. find_client n s = Some c)"
  by (auto simp: getNeighbor_server_def split: if_splits option.splits dest: neighbor_loop_connected)

text \<open>
  The screen is the one at the position, unless the position is past its far edge and, from there,
  there is no connected screen to go on to.
\<close>

definition backwards :: "EDirection \<Rightarrow> bool" where
  "backwards dir \<longleftrightarrow> dir = kLeft \<or> dir = kTop"

definition past :: "world \<Rightarrow> EDirection \<Rightarrow> screen_id \<times> point \<Rightarrow> bool" where
  "past w dir r \<longleftrightarrow> (if backwards dir then along dir (snd r) < 0 else extent w dir (fst r) \<le> along dir (snd r))"

definition arrives :: "(rat \<Rightarrow> rat) \<Rightarrow> world \<Rightarrow> server \<Rightarrow> EDirection \<Rightarrow> screen_id \<times> point \<Rightarrow> bool" where
  "arrives fl w s dir r \<longleftrightarrow>
     0 \<le> along dir (snd r) \<and> along dir (snd r) < extent w dir (fst r) \<or>
     past w dir r \<and> getNeighbor_server fl w s (fst r) dir (snd r) = Some None"

lemma search_back_arrives:
  assumes "search_back fl w s dir dst p = Some r" "\<exists>n. find_client n s = Some dst"
  shows "(backwards dir \<and> along dir p < 0 \<longrightarrow> arrives fl w s dir r) \<and> (\<exists>n. find_client n s = Some (fst r))"
proof -
  have "(\<exists>n. find_client n s = Some dst) \<longrightarrow> (backwards dir \<and> along dir p < 0 \<longrightarrow> arrives fl w s dir r) \<and> (\<exists>n. find_client n s = Some (fst r))"
    using assms(1)
  proof (rule search_back.raw_induct [where P = "\<lambda>fl w s dir dst p r. (\<exists>n. find_client n s = Some dst) \<longrightarrow>
      (backwards dir \<and> along dir p < 0 \<longrightarrow> arrives fl w s dir r) \<and> (\<exists>n. find_client n s = Some (fst r))", rotated])
    fix loop fl w s dir dst p r
    assume IH: "\<And>fl w s dir dst p r. loop fl w s dir dst p = Some r \<Longrightarrow> (\<exists>n. find_client n s = Some dst) \<longrightarrow>
        (backwards dir \<and> along dir p < 0 \<longrightarrow> arrives fl w s dir r) \<and> (\<exists>n. find_client n s = Some (fst r))"
      and b: "(let p' = moved dir (extent w dir dst) p
         in if 0 \<le> along dir p' then Some (dst, p')
            else case getNeighbor_server fl w s dst dir p' of None \<Rightarrow> None | Some None \<Rightarrow> Some (dst, p')
                 | Some (Some (dst', q)) \<Rightarrow> loop fl w s dir dst' q) = Some r"
    let ?p = "moved dir (extent w dir dst) p"
    show "(\<exists>n. find_client n s = Some dst) \<longrightarrow> (backwards dir \<and> along dir p < 0 \<longrightarrow> arrives fl w s dir r) \<and> (\<exists>n. find_client n s = Some (fst r))"
    proof (cases "0 \<le> along dir ?p \<or> getNeighbor_server fl w s dst dir ?p = Some None")
      case True
      then have "r = (dst, ?p)" using b by (auto simp: Let_def split: if_splits)
      then show ?thesis using True by (auto simp: arrives_def past_def)
    next
      case False
      with b obtain dst' q where n: "getNeighbor_server fl w s dst dir ?p = Some (Some (dst', q))" "loop fl w s dir dst' q = Some r"
        by (auto simp: Let_def split: option.splits)
      from IH [OF n(2)] getNeighbor_server_along [OF n(1)] False show ?thesis by auto
    qed
  qed
  with assms(2) show ?thesis by blast
qed

lemma search_forth_arrives:
  assumes "search_forth fl w s dir src dst p = Some r" "\<exists>n. find_client n s = Some dst"
  shows "(\<not> backwards dir \<and> extent w dir src \<le> along dir p \<longrightarrow> arrives fl w s dir r) \<and> (\<exists>n. find_client n s = Some (fst r))"
proof -
  have "(\<exists>n. find_client n s = Some dst) \<longrightarrow> (\<not> backwards dir \<and> extent w dir src \<le> along dir p \<longrightarrow> arrives fl w s dir r) \<and> (\<exists>n. find_client n s = Some (fst r))"
    using assms(1)
  proof (rule search_forth.raw_induct [where P = "\<lambda>fl w s dir src dst p r. (\<exists>n. find_client n s = Some dst) \<longrightarrow>
      (\<not> backwards dir \<and> extent w dir src \<le> along dir p \<longrightarrow> arrives fl w s dir r) \<and> (\<exists>n. find_client n s = Some (fst r))", rotated])
    fix loop fl w s dir src dst p r
    assume IH: "\<And>fl w s dir src dst p r. loop fl w s dir src dst p = Some r \<Longrightarrow> (\<exists>n. find_client n s = Some dst) \<longrightarrow>
        (\<not> backwards dir \<and> extent w dir src \<le> along dir p \<longrightarrow> arrives fl w s dir r) \<and> (\<exists>n. find_client n s = Some (fst r))"
      and b: "(let p' = moved dir (- extent w dir src) p
         in if along dir p' < extent w dir dst then Some (dst, p')
            else case getNeighbor_server fl w s dst dir p' of None \<Rightarrow> None | Some None \<Rightarrow> Some (dst, p')
                 | Some (Some (dst', q)) \<Rightarrow> loop fl w s dir dst dst' q) = Some r"
    let ?p = "moved dir (- extent w dir src) p"
    show "(\<exists>n. find_client n s = Some dst) \<longrightarrow> (\<not> backwards dir \<and> extent w dir src \<le> along dir p \<longrightarrow> arrives fl w s dir r) \<and> (\<exists>n. find_client n s = Some (fst r))"
    proof (cases "along dir ?p < extent w dir dst \<or> getNeighbor_server fl w s dst dir ?p = Some None")
      case True
      then have "r = (dst, ?p)" using b by (auto simp: Let_def split: if_splits)
      then show ?thesis using True by (auto simp: arrives_def past_def)
    next
      case False
      with b obtain dst' q where n: "getNeighbor_server fl w s dst dir ?p = Some (Some (dst', q))" "loop fl w s dir dst dst' q = Some r"
        by (auto simp: Let_def split: option.splits)
      from IH [OF n(2)] getNeighbor_server_along [OF n(1)] False show ?thesis by auto
    qed
  qed
  with assms(2) show ?thesis by blast
qed

lemma mapToNeighbor_connected:
  assumes "mapToNeighbor fl w s src side p = Some (Some dst, q)"
  shows "\<exists>n. find_client n s = Some dst"
proof -
  from assms obtain d0 q0 r where g: "getNeighbor_server fl w s src side p = Some (Some (d0, q0))"
    and sr: "(if side = kLeft \<or> side = kTop then search_back fl w s side d0 (moved side (- origin w side src) q0)
              else search_forth fl w s side src d0 (moved side (- origin w side src) q0)) = Some (dst, r)"
    by (auto simp: mapToNeighbor_def Let_def split: option.splits prod.splits)
  from sr getNeighbor_server_along [OF g] show ?thesis
    using search_back_arrives [of fl w s side d0 _ "(dst, r)"] search_forth_arrives [of fl w s side src d0 _ "(dst, r)"]
    by (auto split: if_splits)
qed

lemma avoidJumpZone_inside:
  assumes "avoidJumpZone fl w s dst dir p = Some q" "dir \<noteq> kNoDirection" "0 \<le> w_zone w" "w_zone w < extent w dir dst"
    "origin w dir dst \<le> along dir p" "along dir p < origin w dir dst + extent w dir dst"
  shows "origin w dir dst \<le> along dir q \<and> along dir q < origin w dir dst + extent w dir dst"
  using assms by (auto simp: avoidJumpZone_def Let_def split: if_splits option.splits prod.splits)

lemma avoidJumpZone_past:
  assumes "avoidJumpZone fl w s dst dir p = Some q" "w_zone w < extent w dir dst"
    "if backwards dir then along dir p < origin w dir dst else origin w dir dst + extent w dir dst \<le> along dir p"
  shows "q = p"
  using assms by (auto simp: avoidJumpZone_def backwards_def Let_def split: if_splits option.splits prod.splits)

lemma moved_back [simp]: "moved dir (- d) (moved dir d p) = p"
  by (simp add: moved_def)

lemma enter_on_display:
  assumes "enter displays box dir p = Some q" "displays \<noteq> []" "\<forall>d\<in>set displays. 0 < d_w d \<and> 0 < d_h d"
  shows "displayAt displays q \<noteq> None"
proof -
  have c: "displayAt displays (clampInto (displays ! i) r) \<noteq> None" if "i < length displays" for i r
  proof -
    have "contains (displays ! i) (fst (clampInto (displays ! i) r)) (snd (clampInto (displays ! i) r))"
      using assms(3) that by (intro clampInto_contains) simp_all
    then show ?thesis unfolding displayAt_None using that nth_mem by blast
  qed
  have n: "i < length displays" if "nearest displays p = Some i" for i
    using nearest_loop_Some [of displays 0 p None _ i] that by (auto simp: nearest_def)
  have "displayAt displays p \<noteq> None \<and> q = p \<or> (\<exists>i r. i < length displays \<and> q = clampInto (displays ! i) r)"
  proof (cases "displayAt displays p")
    case None
    let ?along = "if upright (enter_side dir) then snd p else fst p"
    note e = assms(1) [unfolded enter_def Let_def]
    show ?thesis
    proof (cases "pick_facing displays (enter_side dir) ?along")
      case b: None
      then obtain i where i: "nearest displays p = Some i" "q = clampInto (displays ! i) p" using e None assms(2) by auto
      then show ?thesis using n [OF i(1)] by blast
    next
      case (Some i)
      then have "q = clampInto (displays ! i) (shift_in (enter_side dir) box (displays ! i) p)" using e None assms(2) by simp
      then show ?thesis using pick_facing_spans [OF Some] by blast
    qed
  qed (use assms(1) in \<open>simp add: enter_def\<close>)
  then show ?thesis using c by blast
qed

text \<open>
  C11. A cursor that moves past an edge of a screen and is taken to a neighbor arrives on a connected
  screen. If that screen has no monitors configured, it arrives, along the way it moves, between the
  two edges of the screen, however far it moved and however many screens it skipped; the only
  exception is a position past the far edge of the screen from which the search found no connected
  screen to go on to. If it has monitors configured, none of them empty, it arrives on one of them.
  The jump zone of the primary screen is narrower than the screen.
\<close>

theorem mapToNeighbor_arrives:
  assumes "side \<noteq> kNoDirection"
    and "if side = kLeft \<or> side = kTop then along side p < origin w side src
         else origin w side src + extent w side src \<le> along side p"
    and "mapToNeighbor fl w s src side p = Some (Some dst, q)"
    and "0 \<le> w_zone w" and "w_zone w < extent w side dst"
  shows "(\<exists>n. find_client n s = Some dst) \<and>
    (if fork_displaysOf w s dst = []
     then origin w side dst \<le> along side q \<and> along side q < origin w side dst + extent w side dst \<or>
       (if side = kLeft \<or> side = kTop then along side q < origin w side dst
        else origin w side dst + extent w side dst \<le> along side q) \<and>
       getNeighbor_server fl w s dst side (moved side (- origin w side dst) q) = Some None
     else (\<forall>d\<in>set (fork_displaysOf w s dst). 0 < d_w d \<and> 0 < d_h d) \<longrightarrow> displayAt (fork_displaysOf w s dst) q \<noteq> None)"
proof -
  from assms(3) obtain d0 q0 r r' where g: "getNeighbor_server fl w s src side p = Some (Some (d0, q0))"
    and sr: "(if side = kLeft \<or> side = kTop then search_back fl w s side d0 (moved side (- origin w side src) q0)
              else search_forth fl w s side src d0 (moved side (- origin w side src) q0)) = Some (dst, r)"
    and av: "avoidJumpZone fl w s dst side (moved side (origin w side dst) r) = Some r'"
    and en: "enter (fork_displaysOf w s dst) (shape_rect (w_shape w dst)) side r' = Some q"
    by (auto simp: mapToNeighbor_def Let_def fork_enterDisplays_def split: option.splits prod.splits)
  note g' = getNeighbor_server_along [OF g]
  have c: "arrives fl w s side (dst, r)" "\<exists>n. find_client n s = Some dst"
    using sr assms(2) g' search_back_arrives [of fl w s side d0 _ "(dst, r)"] search_forth_arrives [of fl w s side src d0 _ "(dst, r)"]
    by (auto simp: backwards_def split: if_splits)
  show ?thesis
  proof (cases "fork_displaysOf w s dst = []")
    case False
    then show ?thesis using c(2) enter_on_display [OF en] by simp
  next
    case True
    then have q: "q = r'" using en by (simp add: enter_def)
    from c(1) consider "0 \<le> along side r" "along side r < extent w side dst"
      | "past w side (dst, r)" "getNeighbor_server fl w s dst side r = Some None" by (auto simp: arrives_def)
    then show ?thesis
    proof cases
      case 1
      then show ?thesis using True c(2) q avoidJumpZone_inside [OF av assms(1,4,5)] by simp
    next
      case 2
      then have "q = moved side (origin w side dst) r"
        unfolding q by (intro avoidJumpZone_past [OF av assms(5)]) (simp add: past_def split: if_splits)
      then show ?thesis using True c(2) 2 by (auto simp: past_def backwards_def)
    qed
  qed
qed

section \<open>When the search ends\<close>

text \<open>Connected screens have a name and an extent, and offline screens do not lead round in a circle.\<close>

definition searchable :: "(rat \<Rightarrow> rat) \<Rightarrow> world \<Rightarrow> server \<Rightarrow> EDirection \<Rightarrow> (string \<Rightarrow> nat) \<Rightarrow> bool" where
  "searchable fl w s dir rank \<longleftrightarrow> dir \<noteq> kNoDirection \<and>
     (\<forall>c. w_name w c \<noteq> []) \<and> (\<forall>c. 0 < extent w dir c) \<and>
     (\<forall>a b. next_offline fl s dir a b \<longrightarrow> rank (fst b) < rank (fst a))"

lemma mapToFraction_returns: "dir \<noteq> kNoDirection \<Longrightarrow> \<exists>t. mapToFraction fl w c dir p = Some t"
  by (cases "upright dir") (simp_all add: mapToFraction_def Let_def)

lemma getNeighbor_server_returns:
  assumes "searchable fl w s dir rank"
  shows "\<exists>r. getNeighbor_server fl w s c dir p = Some r"
proof -
  have n: "getName w s c \<noteq> []" using assms by (simp add: getName_def Let_def searchable_def)
  have d: "dir \<noteq> kNoDirection" using assms by (simp add: searchable_def)
  then obtain t where t: "mapToFraction fl w c dir p = Some t" using mapToFraction_returns by blast
  have "\<exists>r. neighbor_loop fl s dir (getName w s c) t = Some r"
    using assms unfolding searchable_def by (intro neighbor_loop_returns [where rank = rank]) blast+
  then show ?thesis using n t by (auto simp: getNeighbor_server_def)
qed

lemma search_back_returns:
  assumes "searchable fl w s dir rank"
  shows "\<exists>r. search_back fl w s dir dst p = Some r"
proof (induction "nat (- along dir p)" arbitrary: dst p rule: less_induct)
  case less
  let ?p = "moved dir (extent w dir dst) p"
  from getNeighbor_server_returns [OF assms] obtain n where n: "getNeighbor_server fl w s dst dir ?p = Some n" by blast
  show ?case
  proof (cases "0 \<le> along dir ?p \<or> n = None")
    case True
    then show ?thesis using n by (subst search_back.simps) (auto simp: Let_def)
  next
    case False
    then obtain dst' q where q: "n = Some (dst', q)" by auto
    have "0 < extent w dir dst" using assms by (simp add: searchable_def)
    then have "nat (- along dir q) < nat (- along dir p)"
      using False getNeighbor_server_along [OF n [unfolded q]] by auto
    from less [OF this] False n q show ?thesis by (subst search_back.simps) (auto simp: Let_def)
  qed
qed

lemma search_forth_returns:
  assumes "searchable fl w s dir rank"
  shows "\<exists>r. search_forth fl w s dir src dst p = Some r"
proof (induction "nat (along dir p)" arbitrary: src dst p rule: less_induct)
  case less
  let ?p = "moved dir (- extent w dir src) p"
  from getNeighbor_server_returns [OF assms] obtain n where n: "getNeighbor_server fl w s dst dir ?p = Some n" by blast
  show ?case
  proof (cases "along dir ?p < extent w dir dst \<or> n = None")
    case True
    then show ?thesis using n by (subst search_forth.simps) (auto simp: Let_def)
  next
    case False
    then obtain dst' q where q: "n = Some (dst', q)" by auto
    have "0 < extent w dir src" "0 < extent w dir dst" using assms by (simp_all add: searchable_def)
    then have "nat (along dir q) < nat (along dir p)"
      using False getNeighbor_server_along [OF n [unfolded q]] by auto
    from less [OF this] False n q show ?thesis by (subst search_forth.simps) (auto simp: Let_def)
  qed
qed

lemma avoidJumpZone_returns:
  assumes "dir \<noteq> kNoDirection"
  shows "\<exists>q. avoidJumpZone fl w s dst dir p = Some q"
proof -
  have o: "opposite dir \<noteq> kNoDirection" using assms by (cases dir) (auto simp: opposite_def)
  obtain t where t: "mapToFraction fl w dst dir p = Some t" using mapToFraction_returns [OF assms] by blast
  from getNeighbor_returns [OF o] obtain r where "getNeighbor fl (getName w s dst) (opposite dir) t (m_config s) = Some r" by blast
  with t show ?thesis by (cases r; cases "dst = m_primaryClient s") (simp_all add: avoidJumpZone_def Let_def del: split_paired_Ex)
qed

text \<open>
  C31. On screens without configured monitors the search for the screen beyond an edge returns, however
  far the cursor went, when every screen has a name and an extent in that direction and the screens that
  are not connected do not lead round in a circle in that direction.
\<close>

theorem mapToNeighbor_returns:
  assumes "searchable fl w s side rank" and "\<forall>c. fork_displaysOf w s c = []"
  shows "\<exists>r. mapToNeighbor fl w s src side p = Some r"
proof -
  have d: "side \<noteq> kNoDirection" using assms(1) by (simp add: searchable_def)
  from getNeighbor_server_returns [OF assms(1)] obtain n where n: "getNeighbor_server fl w s src side p = Some n" by blast
  show ?thesis
  proof (cases n)
    case None
    then show ?thesis using n by (simp add: mapToNeighbor_def)
  next
    case (Some a)
    obtain dst q where a: "a = (dst, q)" by (cases a)
    let ?q = "moved side (- origin w side src) q"
    obtain dst' r where r: "(if side = kLeft \<or> side = kTop then search_back fl w s side dst ?q
        else search_forth fl w s side src dst ?q) = Some (dst', r)"
      using search_back_returns [OF assms(1), of dst ?q] search_forth_returns [OF assms(1), of src dst ?q] by fastforce
    obtain r' where "avoidJumpZone fl w s dst' side (moved side (origin w side dst') r) = Some r'"
      using avoidJumpZone_returns [OF d] by blast
    then show ?thesis using n Some a r assms(2)
      by (simp add: mapToNeighbor_def Let_def fork_enterDisplays_def enter_def)
  qed
qed

text \<open>
  C35. The search does not return when an offline screen is its own neighbor in that direction
  (a screen that wraps round onto itself): the position on it never changes and no connected screen
  is ever found, although the comment of the loop says that it stops there.
\<close>

theorem getNeighbor_offline_wrap_hangs:
  assumes "getNeighbor fl name dir t (m_config s) = Some (name, Some t)" and "name \<noteq> []"
    and "find_client name s = None"
  shows "neighbor_loop fl s dir name t = None"
  using assms by (intro neighbor_loop_diverges [of "{(name, t)}"]) (auto simp: next_offline_def)

section \<open>Witnesses\<close>

text \<open>Two screens of 100 by 100, side by side: screen 1 (\<open>b\<close>) is left of screen 0 (\<open>a\<close>).\<close>

definition demo_world :: world where
  "demo_world =
     \<lparr>w_name = (\<lambda>c. if c = 0 then ''a'' else ''b''), w_shape = (\<lambda>_. \<lparr>sh_x = 0, sh_y = 0, sh_w = 100, sh_h = 100\<rparr>),
      w_cursor = (\<lambda>_. (50, 50)), w_center = (50, 50), w_leaves = (\<lambda>_. True), w_clipboard = (\<lambda>_ _. None),
      w_zone = 1, w_primaryLocked = False, w_toggleMask = 0, w_tapTime = 0, w_dragging = False\<rparr>"

definition whole_edge :: "string \<Rightarrow> cell_edge" where
  "whole_edge n = \<lparr>ce_name = n, ce_side = kLeft, ce_interval = (0, 1)\<rparr>"

definition linked_config :: "string \<Rightarrow> config" where
  "linked_config from =
     \<lparr>m_map = [(''a'', if from = ''a'' then \<lparr>m_neighbors = [(whole_edge [], whole_edge ''b'')], m_options = []\<rparr> else cell_new),
               (''b'', if from = ''b'' then \<lparr>m_neighbors = [(whole_edge [], whole_edge ''b'')], m_options = []\<rparr> else cell_new)],
      m_nameToCanonicalName = [(''a'', ''a''), (''b'', ''b'')], m_globalOptions = [], m_hasLockToScreenAction = False\<rparr>"

definition demo_server :: server where
  "demo_server = (server_new 0 (linked_config ''a'') [])\<lparr>m_clients := [(''a'', 0), (''b'', 1)], m_clientSet := {0, 1}\<rparr>"

lemma demo_server_fields [simp]:
  "m_clients demo_server = [(''a'', 0), (''b'', 1)]" "m_config demo_server = linked_config ''a''"
  "m_displays demo_server = []" "m_primaryClient demo_server = 0" "m_active demo_server = 0" "m_clientSet demo_server = {0, 1}"
  by (simp_all add: demo_server_def server_new_def)

lemma demo_world_fields [simp]:
  "w_name demo_world c = (if c = 0 then ''a'' else ''b'')" "w_shape demo_world c = \<lparr>sh_x = 0, sh_y = 0, sh_w = 100, sh_h = 100\<rparr>"
  "w_zone demo_world = 1" "w_leaves demo_world c" "\<not> w_primaryLocked demo_world" "w_toggleMask demo_world = 0"
  "\<not> w_dragging demo_world" "w_center demo_world = (50, 50)" "w_cursor demo_world c = (50, 50)"
  by (simp_all add: demo_world_def)

lemma demo_clients: "find_client ''a'' demo_server = Some 0" "find_client ''b'' demo_server = Some 1"
  unfolding find_client_def demo_server_fields by code_simp+

lemma demo_names: "getName demo_world demo_server c = (if c = 0 then ''a'' else ''b'')"
proof -
  have "getCanonicalName ''a'' (linked_config ''a'') = ''a''" "getCanonicalName ''b'' (linked_config ''a'') = ''b''" by code_simp+
  then show ?thesis by (simp add: getName_def Let_def)
qed

lemma demo_displays_none: "fork_displaysOf demo_world demo_server c = []"
  by (simp add: fork_displaysOf_def Let_def)

lemma smap_find_in: "smap_find lt k m = Some e \<Longrightarrow> e \<in> set m"
  by (induction m) (auto simp: smap_ops split: if_splits)

lemma getNeighbor_link:
  assumes "getNeighbor fl n dir t c = Some (d, u)" "d \<noteq> []"
  shows "\<exists>k x l. (k, x) \<in> set (m_map c) \<and> l \<in> set (m_neighbors x) \<and> d = getCanonicalName (ce_name (snd l)) c"
proof -
  from assms obtain k x l where x: "find_cell (getCanonicalName n c) c = Some (k, x)" "cell_getLink dir t x = Some (Some l)"
    "d = getCanonicalName (ce_name (snd l)) c"
    by (auto simp: getNeighbor_def split: if_splits option.splits prod.splits)
  from x(2) have "l \<in> set (m_neighbors x)"
    by (auto simp: cell_getLink_def smap_upper_def split: option.splits if_splits) (metis last_in_set set_takeWhileD)
  with x smap_find_in [OF x(1) [unfolded find_cell_def]] show ?thesis by blast
qed

lemma demo_no_offline: "\<not> next_offline fl demo_server dir a b"
proof
  assume n: "next_offline fl demo_server dir a b"
  then obtain u where g: "getNeighbor fl (fst a) dir (snd a) (linked_config ''a'') = Some (fst b, u)" "fst b \<noteq> []"
    "find_client (fst b) demo_server = None"
    by (auto simp: next_offline_def)
  have "getCanonicalName ''b'' (linked_config ''a'') = ''b''" by code_simp
  with getNeighbor_link [OF g(1,2)] have "fst b = ''b''"
    by (auto simp: linked_config_def cell_new_def whole_edge_def)
  with g(3) demo_clients show False by simp
qed

theorem mapToNeighbor_returns_witness:
  "\<exists>r. mapToNeighbor (\<lambda>x. x) demo_world demo_server 0 kLeft (-20, 50) = Some r"
proof (rule mapToNeighbor_returns)
  show "searchable (\<lambda>x. x) demo_world demo_server kLeft (\<lambda>_. 0)"
    using demo_no_offline by (auto simp: searchable_def extent_def)
qed (simp add: demo_displays_none)

lemma demo_getNeighbor:
  "getNeighbor_server (\<lambda>x. x) demo_world demo_server 0 kLeft (-20, 50) = Some (Some (1, (-20, 50)))"
proof -
  have "getNeighbor (\<lambda>x. x) ''a'' kLeft (101/200) (linked_config ''a'') = Some (''b'', Some (101/200))" by code_simp
  then have "neighbor_loop (\<lambda>x. x) demo_server kLeft ''a'' (101/200) = Some (Some (1, 101/200))"
    using demo_clients by (subst neighbor_loop.simps) simp
  moreover have "\<lfloor>101 / 2 :: rat\<rfloor> = 50" by (simp add: floor_eq_iff)
  ultimately show ?thesis
    by (simp add: getNeighbor_server_def demo_names mapToFraction_def upright_def mapToPixel_def truncate_def)
qed

lemma demo_mapToNeighbor:
  "mapToNeighbor (\<lambda>x. x) demo_world demo_server 0 kLeft (-20, 50) = Some (Some 1, (80, 50))"
proof -
  have "search_back (\<lambda>x. x) demo_world demo_server kLeft 1 (-20, 50) = Some (1, (80, 50))"
    by (subst search_back.simps) (simp add: moved_def along_def extent_def upright_def)
  then show ?thesis
    by (simp add: mapToNeighbor_def demo_getNeighbor avoidJumpZone_def fork_enterDisplays_def enter_def demo_displays_none
        moved_def origin_def upright_def)
qed

theorem mapToNeighbor_arrives_witness:
  "(\<exists>n. find_client n demo_server = Some 1) \<and>
   (0 \<le> along kLeft (80, 50) \<and> along kLeft (80, 50) < 100 \<or>
    along kLeft (80, 50) < 0 \<and> getNeighbor_server (\<lambda>x. x) demo_world demo_server 1 kLeft (80, 50) = Some None)"
  using mapToNeighbor_arrives [OF _ _ demo_mapToNeighbor]
  by (simp add: demo_displays_none along_def upright_def origin_def extent_def)

theorem getNeighbor_offline_wrap_hangs_witness:
  "neighbor_loop (\<lambda>x. x) (server_new 0 (linked_config ''b'') []) kLeft ''b'' (1/2) = None"
proof (rule getNeighbor_offline_wrap_hangs)
  have "getNeighbor (\<lambda>x. x) ''b'' kLeft (1 / 2) (linked_config ''b'') = Some (''b'', Some (1 / 2))" by code_simp
  then show "getNeighbor (\<lambda>x. x) ''b'' kLeft (1 / 2) (m_config (server_new 0 (linked_config ''b'') [])) = Some (''b'', Some (1 / 2))"
    by (simp add: server_new_def)
  show "find_client ''b'' (server_new 0 (linked_config ''b'') []) = None" by (simp add: find_client_def server_new_def)
qed simp

end
