(* ===== verification/ConfigFile.thy ===== *)
theory ConfigFile
  imports ServerConfig
begin

text \<open>
  The configuration file: \<^verbatim>\<open>ConfigReadContext\<close> and the section readers of
  \<^verbatim>\<open>src/lib/server/Config.cpp\<close>, the validity of screen names, and the names and values under which
  options are written and read back (with \<^verbatim>\<open>src/fork/lib/server/ConfigExtension.cpp\<close>). The stream is
  the text that is left, a position in a string is its index, \<open>npos\<close> is \<open>None\<close>, and an exception or a
  failed assertion is a \<open>read_error\<close>.
\<close>

section \<open>Strings\<close>

function find_from :: "(char \<Rightarrow> bool) \<Rightarrow> string \<Rightarrow> nat \<Rightarrow> nat option" where
  "find_from P s i = (if i < length s then if P (s ! i) then Some i else find_from P s (Suc i) else None)"
  by auto
termination by (relation "measure (\<lambda>(P, s, i). length s - i)") auto

declare find_from.simps [simp del]

definition find_first_of :: "string \<Rightarrow> string \<Rightarrow> nat \<Rightarrow> nat option" where
  "find_first_of cs s i = find_from (\<lambda>c. c \<in> set cs) s i"

definition find_first_not_of :: "string \<Rightarrow> string \<Rightarrow> nat \<Rightarrow> nat option" where
  "find_first_not_of cs s i = find_from (\<lambda>c. c \<notin> set cs) s i"

text \<open>An index that is \<open>npos\<close> stands past the end of every string.\<close>

definition end_at :: "string \<Rightarrow> nat option \<Rightarrow> nat" where
  "end_at s j = (case j of None \<Rightarrow> length s | Some i \<Rightarrow> i)"

definition substr :: "string \<Rightarrow> nat \<Rightarrow> nat \<Rightarrow> string" where
  "substr s i j = take (j - i) (drop i s)"

text \<open>Erasing the characters before the first, and after the last, that is not in \<open>cs\<close>, if there is one.\<close>

definition strip_left :: "string \<Rightarrow> string \<Rightarrow> string" where
  "strip_left cs s = (case find_first_not_of cs s 0 of None \<Rightarrow> s | Some i \<Rightarrow> drop i s)"

definition find_last_not_of :: "string \<Rightarrow> string \<Rightarrow> nat option" where
  "find_last_not_of cs s =
     (let n = length (dropWhile (\<lambda>c. c \<in> set cs) (rev s)) in if n = 0 then None else Some (n - 1))"

definition strip_right :: "string \<Rightarrow> string \<Rightarrow> string" where
  "strip_right cs s = (case find_last_not_of cs s of None \<Rightarrow> s | Some i \<Rightarrow> take (i + 1) s)"

definition blanks :: string where
  "blanks = [CHR 0x20, CHR 0x09]"

definition isgraph :: "char \<Rightarrow> bool" where
  "isgraph c \<longleftrightarrow> (let b = of_char c :: nat in 33 \<le> b \<and> b \<le> 126)"

definition isalnum :: "char \<Rightarrow> bool" where
  "isalnum c \<longleftrightarrow> (let b = of_char c :: nat in 48 \<le> b \<and> b \<le> 57 \<or> 65 \<le> b \<and> b \<le> 90 \<or> 97 \<le> b \<and> b \<le> 122)"

lemma find_from_step: "i < length s \<Longrightarrow> \<not> P (s ! i) \<Longrightarrow> find_from P s i = find_from P s (Suc i)"
  by (simp add: find_from.simps [of P s i])

lemma find_from_None: "find_from P s i = None \<longleftrightarrow> (\<forall>k. i \<le> k \<and> k < length s \<longrightarrow> \<not> P (s ! k))"
proof (induction P s i rule: find_from.induct)
  case (1 P s i)
  show ?case
  proof (cases "i < length s \<and> \<not> P (s ! i)")
    case True
    then show ?thesis using 1 find_from_step [of i s P] by (metis Suc_leD Suc_leI le_neq_implies_less)
  next
    case False
    then show ?thesis by (auto simp: find_from.simps [of P s i])
  qed
qed

lemma find_from_Some:
  "find_from P s i = Some j \<Longrightarrow> i \<le> j \<and> j < length s \<and> P (s ! j) \<and> (\<forall>k. i \<le> k \<and> k < j \<longrightarrow> \<not> P (s ! k))"
proof (induction P s i rule: find_from.induct)
  case (1 P s i)
  show ?case
  proof (cases "i < length s \<and> \<not> P (s ! i)")
    case True
    with 1 have "Suc i \<le> j \<and> j < length s \<and> P (s ! j) \<and> (\<forall>k. Suc i \<le> k \<and> k < j \<longrightarrow> \<not> P (s ! k))"
      by (simp add: find_from_step)
    then show ?thesis using True by (metis Suc_leD Suc_leI le_neq_implies_less)
  next
    case False
    with 1(2) show ?thesis by (auto simp: find_from.simps [of P s i] split: if_splits)
  qed
qed

section \<open>Screen names\<close>

definition wordchar :: "char \<Rightarrow> bool" where
  "wordchar c \<longleftrightarrow> isalnum c \<or> c = CHR ''_''"

definition part_end :: "string \<Rightarrow> nat \<Rightarrow> nat" where
  "part_end name b = end_at name (find_from (\<lambda>c. c = CHR ''.'') name b)"

function valid_parts :: "string \<Rightarrow> nat \<Rightarrow> bool" where
  "valid_parts name b =
     (if b = length name then True
      else
        let e = part_end name b
        in if e - b < 1 then False
           else if \<not> wordchar (name ! b) \<or> \<not> wordchar (name ! (e - 1)) then False
           else if \<not> list_all (\<lambda>c. wordchar c \<or> c = CHR ''-'') (substr name b e) then False
           else if e = length name then True
           else valid_parts name (e + 1))"
  by auto
termination
  by (relation "measure (\<lambda>(name, b). length name - b)")
     (auto simp: part_end_def end_at_def dest!: find_from_Some split: option.splits)

declare valid_parts.simps [simp del]

definition isValidScreenName :: "string \<Rightarrow> bool" where
  "isValidScreenName name \<longleftrightarrow> name \<noteq> [] \<and> valid_parts name 0"

text \<open>The grammar of the comment, with the trailing dot it accepts.\<close>

definition name_part :: "string \<Rightarrow> bool" where
  "name_part p \<longleftrightarrow> p \<noteq> [] \<and> wordchar (hd p) \<and> wordchar (last p) \<and> list_all (\<lambda>c. wordchar c \<or> c = CHR ''-'') p"

inductive valid_name :: "string \<Rightarrow> bool" where
  part: "name_part p \<Longrightarrow> valid_name p"
| trailing_dot: "name_part p \<Longrightarrow> valid_name (p @ ''.'')"
| domain: "name_part p \<Longrightarrow> valid_name s \<Longrightarrow> valid_name (p @ ''.'' @ s)"

lemma name_part_no_dot: "name_part p \<Longrightarrow> CHR ''.'' \<notin> set p"
  by (auto simp: name_part_def list_all_iff wordchar_def isalnum_def Let_def)

lemma takeWhile_no_dot [simp]:
  assumes "name_part p"
  shows "takeWhile (\<lambda>c. c \<noteq> CHR ''.'') p = p" "dropWhile (\<lambda>c. c \<noteq> CHR ''.'') p = []"
    "takeWhile (\<lambda>c. c \<noteq> CHR ''.'') (p @ CHR ''.'' # s) = p" "dropWhile (\<lambda>c. c \<noteq> CHR ''.'') (p @ CHR ''.'' # s) = CHR ''.'' # s"
proof -
  have d: "\<And>c. c \<in> set p \<Longrightarrow> c \<noteq> CHR ''.''" using name_part_no_dot [OF assms] by auto
  show "takeWhile (\<lambda>c. c \<noteq> CHR ''.'') p = p" by (rule takeWhile_eq_all_conv [THEN iffD2]) (use d in auto)
  show "dropWhile (\<lambda>c. c \<noteq> CHR ''.'') p = []" using d by (simp add: dropWhile_eq_Nil_conv)
  show "takeWhile (\<lambda>c. c \<noteq> CHR ''.'') (p @ CHR ''.'' # s) = p" using d by (subst takeWhile_append2) auto
  show "dropWhile (\<lambda>c. c \<noteq> CHR ''.'') (p @ CHR ''.'' # s) = CHR ''.'' # s" using d by (subst dropWhile_append2) auto
qed

lemma valid_name_step:
  "valid_name s \<longleftrightarrow> name_part (takeWhile (\<lambda>c. c \<noteq> CHR ''.'') s) \<and>
     (tl (dropWhile (\<lambda>c. c \<noteq> CHR ''.'') s) = [] \<or> valid_name (tl (dropWhile (\<lambda>c. c \<noteq> CHR ''.'') s)))"
  (is "_ \<longleftrightarrow> name_part ?p \<and> (tl ?r = [] \<or> valid_name (tl ?r))")
proof
  assume "valid_name s"
  then show "name_part ?p \<and> (tl ?r = [] \<or> valid_name (tl ?r))" by cases auto
next
  assume a: "name_part ?p \<and> (tl ?r = [] \<or> valid_name (tl ?r))"
  have s: "s = ?p @ ?r" by simp
  show "valid_name s"
  proof (cases ?r)
    case Nil
    then show ?thesis using a s valid_name.part by (metis append_Nil2)
  next
    case (Cons c r)
    then have "c = CHR ''.''" using hd_dropWhile [of "\<lambda>c. c \<noteq> CHR ''.''" s] by auto
    then show ?thesis using a s Cons valid_name.trailing_dot [of ?p] valid_name.domain [of ?p r]
      by (metis append_Cons append_Nil list.sel(3))
  qed
qed

lemma part_end_eq:
  assumes "b \<le> length name"
  shows "part_end name b = b + length (takeWhile (\<lambda>c. c \<noteq> CHR ''.'') (drop b name))"
proof -
  let ?e = "part_end name b"
  have e: "b \<le> ?e" "?e \<le> length name" "?e < length name \<Longrightarrow> name ! ?e = CHR ''.''"
    "\<And>k. b \<le> k \<Longrightarrow> k < ?e \<Longrightarrow> name ! k \<noteq> CHR ''.''"
    using assms by (auto simp: part_end_def end_at_def find_from_None dest!: find_from_Some split: option.splits)
  have "takeWhile (\<lambda>c. c \<noteq> CHR ''.'') (drop b name) = take (?e - b) (drop b name)"
    by (rule takeWhile_eq_take_P_nth) (use e in auto)
  then show ?thesis using e(1,2) by simp
qed

lemma valid_parts_iff:
  "b \<le> length name \<Longrightarrow> valid_parts name b \<longleftrightarrow> drop b name = [] \<or> valid_name (drop b name)"
proof (induction name b rule: valid_parts.induct)
  case (1 name b)
  let ?s = "drop b name" and ?e = "part_end name b"
  let ?p = "takeWhile (\<lambda>c. c \<noteq> CHR ''.'') ?s"
  note e = part_end_eq [OF 1(2)]
  have sub: "substr name b ?e = ?p" using e by (simp add: substr_def takeWhile_eq_take [symmetric])
  have rest: "tl (dropWhile (\<lambda>c. c \<noteq> CHR ''.'') ?s) = drop (?e + 1) name"
    using e by (simp add: dropWhile_eq_drop tl_drop drop_Suc add.commute)
  have len: "?e \<le> length name" using e length_takeWhile_le [of "\<lambda>c. c \<noteq> CHR ''.''" ?s] 1(2) by simp
  show ?case
  proof (cases "b = length name \<or> ?p = []")
    case True
    then show ?thesis
      using e 1(2) valid_name_step [of ?s] by (auto simp: valid_parts.simps [of name b] Let_def name_part_def)
  next
    case False
    then have p: "?p \<noteq> []" "b < length name" using 1(2) by auto
    have "?p ! 0 = ?s ! 0" "?p ! (length ?p - 1) = ?s ! (length ?p - 1)" using p(1) by (auto intro: takeWhile_nth)
    then have ends: "name ! b = hd ?p" "name ! (?e - 1) = last ?p" "\<not> ?e - b < 1"
      using p e by (auto simp: hd_conv_nth last_conv_nth Suc_le_eq)
    then have v: "valid_parts name b \<longleftrightarrow> name_part ?p \<and> (?e = length name \<or> valid_parts name (?e + 1))"
      using p sub by (auto simp: valid_parts.simps [of name b] Let_def name_part_def)
    have "valid_parts name (?e + 1) \<longleftrightarrow> drop (?e + 1) name = [] \<or> valid_name (drop (?e + 1) name)"
      if "name_part ?p" "?e \<noteq> length name"
    proof (rule "1.IH" [OF _ refl])
      show "\<not> (\<not> wordchar (name ! b) \<or> \<not> wordchar (name ! (?e - 1)))"
        "\<not> \<not> list_all (\<lambda>c. wordchar c \<or> c = CHR ''-'') (substr name b ?e)"
        using that(1) ends sub by (auto simp: name_part_def)
    qed (use that p len ends in auto)
    then show ?thesis using v valid_name_step [of ?s] rest p(2) by auto
  qed
qed

section \<open>The read context\<close>

text \<open>
  \<open>XConfigRead\<close> carries the line number, the message (its format) and the argument put into it;
  \<open>AssertFailed\<close> is a failed \<open>assert\<close>.
\<close>

datatype read_error = XConfigRead nat string string | AssertFailed

record read_context =
  m_stream :: string
  m_line :: nat

definition throw_read :: "read_context \<Rightarrow> string \<Rightarrow> string \<Rightarrow> read_error + 'a" where
  "throw_read s msg arg = Inl (XConfigRead (m_line s) msg arg)"

definition getline :: "string \<Rightarrow> (string \<times> string) option" where
  "getline s =
     (if s = [] then None
      else Some (takeWhile (\<lambda>c. c \<noteq> CHR 0x0A) s, tl (dropWhile (\<lambda>c. c \<noteq> CHR 0x0A) s)))"

lemma getline_shorter: "getline s = Some (l, r) \<Longrightarrow> length r < length s"
  using length_dropWhile_le [of "\<lambda>c. c \<noteq> CHR 0x0A" s] by (cases s) (auto simp: getline_def split: if_splits)

definition clean_line :: "string \<Rightarrow> string" where
  "clean_line line0 =
     (let line1 = strip_left blanks line0;
          line2 = takeWhile (\<lambda>c. c \<noteq> CHR ''#'') line1
      in strip_right [CHR 0x20, CHR 0x0D, CHR 0x09] line2)"

text \<open>A line of blanks is not empty once cleaned: neither end of it is stripped.\<close>

lemma blank_line_kept: "set line \<subseteq> set blanks \<Longrightarrow> clean_line line = line"
proof -
  assume b: "set line \<subseteq> set blanks"
  then have "find_first_not_of blanks line 0 = None"
    unfolding find_first_not_of_def find_from_None by (metis nth_mem subsetD)
  moreover have "\<forall>c\<in>set line. c \<noteq> CHR ''#'' \<and> c \<in> set [CHR 0x20, CHR 0x0D, CHR 0x09]" using b by (auto simp: blanks_def)
  moreover from this have "dropWhile (\<lambda>c. c \<in> set [CHR 0x20, CHR 0x0D, CHR 0x09]) (rev line) = []"
    by (simp add: dropWhile_eq_Nil_conv)
  ultimately show ?thesis
    by (simp add: clean_line_def strip_left_def strip_right_def find_last_not_of_def takeWhile_eq_all_conv [THEN iffD2])
qed

function readLine_loop :: "read_context \<Rightarrow> read_error + (string \<times> read_context) option" where
  "readLine_loop s =
     (case getline (m_stream s) of
        None \<Rightarrow> Inr None
      | Some (line0, rest) \<Rightarrow>
          let line = clean_line line0; s' = s\<lparr>m_stream := rest\<rparr>
          in if line \<noteq> [] then
               if list_all (\<lambda>c. isgraph c \<or> c \<in> set blanks) line then Inr (Some (line, s'))
               else throw_read s' ''invalid character %{1}'' [hd (filter (\<lambda>c. \<not> (isgraph c \<or> c \<in> set blanks)) line)]
             else readLine_loop (s'\<lparr>m_line := m_line s' + 1\<rparr>))"
  by auto
termination
  by (relation "measure (\<lambda>s. length (m_stream s))") (auto dest: getline_shorter)

declare readLine_loop.simps [simp del]

definition readLine :: "read_context \<Rightarrow> read_error + (string \<times> read_context) option" where
  "readLine s = readLine_loop (s\<lparr>m_line := m_line s + 1\<rparr>)"

section \<open>Option values\<close>

definition option_code :: "char \<Rightarrow> char \<Rightarrow> char \<Rightarrow> char \<Rightarrow> OptionID" where
  "option_code a b c d = be32_join (of_char a) (of_char b) (of_char c) (of_char d)"

definition parseBoolean :: "read_context \<Rightarrow> string \<Rightarrow> read_error + OptionValue" where
  "parseBoolean s arg =
     (if caseless_equal arg ''true'' then Inr 1
      else if caseless_equal arg ''false'' then Inr 0
      else throw_read s ''invalid boolean argument \"%{1}\"'' arg)"

text \<open>The C string of a string, and \<open>strtol\<close> in base 10 with a 64 bit \<open>long\<close>.\<close>

definition c_str :: "string \<Rightarrow> string" where
  "c_str s = takeWhile (\<lambda>c. c \<noteq> CHR 0x00) s"

definition isspace :: "char \<Rightarrow> bool" where
  "isspace c \<longleftrightarrow> (let b = of_char c :: nat in b = 32 \<or> 9 \<le> b \<and> b \<le> 13)"

definition isdigit :: "char \<Rightarrow> bool" where
  "isdigit c \<longleftrightarrow> (let b = of_char c :: nat in 48 \<le> b \<and> b \<le> 57)"

definition digit_of :: "char \<Rightarrow> int" where
  "digit_of c = int (of_char c) - 48"

definition digits_value :: "string \<Rightarrow> int" where
  "digits_value ds = fold (\<lambda>c v. 10 * v + digit_of c) ds 0"

definition strtol :: "string \<Rightarrow> int \<times> string" where
  "strtol s =
     (let t = dropWhile isspace s;
          (neg, u) = (case t of c # r \<Rightarrow> if c = CHR ''-'' then (True, r) else if c = CHR ''+'' then (False, r) else (False, t)
                              | [] \<Rightarrow> (False, t));
          ds = takeWhile isdigit u
      in if ds = [] then (0, s)
         else (let v = (if neg then - digits_value ds else digits_value ds)
               in max (- (2 ^ 63)) (min (2 ^ 63 - 1) v), dropWhile isdigit u))"

definition parseInt :: "read_context \<Rightarrow> string \<Rightarrow> read_error + OptionValue" where
  "parseInt s arg =
     (let (tmp, rest) = strtol (c_str arg)
      in if rest \<noteq> [] then throw_read s ''invalid integer argument \"%{1}\"'' arg
         else let v = sint (word_of_int tmp :: 32 word)
              in if v \<noteq> tmp then throw_read s ''integer argument \"%{1}\" out of range'' arg
                 else Inr v)"

definition parseModifierKey :: "read_context \<Rightarrow> string \<Rightarrow> read_error + OptionValue" where
  "parseModifierKey s arg =
     (if caseless_equal arg ''shift'' then Inr 1
      else if caseless_equal arg ''ctrl'' then Inr 2
      else if caseless_equal arg ''alt'' then Inr 3
      else if caseless_equal arg ''altgr'' then Inr 6
      else if caseless_equal arg ''meta'' then Inr 4
      else if caseless_equal arg ''super'' then Inr 5
      else if caseless_equal arg ''none'' then Inr 0
      else throw_read s ''invalid argument \"%{1}\"'' arg)"

definition parseCorner :: "read_context \<Rightarrow> string \<Rightarrow> read_error + OptionValue" where
  "parseCorner s arg =
     (if caseless_equal arg ''left'' then Inr (1 OR 4)
      else if caseless_equal arg ''right'' then Inr (2 OR 8)
      else if caseless_equal arg ''top'' then Inr (1 OR 2)
      else if caseless_equal arg ''bottom'' then Inr (4 OR 8)
      else if caseless_equal arg ''top-left'' then Inr 1
      else if caseless_equal arg ''top-right'' then Inr 2
      else if caseless_equal arg ''bottom-left'' then Inr 4
      else if caseless_equal arg ''bottom-right'' then Inr 8
      else if caseless_equal arg ''none'' then Inr 0
      else if caseless_equal arg ''all'' then Inr 15
      else throw_read s ''invalid argument \"%{1}\"'' arg)"

text \<open>The loop of \<open>parseCorners\<close> from the position of an operator, \<open>npos\<close> ending it.\<close>

function corners_loop :: "read_context \<Rightarrow> string \<Rightarrow> nat option \<Rightarrow> OptionValue \<Rightarrow> read_error + OptionValue" where
  "corners_loop s args None corners = Inr corners"
| "corners_loop s args (Some i) corners =
     (if length args \<le> i then Inr corners
      else if args ! i \<noteq> CHR ''-'' \<and> args ! i \<noteq> CHR ''+''
      then throw_read s ''invalid corner operator \"%{1}\"'' [args ! i]
      else
        case find_first_not_of blanks args (i + 1) of
          None \<Rightarrow> throw_read s ''missing corner argument'' []
        | Some i' \<Rightarrow>
            let j = find_first_of blanks args i'
            in case parseCorner s (substr args i' (end_at args j)) of
                 Inl e \<Rightarrow> Inl e
               | Inr m \<Rightarrow>
                   corners_loop s args (find_first_not_of blanks args (end_at args j))
                     (if args ! i = CHR ''+'' then corners OR m else corners AND NOT m))"
  by pat_completeness auto
termination
  by (relation "measure (\<lambda>(s, args, i, corners). case i of None \<Rightarrow> 0 | Some k \<Rightarrow> Suc (length args - k))")
     (auto simp: find_first_not_of_def find_first_of_def end_at_def dest!: find_from_Some split: option.splits)

declare corners_loop.simps(2) [simp del]

definition parseCorners :: "read_context \<Rightarrow> string \<Rightarrow> read_error + OptionValue" where
  "parseCorners s args =
     (case find_first_not_of blanks args 0 of
        None \<Rightarrow> throw_read s ''missing corner argument'' []
      | Some i \<Rightarrow>
          let j = find_first_of blanks args i
          in case parseCorner s (substr args i (end_at args j)) of
               Inl e \<Rightarrow> Inl e
             | Inr corners \<Rightarrow> corners_loop s args (find_first_not_of blanks args (end_at args j)) corners)"

definition kOptionHalfDuplexCapsLock :: OptionID where "kOptionHalfDuplexCapsLock = option_code CHR ''H'' CHR ''D'' CHR ''C'' CHR ''L''"
definition kOptionHalfDuplexNumLock :: OptionID where "kOptionHalfDuplexNumLock = option_code CHR ''H'' CHR ''D'' CHR ''N'' CHR ''L''"
definition kOptionHalfDuplexScrollLock :: OptionID where "kOptionHalfDuplexScrollLock = option_code CHR ''H'' CHR ''D'' CHR ''S'' CHR ''L''"
definition kOptionModifierMapForShift :: OptionID where "kOptionModifierMapForShift = option_code CHR ''M'' CHR ''M'' CHR ''F'' CHR ''S''"
definition kOptionModifierMapForControl :: OptionID where "kOptionModifierMapForControl = option_code CHR ''M'' CHR ''M'' CHR ''F'' CHR ''C''"
definition kOptionModifierMapForAlt :: OptionID where "kOptionModifierMapForAlt = option_code CHR ''M'' CHR ''M'' CHR ''F'' CHR ''A''"
definition kOptionModifierMapForAltGr :: OptionID where "kOptionModifierMapForAltGr = option_code CHR ''M'' CHR ''M'' CHR ''F'' CHR ''G''"
definition kOptionModifierMapForMeta :: OptionID where "kOptionModifierMapForMeta = option_code CHR ''M'' CHR ''M'' CHR ''F'' CHR ''M''"
definition kOptionModifierMapForSuper :: OptionID where "kOptionModifierMapForSuper = option_code CHR ''M'' CHR ''M'' CHR ''F'' CHR ''R''"
definition kOptionHeartbeat :: OptionID where "kOptionHeartbeat = option_code CHR ''H'' CHR ''A'' CHR ''R'' CHR ''T''"
definition kOptionScreenSwitchCorners :: OptionID where "kOptionScreenSwitchCorners = option_code CHR ''S'' CHR ''S'' CHR ''C'' CHR ''M''"
definition kOptionScreenSwitchCornerSize :: OptionID where "kOptionScreenSwitchCornerSize = option_code CHR ''S'' CHR ''S'' CHR ''C'' CHR ''S''"
definition kOptionScreenSwitchDelay :: OptionID where "kOptionScreenSwitchDelay = option_code CHR ''S'' CHR ''S'' CHR ''W'' CHR ''T''"
definition kOptionScreenSwitchTwoTap :: OptionID where "kOptionScreenSwitchTwoTap = option_code CHR ''S'' CHR ''S'' CHR ''T'' CHR ''T''"
definition kOptionScreenSwitchNeedsShift :: OptionID where "kOptionScreenSwitchNeedsShift = option_code CHR ''S'' CHR ''S'' CHR ''N'' CHR ''S''"
definition kOptionScreenSwitchNeedsControl :: OptionID where "kOptionScreenSwitchNeedsControl = option_code CHR ''S'' CHR ''S'' CHR ''N'' CHR ''C''"
definition kOptionScreenSwitchNeedsAlt :: OptionID where "kOptionScreenSwitchNeedsAlt = option_code CHR ''S'' CHR ''S'' CHR ''N'' CHR ''A''"
definition kOptionScreenSaverSync :: OptionID where "kOptionScreenSaverSync = option_code CHR ''S'' CHR ''S'' CHR ''V'' CHR ''R''"
definition kOptionXTestXineramaUnaware :: OptionID where "kOptionXTestXineramaUnaware = option_code CHR ''X'' CHR ''T'' CHR ''X'' CHR ''U''"
definition kOptionScreenPreserveFocus :: OptionID where "kOptionScreenPreserveFocus = option_code CHR ''S'' CHR ''F'' CHR ''O'' CHR ''C''"
definition kOptionRelativeMouseMoves :: OptionID where "kOptionRelativeMouseMoves = option_code CHR ''M'' CHR ''D'' CHR ''L'' CHR ''T''"
definition kOptionWin32KeepForeground :: OptionID where "kOptionWin32KeepForeground = option_code CHR ''_'' CHR ''K'' CHR ''F'' CHR ''W''"
definition kOptionClipboardSharing :: OptionID where "kOptionClipboardSharing = option_code CHR ''C'' CHR ''L'' CHR ''P'' CHR ''S''"
definition kOptionClipboardSharingSize :: OptionID where "kOptionClipboardSharingSize = option_code CHR ''C'' CHR ''L'' CHR ''S'' CHR ''Z''"
definition kOptionScreenDimmingEnabled :: OptionID where "kOptionScreenDimmingEnabled = option_code CHR ''D'' CHR ''M'' CHR ''E'' CHR ''N''"
definition kOptionScreenDimmingPercentage :: OptionID where "kOptionScreenDimmingPercentage = option_code CHR ''D'' CHR ''M'' CHR ''P'' CHR ''C''"

lemma option_ids:
  "kOptionHalfDuplexCapsLock = 0x4844434c"
  "kOptionHalfDuplexNumLock = 0x48444e4c"
  "kOptionHalfDuplexScrollLock = 0x4844534c"
  "kOptionModifierMapForShift = 0x4d4d4653"
  "kOptionModifierMapForControl = 0x4d4d4643"
  "kOptionModifierMapForAlt = 0x4d4d4641"
  "kOptionModifierMapForAltGr = 0x4d4d4647"
  "kOptionModifierMapForMeta = 0x4d4d464d"
  "kOptionModifierMapForSuper = 0x4d4d4652"
  "kOptionHeartbeat = 0x48415254"
  "kOptionScreenSwitchCorners = 0x5353434d"
  "kOptionScreenSwitchCornerSize = 0x53534353"
  "kOptionScreenSwitchDelay = 0x53535754"
  "kOptionScreenSwitchTwoTap = 0x53535454"
  "kOptionScreenSwitchNeedsShift = 0x53534e53"
  "kOptionScreenSwitchNeedsControl = 0x53534e43"
  "kOptionScreenSwitchNeedsAlt = 0x53534e41"
  "kOptionScreenSaverSync = 0x53535652"
  "kOptionXTestXineramaUnaware = 0x58545855"
  "kOptionScreenPreserveFocus = 0x53464f43"
  "kOptionRelativeMouseMoves = 0x4d444c54"
  "kOptionWin32KeepForeground = 0x5f4b4657"
  "kOptionClipboardSharing = 0x434c5053"
  "kOptionClipboardSharingSize = 0x434c535a"
  "kOptionScreenDimmingEnabled = 0x444d454e"
  "kOptionScreenDimmingPercentage = 0x444d5043"
  by code_simp+

definition fork_getOptionName :: "OptionID \<Rightarrow> string option" where
  "fork_getOptionName i =
     (if i = kOptionClipboardSharing then Some ''clipboardSharing''
      else if i = kOptionClipboardSharingSize then Some ''clipboardSharingSize''
      else None)"

definition getOptionName :: "OptionID \<Rightarrow> string option" where
  "getOptionName i =
     (if i = kOptionHalfDuplexCapsLock then Some ''halfDuplexCapsLock''
      else if i = kOptionHalfDuplexNumLock then Some ''halfDuplexNumLock''
      else if i = kOptionHalfDuplexScrollLock then Some ''halfDuplexScrollLock''
      else if i = kOptionModifierMapForShift then Some ''shift''
      else if i = kOptionModifierMapForControl then Some ''ctrl''
      else if i = kOptionModifierMapForAlt then Some ''alt''
      else if i = kOptionModifierMapForAltGr then Some ''altgr''
      else if i = kOptionModifierMapForMeta then Some ''meta''
      else if i = kOptionModifierMapForSuper then Some ''super''
      else if i = kOptionHeartbeat then Some ''heartbeat''
      else if i = kOptionScreenSwitchCorners then Some ''switchCorners''
      else if i = kOptionScreenSwitchCornerSize then Some ''switchCornerSize''
      else if i = kOptionScreenSwitchDelay then Some ''switchDelay''
      else if i = kOptionScreenSwitchTwoTap then Some ''switchDoubleTap''
      else if i = kOptionScreenSwitchNeedsShift then Some ''switchNeedsShift''
      else if i = kOptionScreenSwitchNeedsControl then Some ''switchNeedsControl''
      else if i = kOptionScreenSwitchNeedsAlt then Some ''switchNeedsAlt''
      else if i = kOptionScreenSaverSync then Some ''screenSaverSync''
      else if i = kOptionXTestXineramaUnaware then Some ''xtestIsXineramaUnaware''
      else if i = kOptionRelativeMouseMoves then Some ''relativeMouseMoves''
      else if i = kOptionWin32KeepForeground then Some ''win32KeepForeground''
      else if i = kOptionScreenPreserveFocus then Some ''preserveFocus''
      else if i = kOptionClipboardSharing then Some ''clipboardSharing''
      else if i = kOptionClipboardSharingSize then Some ''clipboardSharingSize''
      else fork_getOptionName i)"
text \<open>\<open>sprintf("%d", value)\<close>.\<close>

fun show_nat :: "nat \<Rightarrow> string" where
  "show_nat n = (if n < 10 then [char_of (48 + n)] else show_nat (n div 10) @ [char_of (48 + n mod 10)])"

declare show_nat.simps [simp del]

definition show_int :: "int \<Rightarrow> string" where
  "show_int v = (if v < 0 then CHR ''-'' # show_nat (nat (- v)) else show_nat (nat v))"

definition show_bool :: "OptionValue \<Rightarrow> string" where
  "show_bool v = (if v \<noteq> 0 then ''true'' else ''false'')"

definition show_modifier :: "OptionValue \<Rightarrow> string" where
  "show_modifier v =
     (if v = 1 then ''shift'' else if v = 2 then ''ctrl'' else if v = 3 then ''alt'' else if v = 6 then ''altgr''
      else if v = 4 then ''meta'' else if v = 5 then ''super'' else ''none'')"

definition show_corners :: "OptionValue \<Rightarrow> string" where
  "show_corners v =
     ''none'' @ (if v AND 1 \<noteq> 0 then '' +top-left'' else []) @ (if v AND 2 \<noteq> 0 then '' +top-right'' else []) @
     (if v AND 4 \<noteq> 0 then '' +bottom-left'' else []) @ (if v AND 8 \<noteq> 0 then '' +bottom-right'' else [])"

definition fork_getOptionValue :: "OptionID \<Rightarrow> OptionValue \<Rightarrow> string" where
  "fork_getOptionValue i v =
     (if i = kOptionScreenDimmingEnabled then show_bool v
      else if i = kOptionScreenDimmingPercentage then show_int v
      else [])"

definition getOptionValue :: "OptionID \<Rightarrow> OptionValue \<Rightarrow> string" where
  "getOptionValue i v =
     (if i = kOptionHalfDuplexCapsLock \<or> i = kOptionHalfDuplexNumLock \<or> i = kOptionHalfDuplexScrollLock \<or>
         i = kOptionScreenSwitchNeedsShift \<or> i = kOptionScreenSwitchNeedsControl \<or> i = kOptionScreenSwitchNeedsAlt \<or>
         i = kOptionScreenSaverSync \<or> i = kOptionXTestXineramaUnaware \<or> i = kOptionRelativeMouseMoves \<or>
         i = kOptionWin32KeepForeground \<or> i = kOptionScreenPreserveFocus \<or> i = kOptionClipboardSharing \<or>
         i = kOptionClipboardSharingSize
      then show_bool v
      else if i = kOptionModifierMapForShift \<or> i = kOptionModifierMapForControl \<or> i = kOptionModifierMapForAlt \<or>
         i = kOptionModifierMapForAltGr \<or> i = kOptionModifierMapForMeta \<or> i = kOptionModifierMapForSuper
      then show_modifier v
      else if i = kOptionHeartbeat \<or> i = kOptionScreenSwitchCornerSize \<or> i = kOptionScreenSwitchDelay \<or>
         i = kOptionScreenSwitchTwoTap
      then show_int v
      else if i = kOptionScreenSwitchCorners
      then show_corners v
      else fork_getOptionValue i v)"

text \<open>
  The arguments of a screen (\<open>readSectionScreens\<close>) and of the server (\<open>readSectionOptions\<close> with
  \<open>fork_readSectionOptions\<close>, without the address): the option a name stands for and its value.
  \<open>None\<close> is a name that is no option.
\<close>

definition screen_option :: "read_context \<Rightarrow> string \<Rightarrow> string \<Rightarrow> (OptionID \<times> (read_error + OptionValue)) option" where
  "screen_option s name v =
     (if name = ''halfDuplexCapsLock'' then Some (kOptionHalfDuplexCapsLock, parseBoolean s v)
      else if name = ''halfDuplexNumLock'' then Some (kOptionHalfDuplexNumLock, parseBoolean s v)
      else if name = ''halfDuplexScrollLock'' then Some (kOptionHalfDuplexScrollLock, parseBoolean s v)
      else if name = ''shift'' then Some (kOptionModifierMapForShift, parseModifierKey s v)
      else if name = ''ctrl'' then Some (kOptionModifierMapForControl, parseModifierKey s v)
      else if name = ''alt'' then Some (kOptionModifierMapForAlt, parseModifierKey s v)
      else if name = ''altgr'' then Some (kOptionModifierMapForAltGr, parseModifierKey s v)
      else if name = ''meta'' then Some (kOptionModifierMapForMeta, parseModifierKey s v)
      else if name = ''super'' then Some (kOptionModifierMapForSuper, parseModifierKey s v)
      else if name = ''xtestIsXineramaUnaware'' then Some (kOptionXTestXineramaUnaware, parseBoolean s v)
      else if name = ''switchCorners'' then Some (kOptionScreenSwitchCorners, parseCorners s v)
      else if name = ''switchCornerSize'' then Some (kOptionScreenSwitchCornerSize, parseInt s v)
      else if name = ''preserveFocus'' then Some (kOptionScreenPreserveFocus, parseBoolean s v)
      else None)"

definition fork_option :: "read_context \<Rightarrow> string \<Rightarrow> string \<Rightarrow> (OptionID \<times> (read_error + OptionValue)) option" where
  "fork_option s name v =
     (if name = ''screenDimmingEnabled'' then Some (kOptionScreenDimmingEnabled, parseBoolean s v)
      else if name = ''screenDimmingPercentage'' then Some (kOptionScreenDimmingPercentage, parseInt s v)
      else None)"

definition server_option :: "read_context \<Rightarrow> string \<Rightarrow> string \<Rightarrow> (OptionID \<times> (read_error + OptionValue)) option" where
  "server_option s name v =
     (if name = ''heartbeat'' then Some (kOptionHeartbeat, parseInt s v)
      else if name = ''switchCorners'' then Some (kOptionScreenSwitchCorners, parseCorners s v)
      else if name = ''switchCornerSize'' then Some (kOptionScreenSwitchCornerSize, parseInt s v)
      else if name = ''switchDelay'' then Some (kOptionScreenSwitchDelay, parseInt s v)
      else if name = ''switchDoubleTap'' then Some (kOptionScreenSwitchTwoTap, parseInt s v)
      else if name = ''switchNeedsShift'' then Some (kOptionScreenSwitchNeedsShift, parseBoolean s v)
      else if name = ''switchNeedsControl'' then Some (kOptionScreenSwitchNeedsControl, parseBoolean s v)
      else if name = ''switchNeedsAlt'' then Some (kOptionScreenSwitchNeedsAlt, parseBoolean s v)
      else if name = ''screenSaverSync'' then Some (kOptionScreenSaverSync, parseBoolean s v)
      else if name = ''relativeMouseMoves'' then Some (kOptionRelativeMouseMoves, parseBoolean s v)
      else if name = ''win32KeepForeground'' then Some (kOptionWin32KeepForeground, parseBoolean s v)
      else if name = ''clipboardSharing'' then Some (kOptionClipboardSharing, parseBoolean s v)
      else if name = ''clipboardSharingSize'' then Some (kOptionClipboardSharingSize, parseInt s v)
      else fork_option s name v)"

section \<open>Option values survive being written and read\<close>

lemma show_nat_nonempty: "show_nat n \<noteq> []"
  by (subst show_nat.simps) simp

lemma of_char_digit: "n < 10 \<Longrightarrow> of_char (char_of (48 + n) :: char) = (48 + n :: nat)"
  by simp

lemma show_nat_digits: "list_all isdigit (show_nat n)"
  by (induction n rule: show_nat.induct) (subst show_nat.simps, auto simp: isdigit_def [of "char_of _"])

lemma digits_value_snoc: "digits_value (ds @ [c]) = 10 * digits_value ds + digit_of c"
  by (simp add: digits_value_def)

lemma digits_value_show_nat: "digits_value (show_nat n) = int n"
proof (induction n rule: show_nat.induct)
  case (1 n)
  show ?case
  proof (cases "n < 10")
    case True
    then show ?thesis by (subst show_nat.simps) (simp add: digits_value_def digit_of_def)
  next
    case False
    with 1 show ?thesis by (subst show_nat.simps) (simp add: digits_value_snoc digit_of_def zdiv_int zmod_int)
  qed
qed

lemma isdigit_chars: "isdigit c \<Longrightarrow> \<not> isspace c \<and> c \<noteq> CHR ''-'' \<and> c \<noteq> CHR ''+'' \<and> c \<noteq> CHR 0x00"
  by (auto simp: isdigit_def isspace_def Let_def)

lemma strtol_show_nat:
  assumes "int n < 2 ^ 63"
  shows "strtol (show_nat n) = (int n, [])" "strtol (CHR ''-'' # show_nat n) = (- int n, [])"
proof -
  obtain c r where s: "show_nat n = c # r" using show_nat_nonempty [of n] by (cases "show_nat n") auto
  then have c: "isdigit c" "list_all isdigit r" using show_nat_digits [of n] by auto
  then have tw: "takeWhile isdigit (c # r) = c # r" "dropWhile isdigit (c # r) = []"
    by (auto simp: list_all_iff takeWhile_eq_all_conv dropWhile_eq_Nil_conv)
  note v = digits_value_show_nat [of n, unfolded s]
  show "strtol (show_nat n) = (int n, [])"
    using isdigit_chars [OF c(1)] assms tw unfolding s strtol_def by (simp add: v [simplified])
  show "strtol (CHR ''-'' # show_nat n) = (- int n, [])"
    using assms tw unfolding s strtol_def by (simp add: isspace_def v [simplified])
qed

lemma c_str_show_int: "c_str (show_int v) = show_int v"
proof -
  have "CHR 0x00 \<notin> set (show_nat n)" for n
    using show_nat_digits [of n] isdigit_chars by (auto simp: list_all_iff)
  then show ?thesis by (auto simp: c_str_def show_int_def takeWhile_eq_all_conv)
qed

lemma sint32_of_int: "- (2 ^ 31) \<le> v \<Longrightarrow> v < 2 ^ 31 \<Longrightarrow> sint (word_of_int v :: 32 word) = v"
  by (transfer, rule signed_take_bit_int_eq_self) simp_all

lemma parseInt_show_int:
  assumes "- (2 ^ 31) \<le> v" "v < 2 ^ 31"
  shows "parseInt s (show_int v) = Inr v"
proof -
  have "strtol (show_int v) = (v, [])"
    using assms strtol_show_nat [of "nat v"] strtol_show_nat [of "nat (- v)"] by (auto simp: show_int_def)
  moreover have "sint (word_of_int v :: 32 word) = v"
    using assms by (rule sint32_of_int)
  ultimately show ?thesis by (simp add: parseInt_def c_str_show_int)
qed

lemma parseBoolean_show_bool: "v = 0 \<or> v = 1 \<Longrightarrow> parseBoolean s (show_bool v) = Inr v"
  by (auto simp: parseBoolean_def show_bool_def caseless_equal_key fold_name_def tolower_def)

lemma parseModifierKey_show:
  assumes "0 \<le> v" "v < 7"
  shows "parseModifierKey s (show_modifier v) = Inr v"
proof -
  have "v \<in> set [0..6]" using assms by simp
  then show ?thesis
    by (auto simp: upto.simps parseModifierKey_def show_modifier_def caseless_equal_key fold_name_def tolower_def)
qed

lemma parseCorners_show:
  assumes "0 \<le> v" "v < 16"
  shows "parseCorners s (show_corners v) = Inr v"
proof -
  have "list_all (\<lambda>v. parseCorners s (show_corners v) = Inr v) [0..15]" by code_simp
  then show ?thesis using assms by (auto simp: list_all_iff)
qed

text \<open>The values an option can have.\<close>

definition option_in_range :: "OptionID \<Rightarrow> OptionValue \<Rightarrow> bool" where
  "option_in_range i v =
     (if i \<in> set [kOptionModifierMapForShift, kOptionModifierMapForControl, kOptionModifierMapForAlt,
                   kOptionModifierMapForAltGr, kOptionModifierMapForMeta, kOptionModifierMapForSuper] then 0 \<le> v \<and> v < 7
      else if i \<in> set [kOptionHeartbeat, kOptionScreenSwitchCornerSize, kOptionScreenSwitchDelay, kOptionScreenSwitchTwoTap]
      then - (2 ^ 31) \<le> v \<and> v < 2 ^ 31
      else if i = kOptionScreenSwitchCorners then 0 \<le> v \<and> v < 16
      else v = 0 \<or> v = 1)"

lemmas option_tables = getOptionName_def fork_getOptionName_def getOptionValue_def fork_getOptionValue_def
  screen_option_def server_option_def fork_option_def option_in_range_def

lemmas option_values = parseInt_show_int parseBoolean_show_bool parseModifierKey_show parseCorners_show

text \<open>
  The value of an option is parsed as it was printed: apart from the size of the shared clipboard,
  the text of a value that the option can have gives, under the name of the option, the same option with
  the same value, in the section of the screens or of the server options, wherever the name is known.
\<close>

theorem option_roundtrip:
  assumes "getOptionName i = Some name" and "i \<noteq> kOptionClipboardSharingSize" and "option_in_range i v"
  shows "(screen_option s name (getOptionValue i v) = Some (i, Inr v) \<or>
      server_option s name (getOptionValue i v) = Some (i, Inr v)) \<and>
    (screen_option s name (getOptionValue i v) \<in> {None, Some (i, Inr v)}) \<and>
    (server_option s name (getOptionValue i v) \<in> {None, Some (i, Inr v)})"
  using assms
  by (auto simp: getOptionName_def fork_getOptionName_def split: if_splits)
     (simp_all add: option_tables option_ids option_values)

text \<open>
  The size of the shared clipboard is written as a truth value, which its reader refuses, so a
  configuration that sets it cannot be read back; and the two options of the screen dimming have
  values but no name, so they are never written.
\<close>

theorem clipboard_size_not_read_back:
  "\<exists>name. getOptionName kOptionClipboardSharingSize = Some name \<and>
     (\<forall>v s. \<exists>e. server_option s name (getOptionValue kOptionClipboardSharingSize v) = Some (kOptionClipboardSharingSize, Inl e)) \<and>
     getOptionName kOptionScreenDimmingEnabled = None \<and> getOptionName kOptionScreenDimmingPercentage = None"
proof -
  have "strtol ''true'' = (0, ''true'')" "strtol ''false'' = (0, ''false'')" by code_simp+
  then have "\<exists>e. parseInt s (show_bool v) = Inl e" for s v
    by (simp add: parseInt_def show_bool_def c_str_def throw_read_def)
  then show ?thesis by (simp add: option_tables option_ids)
qed

section \<open>Names with arguments\<close>

definition trim_arg :: "string \<Rightarrow> string" where
  "trim_arg arg = strip_right blanks (strip_left blanks arg)"

text \<open>The arguments after an opening parenthesis, and the position of the closing one.\<close>

function parse_args :: "string \<Rightarrow> nat \<Rightarrow> (string list \<times> nat) option" where
  "parse_args line i =
     (case find_first_of '',)'' line i of
        None \<Rightarrow> None
      | Some j \<Rightarrow>
          let arg = trim_arg (substr line i j)
          in if line ! j = CHR '')'' then Some ([arg], j)
             else map_option (\<lambda>(args, k). (arg # args, k)) (parse_args line (j + 1)))"
  by auto
termination
  by (relation "measure (\<lambda>(line, i). length line - i)")
     (auto simp: find_first_of_def dest!: find_from_Some)

declare parse_args.simps [simp del]

definition parseNameWithArgs ::
  "read_context \<Rightarrow> string \<Rightarrow> string \<Rightarrow> string \<Rightarrow> nat \<Rightarrow> read_error + (string \<times> string list \<times> nat)" where
  "parseNameWithArgs s type line delim index =
     (case find_first_not_of blanks line index of
        None \<Rightarrow> throw_read s (''missing '' @ type) []
      | Some i \<Rightarrow>
          let j = end_at line (find_first_of (blanks @ ''('' @ delim) line i);
              name = substr line i j;
              needDelim = (delim \<noteq> [] \<and> CHR 0x0A \<notin> set delim)
          in case find_first_not_of blanks line j of
               None \<Rightarrow>
                 if needDelim then throw_read s (''missing '' @ [hd delim]) []
                 else Inr (name, [], length line)
             | Some i \<Rightarrow>
                 if line ! i \<noteq> CHR ''('' then Inr (name, [], i)
                 else
                   case parse_args line (i + 1) of
                     None \<Rightarrow> throw_read s ''missing )'' []
                   | Some (args, k) \<Rightarrow>
                       (case find_first_not_of blanks line (k + 1) of
                          None \<Rightarrow>
                            if needDelim then throw_read s (''missing '' @ [hd delim]) []
                            else Inr (name, args, length line)
                        | Some j \<Rightarrow>
                            if needDelim \<and> line ! j \<notin> set delim then throw_read s (''expected '' @ [hd delim]) []
                            else Inr (name, args, j)))"

text \<open>
  A double is a number, an infinity or not a number; \<open>strtod\<close> of the C library is a parameter, as
  is the rounding \<open>fl\<close> of the quotient by 100 to a float.
\<close>

datatype fp = NaN | NegInf | PosInf | Fin rat

fun fp_less :: "fp \<Rightarrow> fp \<Rightarrow> bool" where
  "fp_less NaN y = False"
| "fp_less x NaN = False"
| "fp_less PosInf y = False"
| "fp_less x NegInf = False"
| "fp_less NegInf y = True"
| "fp_less x PosInf = True"
| "fp_less (Fin a) (Fin b) = (a < b)"

definition fp_ge :: "fp \<Rightarrow> fp \<Rightarrow> bool" where
  "fp_ge x y \<longleftrightarrow> x \<noteq> NaN \<and> y \<noteq> NaN \<and> \<not> fp_less x y"

fun percent :: "(rat \<Rightarrow> rat) \<Rightarrow> fp \<Rightarrow> fp" where
  "percent fl (Fin a) = Fin (fl (a / 100))"
| "percent fl x = x"

definition concatArgs :: "string list \<Rightarrow> string" where
  "concatArgs args = ''('' @ concat (case args of [] \<Rightarrow> [] | a # as \<Rightarrow> a # map (\<lambda>x. CHR '','' # x) as) @ '')''"

definition parseInterval ::
  "(string \<Rightarrow> fp \<times> string) \<Rightarrow> (rat \<Rightarrow> rat) \<Rightarrow> read_context \<Rightarrow> string list \<Rightarrow> read_error + (fp \<times> fp)" where
  "parseInterval strtod fl s args =
     (if args = [] then Inr (Fin 0, Fin 1)
      else if length args \<noteq> 2 \<or> args ! 0 = [] \<or> args ! 1 = []
      then throw_read s ''invalid interval \"%{1}\"'' (concatArgs args)
      else
        let (startValue, r0) = strtod (c_str (args ! 0));
            (endValue, r1) = strtod (c_str (args ! 1))
        in if r0 \<noteq> [] \<or> r1 \<noteq> [] then throw_read s ''invalid interval \"%{1}\"'' (concatArgs args)
           else if fp_less startValue (Fin 0) \<or> fp_less (Fin 100) startValue \<or>
                   fp_less endValue (Fin 0) \<or> fp_less (Fin 100) endValue \<or> fp_ge startValue endValue
           then throw_read s ''invalid interval \"%{1}\"'' (concatArgs args)
           else Inr (percent fl startValue, percent fl endValue))"

section \<open>The sections of the file\<close>

text \<open>
  The three readers loop in the same way over the lines up to \<open>end\<close>; \<open>f\<close> is the body for one line,
  and the state is the current screen with the configuration.
\<close>

type_synonym section_state = "string \<times> config"

lemma readLine_loop_shorter:
  "readLine_loop s = Inr (Some (line, s')) \<Longrightarrow> length (m_stream s') < length (m_stream s) \<and> line \<noteq> []"
proof (induction s rule: readLine_loop.induct)
  case (1 s)
  show ?case
  proof (cases "getline (m_stream s)")
    case None
    then show ?thesis using 1(2) by (simp add: readLine_loop.simps [of s])
  next
    case (Some p)
    obtain line0 rest where p: "p = (line0, rest)" by (cases p)
    note sh = getline_shorter [OF Some [unfolded p]]
    show ?thesis
    proof (cases "clean_line line0 = []")
      case True
      with 1(2) Some p have "readLine_loop (s\<lparr>m_stream := rest, m_line := m_line s + 1\<rparr>) = Inr (Some (line, s'))"
        by (simp add: readLine_loop.simps [of s] Let_def)
      with 1(1) [OF Some p [symmetric] refl refl] True sh show ?thesis by simp
    next
      case False
      then show ?thesis using 1(2) Some p sh
        by (auto simp: readLine_loop.simps [of s] Let_def throw_read_def split: if_splits)
    qed
  qed
qed

lemma readLine_shorter:
  "readLine s = Inr (Some (line, s')) \<Longrightarrow> length (m_stream s') < length (m_stream s) \<and> line \<noteq> []"
  using readLine_loop_shorter [of "s\<lparr>m_line := m_line s + 1\<rparr>"] by (simp add: readLine_def)

function section_loop ::
  "(read_context \<Rightarrow> string \<Rightarrow> section_state \<Rightarrow> read_error + section_state) \<Rightarrow> string \<Rightarrow> read_context \<Rightarrow> section_state \<Rightarrow>
   read_error + (config \<times> read_context)" where
  "section_loop f msg s st =
     (case readLine s of
        Inl e \<Rightarrow> Inl e
      | Inr None \<Rightarrow> throw_read (s\<lparr>m_line := m_line s + 1\<rparr>) msg []
      | Inr (Some (line, s')) \<Rightarrow>
          if line = ''end'' then Inr (snd st, s')
          else case f s' line st of
                 Inl e \<Rightarrow> Inl e
               | Inr st' \<Rightarrow> section_loop f msg s' st')"
  by auto
termination
  by (relation "measure (\<lambda>(f, msg, s, st). length (m_stream s))") (auto dest: readLine_shorter)

declare section_loop.simps [simp del]

text \<open>A line that ends in a colon starts the next screen.\<close>

definition starts_screen :: "string \<Rightarrow> bool" where
  "starts_screen line \<longleftrightarrow> line ! (length line - 1) = CHR '':''"

definition add_option :: "string \<Rightarrow> OptionID \<times> (read_error + OptionValue) \<Rightarrow> config \<Rightarrow> read_error + config" where
  "add_option screen opt c =
     (case snd opt of
        Inl e \<Rightarrow> Inl e
      | Inr v \<Rightarrow> Inr (snd (addOption screen (fst opt) v c)))"

definition screens_line :: "read_context \<Rightarrow> string \<Rightarrow> section_state \<Rightarrow> read_error + section_state" where
  "screens_line s line st =
     (let (screen, c) = st
      in if starts_screen line then
           let screen = butlast line
           in if \<not> isValidScreenName screen then throw_read s ''invalid screen name \"%{1}\"'' screen
              else case addScreen screen c of
                     (False, _) \<Rightarrow> throw_read s ''duplicate screen name \"%{1}\"'' screen
                   | (True, c') \<Rightarrow> Inr (screen, c')
         else if screen = [] then throw_read s ''argument before first screen'' []
         else
           case find_first_of (blanks @ ''='') line 0 of
             None \<Rightarrow> throw_read s ''missing ='' []
           | Some i \<Rightarrow>
               if i = 0 then throw_read s ''missing argument name'' []
               else
                 let name = substr line 0 i
                 in case find_first_not_of blanks line i of
                      None \<Rightarrow> throw_read s ''missing ='' []
                    | Some j \<Rightarrow>
                        if line ! j \<noteq> CHR ''='' then throw_read s ''missing ='' []
                        else
                          let v = (case find_first_not_of blanks line (j + 1) of None \<Rightarrow> [] | Some k \<Rightarrow> drop k line)
                          in case screen_option s name v of
                               None \<Rightarrow> throw_read s ''unknown argument \"%{1}\"'' name
                             | Some opt \<Rightarrow> map_sum id (\<lambda>c. (screen, c)) (add_option screen opt c))"

definition readSectionScreens :: "read_context \<Rightarrow> config \<Rightarrow> read_error + (config \<times> read_context)" where
  "readSectionScreens s c = section_loop screens_line ''unexpected end of screens section'' s ([], c)"

definition side_of_name :: "string \<Rightarrow> EDirection option" where
  "side_of_name side =
     (if side = ''left'' then Some kLeft
      else if side = ''right'' then Some kRight
      else if side = ''up'' then Some kTop
      else if side = ''down'' then Some kBottom
      else None)"

text \<open>\<open>connect\<close> with interval ends that may not be numbers, on which the assertions fail.\<close>

definition connect_fp :: "string \<Rightarrow> EDirection \<Rightarrow> fp \<times> fp \<Rightarrow> string \<Rightarrow> fp \<times> fp \<Rightarrow> config \<Rightarrow> (bool \<times> config) option" where
  "connect_fp srcName side src dstName dst c =
     (case (src, dst) of
        ((Fin a, Fin b), (Fin a', Fin b')) \<Rightarrow> connect srcName side (a, b) dstName (a', b') c
      | _ \<Rightarrow>
          if side \<noteq> kNoDirection \<and> find_cell (getCanonicalName srcName c) c = None then Some (False, c) else None)"

definition known_screen :: "read_context \<Rightarrow> string \<Rightarrow> config \<Rightarrow> read_error + section_state" where
  "known_screen s screen c =
     (if \<not> isScreen screen c then throw_read s ''unknown screen name \"%{1}\"'' screen
      else if \<not> isCanonicalName screen c then throw_read s ''cannot use screen name alias here'' []
      else Inr (screen, c))"

definition links_line ::
  "(string \<Rightarrow> fp \<times> string) \<Rightarrow> (rat \<Rightarrow> rat) \<Rightarrow> read_context \<Rightarrow> string \<Rightarrow> section_state \<Rightarrow> read_error + section_state" where
  "links_line strtod fl s line st =
     (let (screen, c) = st
      in if starts_screen line then known_screen s (butlast line) c
         else if screen = [] then throw_read s ''argument before first screen'' []
         else
           case parseNameWithArgs s ''link'' line ''='' 0 of
             Inl e \<Rightarrow> Inl e
           | Inr (side, srcArgs, i) \<Rightarrow>
           case parseNameWithArgs s ''screen'' line [] (i + 1) of
             Inl e \<Rightarrow> Inl e
           | Inr (dstScreen, dstArgs, _) \<Rightarrow>
           case parseInterval strtod fl s srcArgs of
             Inl e \<Rightarrow> Inl e
           | Inr srcInterval \<Rightarrow>
           case parseInterval strtod fl s dstArgs of
             Inl e \<Rightarrow> Inl e
           | Inr dstInterval \<Rightarrow>
           case side_of_name side of
             None \<Rightarrow> throw_read s ''unknown side \"%{1}\" in link'' side
           | Some dir \<Rightarrow>
               if \<not> isScreen dstScreen c then throw_read s ''unknown screen name \"%{1}\"'' dstScreen
               else case connect_fp screen dir srcInterval dstScreen dstInterval c of
                      None \<Rightarrow> Inl AssertFailed
                    | Some (False, _) \<Rightarrow> throw_read s ''overlapping range'' []
                    | Some (True, c') \<Rightarrow> Inr (screen, c'))"

definition readSectionLinks ::
  "(string \<Rightarrow> fp \<times> string) \<Rightarrow> (rat \<Rightarrow> rat) \<Rightarrow> read_context \<Rightarrow> config \<Rightarrow> read_error + (config \<times> read_context)" where
  "readSectionLinks strtod fl s c = section_loop (links_line strtod fl) ''unexpected end of links section'' s ([], c)"

definition aliases_line :: "read_context \<Rightarrow> string \<Rightarrow> section_state \<Rightarrow> read_error + section_state" where
  "aliases_line s line st =
     (let (screen, c) = st
      in if starts_screen line then known_screen s (butlast line) c
         else if screen = [] then throw_read s ''argument before first screen'' []
         else if \<not> isValidScreenName line then throw_read s ''invalid screen alias \"%{1}\"'' line
         else case addAlias screen line c of
                (False, _) \<Rightarrow> throw_read s ''alias \"%{1}\" is already used'' line
              | (True, c') \<Rightarrow> Inr (screen, c'))"

definition readSectionAliases :: "read_context \<Rightarrow> config \<Rightarrow> read_error + (config \<times> read_context)" where
  "readSectionAliases s c = section_loop aliases_line ''unexpected end of aliases section'' s ([], c)"

section \<open>What a reader keeps\<close>

lemma section_loop_inv:
  "(\<And>s line st st'. f s line st = Inr st' \<Longrightarrow> P (snd st) \<Longrightarrow> P (snd st')) \<Longrightarrow> section_loop f msg s st = Inr (c', s') \<Longrightarrow> P (snd st) \<Longrightarrow> P c' \<and> length (m_stream s') < length (m_stream s)"
proof (induction f msg s st rule: section_loop.induct)
  case (1 f msg s st)
  note step = 1(2)
  from 1(3) obtain line s1 where r: "readLine s = Inr (Some (line, s1))"
    by (auto simp: section_loop.simps [of f msg s st] throw_read_def split: sum.splits option.splits)
  show ?case
  proof (cases "line = ''end''")
    case True
    with 1(3,4) r readLine_shorter [OF r] show ?thesis by (simp add: section_loop.simps [of f msg s st])
  next
    case False
    with 1(3) r obtain st' where "f s1 line st = Inr st'" "section_loop f msg s1 st' = Inr (c', s')"
      by (auto simp: section_loop.simps [of f msg s st] split: sum.splits)
    with 1(1) [OF r refl refl False] step 1(4) readLine_shorter [OF r] show ?thesis by fastforce
  qed
qed

text \<open>Every link leads to a name the configuration lists.\<close>

definition links_known :: "config \<Rightarrow> bool" where
  "links_known c \<longleftrightarrow> (\<forall>(k, x)\<in>set (m_map c). \<forall>l\<in>set (m_neighbors x). isScreen (ce_name (snd l)) c)"

lemma links_knownI:
  "(\<And>k x l. (k, x) \<in> set (m_map c) \<Longrightarrow> l \<in> set (m_neighbors x) \<Longrightarrow> isScreen (ce_name (snd l)) c) \<Longrightarrow> links_known c"
  unfolding links_known_def by blast

lemma links_knownD:
  "links_known c \<Longrightarrow> (k, x) \<in> set (m_map c) \<Longrightarrow> l \<in> set (m_neighbors x) \<Longrightarrow> isScreen (ce_name (snd l)) c"
  unfolding links_known_def by blast

definition config_ok :: "config \<Rightarrow> bool" where
  "config_ok c \<longleftrightarrow> config_inv c \<and> links_known c"

lemma isScreen_iff: "config_inv c \<Longrightarrow> isScreen n c \<longleftrightarrow> (\<exists>(m, t)\<in>set (m_nameToCanonicalName c). fold_name m = fold_name n)"
  using find_name_None [of c n] by (auto simp: isScreen_def)

lemma isScreen_mono:
  assumes "config_inv c" "config_inv c'" "set (m_nameToCanonicalName c) \<subseteq> set (m_nameToCanonicalName c')" "isScreen n c"
  shows "isScreen n c'"
  using assms by (auto simp: isScreen_iff)

lemma addScreen_ok:
  assumes "config_ok c" "name \<noteq> []" "addScreen name c = (True, c')"
  shows "config_ok c'"
proof -
  have inv: "config_inv c" "links_known c" using assms(1) by (auto simp: config_ok_def)
  have inv': "config_inv c'" using addScreen_inv [OF inv(1) assms(2)] assms(3) by simp
  have nf: "find_name name c = None"
  proof (rule ccontr)
    assume "find_name name c \<noteq> None"
    then show False using assms(3) by (simp add: addScreen_def)
  qed
  note D = config_invD [OF inv(1)]
  have c': "set (m_map c') = insert (name, cell_new) (set (m_map c))"
    "set (m_nameToCanonicalName c) \<subseteq> set (m_nameToCanonicalName c')"
    using assms(3) nf names.set_insert [OF D(1)] names.set_insert [OF D(2)] unlisted_no_cell [OF inv(1) nf]
    by (auto simp: addScreen_def find_cell_def find_name_def)
  then have "links_known c'"
    using links_knownD [OF inv(2)] isScreen_mono [OF inv(1) inv' c'(2)]
    by (intro links_knownI) (auto simp: cell_new_def simp del: split_paired_All)
  with inv' show ?thesis by (simp add: config_ok_def)
qed

lemma addAlias_ok:
  assumes "config_ok c" "addAlias canonical other c = (True, c')"
  shows "config_ok c'"
proof -
  have inv: "config_inv c" "links_known c" using assms(1) by (auto simp: config_ok_def)
  have inv': "config_inv c'" using addAlias_inv [OF inv(1), of canonical other] assms(2) by simp
  have c': "m_map c' = m_map c" "set (m_nameToCanonicalName c) \<subseteq> set (m_nameToCanonicalName c')"
    using assms(2) names.set_insert [OF config_invD(2) [OF inv(1)]] by (auto simp: addAlias_def find_name_def split: if_splits)
  then have "links_known c'"
    using links_knownD [OF inv(2)] isScreen_mono [OF inv(1) inv' c'(2)] by (intro links_knownI) metis
  with inv' show ?thesis by (simp add: config_ok_def)
qed

lemma isScreen_names: "m_nameToCanonicalName c' = m_nameToCanonicalName c \<Longrightarrow> isScreen n c' = isScreen n c"
  by (simp add: isScreen_def find_name_def)

lemma modify_links_known:
  assumes "config_inv c" "links_known c"
    "\<And>x l. (\<And>l. l \<in> set (m_neighbors x) \<Longrightarrow> isScreen (ce_name (snd l)) c) \<Longrightarrow> l \<in> set (m_neighbors (f x)) \<Longrightarrow> isScreen (ce_name (snd l)) c"
  shows "links_known (c\<lparr>m_map := smap_modify caseless_less k f (m_map c)\<rparr>)"
proof -
  let ?c = "c\<lparr>m_map := smap_modify caseless_less k f (m_map c)\<rparr>"
  have n: "isScreen m ?c = isScreen m c" for m by (rule isScreen_names) simp
  have "isScreen (ce_name (snd l)) c" if y: "(j, y) \<in> set (m_map ?c)" "l \<in> set (m_neighbors y)" for j y l
  proof -
    from y(1) names.set_modify [OF config_invD(1) [OF assms(1)], of k f]
    obtain x where "(j, x) \<in> set (m_map c)" "y = x \<or> y = f x" by (auto split: if_splits)
    then show ?thesis using y(2) links_knownD [OF assms(2), of j x] assms(3) [of x l] by blast
  qed
  then show ?thesis by (intro links_knownI) (simp only: n)
qed

lemma with_options_ok:
  assumes "config_ok c"
  shows "config_ok (snd (with_options name f c))"
proof -
  have inv: "config_inv c" "links_known c" using assms by (auto simp: config_ok_def)
  have "links_known (snd (with_options name f c))"
  proof (cases "name = []")
    case True
    then show ?thesis using inv(2) by (simp add: with_options_def links_known_def isScreen_def find_name_def)
  next
    case False
    then show ?thesis using inv
      by (auto simp: with_options_def split: option.splits intro!: modify_links_known)
  qed
  with with_options_inv [OF inv(1)] show ?thesis by (simp add: config_ok_def)
qed

lemma smap_insert_subset: "set (smap_insert lt k v m) \<subseteq> insert (k, v) (set m)"
  by (induction m) (auto simp: smap_ops split: if_splits)

lemma smap_erase_subset: "set (smap_erase lt k m) \<subseteq> set m"
  by (induction m) (auto simp: smap_ops split: if_splits)

lemma cell_add_links:
  "l \<in> set (m_neighbors (snd (cell_add e d x))) \<Longrightarrow> l = (e, d) \<or> l \<in> set (m_neighbors x)"
  using smap_insert_subset [of edge_less e d "smap_erase edge_less e (m_neighbors x)"]
    smap_erase_subset [of edge_less e "m_neighbors x"]
  by (auto simp: cell_add_def split: if_splits)

lemma connect_ok:
  assumes "config_ok c" "isScreen dst c" "connect srcName side i dst j c = Some (r, c')"
  shows "config_ok c'"
proof -
  have inv: "config_inv c" "links_known c" using assms(1) by (auto simp: config_ok_def)
  have "links_known c'"
    using assms(2,3) inv
    by (auto simp: connect_def new_edge_def split: if_splits option.splits intro!: modify_links_known dest!: cell_add_links)
  with connect_inv [OF inv(1) assms(3)] show ?thesis by (simp add: config_ok_def)
qed

lemma connect_fp_ok:
  assumes "config_ok c" "isScreen dst c" "connect_fp srcName side i dst j c = Some (r, c')"
  shows "config_ok c'"
  using assms connect_ok [OF assms(1,2)]
  by (auto simp: connect_fp_def split: fp.splits prod.splits if_splits)

lemma known_screen_config: "known_screen s screen c = Inr st' \<Longrightarrow> snd st' = c"
  by (auto simp: known_screen_def throw_read_def split: if_splits)

lemma valid_name_nonempty: "isValidScreenName n \<Longrightarrow> n \<noteq> []"
  by (simp add: isValidScreenName_def)

lemma screens_line_ok:
  assumes "screens_line s line st = Inr st'" "config_ok (snd st)"
  shows "config_ok (snd st')"
proof -
  obtain screen c where st: "st = (screen, c)" by (cases st)
  show ?thesis
    using assms addScreen_ok [of c] with_options_ok [of c] unfolding st
    by (auto simp: screens_line_def throw_read_def add_option_def addOption_def Let_def
        dest: valid_name_nonempty split: if_splits prod.splits bool.splits option.splits sum.splits)
qed

lemma links_line_ok:
  assumes "links_line strtod fl s line st = Inr st'" "config_ok (snd st)"
  shows "config_ok (snd st')"
proof -
  obtain screen c where st: "st = (screen, c)" by (cases st)
  show ?thesis
    using assms connect_fp_ok [of c] known_screen_config [of s "butlast line" c st'] unfolding st
    by (auto simp: links_line_def throw_read_def Let_def
        split: if_splits prod.splits bool.splits option.splits sum.splits)
qed

lemma aliases_line_ok:
  assumes "aliases_line s line st = Inr st'" "config_ok (snd st)"
  shows "config_ok (snd st')"
proof -
  obtain screen c where st: "st = (screen, c)" by (cases st)
  show ?thesis
    using assms addAlias_ok [of c] known_screen_config [of s "butlast line" c st'] unfolding st
    by (auto simp: aliases_line_def throw_read_def Let_def
        split: if_splits prod.splits bool.splits option.splits sum.splits)
qed

text \<open>
  C25. Whatever the text and whatever numbers \<open>strtod\<close> finds in it, a reader of a section that does
  not fail leaves a well formed configuration whose links all lead to listed names.
\<close>

theorem sections_keep_config:
  assumes "config_ok c"
  shows "(\<forall>c' s'. readSectionScreens s c = Inr (c', s') \<longrightarrow> config_ok c') \<and>
    (\<forall>c' s'. readSectionLinks strtod fl s c = Inr (c', s') \<longrightarrow> config_ok c') \<and>
    (\<forall>c' s'. readSectionAliases s c = Inr (c', s') \<longrightarrow> config_ok c')"
proof (intro conjI allI impI)
  fix c' s'
  show "config_ok c'" if "readSectionScreens s c = Inr (c', s')"
    using section_loop_inv [of screens_line config_ok, OF screens_line_ok that [unfolded readSectionScreens_def]] assms by simp
  show "config_ok c'" if "readSectionLinks strtod fl s c = Inr (c', s')"
    using section_loop_inv [of "links_line strtod fl" config_ok, OF links_line_ok that [unfolded readSectionLinks_def]] assms by simp
  show "config_ok c'" if "readSectionAliases s c = Inr (c', s')"
    using section_loop_inv [of aliases_line config_ok, OF aliases_line_ok that [unfolded readSectionAliases_def]] assms by simp
qed

text \<open>
  The validity check of screen names, an index loop over the dots, accepts exactly the names
  of the grammar in its comment, together with the names that end in one more dot.
\<close>

theorem isValidScreenName_grammar: "isValidScreenName name \<longleftrightarrow> valid_name name"
proof (cases "name = []")
  case True
  have "\<not> valid_name []" using valid_name_step [of "[]"] by (simp add: name_part_def)
  then show ?thesis using True by (simp add: isValidScreenName_def)
next
  case False
  then show ?thesis using valid_parts_iff [of 0 name] by (simp add: isValidScreenName_def)
qed

lemma find_from_eqI:
  assumes "i \<le> j" "j < length s" "P (s ! j)" "\<And>k. i \<le> k \<Longrightarrow> k < j \<Longrightarrow> \<not> P (s ! k)"
  shows "find_from P s i = Some j"
proof (cases "find_from P s i")
  case None
  then show ?thesis using assms(1-3) by (auto simp: find_from_None)
next
  case (Some j')
  then show ?thesis using find_from_Some [OF Some] assms by (metis linorder_neqE_nat)
qed

text \<open>
  In a line of the options or of the links, a missing \<open>=\<close> is not noticed: when a name is
  followed by a blank and a character that is no parenthesis, the name is accepted and that
  character is taken for the delimiter, so the value that is read lacks its first character.
\<close>

theorem missing_delimiter_accepted:
  assumes "name \<noteq> []" and "\<forall>c\<in>set name. c \<notin> set (blanks @ ''(='')" and "c \<notin> set (blanks @ ''('')"
  shows "parseNameWithArgs s type (name @ '' '' @ c # v) ''='' 0 = Inr (name, [], length name + 1)"
proof -
  let ?line = "name @ '' '' @ c # v"
  have nth: "?line ! k = name ! k" "name ! k \<in> set name" if "k < length name" for k
    using that by (auto simp: nth_append)
  have n: "?line ! length name = CHR '' ''" "?line ! (length name + 1) = c" by (auto simp: nth_append)
  have f1: "find_first_not_of blanks ?line 0 = Some 0"
    unfolding find_first_not_of_def using assms(1,2) nth [of 0] by (intro find_from_eqI) (auto simp: nth_append)
  have f2: "find_first_of (blanks @ ''('' @ ''='') ?line 0 = Some (length name)"
    unfolding find_first_of_def using n(1) nth assms(2) by (intro find_from_eqI) (auto simp: blanks_def)
  have f3: "find_first_not_of blanks ?line (length name) = Some (length name + 1)"
    unfolding find_first_not_of_def
  proof (rule find_from_eqI)
    show "?line ! (length name + 1) \<notin> set blanks" using n(2) assms(3) by auto
    show "\<not> ?line ! k \<notin> set blanks" if "length name \<le> k" "k < length name + 1" for k
      using that n(1) by (cases "k = length name") (auto simp: blanks_def)
  qed auto
  have "substr ?line 0 (length name) = name" by (simp add: substr_def)
  then show ?thesis
    using f1 f2 f3 n assms(3) by (simp add: parseNameWithArgs_def end_at_def Let_def)
qed

theorem option_roundtrip_witness:
  "server_option \<lparr>m_stream = [], m_line = 7\<rparr> ''switchDelay'' (getOptionValue kOptionScreenSwitchDelay 250) =
     Some (kOptionScreenSwitchDelay, Inr 250)"
proof -
  have "getOptionName kOptionScreenSwitchDelay = Some ''switchDelay''"
    "kOptionScreenSwitchDelay \<noteq> kOptionClipboardSharingSize" "option_in_range kOptionScreenSwitchDelay 250"
    "screen_option \<lparr>m_stream = [], m_line = 7\<rparr> ''switchDelay'' (getOptionValue kOptionScreenSwitchDelay 250) = None"
    by (simp_all add: option_tables option_ids)
  with option_roundtrip [of kOptionScreenSwitchDelay "''switchDelay''" 250 "\<lparr>m_stream = [], m_line = 7\<rparr>"]
  show ?thesis by simp
qed

theorem sections_keep_config_witness:
  "\<exists>c' s'. readSectionScreens \<lparr>m_stream = ''a:'' @ [CHR 0x0A] @ ''end'', m_line = 0\<rparr> config_new = Inr (c', s') \<and> config_ok c'"
proof -
  have "config_ok config_new" using config_new_inv by (simp add: config_ok_def links_known_def config_new_def)
  from sections_keep_config [OF this]
  have k: "readSectionScreens \<lparr>m_stream = ''a:'' @ [CHR 0x0A] @ ''end'', m_line = 0\<rparr> config_new = Inr (c', s') \<Longrightarrow> config_ok c'" for c' s'
    by blast
  have "\<not> isl (readSectionScreens \<lparr>m_stream = ''a:'' @ [CHR 0x0A] @ ''end'', m_line = 0\<rparr> config_new)" by code_simp
  with k show ?thesis by (metis isl_def surj_pair sumE)
qed

theorem missing_delimiter_accepted_witness:
  "parseNameWithArgs \<lparr>m_stream = [], m_line = 3\<rparr> ''name'' ''switchDelay 1250'' ''='' 0 = Inr (''switchDelay'', [], 12) \<and>
   parseNameWithArgs \<lparr>m_stream = [], m_line = 3\<rparr> ''value'' ''switchDelay 1250'' ('',;'' @ [CHR 0x0A]) 13 = Inr (''250'', [], 16)"
proof
  show "parseNameWithArgs \<lparr>m_stream = [], m_line = 3\<rparr> ''name'' ''switchDelay 1250'' ''='' 0 = Inr (''switchDelay'', [], 12)"
    using missing_delimiter_accepted [of "''switchDelay''" "CHR ''1''" "\<lparr>m_stream = [], m_line = 3\<rparr>" "''name''" "''250''"]
    by (simp add: blanks_def)
  show "parseNameWithArgs \<lparr>m_stream = [], m_line = 3\<rparr> ''value'' ''switchDelay 1250'' ('',;'' @ [CHR 0x0A]) 13 = Inr (''250'', [], 16)"
    by code_simp
qed

end
