(* ===== verification/ServerSwitch.thy ===== *)
theory ServerSwitch
  imports ServerScreens ConfigFile
begin

text \<open>
  How the server (\<^verbatim>\<open>src/lib/server/Server.cpp\<close>) moves the cursor between screens: the wait and the
  double tap before a switch, locked corners and modifiers, the switch itself with the clipboards
  that go along, and the motion handlers of the primary and the secondary screens.
\<close>

section \<open>Waiting to switch\<close>

definition isLockedToScreen :: "world \<Rightarrow> server \<Rightarrow> bool" where
  "isLockedToScreen w s \<longleftrightarrow> m_lockedToScreen s \<or> w_primaryLocked w"

definition getJumpZoneSize :: "world \<Rightarrow> server \<Rightarrow> screen_id \<Rightarrow> int" where
  "getJumpZoneSize w s client = (if client = m_primaryClient s then w_zone w else 0)"

definition stopSwitchTwoTap :: "server \<Rightarrow> server" where
  "stopSwitchTwoTap s = s\<lparr>m_switchTwoTapEngaged := False, m_switchTwoTapArmed := False\<rparr>"

definition stopSwitchWait :: "server \<Rightarrow> server" where
  "stopSwitchWait s = (if m_switchWaitTimer s then (emit DeleteTimer s)\<lparr>m_switchWaitTimer := False\<rparr> else s)"

definition stopSwitch :: "server \<Rightarrow> server" where
  "stopSwitch s =
     (if m_switchScreen s \<noteq> None
      then stopSwitchWait (stopSwitchTwoTap (s\<lparr>m_switchScreen := None, m_switchDir := kNoDirection\<rparr>))
      else s)"

text \<open>The two-tap stopwatch restarts here; \<open>w_tapTime\<close> is what it shows at a later event.\<close>

definition startSwitchTwoTap :: "server \<Rightarrow> server" where
  "startSwitchTwoTap s = s\<lparr>m_switchTwoTapEngaged := True, m_switchTwoTapArmed := False\<rparr>"

definition armSwitchTwoTap :: "world \<Rightarrow> int \<Rightarrow> int \<Rightarrow> server \<Rightarrow> server" where
  "armSwitchTwoTap w x y s =
     (if \<not> m_switchTwoTapEngaged s then s
      else if m_switchTwoTapDelay s < w_tapTime w then stopSwitchTwoTap s
      else if m_switchTwoTapArmed s then s
      else
        let a = w_shape w (m_active s); tapZone = max (w_zone w) (m_switchTwoTapZone s)
        in if sh_x a + tapZone \<le> x \<and> x < sh_x a + sh_w a - tapZone \<and>
              sh_y a + tapZone \<le> y \<and> y < sh_y a + sh_h a - tapZone
           then case m_switchDir s of
                  kLeft \<Rightarrow> s\<lparr>m_switchTwoTapArmed := (0 < m_xDelta s \<and> 0 < m_xDelta2 s)\<rparr>
                | kRight \<Rightarrow> s\<lparr>m_switchTwoTapArmed := (m_xDelta s < 0 \<and> m_xDelta2 s < 0)\<rparr>
                | kTop \<Rightarrow> s\<lparr>m_switchTwoTapArmed := (0 < m_yDelta s \<and> 0 < m_yDelta2 s)\<rparr>
                | kBottom \<Rightarrow> s\<lparr>m_switchTwoTapArmed := (m_yDelta s < 0 \<and> m_yDelta2 s < 0)\<rparr>
                | kNoDirection \<Rightarrow> s
           else s)"

definition shouldSwitchTwoTap :: "world \<Rightarrow> server \<Rightarrow> bool" where
  "shouldSwitchTwoTap w s \<longleftrightarrow> m_switchTwoTapArmed s \<and> w_tapTime w \<le> m_switchTwoTapDelay s"

definition startSwitchWait :: "int \<Rightarrow> int \<Rightarrow> server \<Rightarrow> server" where
  "startSwitchWait x y s =
     emit NewTimer ((stopSwitchWait s)\<lparr>m_switchWaitX := x, m_switchWaitY := y, m_switchWaitTimer := True\<rparr>)"

definition noSwitch :: "world \<Rightarrow> int \<Rightarrow> int \<Rightarrow> server \<Rightarrow> server" where
  "noSwitch w x y s = stopSwitchWait (armSwitchTwoTap w x y s)"

text \<open>The corner masks: top left 1, top right 2, bottom left 4, bottom right 8.\<close>

definition getCorner :: "world \<Rightarrow> screen_id \<Rightarrow> int \<Rightarrow> int \<Rightarrow> int \<Rightarrow> int" where
  "getCorner w client x y sz =
     (let a = w_shape w client;
          xSide = (if x \<le> sh_x a then -1 else if sh_x a + sh_w a - 1 \<le> x then 1 else 0);
          ySide = (if y \<le> sh_y a then -1 else if sh_y a + sh_h a - 1 \<le> y then 1 else (0 :: int))
      in if xSide \<noteq> (0 :: int) \<and> y < sh_y a + sz then (if xSide < 0 then 1 else 2)
         else if xSide \<noteq> 0 \<and> sh_y a + sh_h a - sz \<le> y then (if xSide < 0 then 4 else 8)
         else if ySide \<noteq> 0 \<and> x < sh_x a + sz then (if ySide < 0 then 1 else 4)
         else if ySide \<noteq> 0 \<and> sh_x a + sh_w a - sz \<le> x then (if ySide < 0 then 2 else 8)
         else 0)"

definition find_option :: "OptionID \<Rightarrow> options \<Rightarrow> OptionValue option" where
  "find_option i opts = map_option snd (smap_find (<) i opts)"

text \<open>The options that say which corners are locked: the screen's own, else the server's.\<close>

definition corner_options :: "world \<Rightarrow> server \<Rightarrow> options option" where
  "corner_options w s =
     (case getOptions (getName w s (m_active s)) (m_config s) of
        Some opts \<Rightarrow> if find_option kOptionScreenSwitchCorners opts = None then getOptions [] (m_config s) else Some opts
      | None \<Rightarrow> getOptions [] (m_config s))"

definition inLockedCorner :: "world \<Rightarrow> server \<Rightarrow> int \<Rightarrow> int \<Rightarrow> bool" where
  "inLockedCorner w s xActive yActive =
     (case corner_options w s of
        None \<Rightarrow> False
      | Some opts \<Rightarrow>
          (case find_option kOptionScreenSwitchCorners opts of
             None \<Rightarrow> False
           | Some corners \<Rightarrow>
               let sz = (case find_option kOptionScreenSwitchCornerSize opts of None \<Rightarrow> 0 | Some v \<Rightarrow> v)
               in getCorner w (m_active s) xActive yActive sz AND corners \<noteq> 0))"

definition needsModifiers :: "world \<Rightarrow> server \<Rightarrow> bool" where
  "needsModifiers w s \<longleftrightarrow>
     m_switchNeedsShift s \<and> w_toggleMask w AND 1 \<noteq> 1 \<or>
     m_switchNeedsControl s \<and> w_toggleMask w AND 2 \<noteq> 2 \<or>
     m_switchNeedsAlt s \<and> w_toggleMask w AND 4 \<noteq> 4"

definition isSwitchOkay ::
  "world \<Rightarrow> screen_id option \<Rightarrow> EDirection \<Rightarrow> int \<Rightarrow> int \<Rightarrow> int \<Rightarrow> int \<Rightarrow> server \<Rightarrow> bool \<times> server" where
  "isSwitchOkay w newScreen dir x y xActive yActive s =
     (if newScreen = None then (False, stopSwitch s)
      else
        let isNewDirection = (dir \<noteq> m_switchDir s);
            s1 = (if isNewDirection \<or> m_switchScreen s = None then s\<lparr>m_switchDir := dir, m_switchScreen := newScreen\<rparr> else s);
            tap = (0 < m_switchTwoTapDelay s1);
            firstTap = (isNewDirection \<or> \<not> m_switchTwoTapEngaged s1 \<or> \<not> shouldSwitchTwoTap w s1);
            allowSwitch = (tap \<and> \<not> firstTap);
            s2 = (if tap \<and> firstTap then startSwitchTwoTap s1 else s1);
            wait = (\<not> allowSwitch \<and> 0 < m_switchWaitDelay s2);
            s3 = (if wait \<and> (isNewDirection \<or> \<not> m_switchWaitTimer s2) then startSwitchWait x y s2 else s2);
            corner = inLockedCorner w s3 xActive yActive;
            s4 = (if corner then stopSwitch s3 else s3);
            prevent = (tap \<and> firstTap \<or> wait \<or> corner);
            locked = (\<not> prevent \<and> isLockedToScreen w s4);
            s5 = (if locked then stopSwitch s4 else s4);
            mods = (\<not> (prevent \<or> locked) \<and> needsModifiers w s5);
            s6 = (if mods then stopSwitch s5 else s5)
        in (\<not> (prevent \<or> locked \<or> mods), s6))"

section \<open>Switching\<close>

definition lock_dim_calls :: "bool \<Rightarrow> server \<Rightarrow> call list" where
  "lock_dim_calls locked s = map (\<lambda>(_, c). LockState c (locked \<and> c \<noteq> m_active s)) (m_clients s)"

definition fork_lockStateChanged :: "bool \<Rightarrow> server \<Rightarrow> server" where
  "fork_lockStateChanged locked s = s\<lparr>calls := calls s @ lock_dim_calls locked s\<rparr>"

definition fork_dimScreenAll :: "server \<Rightarrow> server" where
  "fork_dimScreenAll s =
     (let enabled = (case getOptions [] (m_config s) of
                       None \<Rightarrow> True
                     | Some opts \<Rightarrow>
                         (case find_option kOptionScreenDimmingEnabled opts of None \<Rightarrow> True | Some v \<Rightarrow> v \<noteq> 0));
          s1 = s\<lparr>calls := calls s @ map (\<lambda>(_, c). DimScreen c (enabled \<and> c \<noteq> m_active s)) (m_clients s)\<rparr>
      in if m_lockedToScreen s1 then fork_lockStateChanged True s1 else s1)"

definition set_clipboard_info :: "nat \<Rightarrow> clipboard_info \<Rightarrow> server \<Rightarrow> server" where
  "set_clipboard_info i info s = s\<lparr>m_clipboards := (m_clipboards s)(i := info)\<rparr>"

definition onClipboardChanged :: "world \<Rightarrow> screen_id \<Rightarrow> nat \<Rightarrow> u32 \<Rightarrow> server \<Rightarrow> server option" where
  "onClipboardChanged w sender i seqNum s =
     (let info = m_clipboards s i
      in if seqNum < m_clipboardSeqNum info then Some s
         else if find_client (m_clipboardOwner info) s \<noteq> Some sender then None
         else case w_clipboard w sender i of
                None \<Rightarrow> Some s
              | Some c \<Rightarrow>
                  (case cb_marshall c of
                     None \<Rightarrow> None
                   | Some (data, c') \<Rightarrow>
                       let info1 = info\<lparr>m_clipboard := c'\<rparr>
                       in if m_maximumClipboardSize s < length data then Some (set_clipboard_info i info1 s)
                          else if data = m_clipboardData info then Some (set_clipboard_info i info1 s)
                          else
                            let s1 = set_clipboard_info i (info1\<lparr>m_clipboardData := data\<rparr>) s
                            in Some (s1\<lparr>calls := calls s1 @ map (\<lambda>(_, k). SetClipboardDirty k i (k \<noteq> sender)) (m_clients s1) @
                                 [SetClipboard (m_active s1) i data]\<rparr>)))"

text \<open>Leaving the primary screen takes its own clipboards along.\<close>

fun update_primary_clipboards :: "world \<Rightarrow> nat list \<Rightarrow> server \<Rightarrow> server option" where
  "update_primary_clipboards w [] s = Some s"
| "update_primary_clipboards w (i # is) s =
     (let info = m_clipboards s i
      in if m_clipboardOwner info = getName w s (m_primaryClient s)
         then case onClipboardChanged w (m_primaryClient s) i (m_clipboardSeqNum info) s of
                None \<Rightarrow> None
              | Some s' \<Rightarrow> update_primary_clipboards w is s'
         else update_primary_clipboards w is s)"

fun send_clipboards :: "nat list \<Rightarrow> server \<Rightarrow> server option" where
  "send_clipboards [] s = Some s"
| "send_clipboards (i # is) s =
     (case cb_marshall (m_clipboard (m_clipboards s i)) of
        None \<Rightarrow> None
      | Some (data, c') \<Rightarrow>
          let s1 = set_clipboard_info i ((m_clipboards s i)\<lparr>m_clipboard := c'\<rparr>) s
          in send_clipboards is (if m_maximumClipboardSize s1 < length data then s1 else emit (SetClipboard (m_active s1) i data) s1))"

definition clipboard_ids :: "nat list" where
  "clipboard_ids = [0, 1]"

definition in_shape :: "shape \<Rightarrow> point \<Rightarrow> bool" where
  "in_shape a p \<longleftrightarrow> sh_x a \<le> fst p \<and> sh_y a \<le> snd p \<and> fst p < sh_x a + sh_w a \<and> snd p < sh_y a + sh_h a"

definition record_position :: "point \<Rightarrow> server \<Rightarrow> server" where
  "record_position p s =
     s\<lparr>m_x := fst p, m_y := snd p, m_xDelta := 0, m_yDelta := 0, m_xDelta2 := 0, m_yDelta2 := 0\<rparr>"

text \<open>The three parts of a switch: entering the new screen, leaving the old one, and the checks.\<close>

definition enter_screen :: "world \<Rightarrow> screen_id \<Rightarrow> point \<Rightarrow> bool \<Rightarrow> server \<Rightarrow> server option" where
  "enter_screen w dst p forScreensaver s =
     (let s1 = s\<lparr>m_active := dst, m_seqNum := m_seqNum s + 1\<rparr>;
          s2 = emit (Enter dst (fst p) (snd p) (m_seqNum s + 1) (w_toggleMask w) forScreensaver) s1
      in map_option (\<lambda>s3. emit (Switched (w_name w dst)) (fork_dimScreenAll s3))
           (if m_enableClipboard s2 then send_clipboards clipboard_ids s2 else Some s2))"

definition leave_screen :: "world \<Rightarrow> screen_id \<Rightarrow> point \<Rightarrow> bool \<Rightarrow> server \<Rightarrow> server option" where
  "leave_screen w dst p forScreensaver s =
     (let s1 = emit (Leave (m_active s)) s
      in if \<not> w_leaves w (m_active s) then Some s1
         else case (if m_active s1 = m_primaryClient s1 \<and> m_enableClipboard s1
                    then update_primary_clipboards w clipboard_ids s1 else Some s1) of
                None \<Rightarrow> None
              | Some s2 \<Rightarrow> enter_screen w dst p forScreensaver s2)"

definition switchScreen :: "world \<Rightarrow> screen_id \<Rightarrow> point \<Rightarrow> bool \<Rightarrow> server \<Rightarrow> server option" where
  "switchScreen w dst p0 forScreensaver s =
     (case fork_stayOnDisplays w s dst p0 p0 of
        None \<Rightarrow> None
      | Some p \<Rightarrow>
          if \<not> in_shape (w_shape w dst) p then None
          else
            let s1 = record_position p (stopSwitch s)
            in if m_active s1 \<noteq> dst then leave_screen w dst p forScreensaver s1
               else Some (emit (MouseMove dst (fst p) (snd p)) s1))"

definition jumpToScreen :: "world \<Rightarrow> screen_id \<Rightarrow> server \<Rightarrow> server option" where
  "jumpToScreen w newScreen s =
     (let s1 = s\<lparr>jump_pos := (jump_pos s)(m_active s := (m_x s, m_y s))\<rparr>
      in switchScreen w newScreen (jump_pos s1 newScreen) False s1)"

definition handle_switch_wait_event :: "world \<Rightarrow> server \<Rightarrow> server option" where
  "handle_switch_wait_event w s =
     (if isLockedToScreen w s then Some (stopSwitch s)
      else case m_switchScreen s of
             None \<Rightarrow> None
           | Some dst \<Rightarrow> switchScreen w dst (m_switchWaitX s, m_switchWaitY s) False s)"

definition handle_switch_to_screen_event :: "world \<Rightarrow> string \<Rightarrow> server \<Rightarrow> server option" where
  "handle_switch_to_screen_event w screen s =
     (case find_client screen s of None \<Rightarrow> Some s | Some c \<Rightarrow> jumpToScreen w c s)"

definition handle_toggle_screen_event :: "world \<Rightarrow> server \<Rightarrow> server option" where
  "handle_toggle_screen_event w s =
     (case find_client (getName w s (m_active s)) s of
        None \<Rightarrow> Some s
      | Some _ \<Rightarrow>
          (case snd (smap_upper str_less (getName w s (m_active s)) (m_clients s)) of
             [] \<Rightarrow> jumpToScreen w (snd (hd (m_clients s))) s
           | (_, c) # _ \<Rightarrow> jumpToScreen w c s))"

definition handle_switch_in_direction_event :: "(rat \<Rightarrow> rat) \<Rightarrow> world \<Rightarrow> EDirection \<Rightarrow> server \<Rightarrow> server option" where
  "handle_switch_in_direction_event fl w dir s =
     (case getNeighbor_server fl w s (m_active s) dir (m_x s, m_y s) of
        None \<Rightarrow> None
      | Some None \<Rightarrow> Some s
      | Some (Some (c, _)) \<Rightarrow> jumpToScreen w c s)"

section \<open>Motion\<close>

text \<open>Clamping to a screen, and the edges the cursor is at (with a zone on the primary screen).\<close>

definition clamp_edge :: "int \<Rightarrow> int \<Rightarrow> int \<Rightarrow> int \<Rightarrow> int" where
  "clamp_edge lo len zone v = (if v < lo + zone then lo else if lo + len - zone \<le> v then lo + len - 1 else v)"

text \<open>One of the two directions tried: the result says whether the handler is done, and with what.\<close>

definition try_direction ::
  "(rat \<Rightarrow> rat) \<Rightarrow> world \<Rightarrow> EDirection \<Rightarrow> point \<Rightarrow> point \<Rightarrow> server \<Rightarrow> (bool option \<times> server) option" where
  "try_direction fl w dir p clamped s =
     (if dir = kNoDirection then Some (None, s)
      else case mapToNeighbor fl w s (m_active s) dir p of
             None \<Rightarrow> None
           | Some (newScreen, q) \<Rightarrow>
               (case isSwitchOkay w newScreen dir (fst q) (snd q) (fst clamped) (snd clamped) s of
                  (False, s1) \<Rightarrow> Some (None, s1)
                | (True, s1) \<Rightarrow>
                    (case newScreen of
                       None \<Rightarrow> None
                     | Some dst \<Rightarrow>
                         if w_dragging w \<and> m_active s1 \<noteq> dst \<and> m_waitDragInfoThread s1
                         then Some (Some False,
                                if m_sendDragInfoThread s1 then s1
                                else (emit (SendDragInfo dst) s1)\<lparr>m_sendDragInfoThread := True\<rparr>)
                         else map_option (\<lambda>s2. (Some True, s2\<lparr>m_waitDragInfoThread := True\<rparr>)) (switchScreen w dst q False s1))))"

text \<open>Both directions, the horizontal one first.\<close>

definition try_directions ::
  "(rat \<Rightarrow> rat) \<Rightarrow> world \<Rightarrow> EDirection \<Rightarrow> point \<Rightarrow> EDirection \<Rightarrow> point \<Rightarrow> point \<Rightarrow> server \<Rightarrow> (bool \<times> server) option" where
  "try_directions fl w dirh ph dirv pv clamped s =
     (case try_direction fl w dirh ph clamped s of
        None \<Rightarrow> None
      | Some (Some done, s2) \<Rightarrow> Some (done, s2)
      | Some (None, s2) \<Rightarrow>
          (case try_direction fl w dirv pv clamped s2 of
             None \<Rightarrow> None
           | Some (Some done, s3) \<Rightarrow> Some (done, s3)
           | Some (None, s3) \<Rightarrow> Some (False, s3)))"

definition onMouseMovePrimary :: "(rat \<Rightarrow> rat) \<Rightarrow> world \<Rightarrow> int \<Rightarrow> int \<Rightarrow> server \<Rightarrow> (bool \<times> server) option" where
  "onMouseMovePrimary fl w x0 y0 s =
     (if m_active s \<noteq> m_primaryClient s then Some (False, s)
      else
        let s1 = s\<lparr>m_xDelta2 := m_xDelta s, m_yDelta2 := m_yDelta s, m_xDelta := x0 - m_x s, m_yDelta := y0 - m_y s,
                   m_x := x0, m_y := y0\<rparr>;
            a = w_shape w (m_active s1);
            zone = getJumpZoneSize w s1 (m_active s1);
            (x, y) = fork_toBoxEdge w s1 (m_active s1) zone (x0, y0);
            clamped = (clamp_edge (sh_x a) (sh_w a) zone x, clamp_edge (sh_y a) (sh_h a) zone y);
            (dirh, xh) = (if x < sh_x a + zone then (kLeft, x - zone)
                          else if sh_x a + sh_w a - zone \<le> x then (kRight, x + zone) else (kNoDirection, x));
            (dirv, yv) = (if y < sh_y a + zone then (kTop, y - zone)
                          else if sh_y a + sh_h a - zone \<le> y then (kBottom, y + zone) else (kNoDirection, y))
        in if dirh = kNoDirection \<and> dirv = kNoDirection then Some (False, noSwitch w x y s1)
           else try_directions fl w dirh (xh, y) dirv (x, yv) clamped s1)"

text \<open>On the screen: a wait on a border that the cursor has left again is given up.\<close>

definition clear_wait :: "world \<Rightarrow> server \<Rightarrow> server" where
  "clear_wait w s =
     (let a = w_shape w (m_active s); zone = w_zone w
      in if m_switchScreen s \<noteq> None \<and>
            (case m_switchDir s of
               kLeft \<Rightarrow> sh_x a + zone \<le> m_x s
             | kRight \<Rightarrow> m_x s \<le> sh_x a + sh_w a - 1 - zone
             | kTop \<Rightarrow> sh_y a + zone \<le> m_y s
             | kBottom \<Rightarrow> m_y s \<le> sh_y a + sh_h a - 1 + zone
             | kNoDirection \<Rightarrow> False)
         then noSwitch w (m_x s) (m_y s) s else s)"

definition exit_side :: "shape \<Rightarrow> point \<Rightarrow> EDirection" where
  "exit_side a p =
     (if fst p < sh_x a then kLeft
      else if sh_x a + sh_w a - 1 < fst p then kRight
      else if snd p < sh_y a then kTop
      else if sh_y a + sh_h a - 1 < snd p then kBottom
      else kNoDirection)"

text \<open>The end of the handler when the cursor stays: clamped to the screen and moved there.\<close>

definition stay_on_screen :: "world \<Rightarrow> point \<Rightarrow> int \<Rightarrow> int \<Rightarrow> server \<Rightarrow> server option" where
  "stay_on_screen w old dx dy s =
     (let a = w_shape w (m_active s);
          p = (clamp_edge (sh_x a) (sh_w a) 0 (fst old + dx), clamp_edge (sh_y a) (sh_h a) 0 (snd old + dy))
      in map_option
           (\<lambda>q. let s1 = s\<lparr>m_x := fst q, m_y := snd q\<rparr>
                in if q \<noteq> old then emit (MouseMove (m_active s1) (fst q) (snd q)) s1 else s1)
           (fork_stayOnDisplays w s (m_active s) old p))"

definition onMouseMoveSecondary :: "(rat \<Rightarrow> rat) \<Rightarrow> world \<Rightarrow> int \<Rightarrow> int \<Rightarrow> server \<Rightarrow> server option" where
  "onMouseMoveSecondary fl w dx dy s =
     (if m_active s = m_primaryClient s then Some s
      else if m_relativeMoves s \<and> m_lockedToScreen s then Some (emit (MouseRelativeMove (m_active s) dx dy) s)
      else
        let old = (m_x s, m_y s);
            s1 = s\<lparr>m_xDelta2 := m_xDelta s, m_yDelta2 := m_yDelta s, m_xDelta := dx, m_yDelta := dy\<rparr>;
            a = w_shape w (m_active s1)
        in case fork_leaveDisplays w s1 (m_active s1) old (m_x s1 + dx, m_y s1 + dy) of
             None \<Rightarrow> None
           | Some p \<Rightarrow>
               let s2 = s1\<lparr>m_x := fst p, m_y := snd p\<rparr>;
                   clamped = (clamp_edge (sh_x a) (sh_w a) 0 (fst p), clamp_edge (sh_y a) (sh_h a) 0 (snd p));
                   dir = exit_side a p
               in if dir = kNoDirection then stay_on_screen w old dx dy (clear_wait w s2)
                  else case mapToNeighbor fl w s2 (m_active s2) dir p of
                         None \<Rightarrow> None
                       | Some (newScreen, q) \<Rightarrow>
                           (case isSwitchOkay w newScreen dir (fst q) (snd q) (fst clamped) (snd clamped) (s2\<lparr>m_x := fst q, m_y := snd q\<rparr>) of
                              (False, s3) \<Rightarrow> stay_on_screen w old dx dy s3
                            | (True, s3) \<Rightarrow>
                                (case newScreen of
                                   None \<Rightarrow> None
                                 | Some dst \<Rightarrow>
                                     let s4 = (if m_sendFileThread s3 then (emit InterruptFile s3)\<lparr>m_sendFileThread := False\<rparr> else s3)
                                     in switchScreen w dst (m_x s4, m_y s4) False s4)))"

definition stopRelativeMoves :: "world \<Rightarrow> server \<Rightarrow> server" where
  "stopRelativeMoves w s =
     (if m_relativeMoves s \<and> m_active s \<noteq> m_primaryClient s
      then let a = w_shape w (m_active s);
               p = (sh_x a + sh_w a div 2, sh_y a + sh_h a div 2)
           in emit (MouseMove (m_active s) (fst p) (snd p)) (record_position p s)
      else s)"

section \<open>When a switch is allowed\<close>

text \<open>The tap at the same edge, in time, that follows a first one after the cursor left the edge.\<close>

definition second_tap :: "world \<Rightarrow> EDirection \<Rightarrow> server \<Rightarrow> bool" where
  "second_tap w dir s \<longleftrightarrow> dir = m_switchDir s \<and> m_switchTwoTapEngaged s \<and> shouldSwitchTwoTap w s"

lemma switch_fields [simp]:
  "m_config (emit k s) = m_config s" "m_active (emit k s) = m_active s" "m_lockedToScreen (emit k s) = m_lockedToScreen s"
  "m_config (stopSwitchWait s) = m_config s" "m_active (stopSwitchWait s) = m_active s"
  "m_lockedToScreen (stopSwitchWait s) = m_lockedToScreen s"
  "m_config (stopSwitchTwoTap s) = m_config s" "m_active (stopSwitchTwoTap s) = m_active s"
  "m_lockedToScreen (stopSwitchTwoTap s) = m_lockedToScreen s"
  "m_config (stopSwitch s) = m_config s" "m_active (stopSwitch s) = m_active s" "m_lockedToScreen (stopSwitch s) = m_lockedToScreen s"
  "m_config (startSwitchTwoTap s) = m_config s" "m_active (startSwitchTwoTap s) = m_active s"
  "m_lockedToScreen (startSwitchTwoTap s) = m_lockedToScreen s"
  "m_config (startSwitchWait x y s) = m_config s" "m_active (startSwitchWait x y s) = m_active s"
  "m_lockedToScreen (startSwitchWait x y s) = m_lockedToScreen s"
  by (simp_all add: emit_def stopSwitchWait_def stopSwitchTwoTap_def stopSwitch_def startSwitchTwoTap_def startSwitchWait_def)

lemma switch_delays [simp]:
  "m_switchWaitDelay (startSwitchTwoTap s) = m_switchWaitDelay s"
  "m_switchNeedsShift (startSwitchTwoTap s) = m_switchNeedsShift s" "m_switchNeedsShift (startSwitchWait x y s) = m_switchNeedsShift s"
  "m_switchNeedsControl (startSwitchTwoTap s) = m_switchNeedsControl s" "m_switchNeedsControl (startSwitchWait x y s) = m_switchNeedsControl s"
  "m_switchNeedsAlt (startSwitchTwoTap s) = m_switchNeedsAlt s" "m_switchNeedsAlt (startSwitchWait x y s) = m_switchNeedsAlt s"
  by (simp_all add: startSwitchTwoTap_def startSwitchWait_def emit_def stopSwitchWait_def)

lemma needsModifiers_stopSwitch [simp]: "needsModifiers w (stopSwitch s) = needsModifiers w s"
  by (simp add: needsModifiers_def stopSwitch_def stopSwitchWait_def stopSwitchTwoTap_def emit_def)

lemma same_config:
  assumes "m_config s' = m_config s" "m_active s' = m_active s"
  shows "getName w s' c = getName w s c" "inLockedCorner w s' = inLockedCorner w s"
  unfolding inLockedCorner_def corner_options_def getName_def assms by (rule refl)+

lemma isLocked_same: "m_lockedToScreen s' = m_lockedToScreen s \<Longrightarrow> isLockedToScreen w s' = isLockedToScreen w s"
  by (simp add: isLockedToScreen_def)

text \<open>
  C12. The server leaves a screen over an edge exactly when there is a screen beyond it, the
  cursor is not in a locked corner, is not locked to the screen, the needed modifiers are down, and
  the delays allow it: where a double tap is asked for this is a second tap in time, and where a
  wait is asked for the switch comes later, from the timer, unless it is such a second tap.
\<close>

theorem isSwitchOkay_iff:
  "fst (isSwitchOkay w newScreen dir x y xActive yActive s) \<longleftrightarrow>
     newScreen \<noteq> None \<and>
     \<not> (0 < m_switchTwoTapDelay s \<and> \<not> second_tap w dir s) \<and>
     \<not> (0 < m_switchWaitDelay s \<and> \<not> (0 < m_switchTwoTapDelay s \<and> second_tap w dir s)) \<and>
     \<not> inLockedCorner w s xActive yActive \<and> \<not> isLockedToScreen w s \<and> \<not> needsModifiers w s"
proof (cases newScreen)
  case None
  then show ?thesis by (simp add: isSwitchOkay_def)
next
  case (Some n)
  define s1 where "s1 = (if dir \<noteq> m_switchDir s \<or> m_switchScreen s = None then s\<lparr>m_switchDir := dir, m_switchScreen := newScreen\<rparr> else s)"
  define firstTap where "firstTap = (dir \<noteq> m_switchDir s \<or> \<not> m_switchTwoTapEngaged s1 \<or> \<not> shouldSwitchTwoTap w s1)"
  define s2 where "s2 = (if 0 < m_switchTwoTapDelay s1 \<and> firstTap then startSwitchTwoTap s1 else s1)"
  define wait where "wait = (\<not> (0 < m_switchTwoTapDelay s1 \<and> \<not> firstTap) \<and> 0 < m_switchWaitDelay s2)"
  define s3 where "s3 = (if wait \<and> (dir \<noteq> m_switchDir s \<or> \<not> m_switchWaitTimer s2) then startSwitchWait x y s2 else s2)"
  define s4 where "s4 = (if inLockedCorner w s3 xActive yActive then stopSwitch s3 else s3)"
  define prevent where "prevent = (0 < m_switchTwoTapDelay s1 \<and> firstTap \<or> wait \<or> inLockedCorner w s3 xActive yActive)"
  define s5 where "s5 = (if \<not> prevent \<and> isLockedToScreen w s4 then stopSwitch s4 else s4)"
  have r: "fst (isSwitchOkay w newScreen dir x y xActive yActive s) \<longleftrightarrow>
      \<not> (prevent \<or> (\<not> prevent \<and> isLockedToScreen w s4) \<or>
         (\<not> (prevent \<or> (\<not> prevent \<and> isLockedToScreen w s4)) \<and> needsModifiers w s5))"
    unfolding isSwitchOkay_def Let_def s1_def [symmetric] firstTap_def [symmetric] s2_def [symmetric] wait_def [symmetric]
      s3_def [symmetric] s4_def [symmetric] prevent_def [symmetric] s5_def [symmetric] using Some by simp
  have f1: "m_config s1 = m_config s \<and> m_active s1 = m_active s \<and> m_lockedToScreen s1 = m_lockedToScreen s \<and>
      m_switchTwoTapDelay s1 = m_switchTwoTapDelay s \<and> m_switchWaitDelay s1 = m_switchWaitDelay s \<and>
      m_switchTwoTapEngaged s1 = m_switchTwoTapEngaged s \<and> shouldSwitchTwoTap w s1 = shouldSwitchTwoTap w s \<and>
      needsModifiers w s1 = needsModifiers w s"
    by (simp add: s1_def shouldSwitchTwoTap_def needsModifiers_def)
  have f2: "m_config s2 = m_config s \<and> m_active s2 = m_active s \<and> m_lockedToScreen s2 = m_lockedToScreen s \<and>
      m_switchWaitDelay s2 = m_switchWaitDelay s \<and> needsModifiers w s2 = needsModifiers w s"
    using f1 by (auto simp: s2_def needsModifiers_def)
  have f3: "m_config s3 = m_config s \<and> m_active s3 = m_active s \<and> m_lockedToScreen s3 = m_lockedToScreen s \<and>
      needsModifiers w s3 = needsModifiers w s"
    using f2 by (auto simp: s3_def needsModifiers_def)
  have f4: "m_lockedToScreen s4 = m_lockedToScreen s \<and> needsModifiers w s4 = needsModifiers w s"
    using f3 by (auto simp: s4_def)
  have c: "inLockedCorner w s3 xActive yActive = inLockedCorner w s xActive yActive" using same_config(2) f3 by metis
  have l: "isLockedToScreen w s4 = isLockedToScreen w s" using isLocked_same f4 by metis
  have n: "needsModifiers w s5 = needsModifiers w s" using f4 by (simp add: s5_def)
  have t: "firstTap = (\<not> second_tap w dir s)" using f1 by (auto simp: firstTap_def second_tap_def)
  have d: "m_switchTwoTapDelay s1 = m_switchTwoTapDelay s" "m_switchWaitDelay s2 = m_switchWaitDelay s" using f1 f2 by auto
  show ?thesis unfolding r c l n prevent_def wait_def t d using Some by auto
qed

end
