(* ===== verification/ServerClients.thy ===== *)
theory ServerClients
  imports ServerSwitch "HOL-Library.Sublist"
begin

text \<open>
  The rest of the server (\<^verbatim>\<open>src/lib/server/Server.cpp\<close>): screens that connect, are closed and
  disconnect, options, clipboards that are grabbed and changed, the screen saver, the lock, and the
  relay of keys and buttons; then the invariant of the server over all its handlers. Event handler
  registrations, the input filter and file transfer threads are not part of the state.
\<close>

section \<open>Screens come and go\<close>

definition addClient :: "world \<Rightarrow> screen_id \<Rightarrow> server \<Rightarrow> bool \<times> server" where
  "addClient w client s =
     (let name = getName w s client
      in if find_client name s \<noteq> None then (False, s)
         else
           let s1 = s\<lparr>m_clientSet := insert client (m_clientSet s),
                      m_clients := smap_insert str_less name client (m_clients s),
                      jump_pos := (jump_pos s)(client := w_cursor w client)\<rparr>
           in (True, emit (Reconfigure (getActivePrimarySides w s1)) s1))"

definition removeClient :: "world \<Rightarrow> screen_id \<Rightarrow> server \<Rightarrow> bool \<times> server" where
  "removeClient w client s =
     (if client \<notin> m_clientSet s then (False, s)
      else (True, s\<lparr>m_clients := smap_erase str_less (getName w s client) (m_clients s),
                    m_clientSet := m_clientSet s - {client}\<rparr>))"

definition forceLeaveClient :: "world \<Rightarrow> screen_id \<Rightarrow> server \<Rightarrow> server" where
  "forceLeaveClient w client s =
     (let active = (case m_activeSaver s of None \<Rightarrow> m_active s | Some a \<Rightarrow> a);
          s4 = (if active = client then
                  let s1 = s\<lparr>m_x := fst (w_center w), m_y := snd (w_center w)\<rparr>;
                      s2 = (if m_switchScreen s1 = Some active then stopSwitch s1 else s1);
                      s3 = s2\<lparr>m_active := m_primaryClient s2\<rparr>
                  in emit (Switched (w_name w (m_active s3)))
                       (if m_activeSaver s3 = None
                        then emit (Enter (m_primaryClient s3) (m_x s3) (m_y s3) (m_seqNum s3) (w_toggleMask w) False) s3
                        else s3)
                else s);
          s5 = (if m_activeSaver s4 = Some client then s4\<lparr>m_activeSaver := None\<rparr> else s4)
      in emit (Reconfigure (getActivePrimarySides w s5)) s5)"

definition closeClient :: "world \<Rightarrow> screen_id \<Rightarrow> string \<Rightarrow> server \<Rightarrow> server option" where
  "closeClient w client msg s =
     (if client = m_primaryClient s then None
      else
        let s1 = emit NewTimer (emit (CloseScreen client msg) s);
            s2 = snd (removeClient w client s1);
            s3 = s2\<lparr>m_oldClients := (if client \<in> set (m_oldClients s2) then m_oldClients s2 else client # m_oldClients s2)\<rparr>
        in Some (forceLeaveClient w client s3))"

fun close_each :: "world \<Rightarrow> screen_id list \<Rightarrow> server \<Rightarrow> server option" where
  "close_each w [] s = Some s"
| "close_each w (c # cs) s = (case closeClient w c ''CBYE'' s of None \<Rightarrow> None | Some s' \<Rightarrow> close_each w cs s')"

text \<open>The screens to close are collected in a set of pointers, which is walked in their order.\<close>

definition closeClients :: "world \<Rightarrow> config \<Rightarrow> server \<Rightarrow> server option" where
  "closeClients w c s =
     close_each w
       (sort (remdups (filter (\<lambda>k. k \<noteq> m_primaryClient s) (map snd (filter (\<lambda>(n, k). \<not> isCanonicalName n c) (m_clients s)))))) s"

definition removeActiveClient :: "world \<Rightarrow> screen_id \<Rightarrow> server \<Rightarrow> server" where
  "removeActiveClient w client s =
     (case removeClient w client s of
        (False, s1) \<Rightarrow> s1
      | (True, s1) \<Rightarrow>
          let s2 = forceLeaveClient w client s1
          in if length (m_clients s2) = 1 \<and> m_oldClients s2 = [] then emit Disconnected s2 else s2)"

definition removeOldClient :: "screen_id \<Rightarrow> server \<Rightarrow> server" where
  "removeOldClient client s =
     (if client \<in> set (m_oldClients s) then
        let s1 = emit DeleteTimer (s\<lparr>m_oldClients := remove1 client (m_oldClients s)\<rparr>)
        in if length (m_clients s1) = 1 \<and> m_oldClients s1 = [] then emit Disconnected s1 else s1
      else s)"

definition handle_client_disconnected :: "world \<Rightarrow> screen_id \<Rightarrow> server \<Rightarrow> server" where
  "handle_client_disconnected w client s = removeOldClient client (removeActiveClient w client s)"

definition handle_client_close_timeout :: "screen_id \<Rightarrow> server \<Rightarrow> server" where
  "handle_client_close_timeout client s = removeOldClient client s"

definition disconnect_all :: "world \<Rightarrow> server \<Rightarrow> server option" where
  "disconnect_all w s =
     (if 1 < length (m_clients s) \<or> m_oldClients s \<noteq> [] then closeClients w config_new s else Some (emit Disconnected s))"

section \<open>Options\<close>

definition options_list :: "options \<Rightarrow> u32 list" where
  "options_list opts = concat (map (\<lambda>(i, v). [i, word_of_int v]) opts)"

definition sendOptions :: "world \<Rightarrow> screen_id \<Rightarrow> server \<Rightarrow> server" where
  "sendOptions w client s =
     (let own = (case getOptions (getName w s client) (m_config s) of None \<Rightarrow> [] | Some o1 \<Rightarrow> options_list o1);
          global = (case getOptions [] (m_config s) of None \<Rightarrow> [] | Some o2 \<Rightarrow> options_list o2)
      in emit (SetOptions client (own @ global)) (emit (ResetOptions client) s))"

definition processOption :: "OptionID \<times> OptionValue \<Rightarrow> server \<times> bool \<Rightarrow> server \<times> bool" where
  "processOption opt st =
     (let (i, v) = opt; (s, newRelativeMoves) = st
      in if i = kOptionScreenSwitchDelay
         then (stopSwitchWait (s\<lparr>m_switchWaitDelay := max 0 (of_int v / 1000)\<rparr>), newRelativeMoves)
         else if i = kOptionScreenSwitchTwoTap
         then (stopSwitchTwoTap (s\<lparr>m_switchTwoTapDelay := max 0 (of_int v / 1000)\<rparr>), newRelativeMoves)
         else if i = kOptionScreenSwitchNeedsControl then (s\<lparr>m_switchNeedsControl := (v \<noteq> 0)\<rparr>, newRelativeMoves)
         else if i = kOptionScreenSwitchNeedsShift then (s\<lparr>m_switchNeedsShift := (v \<noteq> 0)\<rparr>, newRelativeMoves)
         else if i = kOptionScreenSwitchNeedsAlt then (s\<lparr>m_switchNeedsAlt := (v \<noteq> 0)\<rparr>, newRelativeMoves)
         else if i = kOptionRelativeMouseMoves then (s, v \<noteq> 0)
         else if i = kOptionClipboardSharing then (s\<lparr>m_enableClipboard := (v \<noteq> 0)\<rparr>, newRelativeMoves)
         else if i = kOptionClipboardSharingSize
         then (s\<lparr>m_maximumClipboardSize := (if v \<le> 0 then 0 else nat v)\<rparr>, newRelativeMoves)
         else (s, newRelativeMoves))"

definition processOptions :: "world \<Rightarrow> server \<Rightarrow> server" where
  "processOptions w s =
     (case getOptions [] (m_config s) of
        None \<Rightarrow> s
      | Some opts \<Rightarrow>
          let s1 = s\<lparr>m_switchNeedsShift := False, m_switchNeedsControl := False, m_switchNeedsAlt := False\<rparr>;
              (s2, newRelativeMoves) = fold processOption opts (s1, m_relativeMoves s1);
              s3 = (if m_relativeMoves s2 \<and> \<not> newRelativeMoves then stopRelativeMoves w s2 else s2)
          in s3\<lparr>m_relativeMoves := newRelativeMoves\<rparr>)"

definition setConfig :: "world \<Rightarrow> config \<Rightarrow> server \<Rightarrow> (bool \<times> server) option" where
  "setConfig w c s =
     (if \<not> isScreen (w_name w (m_primaryClient s)) c then Some (False, s)
      else case closeClients w c s of
             None \<Rightarrow> None
           | Some s1 \<Rightarrow>
               let s2 = processOptions w s1;
                   s3 = emit (Reconfigure (getActivePrimarySides w s2)) s2
               in Some (True, fold (\<lambda>(_, k). sendOptions w k) (m_clients s3) s3))"

text \<open>Reloading writes the new configuration over the one the server refers to.\<close>

definition reload_config :: "world \<Rightarrow> config \<Rightarrow> (string, display_rect list) smap \<Rightarrow> server \<Rightarrow> (bool \<times> server) option" where
  "reload_config w c displays s = setConfig w c (s\<lparr>m_config := c, m_displays := displays\<rparr>)"

definition adoptClient :: "world \<Rightarrow> screen_id \<Rightarrow> server \<Rightarrow> server option" where
  "adoptClient w client s =
     (if \<not> isScreen (w_name w client) (m_config s) then closeClient w client ''EUNK'' s
      else case addClient w client s of
             (False, _) \<Rightarrow> closeClient w client ''EBSY'' s
           | (True, s1) \<Rightarrow>
               let s2 = sendOptions w client s1;
                   s3 = (if m_activeSaver s2 \<noteq> None then emit (Screensaver client True) s2 else s2);
                   s4 = (if client \<noteq> m_active s3 then
                           let s' = fork_dimScreenAll s3
                           in if m_lockedToScreen s' then emit (LockState client True) s' else s'
                         else s3)
               in Some (emit (Connected (getName w s4 client)) s4))"

section \<open>Clipboards\<close>

definition clear_clipboard :: "clipboard \<Rightarrow> clipboard option" where
  "clear_clipboard c =
     (case cb_open 0 c of
        None \<Rightarrow> None
      | Some (False, c1) \<Rightarrow> Some c1
      | Some (True, c1) \<Rightarrow> (case cb_clear c1 of None \<Rightarrow> None | Some (_, c2) \<Rightarrow> cb_close c2))"

definition handle_clipboard_grabbed :: "world \<Rightarrow> nat \<Rightarrow> u32 \<Rightarrow> screen_id \<Rightarrow> server \<Rightarrow> server option" where
  "handle_clipboard_grabbed w i seqNum grabber s =
     (if \<not> m_enableClipboard s \<or> m_maximumClipboardSize s = 0 then Some s
      else if grabber \<notin> m_clientSet s then Some s
      else
        let info = m_clipboards s i
        in if grabber \<noteq> m_primaryClient s \<and> seqNum < m_clipboardSeqNum info then Some s
           else case clear_clipboard (m_clipboard info) of
                  None \<Rightarrow> None
                | Some c \<Rightarrow>
                    (case cb_marshall c of
                       None \<Rightarrow> None
                     | Some (data, c') \<Rightarrow>
                         let s1 = set_clipboard_info i
                                    \<lparr>m_clipboard = c', m_clipboardData = data, m_clipboardOwner = getName w s grabber,
                                     m_clipboardSeqNum = seqNum\<rparr> s
                         in Some (s1\<lparr>calls := calls s1 @
                              map (\<lambda>(_, k). if k = grabber then SetClipboardDirty k i False else GrabClipboard k i) (m_clients s1)\<rparr>)))"

definition handle_clipboard_changed :: "world \<Rightarrow> nat \<Rightarrow> u32 \<Rightarrow> screen_id \<Rightarrow> server \<Rightarrow> server option" where
  "handle_clipboard_changed w i seqNum client s =
     (if client \<notin> m_clientSet s then Some s else onClipboardChanged w client i seqNum s)"

section \<open>Starting\<close>

definition clear_clipboards :: "world \<Rightarrow> server \<Rightarrow> server option" where
  "clear_clipboards w s =
     (case clear_clipboard cb_new of
        None \<Rightarrow> None
      | Some c \<Rightarrow>
          (case cb_marshall c of
             None \<Rightarrow> None
           | Some (data, c') \<Rightarrow>
               Some (fold (\<lambda>i. set_clipboard_info i
                        \<lparr>m_clipboard = c', m_clipboardData = data, m_clipboardOwner = getName w s (m_primaryClient s),
                         m_clipboardSeqNum = m_seqNum s\<rparr>) clipboard_ids s)))"

text \<open>The constructor; the mask of scroll lock is 0x4000.\<close>

definition server_start :: "world \<Rightarrow> screen_id \<Rightarrow> config \<Rightarrow> (string, display_rect list) smap \<Rightarrow> server option" where
  "server_start w primaryClient c displays =
     (if \<not> isScreen (w_name w primaryClient) c then None
      else case clear_clipboards w (server_new primaryClient c displays) of
             None \<Rightarrow> None
           | Some s1 \<Rightarrow>
               (case setConfig w c (snd (addClient w primaryClient s1)) of
                  None \<Rightarrow> None
                | Some (_, s2) \<Rightarrow> Some (if w_toggleMask w AND 0x4000 \<noteq> 0 then s2\<lparr>m_lockedToScreen := True\<rparr> else s2)))"

section \<open>Shape, screen saver, lock\<close>

definition handle_shape_changed :: "(rat \<Rightarrow> rat) \<Rightarrow> world \<Rightarrow> screen_id \<Rightarrow> server \<Rightarrow> server option" where
  "handle_shape_changed fl w client s =
     (if client \<notin> m_clientSet s then Some s
      else
        let p = w_cursor w client;
            s1 = s\<lparr>jump_pos := (jump_pos s)(client := p)\<rparr>;
            s2 = (if client = m_active s1 then s1\<lparr>m_x := fst p, m_y := snd p\<rparr> else s1)
        in if client \<noteq> m_primaryClient s2 then Some s2
           else if client = m_active s2 then map_option snd (onMouseMovePrimary fl w (m_x s2) (m_y s2) s2)
           else onMouseMoveSecondary fl w 0 0 s2)"

definition saver_clamp :: "int \<Rightarrow> int \<Rightarrow> int \<Rightarrow> int \<Rightarrow> int" where
  "saver_clamp lo len zone v =
     (if v < lo + zone then lo + zone else if lo + len - zone \<le> v then lo + len - zone - 1 else v)"

definition onScreensaver :: "world \<Rightarrow> bool \<Rightarrow> server \<Rightarrow> server option" where
  "onScreensaver w activated s =
     map_option (\<lambda>s'. s'\<lparr>calls := calls s' @ map (\<lambda>(_, k). Screensaver k activated) (m_clients s')\<rparr>)
       (if activated then
          let s1 = s\<lparr>m_activeSaver := Some (m_active s), m_xSaver := m_x s, m_ySaver := m_y s\<rparr>
          in if m_active s1 \<noteq> m_primaryClient s1 then switchScreen w (m_primaryClient s1) (0, 0) True s1 else Some s1
        else
          map_option (\<lambda>s'. s'\<lparr>m_activeSaver := None\<rparr>)
            (case m_activeSaver s of
               None \<Rightarrow> Some s
             | Some screen \<Rightarrow>
                 if screen = m_primaryClient s then Some s
                 else
                   let a = w_shape w screen; zone = getJumpZoneSize w s screen;
                       s1 = s\<lparr>m_xSaver := saver_clamp (sh_x a) (sh_w a) zone (m_xSaver s),
                              m_ySaver := saver_clamp (sh_y a) (sh_h a) zone (m_ySaver s)\<rparr>
                   in switchScreen w screen (m_xSaver s1, m_ySaver s1) False s1))"

datatype toggle = kOff | kOn | kToggle

definition new_state :: "toggle \<Rightarrow> bool \<Rightarrow> bool" where
  "new_state t old = (case t of kOff \<Rightarrow> False | kOn \<Rightarrow> True | kToggle \<Rightarrow> \<not> old)"

definition handle_keyboard_broadcast_event :: "toggle \<Rightarrow> string \<Rightarrow> server \<Rightarrow> server" where
  "handle_keyboard_broadcast_event t screens s =
     (let newState = new_state t (m_keyboardBroadcasting s)
      in if newState \<noteq> m_keyboardBroadcasting s \<or> screens \<noteq> m_keyboardBroadcastingScreens s
         then s\<lparr>m_keyboardBroadcasting := newState, m_keyboardBroadcastingScreens := screens\<rparr> else s)"

definition handle_lock_cursor_to_screen_event :: "world \<Rightarrow> toggle \<Rightarrow> server \<Rightarrow> server" where
  "handle_lock_cursor_to_screen_event w t s =
     (let newState = new_state t (m_lockedToScreen s)
      in if newState \<noteq> m_lockedToScreen s then
           let s1 = fork_lockStateChanged newState (s\<lparr>m_lockedToScreen := newState\<rparr>);
               s2 = emit (Reconfigure (getActivePrimarySides w s1)) s1
           in if m_lockedToScreen s2 then s2 else stopRelativeMoves w s2
         else s)"

section \<open>Keys and buttons\<close>

definition isDefault :: "string option \<Rightarrow> bool" where
  "isDefault screens \<longleftrightarrow> screens = None \<or> screens = Some []"

definition key_contains :: "string option \<Rightarrow> string \<Rightarrow> bool" where
  "key_contains screens name =
     (if isDefault screens then False
      else if hd (the screens) = CHR ''*'' then True
      else sublist ('':'' @ name @ '':'') (the screens))"

text \<open>The screens a key goes to: the active one, or those named by the key or by the broadcast.\<close>

definition key_targets :: "string option \<Rightarrow> server \<Rightarrow> screen_id list" where
  "key_targets screens s =
     (if \<not> m_keyboardBroadcasting s \<and> isDefault screens then [m_active s]
      else
        let named = (if screens = None \<and> m_keyboardBroadcasting s
                     then (if isDefault (Some (m_keyboardBroadcastingScreens s)) then Some ''*''
                           else Some (m_keyboardBroadcastingScreens s))
                     else screens)
        in map snd (filter (\<lambda>(n, _). key_contains named n) (m_clients s)))"

definition onKeyDown :: "u32 \<Rightarrow> u32 \<Rightarrow> u16 \<Rightarrow> string option \<Rightarrow> server \<Rightarrow> server" where
  "onKeyDown k mods button screens s = s\<lparr>calls := calls s @ map (\<lambda>c. KeyDown c k mods button) (key_targets screens s)\<rparr>"

definition onKeyUp :: "u32 \<Rightarrow> u32 \<Rightarrow> u16 \<Rightarrow> string option \<Rightarrow> server \<Rightarrow> server" where
  "onKeyUp k mods button screens s = s\<lparr>calls := calls s @ map (\<lambda>c. KeyUp c k mods button) (key_targets screens s)\<rparr>"

definition onKeyRepeat :: "u32 \<Rightarrow> u32 \<Rightarrow> int \<Rightarrow> u16 \<Rightarrow> server \<Rightarrow> server" where
  "onKeyRepeat k mods count button s = emit (KeyRepeat (m_active s) k mods count button) s"

definition onMouseDown :: "u8 \<Rightarrow> server \<Rightarrow> server" where
  "onMouseDown b s = (emit (MouseDown (m_active s) b) s)\<lparr>m_waitDragInfoThread := True\<rparr>"

definition onMouseWheel :: "int \<Rightarrow> int \<Rightarrow> server \<Rightarrow> server" where
  "onMouseWheel dx dy s = emit (MouseWheel (m_active s) dx dy) s"

section \<open>What the handlers keep\<close>

text \<open>The screens of the server and the configuration; a running timer has a screen to switch to.\<close>

definition screens_part :: "server \<Rightarrow> (string, screen_id) smap \<times> screen_id set \<times> screen_id \<times> config \<times> screen_id option \<times> screen_id list" where
  "screens_part s = (m_clients s, m_clientSet s, m_primaryClient s, m_config s, m_activeSaver s, m_oldClients s)"

definition wait_ok :: "server \<Rightarrow> bool" where
  "wait_ok s \<longleftrightarrow> (m_switchWaitTimer s \<longrightarrow> m_switchScreen s \<noteq> None)"

text \<open>
  A step that changes neither, and that goes, now or after a wait, to one of \<open>T\<close> or keeps the
  screen it is on or waits for.
\<close>

definition keeps :: "screen_id set \<Rightarrow> server \<Rightarrow> server \<Rightarrow> bool" where
  "keeps T s s' \<longleftrightarrow> screens_part s' = screens_part s \<and> (m_active s' = m_active s \<or> m_active s' \<in> T) \<and>
     (m_switchScreen s' = None \<or> m_switchScreen s' = m_switchScreen s \<or> m_switchScreen s' \<in> Some ` T) \<and> (wait_ok s \<longrightarrow> wait_ok s')"

lemma keeps_refl [simp]: "keeps T s s"
  by (simp add: keeps_def)

lemma keeps_trans: "keeps T s s' \<Longrightarrow> keeps T s' s'' \<Longrightarrow> keeps T s s''"
  by (auto simp: keeps_def)

lemma keeps_mono: "keeps T s s' \<Longrightarrow> T \<subseteq> T' \<Longrightarrow> keeps T' s s'"
  by (auto simp: keeps_def)

named_theorems keeps_intros \<open>steps that keep the screens\<close>

lemma keeps_fields:
  "screens_part s' = screens_part s \<Longrightarrow> m_active s' = m_active s \<Longrightarrow> m_switchWaitTimer s' = m_switchWaitTimer s \<Longrightarrow>
   m_switchScreen s' = m_switchScreen s \<Longrightarrow> keeps T s s'"
  by (simp add: keeps_def wait_ok_def)

lemma keeps_updates [keeps_intros]:
  "keeps T s (emit k s)" "keeps T s (record_position p s)" "keeps T s (stopSwitchTwoTap s)" "keeps T s (startSwitchTwoTap s)"
  "keeps T s (set_clipboard_info i info s)" "keeps T s (fork_lockStateChanged b s)"
  "keeps T s (s\<lparr>calls := cs\<rparr>)" "keeps T s (s\<lparr>m_x := x, m_y := y\<rparr>)"
  by (rule keeps_fields; simp add: screens_part_def emit_def record_position_def stopSwitchTwoTap_def startSwitchTwoTap_def
      set_clipboard_info_def fork_lockStateChanged_def)+

lemma keeps_stopSwitchWait [keeps_intros]: "keeps T s (stopSwitchWait s)"
  by (simp add: stopSwitchWait_def keeps_def screens_part_def wait_ok_def emit_def)

lemma keeps_stopSwitch [keeps_intros]: "keeps T s (stopSwitch s)"
  by (simp add: stopSwitch_def stopSwitchWait_def stopSwitchTwoTap_def keeps_def screens_part_def wait_ok_def emit_def)

lemma keeps_armSwitchTwoTap [keeps_intros]: "keeps T s (armSwitchTwoTap w x y s)"
proof -
  have a: "keeps T s (s\<lparr>m_switchTwoTapArmed := b\<rparr>)" for b by (rule keeps_fields) (simp_all add: screens_part_def)
  show ?thesis
    unfolding armSwitchTwoTap_def Let_def by (simp add: a keeps_updates split: EDirection.split)
qed

lemma keeps_noSwitch [keeps_intros]: "keeps T s (noSwitch w x y s)"
  unfolding noSwitch_def by (rule keeps_trans [OF keeps_armSwitchTwoTap keeps_stopSwitchWait])

lemma keeps_clear_wait [keeps_intros]: "keeps T s (clear_wait w s)"
  unfolding clear_wait_def Let_def by (simp add: keeps_noSwitch)

lemma keeps_fork_dimScreenAll [keeps_intros]: "keeps T s (fork_dimScreenAll s)"
proof -
  have "keeps T s (fork_lockStateChanged True (s\<lparr>calls := cs\<rparr>))" for cs
    by (rule keeps_trans [OF keeps_updates(7) keeps_updates(6)])
  then show ?thesis unfolding fork_dimScreenAll_def Let_def by (simp add: keeps_updates)
qed

lemma keeps_stopRelativeMoves [keeps_intros]: "keeps T s (stopRelativeMoves w s)"
  unfolding stopRelativeMoves_def Let_def by (simp add: keeps_trans [OF keeps_updates(2) keeps_updates(1)])

lemma keeps_isSwitchOkay:
  assumes "set_option n \<subseteq> T"
  shows "keeps T s (snd (isSwitchOkay w n dir x y xa ya s))"
proof -
  have start: "m_switchScreen s' \<noteq> None \<Longrightarrow> keeps T s s' \<Longrightarrow> keeps T s (if b then startSwitchWait x y s' else s') \<and>
      m_switchScreen (if b then startSwitchWait x y s' else s') \<noteq> None" for s' b
    by (simp add: keeps_def screens_part_def wait_ok_def startSwitchWait_def stopSwitchWait_def emit_def)
  have tap: "keeps T s (if b then startSwitchTwoTap s' else s') \<and> m_switchScreen (if b then startSwitchTwoTap s' else s') = m_switchScreen s'"
    if "keeps T s s'" for s' b
    using that by (auto simp: keeps_def screens_part_def wait_ok_def startSwitchTwoTap_def)
  have stop: "keeps T s (if b then stopSwitch s' else s')" if "keeps T s s'" for s' b
    using that keeps_trans [OF that keeps_stopSwitch] by simp
  show ?thesis
  proof (cases n)
    case None
    then show ?thesis by (simp add: isSwitchOkay_def keeps_stopSwitch)
  next
    case (Some c)
    define s1 where "s1 = (if dir \<noteq> m_switchDir s \<or> m_switchScreen s = None then s\<lparr>m_switchDir := dir, m_switchScreen := n\<rparr> else s)"
    define firstTap where "firstTap = (dir \<noteq> m_switchDir s \<or> \<not> m_switchTwoTapEngaged s1 \<or> \<not> shouldSwitchTwoTap w s1)"
    define s2 where "s2 = (if 0 < m_switchTwoTapDelay s1 \<and> firstTap then startSwitchTwoTap s1 else s1)"
    define wait where "wait = (\<not> (0 < m_switchTwoTapDelay s1 \<and> \<not> firstTap) \<and> 0 < m_switchWaitDelay s2)"
    define s3 where "s3 = (if wait \<and> (dir \<noteq> m_switchDir s \<or> \<not> m_switchWaitTimer s2) then startSwitchWait x y s2 else s2)"
    define s4 where "s4 = (if inLockedCorner w s3 xa ya then stopSwitch s3 else s3)"
    define prevent where "prevent = (0 < m_switchTwoTapDelay s1 \<and> firstTap \<or> wait \<or> inLockedCorner w s3 xa ya)"
    define s5 where "s5 = (if \<not> prevent \<and> isLockedToScreen w s4 then stopSwitch s4 else s4)"
    have r: "snd (isSwitchOkay w n dir x y xa ya s) =
        (if \<not> (prevent \<or> (\<not> prevent \<and> isLockedToScreen w s4)) \<and> needsModifiers w s5 then stopSwitch s5 else s5)"
      unfolding isSwitchOkay_def Let_def s1_def [symmetric] firstTap_def [symmetric] s2_def [symmetric] wait_def [symmetric]
        s3_def [symmetric] s4_def [symmetric] prevent_def [symmetric] s5_def [symmetric] using Some by simp
    have k1: "keeps T s s1" "m_switchScreen s1 \<noteq> None" using Some assms by (simp_all add: s1_def keeps_def screens_part_def wait_ok_def)
    have k2: "keeps T s s2" "m_switchScreen s2 \<noteq> None" using tap [OF k1(1)] k1(2) by (simp_all add: s2_def)
    have k3: "keeps T s s3" using start [OF k2(2,1)] by (simp add: s3_def)
    have k5: "keeps T s s5" unfolding s5_def s4_def by (intro stop k3)
    show ?thesis unfolding r by (rule stop [OF k5])
  qed
qed

lemma keeps_onClipboardChanged: "onClipboardChanged w c i q s = Some s' \<Longrightarrow> keeps T s s'"
  by (auto simp: onClipboardChanged_def Let_def keeps_updates split: if_splits option.splits prod.splits
      intro!: keeps_trans [OF keeps_updates(5) keeps_updates(7)])

lemma keeps_update_primary: "update_primary_clipboards w is s = Some s' \<Longrightarrow> keeps T s s'"
proof (induction w "is" s rule: update_primary_clipboards.induct)
  case (2 w i "is" s)
  show ?case
  proof (cases "m_clipboardOwner (m_clipboards s i) = getName w s (m_primaryClient s)")
    case True
    with 2(3) obtain s1 where "onClipboardChanged w (m_primaryClient s) i (m_clipboardSeqNum (m_clipboards s i)) s = Some s1"
      "update_primary_clipboards w is s1 = Some s'" by (auto simp: Let_def split: option.splits)
    with 2(1) [OF refl True] keeps_onClipboardChanged keeps_trans show ?thesis by blast
  next
    case False
    with 2 show ?thesis by (simp add: Let_def)
  qed
qed simp

lemma keeps_send_clipboards: "send_clipboards is s = Some s' \<Longrightarrow> keeps T s s'"
proof (induction "is" arbitrary: s)
  case (Cons i "is")
  from Cons.prems obtain data c where m: "cb_marshall (m_clipboard (m_clipboards s i)) = Some (data, c)"
    by (auto split: option.splits)
  let ?s1 = "set_clipboard_info i ((m_clipboards s i)\<lparr>m_clipboard := c\<rparr>) s"
  have "keeps T s (if m_maximumClipboardSize ?s1 < length data then ?s1 else emit (SetClipboard (m_active ?s1) i data) ?s1)"
    by (simp add: keeps_updates keeps_trans [OF keeps_updates(5) keeps_updates(1)])
  with Cons m show ?case by (auto simp: Let_def intro: keeps_trans)
qed simp

lemma keeps_enter: "keeps {dst} s (s\<lparr>m_active := dst, m_seqNum := n\<rparr>)"
  by (simp add: keeps_def screens_part_def wait_ok_def)

lemma keeps_optional:
  "keeps T s t \<Longrightarrow> (if b then f t else Some t) = Some u \<Longrightarrow> (\<And>u. f t = Some u \<Longrightarrow> keeps T t u) \<Longrightarrow> keeps T s u"
  by (cases b) (auto intro: keeps_trans)

lemma keeps_enter_screen: "enter_screen w dst p b s = Some s' \<Longrightarrow> keeps {dst} s s'"
proof -
  let ?s2 = "emit (Enter dst (fst p) (snd p) (m_seqNum s + 1) (w_toggleMask w) b) (s\<lparr>m_active := dst, m_seqNum := m_seqNum s + 1\<rparr>)"
  assume "enter_screen w dst p b s = Some s'"
  then obtain s3 where s3: "(if m_enableClipboard ?s2 then send_clipboards clipboard_ids ?s2 else Some ?s2) = Some s3"
    and s': "s' = emit (Switched (w_name w dst)) (fork_dimScreenAll s3)"
    by (auto simp: enter_screen_def Let_def split del: if_split)
  have "keeps {dst} s ?s2" by (rule keeps_trans [OF keeps_enter keeps_updates(1)])
  then have "keeps {dst} s s3" using s3 by (rule keeps_optional) (rule keeps_send_clipboards)
  from keeps_trans [OF keeps_trans [OF this keeps_fork_dimScreenAll] keeps_updates(1)] show ?thesis unfolding s' .
qed

lemma keeps_leave_screen: "leave_screen w dst p b s = Some s' \<Longrightarrow> keeps {dst} s s'"
proof -
  let ?s1 = "emit (Leave (m_active s)) s"
  assume l: "leave_screen w dst p b s = Some s'"
  have k1: "keeps {dst} s ?s1" by (rule keeps_updates)
  show ?thesis
  proof (cases "w_leaves w (m_active s)")
    case False
    then show ?thesis using l k1 by (simp add: leave_screen_def Let_def)
  next
    case True
    with l obtain s2 where s2: "(if m_active ?s1 = m_primaryClient ?s1 \<and> m_enableClipboard ?s1
        then update_primary_clipboards w clipboard_ids ?s1 else Some ?s1) = Some s2" "enter_screen w dst p b s2 = Some s'"
      by (auto simp: leave_screen_def Let_def split: option.splits simp del: switch_fields split del: if_split)
    have "keeps {dst} s s2" using k1 s2(1) by (rule keeps_optional) (rule keeps_update_primary)
    then show ?thesis using keeps_trans keeps_enter_screen [OF s2(2)] by blast
  qed
qed

lemma keeps_switchScreen:
  assumes "switchScreen w dst p b s = Some s'"
  shows "keeps {dst} s s'"
proof -
  from assms obtain q where q: "fork_stayOnDisplays w s dst p p = Some q" "in_shape (w_shape w dst) q"
    by (auto simp: switchScreen_def split: option.splits if_splits)
  let ?s1 = "record_position q (stopSwitch s)"
  have k1: "keeps {dst} s ?s1" by (rule keeps_trans [OF keeps_stopSwitch keeps_updates(2)])
  show ?thesis
  proof (cases "m_active ?s1 = dst")
    case True
    then have "s' = emit (MouseMove dst (fst q) (snd q)) ?s1" using assms q by (simp add: switchScreen_def Let_def)
    then show ?thesis using keeps_trans [OF k1 keeps_updates(1)] by simp
  next
    case False
    then have "leave_screen w dst q b ?s1 = Some s'" using assms q by (simp add: switchScreen_def Let_def)
    from keeps_trans [OF k1 keeps_leave_screen [OF this]] show ?thesis .
  qed
qed

text \<open>The handlers that move the cursor go to connected screens only.\<close>

abbreviation present :: "server \<Rightarrow> screen_id set" where
  "present s \<equiv> {c. \<exists>n. find_client n s = Some c}"

lemma find_client_part: "screens_part s' = screens_part s \<Longrightarrow> find_client n s' = find_client n s"
  by (simp add: screens_part_def find_client_def)

lemma keeps_find_client: "keeps T s s' \<Longrightarrow> find_client n s' = find_client n s"
  unfolding keeps_def using find_client_part by blast

lemma isSwitchOkay_screen: "fst (isSwitchOkay w n dir x y xa ya s) \<Longrightarrow> n \<noteq> None"
proof
  assume "fst (isSwitchOkay w n dir x y xa ya s)" "n = None"
  then show False by (simp add: isSwitchOkay_def)
qed

lemma keeps_waitDrag: "keeps T s t \<Longrightarrow> keeps T s (t\<lparr>m_waitDragInfoThread := b\<rparr>)"
  by (simp add: keeps_def screens_part_def wait_ok_def)

lemma keeps_sendDrag: "keeps T s ((emit k s)\<lparr>m_sendDragInfoThread := b\<rparr>)"
  by (rule keeps_fields) (simp_all add: screens_part_def emit_def)

text \<open>The outcomes of trying one direction.\<close>

lemma try_direction_outcome:
  assumes "try_direction fl w dir p c s = Some (r, s')" "dir \<noteq> kNoDirection"
  obtains n q s1 where "mapToNeighbor fl w s (m_active s) dir p = Some (n, q)"
    "snd (isSwitchOkay w n dir (fst q) (snd q) (fst c) (snd c) s) = s1" "s' = s1"
  | dst q s1 k b where "mapToNeighbor fl w s (m_active s) dir p = Some (Some dst, q)"
    "snd (isSwitchOkay w (Some dst) dir (fst q) (snd q) (fst c) (snd c) s) = s1"
    "s' = (emit k s1)\<lparr>m_sendDragInfoThread := b\<rparr>"
  | dst q s1 s2 b where "mapToNeighbor fl w s (m_active s) dir p = Some (Some dst, q)"
    "snd (isSwitchOkay w (Some dst) dir (fst q) (snd q) (fst c) (snd c) s) = s1"
    "switchScreen w dst q False s1 = Some s2" "s' = s2\<lparr>m_waitDragInfoThread := b\<rparr>"
proof (cases "mapToNeighbor fl w s (m_active s) dir p")
  case None
  then show ?thesis using assms by (simp add: try_direction_def)
next
  case (Some a)
  obtain n q where a: "a = (n, q)" by (cases a)
  obtain ok s1 where i: "isSwitchOkay w n dir (fst q) (snd q) (fst c) (snd c) s = (ok, s1)" by fastforce
  show ?thesis
  proof (cases ok)
    case False
    then have "s' = s1" using assms Some a i by (simp add: try_direction_def)
    then show ?thesis using that(1) Some a i by simp
  next
    case True
    with i isSwitchOkay_screen obtain dst where n: "n = Some dst" by (metis fst_conv not_None_eq)
    show ?thesis
    proof (cases "w_dragging w \<and> m_active s1 \<noteq> dst \<and> m_waitDragInfoThread s1")
      case drag: True
      with assms Some a i True n have "s' = (if m_sendDragInfoThread s1 then s1 else (emit (SendDragInfo dst) s1)\<lparr>m_sendDragInfoThread := True\<rparr>)"
        by (simp add: try_direction_def)
      then show ?thesis using that(1) that(2) Some a i n by (cases "m_sendDragInfoThread s1") simp_all
    next
      case False
      with assms Some a i True n obtain s2 where "switchScreen w dst q False s1 = Some s2" "s' = s2\<lparr>m_waitDragInfoThread := True\<rparr>"
        by (auto simp: try_direction_def)
      then show ?thesis using that(3) Some a i n by simp
    qed
  qed
qed

lemma keeps_try_direction:
  assumes "try_direction fl w dir p c s = Some (r, s')"
  shows "keeps (present s) s s'"
proof (cases "dir = kNoDirection")
  case True
  then show ?thesis using assms by (simp add: try_direction_def)
next
  case False
  with assms show ?thesis
  proof (cases rule: try_direction_outcome)
    case (1 n q s1)
    have "set_option n \<subseteq> present s" using mapToNeighbor_connected [of fl w s "m_active s" dir p _ q] 1(1) by (cases n) auto
    from keeps_isSwitchOkay [OF this] 1(2,3) show ?thesis by blast
  next
    case (2 dst q s1 k b)
    have "set_option (Some dst) \<subseteq> present s" using mapToNeighbor_connected [OF 2(1)] by simp
    from keeps_trans [OF keeps_isSwitchOkay [OF this] keeps_sendDrag] 2(2,3) show ?thesis by blast
  next
    case (3 dst q s1 s2 b)
    have c: "{dst} \<subseteq> present s" "set_option (Some dst) \<subseteq> present s" using mapToNeighbor_connected [OF 3(1)] by simp_all
    from keeps_mono [OF keeps_switchScreen [OF 3(3)] c(1)] 3(2) have "keeps (present s) s s2"
      using keeps_trans [OF keeps_isSwitchOkay [OF c(2)]] by blast
    then show ?thesis unfolding 3(4) by (rule keeps_waitDrag)
  qed
qed

lemma keeps_same_present: "keeps T s s' \<Longrightarrow> present s' = present s"
  by (simp add: keeps_find_client)

lemma keeps_present_trans:
  assumes "keeps (present s) s s1" "keeps (present s1) s1 s2"
  shows "keeps (present s) s s2"
  using keeps_trans [OF assms(1)] assms(2) unfolding keeps_same_present [OF assms(1)] .

lemma keeps_try_directions:
  assumes "try_directions fl w dh ph dv pv c s = Some (r, s')"
  shows "keeps (present s) s s'"
proof -
  from assms obtain r1 s1 where 1: "try_direction fl w dh ph c s = Some (r1, s1)"
    by (auto simp: try_directions_def split: option.splits)
  show ?thesis
  proof (cases r1)
    case (Some d)
    then show ?thesis using assms 1 keeps_try_direction [OF 1] by (simp add: try_directions_def)
  next
    case None
    with assms 1 obtain r2 where "try_direction fl w dv pv c s1 = Some (r2, s')"
      by (auto simp: try_directions_def split: option.splits)
    from keeps_present_trans [OF keeps_try_direction [OF 1] keeps_try_direction [OF this]] show ?thesis .
  qed
qed

lemma keeps_onMouseMovePrimary:
  assumes "onMouseMovePrimary fl w x y s = Some (r, s')"
  shows "keeps (present s) s s'"
proof (cases "m_active s = m_primaryClient s")
  case False
  then show ?thesis using assms by (simp add: onMouseMovePrimary_def)
next
  case True
  let ?s1 = "s\<lparr>m_xDelta2 := m_xDelta s, m_yDelta2 := m_yDelta s, m_xDelta := x - m_x s, m_yDelta := y - m_y s, m_x := x, m_y := y\<rparr>"
  have k1: "keeps (present s) s ?s1" by (rule keeps_fields) (simp_all add: screens_part_def)
  have "(\<exists>x' y'. s' = noSwitch w x' y' ?s1) \<or> (\<exists>dh ph dv pv c. try_directions fl w dh ph dv pv c ?s1 = Some (r, s'))"
    using assms True unfolding onMouseMovePrimary_def Let_def case_prod_beta by (simp only: not_True_eq_False if_False split: if_split_asm) blast+
  then show ?thesis
    using keeps_present_trans [OF k1 keeps_noSwitch] keeps_present_trans [OF k1 keeps_try_directions] by blast
qed

lemma keeps_stay_on_screen:
  assumes "stay_on_screen w old dx dy s = Some s'"
  shows "keeps T s s'"
proof -
  from assms obtain q k where "s' = (if q \<noteq> old then emit k (s\<lparr>m_x := fst q, m_y := snd q\<rparr>) else s\<lparr>m_x := fst q, m_y := snd q\<rparr>)"
    unfolding stay_on_screen_def Let_def map_option_eq_Some by blast
  then show ?thesis using keeps_trans [OF keeps_updates(8) keeps_updates(1)] keeps_updates(8) by metis
qed

lemma keeps_interruptFile: "keeps T s (if b then (emit InterruptFile s)\<lparr>m_sendFileThread := False\<rparr> else s)"
  by (cases b) (auto intro!: keeps_fields simp: screens_part_def emit_def)

text \<open>The last part of the handler, after the screen beyond the edge was found.\<close>

lemma keeps_cross:
  assumes "(case isSwitchOkay w n dir xa ya xb yb s of
      (False, s3) \<Rightarrow> stay_on_screen w old dx dy s3
    | (True, s3) \<Rightarrow>
        (case n of None \<Rightarrow> None
         | Some dst \<Rightarrow>
             let s4 = (if m_sendFileThread s3 then (emit InterruptFile s3)\<lparr>m_sendFileThread := False\<rparr> else s3)
             in switchScreen w dst (m_x s4, m_y s4) False s4)) = Some s'" (is "?e = _")
    and n: "set_option n \<subseteq> T"
  shows "keeps T s s'"
proof -
  obtain ok s3 where i: "isSwitchOkay w n dir xa ya xb yb s = (ok, s3)" by fastforce
  have k: "keeps T s s3" using keeps_isSwitchOkay [OF n, of s w dir xa ya xb yb] i by simp
  show ?thesis
  proof (cases ok)
    case False
    then show ?thesis using assms(1) i keeps_trans [OF k keeps_stay_on_screen] by simp
  next
    case True
    with assms(1) i obtain dst where d: "n = Some dst" by (cases n) auto
    let ?s4 = "if m_sendFileThread s3 then (emit InterruptFile s3)\<lparr>m_sendFileThread := False\<rparr> else s3"
    have "switchScreen w dst (m_x ?s4, m_y ?s4) False ?s4 = Some s'" using assms(1) i True d by (simp only: Let_def prod.case bool.case option.case)
    from keeps_mono [OF keeps_switchScreen [OF this]] n d have "keeps T ?s4 s'" by auto
    with keeps_trans [OF k keeps_interruptFile] show ?thesis by (rule keeps_trans)
  qed
qed

lemma keeps_onMouseMoveSecondary:
  assumes "onMouseMoveSecondary fl w dx dy s = Some s'"
  shows "keeps (present s) s s'"
proof (cases "m_active s = m_primaryClient s \<or> m_relativeMoves s \<and> m_lockedToScreen s")
  case True
  then have "s' = s \<or> s' = emit (MouseRelativeMove (m_active s) dx dy) s"
    using assms by (auto simp: onMouseMoveSecondary_def split: if_splits)
  then show ?thesis using keeps_updates(1) by auto
next
  case False
  then have f: "\<not> m_active s = m_primaryClient s" "\<not> (m_relativeMoves s \<and> m_lockedToScreen s)" by auto
  note e = assms [unfolded onMouseMoveSecondary_def Let_def if_not_P [OF f(1)] if_not_P [OF f(2)]]
  let ?s1 = "s\<lparr>m_xDelta2 := m_xDelta s, m_yDelta2 := m_yDelta s, m_xDelta := dx, m_yDelta := dy\<rparr>"
  obtain p where p: "fork_leaveDisplays w ?s1 (m_active ?s1) (m_x s, m_y s) (m_x ?s1 + dx, m_y ?s1 + dy) = Some p"
    using e by (cases "fork_leaveDisplays w ?s1 (m_active ?s1) (m_x s, m_y s) (m_x ?s1 + dx, m_y ?s1 + dy)")
      (simp_all only: option.case option.distinct)
  note e = e [unfolded p option.case]
  let ?s2 = "?s1\<lparr>m_x := fst p, m_y := snd p\<rparr>"
  have k2: "keeps (present s) s ?s2" by (rule keeps_fields) (simp_all add: screens_part_def)
  let ?dir = "exit_side (w_shape w (m_active ?s1)) p"
  show ?thesis
  proof (cases "?dir = kNoDirection")
    case True
    then have "stay_on_screen w (m_x s, m_y s) dx dy (clear_wait w ?s2) = Some s'"
      using e by simp
    from keeps_trans [OF keeps_trans [OF k2 keeps_clear_wait] keeps_stay_on_screen [OF this]] show ?thesis .
  next
    case d: False
    note e = e [unfolded if_not_P [OF d]]
    obtain n q where m: "mapToNeighbor fl w ?s2 (m_active ?s2) ?dir p = Some (n, q)"
      using e by (cases "mapToNeighbor fl w ?s2 (m_active ?s2) ?dir p") (auto split: option.splits)
    have k3: "keeps (present s) s (?s2\<lparr>m_x := fst q, m_y := snd q\<rparr>)" by (rule keeps_trans [OF k2 keeps_updates(8)])
    have "set_option n \<subseteq> present ?s2" using mapToNeighbor_connected [of fl w ?s2 "m_active ?s2" ?dir p _ q] m by (cases n) auto
    then have n: "set_option n \<subseteq> present s" unfolding keeps_same_present [OF k2] .
    show ?thesis
      using keeps_trans [OF k3 keeps_cross [OF _ n]] e unfolding m option.case prod.case Let_def by blast
  qed
qed

lemma keeps_jumpToScreen:
  assumes "jumpToScreen w c s = Some s'"
  shows "keeps {c} s s'"
proof -
  let ?s1 = "s\<lparr>jump_pos := (jump_pos s)(m_active s := (m_x s, m_y s))\<rparr>"
  have "keeps {c} s ?s1" by (rule keeps_fields) (simp_all add: screens_part_def)
  with keeps_switchScreen [OF assms [unfolded jumpToScreen_def Let_def]] show ?thesis using keeps_trans by blast
qed

lemma keeps_switch_to_screen:
  assumes "handle_switch_to_screen_event w screen s = Some s'"
  shows "keeps (present s) s s'"
proof (cases "find_client screen s")
  case None
  then show ?thesis using assms by (simp add: handle_switch_to_screen_event_def)
next
  case (Some c)
  then show ?thesis using assms keeps_mono [OF keeps_jumpToScreen, of w c s s' "present s"]
    by (auto simp: handle_switch_to_screen_event_def)
qed

lemma keeps_switch_in_direction:
  assumes "handle_switch_in_direction_event fl w dir s = Some s'"
  shows "keeps (present s) s s'"
proof (cases "getNeighbor_server fl w s (m_active s) dir (m_x s, m_y s)")
  case None
  then show ?thesis using assms by (simp add: handle_switch_in_direction_event_def)
next
  case (Some a)
  then show ?thesis using assms keeps_mono [OF keeps_jumpToScreen, of w _ s s' "present s"]
      getNeighbor_server_along [of fl w s "m_active s" dir "(m_x s, m_y s)"]
    by (cases a) (auto simp: handle_switch_in_direction_event_def)
qed

lemma keeps_handle_shape_changed:
  assumes "handle_shape_changed fl w c s = Some s'"
  shows "keeps (present s) s s'"
proof (cases "c \<in> m_clientSet s")
  case False
  then show ?thesis using assms by (simp add: handle_shape_changed_def)
next
  case True
  let ?s1 = "s\<lparr>jump_pos := (jump_pos s)(c := w_cursor w c)\<rparr>"
  let ?s2 = "if c = m_active ?s1 then ?s1\<lparr>m_x := fst (w_cursor w c), m_y := snd (w_cursor w c)\<rparr> else ?s1"
  have k: "keeps (present s) s ?s2" by (rule keeps_fields) (simp_all add: screens_part_def)
  have "s' = ?s2 \<or> (\<exists>x y r. onMouseMovePrimary fl w x y ?s2 = Some (r, s')) \<or> onMouseMoveSecondary fl w 0 0 ?s2 = Some s'"
    using assms True unfolding handle_shape_changed_def Let_def
    by (simp only: not_True_eq_False if_False split: if_split_asm) auto
  then show ?thesis
    using k keeps_present_trans [OF k keeps_onMouseMovePrimary] keeps_present_trans [OF k keeps_onMouseMoveSecondary] by blast
qed

end
