(* ===== verification/ServerInvariant.thy ===== *)
theory ServerInvariant
  imports ServerClients
begin

text \<open>
  The invariant of the server's list of screens over every sequence of its event handlers, with the
  screens that it may still refer to after they were removed, and what happens when the screen that
  the cursor is about to enter disconnects.
\<close>

section \<open>The invariant\<close>

text \<open>
  \<open>D\<close> holds the removed screens that the server may still refer to: the one with the cursor, the one
  that had it when the screen saver came on, or the one the cursor waits to enter.
\<close>

definition server_inv :: "world \<Rightarrow> screen_id set \<Rightarrow> server \<Rightarrow> bool" where
  "server_inv w D s \<longleftrightarrow>
     strs.ordered (m_clients s) \<and>
     (\<forall>e\<in>set (m_clients s). fst e = getName w s (snd e)) \<and>
     snd ` set (m_clients s) = m_clientSet s \<and>
     m_primaryClient s \<in> m_clientSet s \<and> m_active s \<in> m_clientSet s \<union> D \<and>
     set_option (m_activeSaver s) \<subseteq> m_clientSet s \<union> D \<and> set_option (m_switchScreen s) \<subseteq> m_clientSet s \<union> D \<and>
     set (m_oldClients s) \<inter> m_clientSet s = {} \<and> wait_ok s"

lemma server_inv_mono: "server_inv w D s \<Longrightarrow> D \<subseteq> D' \<Longrightarrow> server_inv w D' s"
  unfolding server_inv_def by blast

text \<open>
  The screens whose removal goes unnoticed: the one the cursor waits to enter, and the one it is on
  while the screen saver runs, unless it was there when the screen saver came on.
\<close>

definition exposed :: "server \<Rightarrow> screen_id set" where
  "exposed s = set_option (m_switchScreen s) \<union> (case m_activeSaver s of None \<Rightarrow> {} | Some a \<Rightarrow> {m_active s} - {a})"

lemma exposed_fields:
  "m_switchScreen s' = m_switchScreen s \<Longrightarrow> m_activeSaver s' = m_activeSaver s \<Longrightarrow> m_active s' = m_active s \<Longrightarrow> exposed s' = exposed s"
  unfolding exposed_def by (cases "m_activeSaver s") simp_all

lemma getName_same: "w_name w' = w_name w \<Longrightarrow> m_config s' = m_config s \<Longrightarrow> getName w' s' c = getName w s c"
  by (simp add: getName_def Let_def)

lemma server_inv_world: "w_name w' = w_name w \<Longrightarrow> server_inv w' D s \<longleftrightarrow> server_inv w D s"
  by (simp add: server_inv_def getName_same [of w' w s s])

lemma inv_present: "server_inv w D s \<Longrightarrow> present s \<subseteq> m_clientSet s"
proof
  fix c
  assume i: "server_inv w D s" and "c \<in> present s"
  then obtain n a where "(a, c) \<in> set (m_clients s)" by (auto simp: find_client_def dest!: smap_find_in)
  then have "c \<in> snd ` set (m_clients s)" by force
  with i show "c \<in> m_clientSet s" by (simp add: server_inv_def)
qed

lemma inv_keeps:
  assumes "server_inv w D s" "keeps T s s'" "T \<subseteq> m_clientSet s \<union> D"
  shows "server_inv w D s'"
proof -
  have f: "m_clients s' = m_clients s" "m_clientSet s' = m_clientSet s" "m_primaryClient s' = m_primaryClient s"
    "m_config s' = m_config s" "m_activeSaver s' = m_activeSaver s" "m_oldClients s' = m_oldClients s"
    using assms(2) by (simp_all add: keeps_def screens_part_def)
  have "m_active s' \<in> m_clientSet s \<union> D" "set_option (m_switchScreen s') \<subseteq> m_clientSet s \<union> D" "wait_ok s'"
    using assms by (auto simp: keeps_def server_inv_def)
  then show ?thesis using assms(1) unfolding server_inv_def f getName_same [OF refl f(4)] by blast
qed

lemma inv_keeps_present: "server_inv w D s \<Longrightarrow> keeps (present s) s s' \<Longrightarrow> server_inv w D s'"
  using inv_keeps inv_present by blast

lemma inv_keeps_here: "server_inv w D s \<Longrightarrow> keeps {} s s' \<Longrightarrow> server_inv w D s'"
  using inv_keeps by blast

section \<open>Screens come and go\<close>

lemma inv_client_entry: "server_inv w D s \<Longrightarrow> c \<in> m_clientSet s \<longleftrightarrow> (getName w s c, c) \<in> set (m_clients s)"
proof
  assume i: "server_inv w D s" and "c \<in> m_clientSet s"
  then obtain e where "e \<in> set (m_clients s)" "snd e = c" unfolding server_inv_def by (metis imageE)
  with i show "(getName w s c, c) \<in> set (m_clients s)" unfolding server_inv_def by (metis prod.collapse)
next
  assume i: "server_inv w D s" and "(getName w s c, c) \<in> set (m_clients s)"
  then have "c \<in> snd ` set (m_clients s)" by force
  with i show "c \<in> m_clientSet s" unfolding server_inv_def by blast
qed

lemma inv_addClient:
  assumes "server_inv w D s" "addClient w c s = (True, s')" "c \<notin> set (m_oldClients s)"
  shows "server_inv w D s'"
proof -
  have n: "smap_find str_less (getName w s c) (m_clients s) = None"
    using assms(2) by (cases "smap_find str_less (getName w s c) (m_clients s)") (simp_all add: addClient_def find_client_def Let_def)
  let ?s1 = "s\<lparr>m_clientSet := insert c (m_clientSet s), m_clients := smap_insert str_less (getName w s c) c (m_clients s),
      jump_pos := (jump_pos s)(c := w_cursor w c)\<rparr>"
  have s': "s' = emit (Reconfigure (getActivePrimarySides w ?s1)) ?s1"
    using assms(2) by (auto simp: addClient_def Let_def split: if_splits)
  have "server_inv w D ?s1"
    using assms(1,3) n strs.set_insert [of "m_clients s" "getName w s c" c]
    by (auto simp: server_inv_def wait_ok_def getName_same [OF refl, of ?s1 s])
  then show ?thesis unfolding s' by (rule inv_keeps_here [OF _ keeps_updates(1)])
qed

lemma erase_client:
  assumes "server_inv w D s" "c \<in> m_clientSet s"
  shows "set (smap_erase str_less (getName w s c) (m_clients s)) = {e \<in> set (m_clients s). snd e \<noteq> c}"
proof -
  have o: "strs.ordered (m_clients s)" and i: "\<forall>e\<in>set (m_clients s). fst e = getName w s (snd e)"
    using assms(1) by (auto simp: server_inv_def)
  have m: "(getName w s c, c) \<in> set (m_clients s)" using assms inv_client_entry by blast
  have "fst e = getName w s c \<longleftrightarrow> snd e = c" if "e \<in> set (m_clients s)" for e
    using that i strs.unique [OF o m, of "fst e" "snd e"] by (metis prod.collapse)
  then show ?thesis unfolding strs.set_erase [OF o] str_key_inj by auto
qed

lemma removeClient_inv:
  assumes "server_inv w D s" "c \<noteq> m_primaryClient s"
  shows "server_inv w (insert c D) (snd (removeClient w c s)) \<and> c \<notin> m_clientSet (snd (removeClient w c s))"
proof (cases "c \<in> m_clientSet s")
  case False
  then show ?thesis using server_inv_mono [OF assms(1)] by (auto simp: removeClient_def)
next
  case True
  let ?s = "s\<lparr>m_clients := smap_erase str_less (getName w s c) (m_clients s), m_clientSet := m_clientSet s - {c}\<rparr>"
  have "server_inv w (insert c D) ?s"
    using assms erase_client [OF assms(1) True]
    by (auto simp: server_inv_def wait_ok_def getName_same [OF refl, of ?s s])
  then show ?thesis using True by (simp add: removeClient_def)
qed

lemma forceLeaveClient_fields:
  fixes w c s
  defines "s' \<equiv> forceLeaveClient w c s" and "active \<equiv> (case m_activeSaver s of None \<Rightarrow> m_active s | Some a \<Rightarrow> a)"
  assumes "wait_ok s"
  shows "m_clients s' = m_clients s" "m_clientSet s' = m_clientSet s" "m_primaryClient s' = m_primaryClient s"
    "m_config s' = m_config s" "m_oldClients s' = m_oldClients s"
    "m_activeSaver s' = (if m_activeSaver s = Some c then None else m_activeSaver s)"
    "m_active s' = (if active = c then m_primaryClient s else m_active s)"
    "m_switchScreen s' = None \<or> m_switchScreen s' = m_switchScreen s" "wait_ok s'"
proof -
  define s2 where "s2 = (let s1 = s\<lparr>m_x := fst (w_center w), m_y := snd (w_center w)\<rparr>
    in if m_switchScreen s1 = Some active then stopSwitch s1 else s1)"
  define s3 where "s3 = s2\<lparr>m_active := m_primaryClient s2\<rparr>"
  define s4 where "s4 = (if active = c then
      emit (Switched (w_name w (m_active s3)))
        (if m_activeSaver s3 = None
         then emit (Enter (m_primaryClient s3) (m_x s3) (m_y s3) (m_seqNum s3) (w_toggleMask w) False) s3 else s3)
      else s)"
  define s5 where "s5 = (if m_activeSaver s4 = Some c then s4\<lparr>m_activeSaver := None\<rparr> else s4)"
  have r: "s' = emit (Reconfigure (getActivePrimarySides w s5)) s5"
    unfolding assms(1,2) forceLeaveClient_def s5_def s4_def s3_def s2_def Let_def by (rule refl)
  have k2: "keeps {} s s2" unfolding s2_def Let_def using keeps_trans [OF keeps_updates(8) keeps_stopSwitch] keeps_updates(8) by simp
  have f2: "screens_part s2 = screens_part s" "wait_ok s2" "m_switchScreen s2 = None \<or> m_switchScreen s2 = m_switchScreen s"
    using k2 assms(3) by (auto simp: keeps_def)
  have f4: "screens_part s4 = screens_part s" "m_switchScreen s4 = None \<or> m_switchScreen s4 = m_switchScreen s" "wait_ok s4"
    "m_active s4 = (if active = c then m_primaryClient s else m_active s)"
    using f2 assms(3) by (auto simp: s4_def s3_def screens_part_def emit_def wait_ok_def)
  show "m_clients s' = m_clients s" "m_clientSet s' = m_clientSet s" "m_primaryClient s' = m_primaryClient s"
    "m_config s' = m_config s" "m_oldClients s' = m_oldClients s"
    "m_activeSaver s' = (if m_activeSaver s = Some c then None else m_activeSaver s)"
    "m_active s' = (if active = c then m_primaryClient s else m_active s)"
    "m_switchScreen s' = None \<or> m_switchScreen s' = m_switchScreen s" "wait_ok s'"
    using f4 by (simp_all add: r s5_def screens_part_def wait_ok_def emit_def)
qed

lemma inv_exposed: "server_inv w D s \<Longrightarrow> exposed s \<subseteq> m_clientSet s \<union> D"
  by (auto simp: server_inv_def exposed_def split: option.splits)

text \<open>
  After the removal the server is made to leave the screen. It no longer refers to it then, unless
  the screen was exposed.
\<close>

lemma forceLeaveClient_inv:
  assumes "server_inv w (insert c D) s" "c \<notin> m_clientSet s"
  shows "server_inv w (D \<union> exposed s \<inter> {c}) (forceLeaveClient w c s)"
proof -
  let ?s = "forceLeaveClient w c s"
  have "wait_ok s" using assms(1) by (simp add: server_inv_def)
  note f = forceLeaveClient_fields [OF this, of w c]
  have "set_option (m_activeSaver ?s) \<subseteq> m_clientSet s \<union> D" using f(6) assms(1) by (auto simp: server_inv_def)
  moreover have "m_active ?s \<in> m_clientSet s \<union> (D \<union> exposed s \<inter> {c})"
    using f(7) assms by (cases "m_activeSaver s") (auto simp: server_inv_def exposed_def)
  moreover have "set_option (m_switchScreen ?s) \<subseteq> m_clientSet s \<union> (D \<union> exposed s \<inter> {c})"
    using f(8) assms(1) by (auto simp: server_inv_def exposed_def)
  ultimately show ?thesis
    using assms(1) f(9) unfolding server_inv_def f(1-5) getName_same [OF refl f(4)] by simp blast
qed

lemma forceLeaveClient_exposed:
  assumes "wait_ok s"
  shows "exposed (forceLeaveClient w c s) \<subseteq> exposed s"
  using forceLeaveClient_fields [OF assms, of w c] by (auto simp: exposed_def split: option.splits)

lemma removeClient_fields:
  "m_active (snd (removeClient w c s)) = m_active s" "m_activeSaver (snd (removeClient w c s)) = m_activeSaver s"
  "m_switchScreen (snd (removeClient w c s)) = m_switchScreen s" "m_primaryClient (snd (removeClient w c s)) = m_primaryClient s"
  "m_oldClients (snd (removeClient w c s)) = m_oldClients s" "m_switchWaitTimer (snd (removeClient w c s)) = m_switchWaitTimer s"
  "m_clientSet (snd (removeClient w c s)) = m_clientSet s - {c}"
  by (simp_all add: removeClient_def)

lemma removeClient_exposed: "exposed (snd (removeClient w c s)) = exposed s"
  by (rule exposed_fields) (simp_all add: removeClient_fields)

lemma closeClient_inv:
  assumes "server_inv w D s" "c \<noteq> m_primaryClient s"
  shows "\<exists>s'. closeClient w c msg s = Some s' \<and> server_inv w (D \<union> exposed s \<inter> {c}) s' \<and> exposed s' \<subseteq> exposed s \<and>
    m_clientSet s' = m_clientSet s - {c} \<and> m_primaryClient s' = m_primaryClient s"
proof -
  let ?s1 = "emit NewTimer (emit (CloseScreen c msg) s)"
  let ?s2 = "snd (removeClient w c ?s1)"
  let ?s3 = "?s2\<lparr>m_oldClients := (if c \<in> set (m_oldClients ?s2) then m_oldClients ?s2 else c # m_oldClients ?s2)\<rparr>"
  have "server_inv w D ?s1" by (rule inv_keeps_here [OF assms(1) keeps_trans [OF keeps_updates(1) keeps_updates(1)]])
  moreover have "c \<noteq> m_primaryClient ?s1" using assms(2) by (simp add: emit_def)
  ultimately have 2: "server_inv w (insert c D) ?s2" "c \<notin> m_clientSet ?s2" using removeClient_inv by blast+
  have e: "exposed ?s3 = exposed s" by (rule exposed_fields) (simp_all add: removeClient_fields emit_def)
  have m: "m_clientSet ?s3 = m_clientSet s - {c}" "m_primaryClient ?s3 = m_primaryClient s" by (simp_all add: removeClient_fields emit_def)
  have 3: "server_inv w (insert c D) ?s3" "c \<notin> m_clientSet ?s3"
    using 2 by (auto simp: server_inv_def wait_ok_def getName_same [OF refl, of ?s3 ?s2])
  then have "wait_ok ?s3" by (simp add: server_inv_def)
  note f = forceLeaveClient_fields(2,3) [OF this, of w c] forceLeaveClient_exposed [OF this, of w c]
  have "closeClient w c msg s = Some (forceLeaveClient w c ?s3)" using assms(2) by (simp add: closeClient_def Let_def)
  with forceLeaveClient_inv [OF 3] f show ?thesis unfolding e m by blast
qed

text \<open>Several screens are closed one after the other; the first wait and the first screen saver decide.\<close>

lemma close_each_inv:
  assumes "server_inv w D s" "\<forall>c\<in>set cs. c \<noteq> m_primaryClient s"
  shows "\<exists>s'. close_each w cs s = Some s' \<and> server_inv w (D \<union> (exposed s - m_clientSet s')) s' \<and> m_clientSet s' \<subseteq> m_clientSet s"
  using assms
proof (induction cs arbitrary: s D)
  case Nil
  then show ?case using server_inv_mono by fastforce
next
  case (Cons c cs)
  from Cons.prems closeClient_inv [of w D s c "''CBYE''"] obtain s1 where s1: "closeClient w c ''CBYE'' s = Some s1"
    "server_inv w (D \<union> exposed s \<inter> {c}) s1" "exposed s1 \<subseteq> exposed s" "m_clientSet s1 = m_clientSet s - {c}"
    "m_primaryClient s1 = m_primaryClient s" by auto
  with Cons.IH [OF s1(2)] Cons.prems(2) obtain s' where s': "close_each w cs s1 = Some s'"
    "server_inv w (D \<union> exposed s \<inter> {c} \<union> (exposed s1 - m_clientSet s')) s'" "m_clientSet s' \<subseteq> m_clientSet s1" by auto
  have "server_inv w (D \<union> (exposed s - m_clientSet s')) s'"
    by (rule server_inv_mono [OF s'(2)]) (use s1(3,4) s'(3) in auto)
  then show ?case using s1(1,4) s'(1,3) by auto
qed

lemma closeClients_inv:
  "server_inv w D s \<Longrightarrow> \<exists>s'. closeClients w c s = Some s' \<and> server_inv w (D \<union> (exposed s - m_clientSet s')) s'"
proof -
  let ?cs = "sort (remdups (filter (\<lambda>k. k \<noteq> m_primaryClient s) (map snd (filter (\<lambda>(n, k). \<not> isCanonicalName n c) (m_clients s)))))"
  assume "server_inv w D s"
  moreover have "\<forall>k\<in>set ?cs. k \<noteq> m_primaryClient s" by simp
  ultimately show ?thesis unfolding closeClients_def using close_each_inv [of w D s ?cs] by blast
qed

lemma inv_update:
  assumes "server_inv w D s" "screens_part s' = screens_part s" "m_active s' = m_active s" "m_switchScreen s' = m_switchScreen s"
    "m_switchWaitTimer s' = m_switchWaitTimer s"
  shows "server_inv w D s'"
  using inv_keeps_here [OF assms(1) keeps_fields] assms(2-5) by blast

lemma removeActiveClient_inv:
  assumes "server_inv w D s" "c \<noteq> m_primaryClient s"
  shows "server_inv w (D \<union> (exposed s - m_clientSet (removeActiveClient w c s))) (removeActiveClient w c s)"
proof (cases "c \<in> m_clientSet s")
  case False
  then show ?thesis using server_inv_mono [OF assms(1)] by (simp add: removeActiveClient_def removeClient_def)
next
  case True
  obtain s1 where r: "removeClient w c s = (True, s1)" using True by (simp add: removeClient_def)
  have 1: "server_inv w (insert c D) s1" "c \<notin> m_clientSet s1" "exposed s1 = exposed s"
    using removeClient_inv [OF assms] removeClient_exposed [of w c s] r by simp_all
  let ?s2 = "forceLeaveClient w c s1"
  have "wait_ok s1" using 1(1) by (simp add: server_inv_def)
  then have m: "c \<notin> m_clientSet ?s2" using forceLeaveClient_fields(2) 1(2) by simp
  have e: "removeActiveClient w c s \<in> {?s2, emit Disconnected ?s2}" by (simp add: removeActiveClient_def r Let_def)
  then have "m_clientSet (removeActiveClient w c s) = m_clientSet ?s2" by (auto simp: emit_def)
  moreover have "server_inv w (D \<union> exposed s \<inter> {c}) ?s2" using forceLeaveClient_inv [OF 1(1,2)] 1(3) by simp
  then have "server_inv w (D \<union> exposed s \<inter> {c}) (removeActiveClient w c s)"
    using e inv_keeps_here [OF _ keeps_updates(1), of w _ ?s2] by auto
  ultimately show ?thesis using m by (elim server_inv_mono) auto
qed

lemma removeOldClient_inv:
  assumes "server_inv w D s"
  shows "server_inv w D (removeOldClient c s)"
proof (cases "c \<in> set (m_oldClients s)")
  case False
  then show ?thesis using assms by (simp add: removeOldClient_def)
next
  case True
  let ?s0 = "s\<lparr>m_oldClients := remove1 c (m_oldClients s)\<rparr>"
  have "server_inv w D ?s0" using assms set_remove1_subset [of c "m_oldClients s"]
    by (auto simp: server_inv_def wait_ok_def getName_same [OF refl, of ?s0 s])
  then show ?thesis using True inv_keeps_here [OF _ keeps_updates(1)] by (simp add: removeOldClient_def Let_def)
qed

lemma keeps_sendOptions: "keeps T s (sendOptions w c s)"
  unfolding sendOptions_def Let_def by (rule keeps_trans [OF keeps_updates(1) keeps_updates(1)])

lemma adoptClient_inv:
  assumes "server_inv w D s" "c \<notin> m_clientSet s" "c \<notin> set (m_oldClients s)"
  shows "\<exists>s'. adoptClient w c s = Some s' \<and> server_inv w D s'"
proof -
  have c: "c \<noteq> m_primaryClient s" using assms(1,2) by (auto simp: server_inv_def)
  have "D \<union> exposed s \<inter> {c} = D" using inv_exposed [OF assms(1)] assms(2) by auto
  with closeClient_inv [OF assms(1) c] have close: "\<exists>s'. closeClient w c msg s = Some s' \<and> server_inv w D s'" for msg by metis
  obtain ok s1 where a: "addClient w c s = (ok, s1)" by fastforce
  show ?thesis
  proof (cases "isScreen (w_name w c) (m_config s) \<and> ok")
    case False
    then show ?thesis using close [of "''EUNK''"] close [of "''EBSY''"] a by (cases ok) (simp_all add: adoptClient_def)
  next
    case True
    let ?s2 = "sendOptions w c s1"
    let ?s3 = "if m_activeSaver ?s2 \<noteq> None then emit (Screensaver c True) ?s2 else ?s2"
    let ?s4 = "if c \<noteq> m_active ?s3 then let s' = fork_dimScreenAll ?s3 in if m_lockedToScreen s' then emit (LockState c True) s' else s' else ?s3"
    have "keeps {} s1 ?s3" using keeps_sendOptions keeps_trans [OF keeps_sendOptions keeps_updates(1)] by simp
    moreover have "keeps {} ?s3 ?s4"
      using keeps_fork_dimScreenAll keeps_trans [OF keeps_fork_dimScreenAll keeps_updates(1)] by (simp add: Let_def split del: if_split cong: if_cong) (simp add: if_split)
    ultimately have "keeps {} s1 (emit (Connected (getName w ?s4 c)) ?s4)"
      using keeps_trans keeps_updates(1) by blast
    moreover have "server_inv w D s1" using inv_addClient [OF assms(1) _ assms(3)] a True by simp
    ultimately have "server_inv w D (emit (Connected (getName w ?s4 c)) ?s4)" by (rule inv_keeps_here [rotated])
    then show ?thesis using a True unfolding adoptClient_def Let_def by simp
  qed
qed

lemma keeps_grabbed:
  assumes "handle_clipboard_grabbed w i q c s = Some s'"
  shows "keeps T s s'"
proof -
  from assms have "s' = s \<or> (\<exists>info cs. s' = (set_clipboard_info i info s)\<lparr>calls := cs\<rparr>)"
    unfolding handle_clipboard_grabbed_def Let_def by (auto split: if_splits option.splits)
  then show ?thesis using keeps_trans [OF keeps_updates(5) keeps_updates(7)] by auto
qed

lemma screensaver_on_inv:
  assumes "server_inv w D s" "onScreensaver w True s = Some s'"
  shows "server_inv w D s'"
proof -
  let ?s1 = "s\<lparr>m_activeSaver := Some (m_active s), m_xSaver := m_x s, m_ySaver := m_y s\<rparr>"
  have i: "server_inv w D ?s1" using assms(1) by (auto simp: server_inv_def wait_ok_def getName_same [OF refl, of ?s1 s])
  from assms(2) obtain s2 cs where s2: "s' = s2\<lparr>calls := cs\<rparr>"
    "(if m_active ?s1 \<noteq> m_primaryClient ?s1 then switchScreen w (m_primaryClient ?s1) (0, 0) True ?s1 else Some ?s1) = Some s2"
    unfolding onScreensaver_def Let_def by auto
  have "keeps {m_primaryClient ?s1} ?s1 s2" using keeps_refl s2(2) by (rule keeps_optional) (rule keeps_switchScreen)
  then have "keeps {m_primaryClient ?s1} ?s1 s'" unfolding s2(1) by (rule keeps_trans [OF _ keeps_updates(7)])
  moreover have "{m_primaryClient ?s1} \<subseteq> m_clientSet ?s1 \<union> D" using i by (simp add: server_inv_def)
  ultimately show ?thesis by (rule inv_keeps [OF i])
qed

lemma screensaver_off_inv:
  assumes "server_inv w D s" "onScreensaver w False s = Some s'"
  shows "server_inv w D s'"
proof -
  have "\<exists>s2 cs. s' = s2\<lparr>m_activeSaver := None, calls := cs\<rparr> \<and>
      (s2 = s \<or> (\<exists>c p x y. m_activeSaver s = Some c \<and> switchScreen w c p False (s\<lparr>m_xSaver := x, m_ySaver := y\<rparr>) = Some s2))"
    using assms(2) unfolding onScreensaver_def Let_def by (cases "m_activeSaver s") (auto split: if_splits)
  then obtain s2 cs where s': "s' = s2\<lparr>m_activeSaver := None, calls := cs\<rparr>"
    and s2: "s2 = s \<or> (\<exists>c p x y. m_activeSaver s = Some c \<and> switchScreen w c p False (s\<lparr>m_xSaver := x, m_ySaver := y\<rparr>) = Some s2)" by blast
  have "server_inv w D s2"
    using s2
  proof
    assume "\<exists>c p x y. m_activeSaver s = Some c \<and> switchScreen w c p False (s\<lparr>m_xSaver := x, m_ySaver := y\<rparr>) = Some s2"
    then obtain c p x y where c: "m_activeSaver s = Some c" "switchScreen w c p False (s\<lparr>m_xSaver := x, m_ySaver := y\<rparr>) = Some s2" by blast
    have "keeps {c} s (s\<lparr>m_xSaver := x, m_ySaver := y\<rparr>)" by (rule keeps_fields) (simp_all add: screens_part_def)
    note k = keeps_trans [OF this keeps_switchScreen [OF c(2)]]
    have "{c} \<subseteq> m_clientSet s \<union> D" using c(1) assms(1) by (simp add: server_inv_def)
    with inv_keeps [OF assms(1) k] show ?thesis .
  qed (use assms(1) in simp)
  then show ?thesis unfolding s' by (simp add: server_inv_def wait_ok_def getName_def)
qed

lemma toggle_screen_inv:
  assumes "server_inv w D s" "handle_toggle_screen_event w s = Some s'"
  shows "server_inv w D s'"
proof -
  have "s' = s \<or> (\<exists>e\<in>set (m_clients s). jumpToScreen w (snd e) s = Some s')"
  proof (cases "m_clients s")
    case Nil
    then have "m_clientSet s = {}" using assms(1) by (auto simp: server_inv_def)
    then show ?thesis using assms(1) by (simp add: server_inv_def)
  next
    case (Cons e es)
    have u: "set (snd (smap_upper str_less (getName w s (m_active s)) (m_clients s))) \<subseteq> set (m_clients s)"
      by (auto simp: smap_upper_def dest: set_dropWhileD)
    show ?thesis
      using assms(2) Cons u unfolding handle_toggle_screen_event_def
      by (auto split: option.splits list.splits) (metis snd_conv)+
  qed
  moreover have "snd e \<in> m_clientSet s" if "e \<in> set (m_clients s)" for e using assms(1) that by (auto simp: server_inv_def)
  ultimately show ?thesis using assms(1) inv_keeps [OF assms(1) keeps_jumpToScreen] by blast
qed

section \<open>Changing the configuration\<close>

lemma keeps_processOption: "keeps T s (fst (processOption opt (s, r)))"
proof -
  have f: "keeps T s s'" if "screens_part s' = screens_part s" "m_active s' = m_active s" "m_switchWaitTimer s' = m_switchWaitTimer s"
    "m_switchScreen s' = m_switchScreen s" for s' using that by (rule keeps_fields)
  have w: "keeps T s (stopSwitchWait (s\<lparr>m_switchWaitDelay := d\<rparr>))" for d
    by (rule keeps_trans [OF f keeps_stopSwitchWait]) (simp_all add: screens_part_def)
  have t: "keeps T s (stopSwitchTwoTap (s\<lparr>m_switchTwoTapDelay := d\<rparr>))" for d
    by (rule keeps_trans [OF f keeps_updates(3)]) (simp_all add: screens_part_def)
  have o: "keeps T s (s\<lparr>m_switchNeedsControl := b\<rparr>)" "keeps T s (s\<lparr>m_switchNeedsShift := b\<rparr>)" "keeps T s (s\<lparr>m_switchNeedsAlt := b\<rparr>)"
    "keeps T s (s\<lparr>m_enableClipboard := b\<rparr>)" "keeps T s (s\<lparr>m_maximumClipboardSize := n\<rparr>)" for b n
    by (rule f; simp add: screens_part_def)+
  show ?thesis by (cases opt) (simp add: processOption_def w t o)
qed

lemma keeps_processOptions: "keeps T s (processOptions w s)"
proof -
  have fold: "keeps T s (fst (fold processOption opts (s, r)))" for opts s r
  proof (induction opts arbitrary: s r)
    case (Cons opt opts)
    obtain s1 r1 where s1: "processOption opt (s, r) = (s1, r1)" by fastforce
    from keeps_trans [OF keeps_processOption [of T s opt r] Cons.IH [of _ r1]] s1 show ?case by simp
  qed simp
  show ?thesis
  proof (cases "getOptions [] (m_config s)")
    case None
    then show ?thesis by (simp add: processOptions_def)
  next
    case (Some opts)
    let ?s1 = "s\<lparr>m_switchNeedsShift := False, m_switchNeedsControl := False, m_switchNeedsAlt := False\<rparr>"
    obtain s2 r where s2: "fold processOption opts (?s1, m_relativeMoves ?s1) = (s2, r)" by fastforce
    let ?s3 = "if m_relativeMoves s2 \<and> \<not> r then stopRelativeMoves w s2 else s2"
    have "keeps T s ?s1" by (rule keeps_fields) (simp_all add: screens_part_def)
    from keeps_trans [OF this fold [of ?s1 opts "m_relativeMoves ?s1"]] s2 have "keeps T s s2" by simp
    then have "keeps T s ?s3" using keeps_trans keeps_stopRelativeMoves by auto
    moreover have "keeps T ?s3 (?s3\<lparr>m_relativeMoves := r\<rparr>)" by (rule keeps_fields) (simp_all add: screens_part_def)
    ultimately have "keeps T s (?s3\<lparr>m_relativeMoves := r\<rparr>)" by (rule keeps_trans)
    then show ?thesis using Some s2 by (simp add: processOptions_def Let_def)
  qed
qed

lemma setConfig_inv:
  assumes "server_inv w D s"
  shows "\<exists>r s'. setConfig w c s = Some (r, s') \<and> server_inv w (D \<union> (exposed s - m_clientSet s')) s'"
proof -
  from closeClients_inv [OF assms, of c] obtain s1 where s1: "closeClients w c s = Some s1"
    "server_inv w (D \<union> (exposed s - m_clientSet s1)) s1" by blast
  let ?s3 = "emit (Reconfigure (getActivePrimarySides w (processOptions w s1))) (processOptions w s1)"
  have "keeps {} s (fold (\<lambda>(_, k). sendOptions w k) ks s)" for s and ks :: "(string \<times> screen_id) list"
  proof (induction ks arbitrary: s)
    case (Cons k ks)
    from keeps_trans [OF keeps_sendOptions Cons.IH] show ?case by (cases k) simp
  qed simp
  then have k: "keeps {} s1 (fold (\<lambda>(_, k). sendOptions w k) (m_clients ?s3) ?s3)" (is "keeps _ _ ?s4")
    using keeps_trans [OF keeps_trans [OF keeps_processOptions keeps_updates(1)]] by blast
  then have "m_clientSet ?s4 = m_clientSet s1" by (simp add: keeps_def screens_part_def)
  with inv_keeps_here [OF s1(2) k] have "server_inv w (D \<union> (exposed s - m_clientSet ?s4)) ?s4" by simp
  moreover have "setConfig w c s = Some (True, ?s4) \<or> setConfig w c s = Some (False, s)"
    using s1(1) by (simp add: setConfig_def Let_def)
  ultimately show ?thesis using server_inv_mono [OF assms] by blast
qed

lemma reload_config_inv:
  assumes "server_inv w D s" "\<forall>e\<in>set (m_clients s). getName w (s\<lparr>m_config := c\<rparr>) (snd e) = fst e"
    and "reload_config w c d s = Some (r, s')"
  shows "server_inv w (D \<union> (exposed s - m_clientSet s')) s'"
proof -
  let ?s = "s\<lparr>m_config := c, m_displays := d\<rparr>"
  have n: "getName w ?s k = getName w (s\<lparr>m_config := c\<rparr>) k" for k by (rule getName_same) simp_all
  have "server_inv w D ?s" using assms(1,2) by (simp add: server_inv_def wait_ok_def n)
  moreover have "exposed ?s = exposed s" by (rule exposed_fields) simp_all
  ultimately show ?thesis using setConfig_inv [of w D ?s c] assms(3) by (simp add: reload_config_def)
qed

section \<open>The events of the server\<close>

text \<open>
  One event, in a world that names its screens as before and is otherwise arbitrary. A screen that
  connects is a new one; any screen but the primary one may disconnect at any time. A reloaded
  configuration names the connected screens as the old one did: \<open>getName\<close> looks the name up again,
  so a connected screen with another name would no longer be found in the table.
\<close>

inductive event :: "(rat \<Rightarrow> rat) \<Rightarrow> world \<Rightarrow> server \<Rightarrow> server \<Rightarrow> bool" for fl w where
  motion_primary: "onMouseMovePrimary fl w x y s = Some (r, s') \<Longrightarrow> event fl w s s'"
| motion_secondary: "onMouseMoveSecondary fl w dx dy s = Some s' \<Longrightarrow> event fl w s s'"
| wait_over: "handle_switch_wait_event w s = Some s' \<Longrightarrow> event fl w s s'"
| switch_to: "handle_switch_to_screen_event w n s = Some s' \<Longrightarrow> event fl w s s'"
| toggle_screen: "handle_toggle_screen_event w s = Some s' \<Longrightarrow> event fl w s s'"
| switch_in: "handle_switch_in_direction_event fl w dir s = Some s' \<Longrightarrow> event fl w s s'"
| shape_changed: "handle_shape_changed fl w c s = Some s' \<Longrightarrow> event fl w s s'"
| screensaver: "onScreensaver w b s = Some s' \<Longrightarrow> event fl w s s'"
| broadcast: "event fl w s (handle_keyboard_broadcast_event t screens s)"
| lock_cursor: "event fl w s (handle_lock_cursor_to_screen_event w t s)"
| key_down: "event fl w s (onKeyDown k m b screens s)"
| key_up: "event fl w s (onKeyUp k m b screens s)"
| key_repeat: "event fl w s (onKeyRepeat k m n b s)"
| mouse_down: "event fl w s (onMouseDown b s)"
| mouse_wheel: "event fl w s (onMouseWheel dx dy s)"
| grabbed: "handle_clipboard_grabbed w i q c s = Some s' \<Longrightarrow> event fl w s s'"
| changed: "handle_clipboard_changed w i q c s = Some s' \<Longrightarrow> event fl w s s'"
| adopt: "adoptClient w c s = Some s' \<Longrightarrow> c \<notin> m_clientSet s \<Longrightarrow> c \<notin> set (m_oldClients s) \<Longrightarrow> event fl w s s'"
| disconnected: "c \<noteq> m_primaryClient s \<Longrightarrow> event fl w s (handle_client_disconnected w c s)"
| close_timeout: "event fl w s (handle_client_close_timeout c s)"
| disconnect: "disconnect_all w s = Some s' \<Longrightarrow> event fl w s s'"
| reload: "reload_config w c d s = Some (r, s') \<Longrightarrow> \<forall>e\<in>set (m_clients s). getName w (s\<lparr>m_config := c\<rparr>) (snd e) = fst e \<Longrightarrow>
    event fl w s s'"

lemma keeps_broadcast: "keeps T s (handle_keyboard_broadcast_event t screens s)"
  unfolding handle_keyboard_broadcast_event_def Let_def by (rule keeps_fields) (simp_all add: screens_part_def)

lemma keeps_lock_cursor: "keeps T s (handle_lock_cursor_to_screen_event w t s)"
proof -
  let ?n = "new_state t (m_lockedToScreen s)"
  let ?s0 = "s\<lparr>m_lockedToScreen := ?n\<rparr>"
  let ?s2 = "emit (Reconfigure (getActivePrimarySides w (fork_lockStateChanged ?n ?s0))) (fork_lockStateChanged ?n ?s0)"
  have "keeps T s ?s0" by (rule keeps_fields) (simp_all add: screens_part_def)
  then have k: "keeps T s ?s2" using keeps_trans keeps_updates(1,6) by blast
  have "handle_lock_cursor_to_screen_event w t s \<in> {s, ?s2, stopRelativeMoves w ?s2}"
    unfolding handle_lock_cursor_to_screen_event_def Let_def by simp
  then show ?thesis using k keeps_trans [OF k keeps_stopRelativeMoves] by auto
qed

lemma keeps_input:
  "keeps T s (onKeyDown k m b screens s)" "keeps T s (onKeyUp k m b screens s)" "keeps T s (onKeyRepeat k m n b s)"
  "keeps T s (onMouseDown b' s)" "keeps T s (onMouseWheel dx dy s)"
  by (rule keeps_fields; simp add: screens_part_def emit_def onKeyDown_def onKeyUp_def onKeyRepeat_def onMouseDown_def onMouseWheel_def)+

lemma wait_over_inv:
  assumes "server_inv w D s" "handle_switch_wait_event w s = Some s'"
  shows "server_inv w D s'"
proof (cases "isLockedToScreen w s")
  case True
  then show ?thesis using assms inv_keeps_here [OF _ keeps_stopSwitch] by (auto simp: handle_switch_wait_event_def)
next
  case False
  with assms(2) obtain c where c: "m_switchScreen s = Some c" "switchScreen w c (m_switchWaitX s, m_switchWaitY s) False s = Some s'"
    by (auto simp: handle_switch_wait_event_def split: option.splits)
  then have "{c} \<subseteq> m_clientSet s \<union> D" using assms(1) by (simp add: server_inv_def)
  with inv_keeps [OF assms(1) keeps_switchScreen [OF c(2)]] show ?thesis .
qed

lemmas moves_keep = keeps_onMouseMovePrimary keeps_onMouseMoveSecondary keeps_switch_to_screen keeps_switch_in_direction
  keeps_handle_shape_changed

text \<open>What each event adds to the removed screens that the server may still refer to.\<close>

lemma removal_inv:
  assumes "server_inv w D s" "c \<noteq> m_primaryClient s"
  shows "server_inv w (D \<union> (exposed s - m_clientSet (handle_client_disconnected w c s))) (handle_client_disconnected w c s)"
proof -
  have "m_clientSet (handle_client_disconnected w c s) = m_clientSet (removeActiveClient w c s)"
    by (simp add: handle_client_disconnected_def removeOldClient_def Let_def emit_def)
  then show ?thesis using removeOldClient_inv [OF removeActiveClient_inv [OF assms]] by (simp add: handle_client_disconnected_def)
qed

lemma disconnect_all_inv:
  assumes "server_inv w D s" "disconnect_all w s = Some s'"
  shows "server_inv w (D \<union> (exposed s - m_clientSet s')) s'"
proof (cases "1 < length (m_clients s) \<or> m_oldClients s \<noteq> []")
  case True
  then show ?thesis using assms closeClients_inv [OF assms(1), of config_new] by (simp add: disconnect_all_def)
next
  case False
  then have "s' = emit Disconnected s" using assms(2) by (simp add: disconnect_all_def)
  with inv_keeps_here [OF assms(1) keeps_updates(1)] have "server_inv w D s'" by simp
  then show ?thesis by (rule server_inv_mono) simp
qed

lemma event_inv:
  assumes "event fl w s s'" "server_inv w D s"
  shows "server_inv w (D \<union> (exposed s - m_clientSet s')) s'"
proof -
  note i = assms(2) and here = inv_keeps_here [OF assms(2)] and present = inv_keeps_present [OF assms(2)]
  have "server_inv w D s' \<or> ?thesis" using assms(1)
  proof (cases rule: event.cases)
    case (screensaver b)
    then show ?thesis using i screensaver_on_inv [of w D s s'] screensaver_off_inv [of w D s s'] by (cases b) simp_all
  next
    case (changed i q c)
    then show ?thesis using i here keeps_onClipboardChanged by (auto simp: handle_clipboard_changed_def split: if_splits)
  next
    case (adopt c)
    then show ?thesis using adoptClient_inv [OF i] by fastforce
  next
    case (disconnected c)
    then show ?thesis using removal_inv [OF i] by blast
  next
    case disconnect
    then show ?thesis using disconnect_all_inv [OF i] by blast
  next
    case (reload c d r)
    then show ?thesis using reload_config_inv [OF i] by blast
  next
    case (close_timeout c)
    then show ?thesis using i by (simp add: handle_client_close_timeout_def removeOldClient_inv)
  next
    case wait_over
    then show ?thesis using wait_over_inv [OF i] by blast
  next
    case toggle_screen
    then show ?thesis using toggle_screen_inv [OF i] by blast
  next
    case (grabbed i q c)
    then show ?thesis using here [OF keeps_grabbed] by blast
  next
    case (motion_primary x y r)
    then show ?thesis using present [OF moves_keep(1)] by blast
  next
    case (motion_secondary dx dy)
    then show ?thesis using present [OF moves_keep(2)] by blast
  next
    case (switch_to n)
    then show ?thesis using present [OF moves_keep(3)] by blast
  next
    case (switch_in dir)
    then show ?thesis using present [OF moves_keep(4)] by blast
  next
    case (shape_changed c)
    then show ?thesis using present [OF moves_keep(5)] by blast
  qed (simp_all add: here [OF keeps_lock_cursor] here [OF keeps_broadcast] keeps_input [THEN here])
  then show ?thesis using server_inv_mono by blast
qed

section \<open>Starting\<close>

lemma start_inv:
  assumes "server_start w p c d = Some s"
  shows "server_inv w {} s"
proof -
  from assms obtain s1 r s2 where s1: "clear_clipboards w (server_new p c d) = Some s1"
    "setConfig w c (snd (addClient w p s1)) = Some (r, s2)" "s = s2 \<or> s = s2\<lparr>m_lockedToScreen := True\<rparr>"
    by (auto simp: server_start_def split: if_splits option.splits)
  have f: "m_clients s1 = [] \<and> m_clientSet s1 = {} \<and> m_active s1 = p \<and> m_primaryClient s1 = p \<and> m_oldClients s1 = [] \<and>
      m_switchScreen s1 = None \<and> m_activeSaver s1 = None \<and> \<not> m_switchWaitTimer s1"
    using s1(1) by (auto simp: clear_clipboards_def clipboard_ids_def set_clipboard_info_def server_new_def split: option.splits)
  have "server_inv w {} (snd (addClient w p s1))" "exposed (snd (addClient w p s1)) = {}"
    using f by (simp_all add: addClient_def find_client_def Let_def emit_def server_inv_def exposed_def wait_ok_def getName_def)
  with setConfig_inv [of w "{}" "snd (addClient w p s1)" c] s1(2) have "server_inv w {} s2" by auto
  with s1(3) inv_update [of w "{}" s2 s] show ?thesis by (auto simp: screens_part_def)
qed

text \<open>
  The states of a server whose screens have the names \<open>names\<close>, with the screens that were exposed
  when an event removed them.
\<close>

inductive reachable :: "(rat \<Rightarrow> rat) \<Rightarrow> (screen_id \<Rightarrow> string) \<Rightarrow> screen_id set \<Rightarrow> server \<Rightarrow> bool" for fl names where
  start: "server_start w p c d = Some s \<Longrightarrow> w_name w = names \<Longrightarrow> reachable fl names {} s"
| step: "reachable fl names D s \<Longrightarrow> event fl w s s' \<Longrightarrow> w_name w = names \<Longrightarrow>
    reachable fl names (D \<union> (exposed s - m_clientSet s')) s'"

text \<open>
  C5. At every moment the server's table of screens is an ordered map from the configured names to
  the connected screens, each under its own name; the primary screen is connected; screens that are
  being closed are not; a running wait timer has a screen to enter. The screen with the cursor, the
  one that had it when the screen saver came on and the one the cursor waits to enter are connected,
  unless they are in \<open>D\<close>: the screens that an event removed while the cursor waited to enter them or
  was on them while the screen saver ran (not from its start). So with no such removal all of them
  are connected. Events are those of \<open>event\<close>: among them any disconnection of a screen but the
  primary one, and reloads of the configuration that keep the names of the connected screens.
\<close>

theorem server_screens_consistent:
  assumes "reachable fl (w_name w) D s"
  shows "server_inv w D s"
  using assms
proof (induction rule: reachable.induct)
  case (start w' p c d s)
  then show ?case using start_inv server_inv_world by blast
next
  case (step D s w' s')
  then show ?case using event_inv server_inv_world by blast
qed

section \<open>A screen that disconnects before it is entered\<close>

lemma enter_screen_active:
  assumes "enter_screen w dst p b s = Some s'"
  shows "m_active s' = dst"
proof -
  let ?s2 = "emit (Enter dst (fst p) (snd p) (m_seqNum s + 1) (w_toggleMask w) b) (s\<lparr>m_active := dst, m_seqNum := m_seqNum s + 1\<rparr>)"
  from assms obtain s3 where s3: "(if m_enableClipboard ?s2 then send_clipboards clipboard_ids ?s2 else Some ?s2) = Some s3"
    and s': "s' = emit (Switched (w_name w dst)) (fork_dimScreenAll s3)"
    by (auto simp: enter_screen_def Let_def split del: if_split)
  have "keeps {} ?s2 s3" using keeps_refl s3 by (rule keeps_optional) (rule keeps_send_clipboards)
  from keeps_trans [OF keeps_trans [OF this keeps_fork_dimScreenAll] keeps_updates(1)] have "keeps {} ?s2 s'" unfolding s' .
  then show ?thesis by (simp add: keeps_def)
qed

lemma switchScreen_active:
  assumes "switchScreen w dst p b s = Some s'" "w_leaves w (m_active s)"
  shows "m_active s' = dst"
proof -
  from assms obtain q where q: "fork_stayOnDisplays w s dst p p = Some q" "in_shape (w_shape w dst) q"
    by (auto simp: switchScreen_def split: option.splits if_splits)
  let ?s1 = "record_position q (stopSwitch s)"
  have a: "m_active ?s1 = m_active s" by (simp add: record_position_def)
  show ?thesis
  proof (cases "m_active s = dst")
    case True
    then show ?thesis using assms q a by (auto simp: switchScreen_def Let_def)
  next
    case False
    then have "leave_screen w dst q b ?s1 = Some s'" using assms q a by (simp add: switchScreen_def Let_def)
    then obtain s2 where "enter_screen w dst q b s2 = Some s'"
      using assms(2) a unfolding leave_screen_def Let_def by (auto split: option.splits simp del: switch_fields split del: if_split)
    then show ?thesis by (rule enter_screen_active)
  qed
qed

lemma forceLeaveClient_elsewhere:
  assumes "m_activeSaver s = None" "m_active s \<noteq> c"
  shows "forceLeaveClient w c s = emit (Reconfigure (getActivePrimarySides w s)) s"
  using assms by (simp add: forceLeaveClient_def Let_def)

lemma removeOldClient_fields:
  "m_switchScreen (removeOldClient c s) = m_switchScreen s" "m_clientSet (removeOldClient c s) = m_clientSet s"
  "m_switchWaitTimer (removeOldClient c s) = m_switchWaitTimer s" "m_active (removeOldClient c s) = m_active s"
  by (simp_all add: removeOldClient_def Let_def emit_def)

text \<open>
  C36. When the screen that the cursor waits to enter disconnects, the wait goes on, because only
  the screen with the cursor is checked: the server still refers to the screen it has removed (and
  deletes), and when the timer fires it makes that screen the active one.
\<close>

theorem removed_screen_is_entered:
  assumes "m_switchScreen s = Some c" "c \<in> m_clientSet s" "m_active s \<noteq> c" "m_activeSaver s = None"
    and "s' = handle_client_disconnected w c s"
  shows "c \<notin> m_clientSet s' \<and> m_switchScreen s' = Some c \<and> m_switchWaitTimer s' = m_switchWaitTimer s \<and>
    (\<not> isLockedToScreen w' s' \<longrightarrow> w_leaves w' (m_active s') \<longrightarrow> handle_switch_wait_event w' s' = Some s'' \<longrightarrow> m_active s'' = c)"
proof -
  obtain s1 where r: "removeClient w c s = (True, s1)" "m_clientSet s1 = m_clientSet s - {c}"
    using assms(2) by (simp add: removeClient_def)
  have "removeActiveClient w c s \<in> {emit (Reconfigure (getActivePrimarySides w s1)) s1,
      emit Disconnected (emit (Reconfigure (getActivePrimarySides w s1)) s1)}"
    using forceLeaveClient_elsewhere [of s1 c w] assms(3,4) r(1) removeClient_fields [of w c s]
    by (simp add: removeActiveClient_def Let_def)
  then have "m_clientSet (removeActiveClient w c s) = m_clientSet s1 \<and> m_switchScreen (removeActiveClient w c s) = m_switchScreen s1 \<and>
      m_switchWaitTimer (removeActiveClient w c s) = m_switchWaitTimer s1"
    by (elim insertE emptyE) (simp_all add: emit_def)
  then have f: "c \<notin> m_clientSet s'" "m_switchScreen s' = Some c" "m_switchWaitTimer s' = m_switchWaitTimer s"
    using assms(1) r removeClient_fields [of w c s] unfolding assms(5) handle_client_disconnected_def removeOldClient_fields
    by simp_all
  then show ?thesis using switchScreen_active [of w' c _ False s' s''] by (auto simp: handle_switch_wait_event_def)
qed

section \<open>Witnesses\<close>

lemma demo_start: "\<exists>s. server_start demo_world 0 (linked_config ''a'') [] = Some s"
proof -
  let ?s0 = "server_new 0 (linked_config ''a'') []"
  have "isScreen ''a'' (linked_config ''a'')" by code_simp
  moreover have "case clear_clipboard cb_new of None \<Rightarrow> False | Some c \<Rightarrow> (case cb_marshall c of None \<Rightarrow> False | Some _ \<Rightarrow> True)"
    by code_simp
  then obtain s1 where s1: "clear_clipboards demo_world ?s0 = Some s1" by (auto simp: clear_clipboards_def split: option.splits)
  moreover have f: "m_clients s1 = [] \<and> m_clientSet s1 = {} \<and> m_active s1 = 0 \<and> m_primaryClient s1 = 0 \<and> m_oldClients s1 = [] \<and>
      m_switchScreen s1 = None \<and> m_activeSaver s1 = None \<and> \<not> m_switchWaitTimer s1"
    using s1 by (auto simp: clear_clipboards_def clipboard_ids_def set_clipboard_info_def server_new_def split: option.splits)
  then have "server_inv demo_world {} (snd (addClient demo_world 0 s1))"
    by (simp add: addClient_def find_client_def Let_def emit_def server_inv_def wait_ok_def getName_def)
  with setConfig_inv obtain r s2 where "setConfig demo_world (linked_config ''a'') (snd (addClient demo_world 0 s1)) = Some (r, s2)" by blast
  ultimately show ?thesis by (simp add: server_start_def)
qed

theorem server_screens_consistent_witness:
  "\<exists>s. server_start demo_world 0 (linked_config ''a'') [] = Some s \<and> server_inv demo_world {} (onKeyDown 97 0 38 None s)"
proof -
  from demo_start obtain s where s: "server_start demo_world 0 (linked_config ''a'') [] = Some s" by blast
  have r: "reachable (\<lambda>x. x) (w_name demo_world) {} s" by (rule reachable.start [OF s refl])
  have m: "m_clientSet (onKeyDown 97 0 38 None s) = m_clientSet s" by (simp add: onKeyDown_def emit_def)
  have "exposed s \<subseteq> m_clientSet s" using inv_exposed [OF server_screens_consistent [OF r]] by simp
  then have e: "{} \<union> (exposed s - m_clientSet (onKeyDown 97 0 38 None s)) = {}" unfolding m by blast
  have "reachable (\<lambda>x. x) (w_name demo_world) {} (onKeyDown 97 0 38 None s)"
    using reachable.step [OF r event.key_down [where w = demo_world and k = 97 and m = 0 and b = 38 and screens = None] refl] unfolding e .
  from server_screens_consistent [OF this] s show ?thesis by blast
qed

definition waiting_server :: server where
  "waiting_server = demo_server\<lparr>m_switchScreen := Some 1, m_switchDir := kLeft, m_switchWaitTimer := True, m_switchWaitX := 50,
     m_switchWaitY := 50, m_enableClipboard := False\<rparr>"

definition lost_server :: server where
  "lost_server = handle_client_disconnected demo_world 1 waiting_server"

lemma waiting_fields: "m_switchScreen waiting_server = Some 1" "1 \<in> m_clientSet waiting_server" "m_active waiting_server \<noteq> 1"
  "m_activeSaver waiting_server = None" "m_switchWaitTimer waiting_server" "m_enableClipboard waiting_server = False"
  "m_displays waiting_server = []" "m_lockedToScreen waiting_server = False" "m_switchWaitX waiting_server = 50"
  "m_switchWaitY waiting_server = 50" "m_active waiting_server = 0" "m_oldClients waiting_server = []"
  by (simp_all add: waiting_server_def demo_server_def server_new_def)

lemma lost_fields:
  "m_displays lost_server = [] \<and> \<not> m_lockedToScreen lost_server \<and> m_switchWaitX lost_server = 50 \<and> m_switchWaitY lost_server = 50 \<and>
   m_active lost_server = 0 \<and> m_enableClipboard lost_server = False \<and> m_switchScreen lost_server = Some 1"
proof -
  obtain s1 where r: "removeClient demo_world 1 waiting_server = (True, s1)"
    "m_displays s1 = []" "\<not> m_lockedToScreen s1" "m_switchWaitX s1 = 50" "m_switchWaitY s1 = 50" "m_active s1 = 0"
    "m_enableClipboard s1 = False" "m_switchScreen s1 = Some 1" "m_activeSaver s1 = None" "m_oldClients s1 = []"
    using waiting_fields by (simp add: removeClient_def)
  have "removeActiveClient demo_world 1 waiting_server \<in> {emit (Reconfigure (getActivePrimarySides demo_world s1)) s1,
      emit Disconnected (emit (Reconfigure (getActivePrimarySides demo_world s1)) s1)}"
    using forceLeaveClient_elsewhere [of s1 1 demo_world] r by (simp add: removeActiveClient_def Let_def)
  then show ?thesis unfolding lost_server_def handle_client_disconnected_def
    by (elim insertE emptyE) (simp_all add: removeOldClient_def emit_def r)
qed

theorem removed_screen_is_entered_witness:
  "1 \<notin> m_clientSet lost_server \<and> m_switchWaitTimer lost_server \<and>
   (\<exists>s''. handle_switch_wait_event demo_world lost_server = Some s'' \<and> m_active s'' = 1)"
proof -
  have d: "fork_stayOnDisplays demo_world lost_server 1 (50, 50) (50, 50) = Some (50, 50)"
    using lost_fields by (simp add: fork_stayOnDisplays_def stay_def fork_displaysOf_def Let_def)
  have l: "\<not> isLockedToScreen demo_world lost_server" using lost_fields by (simp add: isLockedToScreen_def)
  have "\<exists>s''. switchScreen demo_world 1 (50, 50) False lost_server = Some s''"
    using d lost_fields
    by (simp add: switchScreen_def in_shape_def record_position_def leave_screen_def enter_screen_def Let_def stopSwitch_def
        stopSwitchWait_def stopSwitchTwoTap_def emit_def)
  then obtain s'' where e: "handle_switch_wait_event demo_world lost_server = Some s''"
    using l lost_fields by (auto simp: handle_switch_wait_event_def)
  show ?thesis
    using removed_screen_is_entered [OF waiting_fields(1-4) lost_server_def, of demo_world s''] l e waiting_fields(5) by simp
qed

end
