(* ===== verification/ServerProxy.thy ===== *)
theory ServerProxy
  imports MessageChannel ChunkTransfer Clipboards ConfigFile
begin

text \<open>
  The client's end of a connection (\<^verbatim>\<open>src/lib/client/ServerProxy.cpp\<close> and
  \<^verbatim>\<open>src/fork/lib/client/ServerProxyExtension.cpp\<close>): messages of the server become calls of the
  client. The input is the list of complete packets that have come in; \<open>psf_packets\<close> shows that
  reading them is reading from the packet filter. What the proxy asks of the client is the record
  \<open>client_env\<close>, what it calls there and what it writes are lists. Handlers that ignore a failed
  \<open>readf\<close> go on with variables that were never set: that is the outcome \<open>Undefined\<close>.
\<close>

section \<open>Packets\<close>

type_synonym packets = "bytes list"

definition pk_reader :: "packets reader" where
  "pk_reader n ps = Some (case ps of [] \<Rightarrow> ([], []) | p # _ \<Rightarrow> (take (unat n) p, take_packets (unat n) ps))"

lemma take_packets_nonempty: "[] \<notin> set ps \<Longrightarrow> [] \<notin> set (take_packets n ps)"
  by (cases ps) auto

interpretation pk_in: input_stream pk_reader concat "\<lambda>ps. [] \<notin> set ps"
proof (unfold_locales)
  fix ps :: packets and n :: u32
  assume "[] \<notin> set ps" "n \<noteq> 0"
  moreover from this have "0 < unat n" by (simp add: unat_gt_0)
  ultimately show "\<exists>bs ps'. pk_reader n ps = Some (bs, ps') \<and> [] \<notin> set ps' \<and> concat ps = bs @ concat ps' \<and>
      length bs \<le> unat n \<and> (bs = [] \<longleftrightarrow> concat ps = [])"
    by (cases ps) (auto simp: pk_reader_def)
qed

text \<open>The packet filter delivers what the list of its packets delivers.\<close>

lemma psf_packets:
  assumes "psf_tracks s qs []" "n \<noteq> 0"
  shows "\<exists>bs s'. psf_reader n s = Some (bs, s') \<and> pk_reader n qs = Some (bs, take_packets (unat n) qs) \<and>
    psf_tracks s' (take_packets (unat n) qs) []"
proof (cases qs)
  case Nil
  then have "\<not> psf_isReadyNoLock s"
    using psf_ready_iff_contents [OF assms(1)] psf_contents_all [OF assms(1)] by simp
  then show ?thesis using assms Nil by (simp add: psf_reader_def psf_read_def pk_reader_def)
next
  case (Cons q qs')
  have "q \<noteq> []" using assms(1) Cons by (simp add: psf_tracks_def)
  then have r: "psf_isReadyNoLock s"
    using psf_ready_iff_contents [OF assms(1)] psf_contents_all [OF assms(1)] Cons by simp
  from psf_read_tracks [OF assms(1) [unfolded Cons] r assms(2)] obtain b z where
    t': "psf_tracks (s\<lparr>psf_buffer := b, psf_size := z\<rparr>) (take_packets (unat n) (q # qs')) []" and
    rd: "psf_read True n s = Some (of_nat (min (unat n) (length q)), take (unat n) q,
      if psf_inputShutdown s \<and> z = 0
      then psf_add_event STREAM_INPUT_SHUTDOWN (s\<lparr>psf_buffer := b, psf_size := z\<rparr>)
      else s\<lparr>psf_buffer := b, psf_size := z\<rparr>)" (is "_ = Some (_, _, ?s')")
    by blast
  have "psf_tracks ?s' = psf_tracks (s\<lparr>psf_buffer := b, psf_size := z\<rparr>)"
    by (auto simp: psf_tracks_def psf_view_def psf_add_event_def fun_eq_iff)
  then show ?thesis using t' rd Cons by (simp add: psf_reader_def pk_reader_def)
qed

section \<open>State\<close>

datatype client_call =
    C_enter int int u32 u32
  | C_leave
  | C_setClipboard u8 clipboard
  | C_grabClipboard u8
  | C_keyDown u32 u32 u16
  | C_keyRepeat u32 u32 int u16
  | C_keyUp u32 u32 u16
  | C_mouseDown u8
  | C_mouseUp u8
  | C_mouseMove int int
  | C_mouseRelativeMove int int
  | C_mouseWheel int int
  | C_screensaver bool
  | C_resetOptions
  | C_setOptions "u32 list"
  | C_handshakeComplete
  | C_disconnect "string option"
  | C_dragInfoReceived u32 bytes
  | C_fileReceiveCompleted
  | C_dimScreen bool

record client_env =
  ce_shape :: "int \<times> int \<times> int \<times> int"
  ce_cursor :: "int \<times> int"
  ce_maxClipboard :: size_t

datatype message_parser = parseHandshakeMessage_p | parseMessage_p

record server_proxy =
  sp_in :: packets
  sp_out :: "(string \<times> warg list) list"
  sp_calls :: "client_call list"
  sp_seqNum :: u32
  sp_compressMouse :: bool
  sp_compressMouseRelative :: bool
  sp_xMouse :: int
  sp_yMouse :: int
  sp_dxMouse :: int
  sp_dyMouse :: int
  sp_ignoreMouse :: bool
  sp_modifierTable :: "u32 list"
  sp_keepAliveAlarm :: rat
  sp_keepAliveAlarmTimer :: bool
  sp_clipboard_data_cached :: bytes
  sp_clipboard_chunk_state :: clip_assembly
  sp_fileData :: bytes
  sp_fileSize :: size_t
  sp_parser :: message_parser

definition sp_call :: "client_call \<Rightarrow> server_proxy \<Rightarrow> server_proxy" where
  "sp_call c s = s\<lparr>sp_calls := sp_calls s @ [c]\<rparr>"

definition sp_writef :: "string \<Rightarrow> warg list \<Rightarrow> server_proxy \<Rightarrow> server_proxy" where
  "sp_writef fmt args s = s\<lparr>sp_out := sp_out s @ [(fmt, args)]\<rparr>"

definition kKeepAliveRate :: rat where "kKeepAliveRate = 3"
definition kKeepAlivesUntilDeath :: rat where "kKeepAlivesUntilDeath = 3"

definition sp_resetKeepAliveAlarm :: "server_proxy \<Rightarrow> server_proxy" where
  "sp_resetKeepAliveAlarm s = s\<lparr>sp_keepAliveAlarmTimer := (0 < sp_keepAliveAlarm s)\<rparr>"

definition sp_setKeepAliveRate :: "rat \<Rightarrow> server_proxy \<Rightarrow> server_proxy" where
  "sp_setKeepAliveRate rate s = sp_resetKeepAliveAlarm (s\<lparr>sp_keepAliveAlarm := rate * kKeepAlivesUntilDeath\<rparr>)"

definition kKeyModifierIDLast :: nat where "kKeyModifierIDLast = 7"

definition identity_table :: "u32 list" where
  "identity_table = map of_nat [0 ..< kKeyModifierIDLast]"

definition sp_new :: server_proxy where
  "sp_new = sp_setKeepAliveRate kKeepAliveRate
     \<lparr>sp_in = [], sp_out = [], sp_calls = [], sp_seqNum = 0, sp_compressMouse = False, sp_compressMouseRelative = False,
      sp_xMouse = 0, sp_yMouse = 0, sp_dxMouse = 0, sp_dyMouse = 0, sp_ignoreMouse = False,
      sp_modifierTable = identity_table, sp_keepAliveAlarm = 0, sp_keepAliveAlarmTimer = False,
      sp_clipboard_data_cached = [], sp_clipboard_chunk_state = clip_assembly_init, sp_fileData = [], sp_fileSize = 0,
      sp_parser = parseHandshakeMessage_p\<rparr>"

section \<open>Modifiers\<close>

text \<open>Null, shift, control, alt, meta, super and AltGr, in this order.\<close>

definition s_translationTable :: "(u32 \<times> u32) list" where
  "s_translationTable =
     [(0, 0), (0xEFE1, 0xEFE2), (0xEFE3, 0xEFE4), (0xEFE9, 0xEFEA), (0xEFE7, 0xEFE8), (0xEFEB, 0xEFEC), (0xEF7E, 0xEF7E)]"

definition modifier_of_key :: "u32 \<Rightarrow> (nat \<times> bool) option" where
  "modifier_of_key i =
     (if i = 0xEFE1 then Some (1, False) else if i = 0xEFE2 then Some (1, True)
      else if i = 0xEFE3 then Some (2, False) else if i = 0xEFE4 then Some (2, True)
      else if i = 0xEFE9 then Some (3, False) else if i = 0xEFEA then Some (3, True)
      else if i = 0xEF7E then Some (6, True)
      else if i = 0xEFE7 then Some (4, False) else if i = 0xEFE8 then Some (4, True)
      else if i = 0xEFEB then Some (5, False) else if i = 0xEFEC then Some (5, True)
      else None)"

definition sp_translateKey :: "server_proxy \<Rightarrow> u32 \<Rightarrow> u32" where
  "sp_translateKey s i =
     (case modifier_of_key i of
        None \<Rightarrow> i
      | Some (m, right) \<Rightarrow>
          let e = s_translationTable ! unat (sp_modifierTable s ! m) in if right then snd e else fst e)"

definition s_masks :: "u32 list" where
  "s_masks = [0, 0x01, 0x02, 0x04, 0x08, 0x10, 0x20]"

definition sp_translateModifierMask :: "server_proxy \<Rightarrow> u32 \<Rightarrow> u32" where
  "sp_translateModifierMask s mods =
     (let mapped = (\<lambda>bits m. if mods AND bits \<noteq> 0 then s_masks ! unat (sp_modifierTable s ! m) else 0)
      in mods AND NOT 0x3f OR mapped 0x01 1 OR mapped 0x02 2 OR mapped 0x04 3 OR mapped 0x20 6 OR mapped 0x08 4 OR mapped 0x10 5)"

section \<open>Messages\<close>

datatype 'a outcome = Ret 'a | Bad | Undefined

text \<open>
  \<open>readf\<close> of what follows the code of a message, into variables without a value of their own.
  \<open>Bad\<close> is the exception \<open>XBadClient\<close>.
\<close>

definition sp_parse :: "string \<Rightarrow> (rval list \<Rightarrow> server_proxy \<Rightarrow> server_proxy outcome) \<Rightarrow> server_proxy \<Rightarrow> server_proxy outcome" where
  "sp_parse fmt k s =
     (case readf pk_reader (drop 4 fmt) (sp_in s) of
        Inl e \<Rightarrow> if e = XBadClient then Bad else Undefined
      | Inr None \<Rightarrow> Undefined
      | Inr (Some (vs, ps)) \<Rightarrow> k vs (s\<lparr>sp_in := ps\<rparr>))"

definition sp_flushCompressedMouse :: "server_proxy \<Rightarrow> server_proxy" where
  "sp_flushCompressedMouse s =
     (let s1 = (if sp_compressMouse s then sp_call (C_mouseMove (sp_xMouse s) (sp_yMouse s)) (s\<lparr>sp_compressMouse := False\<rparr>) else s)
      in if sp_compressMouseRelative s1
         then (sp_call (C_mouseRelativeMove (sp_dxMouse s1) (sp_dyMouse s1)) (s1\<lparr>sp_compressMouseRelative := False\<rparr>))
                \<lparr>sp_dxMouse := 0, sp_dyMouse := 0\<rparr>
         else s1)"

definition sp_enter :: "server_proxy \<Rightarrow> server_proxy outcome" where
  "sp_enter = sp_parse ''CINN%2i%2i%4i%2i'' (\<lambda>vs s. case vs of
     [RInt16 x, RInt16 y, RInt32 seqNum, RInt16 mods] \<Rightarrow>
       Ret (sp_call (C_enter (sint x) (sint y) seqNum (ucast mods))
              (s\<lparr>sp_compressMouse := False, sp_compressMouseRelative := False, sp_dxMouse := 0, sp_dyMouse := 0, sp_seqNum := seqNum\<rparr>))
   | _ \<Rightarrow> Undefined)"

definition sp_leave :: "server_proxy \<Rightarrow> server_proxy outcome" where
  "sp_leave s = Ret (sp_call C_leave (sp_flushCompressedMouse s))"

text \<open>\<open>ClipboardChunk::assemble\<close> on the proxy's stream and the forwarding of a finished clipboard.\<close>

definition sp_setClipboard :: "client_env \<Rightarrow> server_proxy \<Rightarrow> server_proxy outcome" where
  "sp_setClipboard env s =
     (case readf pk_reader (drop 4 ''DCLP%1i%4i%1i%s'') (sp_in s) of
        Inl e \<Rightarrow> if e = XBadClient then Bad else Undefined
      | Inr r \<Rightarrow>
          let (c, ps) = (case r of None \<Rightarrow> (None, []) | Some (vs, ps) \<Rightarrow> (clip_message vs, ps));
              (res, d, st) = clip_assemble_message (ce_maxClipboard env) c (sp_clipboard_data_cached s, sp_clipboard_chunk_state s);
              s1 = s\<lparr>sp_in := ps, sp_clipboard_data_cached := d, sp_clipboard_chunk_state := st\<rparr>
          in case (res, c) of
               (kFinish, Some m) \<Rightarrow>
                 (case cb_unmarshall d 0 cb_new of
                    None \<Rightarrow> Undefined
                  | Some cb \<Rightarrow> Ret (sp_call (C_setClipboard (cc_id m) cb) (s1\<lparr>sp_clipboard_data_cached := []\<rparr>)))
             | _ \<Rightarrow> Ret s1)"

text \<open>
  \<open>readf\<close> of \<open>''CCLP%1i%4i''\<close> is written in two steps: the identifier is stored when its byte has been read,
  and the sequence number, which may be cut off, is not used.
\<close>

definition sp_grabClipboard :: "server_proxy \<Rightarrow> server_proxy outcome" where
  "sp_grabClipboard = sp_parse ''CCLP%1i'' (\<lambda>vs s. case vs of
     [RInt8 i] \<Rightarrow>
       let s1 = s\<lparr>sp_in := (case readf pk_reader ''%4i'' (sp_in s) of Inr (Some (_, ps)) \<Rightarrow> ps | _ \<Rightarrow> [])\<rparr>
       in Ret (if kClipboardEnd \<le> i then s1 else sp_call (C_grabClipboard i) s1)
   | _ \<Rightarrow> Undefined)"

definition sp_keyDown :: "server_proxy \<Rightarrow> server_proxy outcome" where
  "sp_keyDown s0 = sp_parse ''DKDN%2i%2i%2i'' (\<lambda>vs s. case vs of
     [RInt16 i, RInt16 mods, RInt16 button] \<Rightarrow>
       Ret (sp_call (C_keyDown (sp_translateKey s (ucast i)) (sp_translateModifierMask s (ucast mods)) button) s)
   | _ \<Rightarrow> Undefined) (sp_flushCompressedMouse s0)"

definition sp_keyRepeat :: "server_proxy \<Rightarrow> server_proxy outcome" where
  "sp_keyRepeat s0 = sp_parse ''DKRP%2i%2i%2i%2i'' (\<lambda>vs s. case vs of
     [RInt16 i, RInt16 mods, RInt16 count, RInt16 button] \<Rightarrow>
       Ret (sp_call (C_keyRepeat (sp_translateKey s (ucast i)) (sp_translateModifierMask s (ucast mods)) (uint count) button) s)
   | _ \<Rightarrow> Undefined) (sp_flushCompressedMouse s0)"

definition sp_keyUp :: "server_proxy \<Rightarrow> server_proxy outcome" where
  "sp_keyUp s0 = sp_parse ''DKUP%2i%2i%2i'' (\<lambda>vs s. case vs of
     [RInt16 i, RInt16 mods, RInt16 button] \<Rightarrow>
       Ret (sp_call (C_keyUp (sp_translateKey s (ucast i)) (sp_translateModifierMask s (ucast mods)) button) s)
   | _ \<Rightarrow> Undefined) (sp_flushCompressedMouse s0)"

definition sp_mouseDown :: "server_proxy \<Rightarrow> server_proxy outcome" where
  "sp_mouseDown s0 = sp_parse ''DMDN%1i'' (\<lambda>vs s. case vs of
     [RInt8 i] \<Rightarrow> Ret (sp_call (C_mouseDown i) s) | _ \<Rightarrow> Undefined) (sp_flushCompressedMouse s0)"

definition sp_mouseUp :: "server_proxy \<Rightarrow> server_proxy outcome" where
  "sp_mouseUp s0 = sp_parse ''DMUP%1i'' (\<lambda>vs s. case vs of
     [RInt8 i] \<Rightarrow> Ret (sp_call (C_mouseUp i) s) | _ \<Rightarrow> Undefined) (sp_flushCompressedMouse s0)"

definition sp_mouseMove :: "server_proxy \<Rightarrow> server_proxy outcome" where
  "sp_mouseMove = sp_parse ''DMMV%2i%2i'' (\<lambda>vs s. case vs of
     [RInt16 x, RInt16 y] \<Rightarrow>
       let s1 = (if \<not> sp_ignoreMouse s \<and> \<not> sp_compressMouse s \<and> sp_in s \<noteq> [] then s\<lparr>sp_compressMouse := True\<rparr> else s)
       in Ret (if sp_compressMouse s1
               then s1\<lparr>sp_compressMouseRelative := False, sp_xMouse := sint x, sp_yMouse := sint y, sp_dxMouse := 0, sp_dyMouse := 0\<rparr>
               else if sp_ignoreMouse s then s1
               else sp_call (C_mouseMove (sint x) (sint y)) s1)
   | _ \<Rightarrow> Undefined)"

definition sp_mouseRelativeMove :: "server_proxy \<Rightarrow> server_proxy outcome" where
  "sp_mouseRelativeMove = sp_parse ''DMRM%2i%2i'' (\<lambda>vs s. case vs of
     [RInt16 dx, RInt16 dy] \<Rightarrow>
       let s1 = (if \<not> sp_ignoreMouse s \<and> \<not> sp_compressMouseRelative s \<and> sp_in s \<noteq> []
                 then s\<lparr>sp_compressMouseRelative := True\<rparr> else s)
       in Ret (if sp_compressMouseRelative s1
               then s1\<lparr>sp_dxMouse := sp_dxMouse s1 + sint dx, sp_dyMouse := sp_dyMouse s1 + sint dy\<rparr>
               else if sp_ignoreMouse s then s1
               else sp_call (C_mouseRelativeMove (sint dx) (sint dy)) s1)
   | _ \<Rightarrow> Undefined)"

definition sp_mouseWheel :: "server_proxy \<Rightarrow> server_proxy outcome" where
  "sp_mouseWheel s0 = sp_parse ''DMWM%2i%2i'' (\<lambda>vs s. case vs of
     [RInt16 dx, RInt16 dy] \<Rightarrow> Ret (sp_call (C_mouseWheel (sint dx) (sint dy)) s) | _ \<Rightarrow> Undefined) (sp_flushCompressedMouse s0)"

definition sp_screensaver :: "server_proxy \<Rightarrow> server_proxy outcome" where
  "sp_screensaver = sp_parse ''CSEC%1i'' (\<lambda>vs s. case vs of
     [RInt8 on] \<Rightarrow> Ret (sp_call (C_screensaver (on \<noteq> 0)) s) | _ \<Rightarrow> Undefined)"

definition sp_resetOptions :: "server_proxy \<Rightarrow> server_proxy outcome" where
  "sp_resetOptions s = Ret ((sp_setKeepAliveRate kKeepAliveRate (sp_call C_resetOptions s))\<lparr>sp_modifierTable := identity_table\<rparr>)"

text \<open>A list of options that is cut off leaves the elements that came before.\<close>

fun sp_read_elems :: "nat \<Rightarrow> packets \<Rightarrow> u32 list \<times> packets" where
  "sp_read_elems 0 ps = ([], ps)"
| "sp_read_elems (Suc n) ps =
     (case pu_read pk_reader 4 ps of
        Inl _ \<Rightarrow> ([], [])
      | Inr (bs, ps1) \<Rightarrow> (case sp_read_elems n ps1 of (es, ps2) \<Rightarrow> (be32_hd bs # es, ps2)))"

definition sp_read_options :: "packets \<Rightarrow> (u32 list \<times> packets) option" where
  "sp_read_options ps =
     (case pu_read pk_reader 4 ps of
        Inl _ \<Rightarrow> Some ([], [])
      | Inr (bs, ps1) \<Rightarrow>
          if PROTOCOL_MAX_LIST_LENGTH < be32_hd bs then None else Some (sp_read_elems (unat (be32_hd bs)) ps1))"

definition modifier_of_option :: "u32 \<Rightarrow> nat option" where
  "modifier_of_option i =
     (if i = kOptionModifierMapForShift then Some 1
      else if i = kOptionModifierMapForControl then Some 2
      else if i = kOptionModifierMapForAlt then Some 3
      else if i = kOptionModifierMapForAltGr then Some 6
      else if i = kOptionModifierMapForMeta then Some 4
      else if i = kOptionModifierMapForSuper then Some 5
      else None)"

fun sp_apply_options :: "u32 list \<Rightarrow> server_proxy \<Rightarrow> server_proxy" where
  "sp_apply_options (i # v # opts) s =
     sp_apply_options opts
       (case modifier_of_option i of
          Some m \<Rightarrow> if of_nat kKeyModifierIDLast \<le> v then s else s\<lparr>sp_modifierTable := (sp_modifierTable s)[m := v]\<rparr>
        | None \<Rightarrow> if i = kOptionHeartbeat then sp_setKeepAliveRate (of_nat (unat v) / 1000) s else s)"
| "sp_apply_options _ s = s"

definition sp_setOptions :: "server_proxy \<Rightarrow> server_proxy outcome" where
  "sp_setOptions s =
     (case sp_read_options (sp_in s) of
        None \<Rightarrow> Bad
      | Some (options, ps) \<Rightarrow>
          let s1 = s\<lparr>sp_in := ps\<rparr>
          in Ret (if odd (length options) then s1 else sp_apply_options options (sp_call (C_setOptions options) s1)))"

definition sp_queryInfo :: "client_env \<Rightarrow> server_proxy \<Rightarrow> server_proxy" where
  "sp_queryInfo env =
     (case ce_shape env of (x, y, w, h) \<Rightarrow> case ce_cursor env of (mx, my) \<Rightarrow>
        sp_writef ''DINF%2i%2i%2i%2i%2i%2i%2i'' (map (\<lambda>v. WInt (word_of_int v)) [x, y, w, h, 0, mx, my]))"

definition sp_infoAcknowledgment :: "server_proxy \<Rightarrow> server_proxy" where
  "sp_infoAcknowledgment s = s\<lparr>sp_ignoreMouse := False\<rparr>"

definition sp_onInfoChanged :: "client_env \<Rightarrow> server_proxy \<Rightarrow> server_proxy" where
  "sp_onInfoChanged env s = sp_queryInfo env (s\<lparr>sp_ignoreMouse := True\<rparr>)"

definition sp_onGrabClipboard :: "u8 \<Rightarrow> server_proxy \<Rightarrow> server_proxy" where
  "sp_onGrabClipboard i s = sp_writef ''CCLP%1i%4i'' [WInt (ucast i), WInt (sp_seqNum s)] s"

definition sp_fileChunkReceived :: "server_proxy \<Rightarrow> server_proxy outcome" where
  "sp_fileChunkReceived s =
     (case readf pk_reader (drop 4 ''DFTR%1i%s'') (sp_in s) of
        Inl e \<Rightarrow> if e = XBadClient then Bad else Undefined
      | Inr r \<Rightarrow>
          let (c, ps) = (case r of None \<Rightarrow> (None, []) | Some (vs, ps) \<Rightarrow> (file_message vs, ps));
              (res, d, n) = file_assemble_message c (sp_fileData s, sp_fileSize s);
              s1 = s\<lparr>sp_in := ps, sp_fileData := d, sp_fileSize := n\<rparr>
          in Ret (if res = kFinish then sp_call C_fileReceiveCompleted s1 else s1))"

text \<open>The number and the names start out as 0 and empty; a cut off message leaves what it did not set.\<close>

definition sp_dragInfoReceived :: "server_proxy \<Rightarrow> server_proxy outcome" where
  "sp_dragInfoReceived s =
     (case readf pk_reader ''%2i'' (sp_in s) of
        Inr (Some ([RInt16 fileNum], ps)) \<Rightarrow>
          (case readf pk_reader ''%s'' ps of
             Inl e \<Rightarrow> if e = XBadClient then Bad else Undefined
           | Inr (Some ([RStr content], ps')) \<Rightarrow> Ret (sp_call (C_dragInfoReceived (ucast fileNum) content) (s\<lparr>sp_in := ps'\<rparr>))
           | Inr _ \<Rightarrow> Ret (sp_call (C_dragInfoReceived (ucast fileNum) []) (s\<lparr>sp_in := []\<rparr>)))
      | Inr _ \<Rightarrow> Ret (sp_call (C_dragInfoReceived 0 []) (s\<lparr>sp_in := []\<rparr>))
      | Inl _ \<Rightarrow> Undefined)"

definition fork_dimScreen_sp :: "server_proxy \<Rightarrow> server_proxy outcome" where
  "fork_dimScreen_sp = sp_parse ''CDIM%1i'' (\<lambda>vs s. case vs of
     [RInt8 dimmed] \<Rightarrow> Ret (sp_call (C_dimScreen (dimmed \<noteq> 0)) s) | _ \<Rightarrow> Undefined)"

text \<open>The state of the lock is only logged.\<close>

definition fork_recvLockState :: "server_proxy \<Rightarrow> server_proxy outcome" where
  "fork_recvLockState = sp_parse ''CLCK%1i'' (\<lambda>vs s. Ret s)"

section \<open>Dispatch\<close>

datatype EResult = kOkay | kUnknown | kDisconnect

definition code :: "string \<Rightarrow> bytes" where
  "code fmt = map of_char (take 4 fmt)"

definition sp_disconnect :: "string option \<Rightarrow> server_proxy \<Rightarrow> server_proxy" where
  "sp_disconnect msg = sp_call (C_disconnect msg)"

fun okay :: "server_proxy outcome \<Rightarrow> (EResult \<times> server_proxy) outcome" where
  "okay (Ret s) = Ret (kOkay, s)"
| "okay Bad = Bad"
| "okay Undefined = Undefined"

definition sp_keepAlive :: "server_proxy \<Rightarrow> server_proxy outcome" where
  "sp_keepAlive s = Ret (sp_resetKeepAliveAlarm (sp_writef ''CALV'' [] s))"

definition sp_hangup :: "string option \<Rightarrow> server_proxy \<Rightarrow> (EResult \<times> server_proxy) outcome" where
  "sp_hangup msg s = Ret (kDisconnect, sp_disconnect msg s)"

definition sp_parseHandshakeMessage :: "client_env \<Rightarrow> bytes \<Rightarrow> server_proxy \<Rightarrow> (EResult \<times> server_proxy) outcome" where
  "sp_parseHandshakeMessage env c s =
     (if c = code ''QINF'' then Ret (kOkay, sp_queryInfo env s)
      else if c = code ''CIAK'' then Ret (kOkay, sp_infoAcknowledgment s)
      else if c = code ''DSOP'' then
        (case sp_setOptions s of
           Ret s1 \<Rightarrow> Ret (kOkay, sp_call C_handshakeComplete (s1\<lparr>sp_parser := parseMessage_p\<rparr>))
         | r \<Rightarrow> okay r)
      else if c = code ''CROP'' then okay (sp_resetOptions s)
      else if c = code ''CALV'' then okay (sp_keepAlive s)
      else if c = code ''CNOP'' then Ret (kOkay, s)
      else if c = code ''CBYE'' then sp_hangup None s
      else if c = code ''EICV'' then sp_hangup (Some ''server has incompatible version'') s
      else if c = code ''EBSY'' then sp_hangup (Some ''server already has a connected client with our name'') s
      else if c = code ''EUNK'' then sp_hangup (Some ''server refused client with our name'') s
      else if c = code ''EBAD'' then sp_hangup (Some ''server reported a protocol error'') s
      else Ret (kUnknown, s))"

text \<open>The handlers of \<open>parseMessage\<close> after which it replies with a no-op, in the order of its tests.\<close>

definition sp_handlers :: "client_env \<Rightarrow> (string \<times> (server_proxy \<Rightarrow> server_proxy outcome)) list" where
  "sp_handlers env =
     [(''CDIM'', fork_dimScreen_sp), (''CLCK'', fork_recvLockState),
      (''DMMV'', sp_mouseMove), (''DMRM'', sp_mouseRelativeMove), (''DMWM'', sp_mouseWheel), (''DKDN'', sp_keyDown),
      (''DKUP'', sp_keyUp), (''DMDN'', sp_mouseDown), (''DMUP'', sp_mouseUp), (''DKRP'', sp_keyRepeat), (''CALV'', sp_keepAlive),
      (''CNOP'', Ret), (''CINN'', sp_enter), (''COUT'', sp_leave), (''CCLP'', sp_grabClipboard), (''CSEC'', sp_screensaver),
      (''QINF'', Ret \<circ> sp_queryInfo env), (''CIAK'', Ret \<circ> sp_infoAcknowledgment), (''DCLP'', sp_setClipboard env),
      (''CROP'', sp_resetOptions), (''DSOP'', sp_setOptions), (''DFTR'', sp_fileChunkReceived), (''DDRG'', sp_dragInfoReceived)]"

definition sp_parseMessage :: "client_env \<Rightarrow> bytes \<Rightarrow> server_proxy \<Rightarrow> (EResult \<times> server_proxy) outcome" where
  "sp_parseMessage env c s =
     (case find (\<lambda>(f, _). c = code f) (sp_handlers env) of
        Some (_, h) \<Rightarrow> (case h s of Ret s1 \<Rightarrow> Ret (kOkay, sp_writef ''CNOP'' [] s1) | r \<Rightarrow> okay r)
      | None \<Rightarrow>
          if c = code ''CBYE'' then sp_hangup None s
          else if c = code ''EBAD'' then sp_hangup (Some ''server reported a protocol error'') s
          else Ret (kUnknown, s))"

definition sp_message :: "client_env \<Rightarrow> bytes \<Rightarrow> server_proxy \<Rightarrow> (EResult \<times> server_proxy) outcome" where
  "sp_message env c s =
     (case sp_parser s of
        parseHandshakeMessage_p \<Rightarrow> sp_parseHandshakeMessage env c s
      | parseMessage_p \<Rightarrow> sp_parseMessage env c s)"

partial_function (option) sp_handle_data :: "client_env \<Rightarrow> server_proxy \<Rightarrow> server_proxy outcome option" where
  "sp_handle_data env s =
     (case sp_in s of
        [] \<Rightarrow> Some (Ret (sp_flushCompressedMouse s))
      | p # _ \<Rightarrow>
          let c = take 4 p; s1 = s\<lparr>sp_in := take_packets 4 (sp_in s)\<rparr>
          in if length c \<noteq> 4 then Some (Ret (sp_disconnect (Some ''incomplete message from server'') s1))
             else case sp_message env c s1 of
                    Undefined \<Rightarrow> Some Undefined
                  | Bad \<Rightarrow> Some (Ret (sp_disconnect (Some ''invalid message from server'') (sp_writef ''EBAD'' [] s1)))
                  | Ret (r, s2) \<Rightarrow>
                      (case r of
                         kOkay \<Rightarrow> sp_handle_data env s2
                       | kUnknown \<Rightarrow> Some (Ret (sp_disconnect (Some ''invalid message from server'') s2))
                       | kDisconnect \<Rightarrow> Some (Ret s2)))"

declare sp_handle_data.simps [code]

section \<open>Reading keeps what the reader keeps\<close>

definition reader_keeps :: "'s reader \<Rightarrow> ('s \<Rightarrow> bool) \<Rightarrow> bool" where
  "reader_keeps rd Q \<longleftrightarrow> (\<forall>n s bs s'. rd n s = Some (bs, s') \<longrightarrow> Q s \<longrightarrow> Q s')"

lemma pu_read_keeps: "pu_read rd n s = Inr (bs, s') \<Longrightarrow> reader_keeps rd Q \<Longrightarrow> Q s \<Longrightarrow> Q s'"
proof (induction rd n s arbitrary: bs rule: pu_read.induct)
  case (1 rd n s)
  show ?case
  proof (cases "n = 0")
    case True
    then show ?thesis using 1(2,4) by simp
  next
    case False
    with 1(2) obtain bs1 s1 where r: "rd n s = Some (bs1, s1)" "bs1 \<noteq> []" "\<not> unat n < length bs1"
      by (subst (asm) pu_read.simps) (auto split: if_splits option.splits)
    with False 1(2) obtain bs2 where "pu_read rd (n - of_nat (length bs1)) s1 = Inr (bs2, s')"
      by (subst (asm) pu_read.simps) (auto split: sum.splits)
    moreover have "Q s1" using r(1) 1(3,4) by (auto simp: reader_keeps_def)
    ultimately show ?thesis using 1(1) [OF False r(1) refl r(2,3)] 1(3) by blast
  qed
qed

lemma read_elems_keeps: "read_elems rd w n s = Inr (es, s') \<Longrightarrow> reader_keeps rd Q \<Longrightarrow> Q s \<Longrightarrow> Q s'"
proof (induction n arbitrary: s es)
  case (Suc n)
  then show ?case using pu_read_keeps [of rd w s _ _ Q] by (auto split: sum.splits)
qed simp

lemma read_conv_keeps: "read_conv rd len k s = Inr (vs, s') \<Longrightarrow> reader_keeps rd Q \<Longrightarrow> Q s \<Longrightarrow> Q s'"
  by (auto simp: read_conv_def Let_def split: if_splits sum.splits dest: pu_read_keeps [where Q = Q])
     (metis pu_read_keeps read_elems_keeps)+

lemma vreadf_keeps: "vreadf rd is s = Inr (vs, s') \<Longrightarrow> reader_keeps rd Q \<Longrightarrow> Q s \<Longrightarrow> Q s'"
proof (induction "is" arbitrary: s vs)
  case (Cons i "is")
  then show ?case
    by (cases i) (auto split: sum.splits if_splits dest: pu_read_keeps [where Q = Q], metis read_conv_keeps)
qed simp

lemma readf_keeps: "readf rd fmt s = Inr (Some (vs, s')) \<Longrightarrow> reader_keeps rd Q \<Longrightarrow> Q s \<Longrightarrow> Q s'"
  by (auto simp: readf_def split: sum.splits if_splits dest: vreadf_keeps [where Q = Q])

text \<open>Packets are never empty, and reading makes them fewer.\<close>

definition packets_within :: "nat \<Rightarrow> packets \<Rightarrow> bool" where
  "packets_within L ps \<longleftrightarrow> [] \<notin> set ps \<and> length (concat ps) \<le> L"

lemma pk_keeps [simp]: "reader_keeps pk_reader (packets_within L)"
  by (auto simp: reader_keeps_def pk_reader_def packets_within_def split: list.splits)

lemma within_none [simp]: "packets_within L []"
  by (simp add: packets_within_def)

text \<open>What is left of the bytes \<open>B\<close> that have come: the end of them.\<close>

definition packets_left :: "bytes \<Rightarrow> packets \<Rightarrow> bool" where
  "packets_left B ps \<longleftrightarrow> [] \<notin> set ps \<and> (\<exists>pre. B = pre @ concat ps)"

lemma pk_keeps_left [simp]: "reader_keeps pk_reader (packets_left B)"
  unfolding reader_keeps_def
proof (intro allI impI)
  fix n s bs s'
  assume "pk_reader n s = Some (bs, s')" "packets_left B s"
  then have "concat s = bs @ concat s' \<and> [] \<notin> set s'" by (auto simp: pk_reader_def packets_left_def split: list.splits if_splits)
  with \<open>packets_left B s\<close> show "packets_left B s'" unfolding packets_left_def by (metis append.assoc)
qed

lemma left_none [simp]: "packets_left B []"
  by (simp add: packets_left_def)

section \<open>The invariant of the proxy\<close>

definition sp_good :: "bytes \<Rightarrow> server_proxy \<Rightarrow> bool" where
  "sp_good B s \<longleftrightarrow>
     packets_left B (sp_in s) \<and>
     length (sp_modifierTable s) = kKeyModifierIDLast \<and> (\<forall>v\<in>set (sp_modifierTable s). unat v < kKeyModifierIDLast) \<and>
     (sp_keepAliveAlarmTimer s \<longleftrightarrow> 0 < sp_keepAliveAlarm s) \<and>
     (\<not> sp_compressMouseRelative s \<longrightarrow> sp_dxMouse s = 0 \<and> sp_dyMouse s = 0)"

lemma sp_good_calls [simp]: "sp_good B (sp_call c s) \<longleftrightarrow> sp_good B s" "sp_good B (sp_writef f a s) \<longleftrightarrow> sp_good B s"
  "sp_good B (sp_disconnect m s) \<longleftrightarrow> sp_good B s"
  by (simp_all add: sp_good_def sp_call_def sp_writef_def sp_disconnect_def)

lemma sp_good_alarm [simp]: "sp_good B s \<Longrightarrow> sp_good B (sp_setKeepAliveRate r s)" "sp_good B s \<Longrightarrow> sp_good B (sp_resetKeepAliveAlarm s)"
  by (simp_all add: sp_good_def sp_setKeepAliveRate_def sp_resetKeepAliveAlarm_def)

lemma sp_good_flush [simp]: "sp_good B s \<Longrightarrow> sp_good B (sp_flushCompressedMouse s)"
  by (simp add: sp_good_def sp_flushCompressedMouse_def sp_call_def Let_def)

lemma sp_good_in: "sp_good B s \<Longrightarrow> packets_left B ps \<Longrightarrow> sp_good B (s\<lparr>sp_in := ps\<rparr>)"
  by (simp add: sp_good_def)

lemma sp_parse_good:
  assumes "sp_parse fmt k s = Ret s'" "sp_good B s" "\<And>vs s1. sp_good B s1 \<Longrightarrow> k vs s1 = Ret s' \<Longrightarrow> sp_good B s'"
  shows "sp_good B s'"
proof -
  from assms(1) obtain vs ps where r: "readf pk_reader (drop 4 fmt) (sp_in s) = Inr (Some (vs, ps))" "k vs (s\<lparr>sp_in := ps\<rparr>) = Ret s'"
    by (auto simp: sp_parse_def split: sum.splits if_splits option.splits)
  from readf_keeps [OF r(1) pk_keeps_left, of B] assms(2) have "packets_left B ps" by (simp add: sp_good_def)
  with assms(2,3) r(2) sp_good_in show ?thesis by blast
qed

lemma readf_left:
  "packets_left B ps \<Longrightarrow> packets_left B (case readf pk_reader fmt ps of Inr (Some (_, ps')) \<Rightarrow> ps' | _ \<Rightarrow> [])"
  using readf_keeps [OF _ pk_keeps_left, of fmt ps] by (auto split: sum.splits option.splits)

text \<open>Every handler keeps the invariant.\<close>

lemma sp_handlers_parse_good:
  assumes "sp_good B s"
  shows "sp_enter s = Ret s' \<Longrightarrow> sp_good B s'" "sp_grabClipboard s = Ret s' \<Longrightarrow> sp_good B s'"
    "sp_keyDown s = Ret s' \<Longrightarrow> sp_good B s'" "sp_keyRepeat s = Ret s' \<Longrightarrow> sp_good B s'" "sp_keyUp s = Ret s' \<Longrightarrow> sp_good B s'"
    "sp_mouseDown s = Ret s' \<Longrightarrow> sp_good B s'" "sp_mouseUp s = Ret s' \<Longrightarrow> sp_good B s'"
    "sp_mouseMove s = Ret s' \<Longrightarrow> sp_good B s'" "sp_mouseRelativeMove s = Ret s' \<Longrightarrow> sp_good B s'"
    "sp_mouseWheel s = Ret s' \<Longrightarrow> sp_good B s'" "sp_screensaver s = Ret s' \<Longrightarrow> sp_good B s'"
    "fork_dimScreen_sp s = Ret s' \<Longrightarrow> sp_good B s'" "fork_recvLockState s = Ret s' \<Longrightarrow> sp_good B s'"
  unfolding sp_enter_def sp_grabClipboard_def sp_keyDown_def sp_keyRepeat_def sp_keyUp_def sp_mouseDown_def sp_mouseUp_def
    sp_mouseMove_def sp_mouseRelativeMove_def sp_mouseWheel_def sp_screensaver_def fork_dimScreen_sp_def fork_recvLockState_def
  by (erule sp_parse_good; (simp add: assms)?; (auto simp: sp_good_def sp_call_def Let_def readf_left split: list.splits rval.splits if_splits; fail))+

lemma sp_setClipboard_good:
  assumes "sp_good B s" "sp_setClipboard env s = Ret s'"
  shows "sp_good B s'"
proof -
  from assms(2) obtain r where r: "readf pk_reader (drop 4 ''DCLP%1i%4i%1i%s'') (sp_in s) = Inr r"
    by (auto simp: sp_setClipboard_def split: sum.splits if_splits)
  obtain c ps where c: "(case r of None \<Rightarrow> (None, []) | Some (vs, ps) \<Rightarrow> (clip_message vs, ps)) = (c, ps)" by fastforce
  have "packets_left B ps" using c readf_keeps [OF _ pk_keeps_left, of "drop 4 ''DCLP%1i%4i%1i%s''" "sp_in s" _ ps B] r assms(1)
    by (auto simp: sp_good_def split: option.splits)
  obtain res d st where a: "clip_assemble_message (ce_maxClipboard env) c (sp_clipboard_data_cached s, sp_clipboard_chunk_state s) = (res, d, st)"
    by (metis prod_cases3)
  let ?s1 = "s\<lparr>sp_in := ps, sp_clipboard_data_cached := d, sp_clipboard_chunk_state := st\<rparr>"
  have "s' = ?s1 \<or> (\<exists>k. s' = sp_call k (?s1\<lparr>sp_clipboard_data_cached := []\<rparr>))"
    using assms(2) r c a unfolding sp_setClipboard_def
    by (auto simp: Let_def simp del: clip_assemble_message.simps split: assemble_result.splits option.splits)
  then show ?thesis using assms(1) \<open>packets_left B ps\<close> by (auto simp: sp_good_def sp_call_def)
qed

lemma sp_fileChunkReceived_good:
  assumes "sp_good B s" "sp_fileChunkReceived s = Ret s'"
  shows "sp_good B s'"
proof -
  from assms(2) obtain r where r: "readf pk_reader (drop 4 ''DFTR%1i%s'') (sp_in s) = Inr r"
    by (auto simp: sp_fileChunkReceived_def split: sum.splits if_splits)
  obtain c ps where c: "(case r of None \<Rightarrow> (None, []) | Some (vs, ps) \<Rightarrow> (file_message vs, ps)) = (c, ps)" by fastforce
  have "packets_left B ps" using c readf_keeps [OF _ pk_keeps_left, of "drop 4 ''DFTR%1i%s''" "sp_in s" _ ps B] r assms(1)
    by (auto simp: sp_good_def split: option.splits)
  obtain res d n where a: "file_assemble_message c (sp_fileData s, sp_fileSize s) = (res, d, n)" by (metis prod_cases3)
  have "s' = s\<lparr>sp_in := ps, sp_fileData := d, sp_fileSize := n\<rparr> \<or>
      s' = sp_call C_fileReceiveCompleted (s\<lparr>sp_in := ps, sp_fileData := d, sp_fileSize := n\<rparr>)"
    using assms(2) r c a unfolding sp_fileChunkReceived_def by (simp add: Let_def split: if_splits)
  then show ?thesis using assms(1) \<open>packets_left B ps\<close> by (auto simp: sp_good_def sp_call_def)
qed

lemma sp_dragInfoReceived_good:
  assumes "sp_good B s" "sp_dragInfoReceived s = Ret s'"
  shows "sp_good B s'"
proof -
  have "\<exists>k ps. s' = sp_call k (s\<lparr>sp_in := ps\<rparr>) \<and> packets_left B ps"
  proof (cases "\<exists>n ps. readf pk_reader ''%2i'' (sp_in s) = Inr (Some ([RInt16 n], ps))")
    case False
    then show ?thesis using assms(2) unfolding sp_dragInfoReceived_def
      by (auto split: sum.splits option.splits list.splits rval.splits) (use left_none in blast)+
  next
    case True
    then obtain n ps where n: "readf pk_reader ''%2i'' (sp_in s) = Inr (Some ([RInt16 n], ps))" by blast
    have p: "packets_left B ps" using readf_keeps [OF n pk_keeps_left, of B] assms(1) by (simp add: sp_good_def)
    show ?thesis using assms(2) n readf_keeps [OF _ pk_keeps_left p, of "''%s''"]
      unfolding sp_dragInfoReceived_def
      by (auto split: sum.splits option.splits list.splits rval.splits if_splits) (metis left_none)+
  qed
  then show ?thesis using assms(1) by (auto simp: sp_good_def sp_call_def)
qed

lemma sp_read_elems_within: "packets_left B ps \<Longrightarrow> packets_left B (snd (sp_read_elems n ps))"
proof (induction n arbitrary: ps)
  case (Suc n)
  then show ?case using pu_read_keeps [OF _ pk_keeps_left Suc.prems, of 4]
    by (auto split: sum.splits prod.splits) (metis snd_conv)
qed simp

lemma identity_table_ok: "length identity_table = kKeyModifierIDLast" "v \<in> set identity_table \<Longrightarrow> unat v < kKeyModifierIDLast"
proof -
  show "length identity_table = kKeyModifierIDLast" by (simp add: identity_table_def)
  have "list_all (\<lambda>v. unat v < kKeyModifierIDLast) identity_table" by code_simp
  then show "v \<in> set identity_table \<Longrightarrow> unat v < kKeyModifierIDLast" by (simp add: list_all_iff)
qed

lemma sp_apply_options_good: "sp_good B s \<Longrightarrow> sp_good B (sp_apply_options opts s)"
proof (induction opts s rule: sp_apply_options.induct)
  case (1 i v opts s)
  have "unat v < kKeyModifierIDLast" if "\<not> of_nat kKeyModifierIDLast \<le> v"
    using that by (simp add: kKeyModifierIDLast_def word_le_nat_alt not_le)
  then have "sp_good B (s\<lparr>sp_modifierTable := (sp_modifierTable s)[m := v]\<rparr>)" if "\<not> of_nat kKeyModifierIDLast \<le> v" for m
    using that 1(2) set_update_subset_insert [of "sp_modifierTable s" m v] by (auto simp: sp_good_def)
  with 1 show ?case by (simp split: option.splits)
qed simp_all

lemma sp_setOptions_good:
  assumes "sp_good B s" "sp_setOptions s = Ret s'"
  shows "sp_good B s'"
proof -
  from assms(2) obtain options ps where o: "sp_read_options (sp_in s) = Some (options, ps)"
    "s' = (if odd (length options) then s\<lparr>sp_in := ps\<rparr> else sp_apply_options options (sp_call (C_setOptions options) (s\<lparr>sp_in := ps\<rparr>)))"
    by (auto simp: sp_setOptions_def Let_def split: option.splits)
  have "packets_left B (sp_in s)" using assms(1) by (simp add: sp_good_def)
  then have "packets_left B ps"
    using o(1) pu_read_keeps [OF _ pk_keeps_left, of 4 "sp_in s"] sp_read_elems_within
    unfolding sp_read_options_def by (auto split: sum.splits prod.splits if_splits) (metis snd_conv)+
  then show ?thesis using o(2) sp_good_in [OF assms(1)] sp_apply_options_good by simp
qed

lemma sp_resetOptions_good: "sp_good B s \<Longrightarrow> sp_resetOptions s = Ret s' \<Longrightarrow> sp_good B s'"
  using identity_table_ok by (auto simp: sp_good_def sp_resetOptions_def sp_setKeepAliveRate_def sp_resetKeepAliveAlarm_def sp_call_def)

lemma sp_queryInfo_good [simp]: "sp_good B (sp_queryInfo env s) \<longleftrightarrow> sp_good B s"
  by (simp add: sp_queryInfo_def split: prod.splits)

lemmas sp_handlers_good = sp_handlers_parse_good sp_setClipboard_good sp_fileChunkReceived_good sp_dragInfoReceived_good
  sp_setOptions_good sp_resetOptions_good

lemma sp_handler_good:
  assumes "(f, h) \<in> set (sp_handlers env)" "sp_good B s" "h s = Ret s'"
  shows "sp_good B s'"
proof -
  have "sp_good B (sp_infoAcknowledgment s)" using assms(2) by (simp add: sp_good_def sp_infoAcknowledgment_def)
  moreover have "h \<in> {fork_dimScreen_sp, fork_recvLockState, sp_mouseMove, sp_mouseRelativeMove, sp_mouseWheel, sp_keyDown, sp_keyUp,
      sp_mouseDown, sp_mouseUp, sp_keyRepeat, sp_keepAlive, Ret, sp_enter, sp_leave, sp_grabClipboard, sp_screensaver, Ret \<circ> sp_queryInfo env,
      Ret \<circ> sp_infoAcknowledgment, sp_setClipboard env, sp_resetOptions, sp_setOptions, sp_fileChunkReceived, sp_dragInfoReceived}"
    using assms(1) by (auto simp: sp_handlers_def)
  ultimately show ?thesis
    using assms(2,3) by (elim insertE emptyE) (auto simp: sp_keepAlive_def sp_leave_def intro: sp_handlers_good [OF assms(2)])
qed

lemma sp_message_good:
  assumes "sp_good B s" "sp_message env c s = Ret (r, s')"
  shows "sp_good B s'"
proof (cases "sp_parser s")
  case parseHandshakeMessage_p
  have "sp_good B s'" if "sp_parseHandshakeMessage env c s = Ret (r, s')"
  proof (cases "c = code ''DSOP''")
    case True
    have "c \<noteq> code ''QINF''" "c \<noteq> code ''CIAK''" unfolding True by code_simp+
    with that True obtain s1 where "sp_setOptions s = Ret s1" "s' = sp_call C_handshakeComplete (s1\<lparr>sp_parser := parseMessage_p\<rparr>)"
      by (cases "sp_setOptions s") (auto simp: sp_parseHandshakeMessage_def)
    with sp_setOptions_good [OF assms(1)] show ?thesis by (auto simp: sp_good_def sp_call_def)
  next
    case False
    with that assms(1) sp_resetOptions_good [OF assms(1)] show ?thesis
      by (auto simp: sp_parseHandshakeMessage_def sp_hangup_def sp_keepAlive_def sp_resetOptions_def sp_infoAcknowledgment_def
          split: if_splits) (auto simp: sp_good_def)
  qed
  with parseHandshakeMessage_p assms(2) show ?thesis by (simp add: sp_message_def)
next
  case parseMessage_p
  then have m: "sp_parseMessage env c s = Ret (r, s')" using assms(2) by (simp add: sp_message_def)
  show ?thesis
  proof (cases "find (\<lambda>(f, _). c = code f) (sp_handlers env)")
    case None
    then show ?thesis using m assms(1) by (auto simp: sp_parseMessage_def sp_hangup_def split: if_splits)
  next
    case (Some e)
    obtain f h where e: "e = (f, h)" by (cases e)
    then have h: "(f, h) \<in> set (sp_handlers env)" using Some by (auto simp: find_Some_iff in_set_conv_nth)
    from m Some e obtain s1 where "h s = Ret s1" "s' = sp_writef ''CNOP'' [] s1"
      by (cases "h s") (auto simp: sp_parseMessage_def)
    with sp_handler_good [OF h assms(1)] show ?thesis by auto
  qed
qed

lemma take_packets_shorter:
  assumes "packets_within L ps" "ps \<noteq> []" "0 < n"
  shows "\<exists>L'<L. packets_within L' (take_packets n ps)"
proof -
  from assms(2) obtain q qs where ps: "ps = q # qs" by (cases ps) auto
  with assms(1) obtain b q' where "q = b # q'" by (cases q) (auto simp: packets_within_def)
  with assms ps have "length (concat (take_packets n ps)) < L" by (auto simp: packets_within_def)
  moreover have "[] \<notin> set (take_packets n ps)" using assms(1) take_packets_nonempty by (simp add: packets_within_def)
  ultimately show ?thesis by (auto simp: packets_within_def)
qed

end
