(* ===== verification/ClientConnection.thy ===== *)
theory ClientConnection
  imports MessageChannel ChunkTransfer
begin

text \<open>
  The server's end of a connection as a list of messages
  (\<^verbatim>\<open>src/lib/server/ClientConnectionByStream.cpp\<close>): every \<open>send\<close> method is one \<open>writef\<close> of one
  format. The two methods of \<^verbatim>\<open>src/fork/lib/server/BaseClientProxyExtension.cpp\<close> that write to
  the same stream are included.
\<close>

datatype conn_send =
    Send_query_info
  | Send_enter int int u32 u32
  | Send_leave
  | Send_key_down u32 u32 u16
  | Send_key_up u32 u32 u16
  | Send_key_repeat u32 u32 int u16
  | Send_mouse_down u8
  | Send_mouse_up u8
  | Send_mouse_move int int
  | Send_mouse_relative_move int int
  | Send_mouse_wheel int int
  | Send_drag_info u32 bytes
  | Send_screensaver bool
  | Send_reset_options
  | Send_set_options "u32 list"
  | Send_info_ack
  | Send_keep_alive
  | Send_close string
  | Send_clipboard_chunk clip_chunk
  | Send_file_chunk file_chunk
  | Send_grab_clipboard u8
  | Send_dim bool
  | Send_lock_state bool

abbreviation wint :: "int \<Rightarrow> warg" where
  "wint i \<equiv> WInt (word_of_int i)"

text \<open>The arguments as \<open>writef\<close> gets them: integers promoted to 32 bits.\<close>

fun conn_message :: "conn_send \<Rightarrow> string \<times> warg list" where
  "conn_message Send_query_info = (''QINF'', [])"
| "conn_message (Send_enter x y seqNum mods) = (''CINN%2i%2i%4i%2i'', [wint x, wint y, WInt seqNum, WInt mods])"
| "conn_message Send_leave = (''COUT'', [])"
| "conn_message (Send_key_down key mods button) = (''DKDN%2i%2i%2i'', [WInt key, WInt mods, WInt (ucast button)])"
| "conn_message (Send_key_up key mods button) = (''DKUP%2i%2i%2i'', [WInt key, WInt mods, WInt (ucast button)])"
| "conn_message (Send_key_repeat key mods count button) =
     (''DKRP%2i%2i%2i%2i'', [WInt key, WInt mods, wint count, WInt (ucast button)])"
| "conn_message (Send_mouse_down button) = (''DMDN%1i'', [WInt (ucast button)])"
| "conn_message (Send_mouse_up button) = (''DMUP%1i'', [WInt (ucast button)])"
| "conn_message (Send_mouse_move x y) = (''DMMV%2i%2i'', [wint x, wint y])"
| "conn_message (Send_mouse_relative_move dx dy) = (''DMRM%2i%2i'', [wint dx, wint dy])"
| "conn_message (Send_mouse_wheel dx dy) = (''DMWM%2i%2i'', [wint dx, wint dy])"
| "conn_message (Send_drag_info n data) = (''DDRG%2i%s'', [WInt n, WStr data])"
| "conn_message (Send_screensaver on) = (''CSEC%1i'', [WInt (of_bool on)])"
| "conn_message Send_reset_options = (''CROP'', [])"
| "conn_message (Send_set_options options) = (''DSOP%4I'', [WVec32 options])"
| "conn_message Send_info_ack = (''CIAK'', [])"
| "conn_message Send_keep_alive = (''CALV'', [])"
| "conn_message (Send_close msg) = (msg, [])"
| "conn_message (Send_clipboard_chunk c) =
     (''DCLP%1i%4i%1i%s'', [WInt (ucast (cc_id c)), WInt (cc_sequence c), WInt (ucast (cc_mark c)), WStr (cc_data c)])"
| "conn_message (Send_file_chunk c) = (''DFTR%1i%s'', [WInt (ucast (fc_mark c)), WStr (fc_data c)])"
| "conn_message (Send_grab_clipboard i) = (''CCLP%1i%4i'', [WInt (ucast i), WInt 0])"
| "conn_message (Send_dim on) = (''CDIM%1i'', [WInt (of_bool on)])"
| "conn_message (Send_lock_state locked) = (''CLCK%1i'', [WInt (of_bool locked)])"

text \<open>What the methods are called with: strings and option lists within the limits of the protocol.\<close>

fun send_ok :: "conn_send \<Rightarrow> bool" where
  "send_ok (Send_drag_info n data) \<longleftrightarrow> length data \<le> unat PROTOCOL_MAX_STRING_LENGTH"
| "send_ok (Send_set_options options) \<longleftrightarrow> length options \<le> unat PROTOCOL_MAX_LIST_LENGTH - 2"
| "send_ok (Send_close msg) \<longleftrightarrow> msg \<in> {''CBYE'', ''EBSY'', ''EUNK'', ''EBAD''}"
| "send_ok (Send_clipboard_chunk c) \<longleftrightarrow> length (cc_data c) \<le> unat PROTOCOL_MAX_STRING_LENGTH"
| "send_ok (Send_file_chunk c) \<longleftrightarrow> length (fc_data c) \<le> unat PROTOCOL_MAX_STRING_LENGTH"
| "send_ok _ \<longleftrightarrow> True"

lemma send_ok_message: "send_ok c \<Longrightarrow> message_ok (conn_message c)"
  by (cases c) (auto simp: protocol_messages_def fork_messages_def digit_value_def int_bytes_def PROTOCOL_MAX_MESSAGE_LENGTH_def be32_split_def)

end
