(* ===== verification/MessageDelivery.thy ===== *)
theory MessageDelivery
  imports ServerProxy ClientConnection
begin

text \<open>
  What the client's proxy does with the messages the server's side writes: a written message is
  read back exactly up to the end of its packet, so handling it is one call of its handler. On
  top of that, the compression of mouse motion in \<^verbatim>\<open>ServerProxy.cpp\<close> is compared with handling
  every message as it comes.
\<close>

section \<open>Reading a written message\<close>

text \<open>A reader that has not gone past the packet it is in.\<close>

definition not_past :: "packets \<Rightarrow> packets \<Rightarrow> bool" where
  "not_past rest ps \<longleftrightarrow> [] \<notin> set ps \<and>
     (length (concat rest) \<le> length (concat ps) \<longrightarrow> ps = rest \<or> (\<exists>q. ps = q # rest))"

lemma pk_not_past: "reader_keeps pk_reader (not_past rest)"
  unfolding reader_keeps_def
proof (intro allI impI)
  fix n ps bs ps'
  assume r: "pk_reader n ps = Some (bs, ps')" and np: "not_past rest ps"
  show "not_past rest ps'"
  proof (cases ps)
    case Nil
    then show ?thesis using r np by (simp add: pk_reader_def)
  next
    case (Cons q qs)
    have q: "q \<noteq> []" "[] \<notin> set qs" using np Cons by (auto simp: not_past_def)
    then have len: "0 < length q" by simp
    have ps': "ps' = (if length q \<le> unat n then qs else drop (unat n) q # qs)" using r Cons by (auto simp: pk_reader_def)
    have "length (concat ps') < length (concat ps) \<or> ps' = ps"
      using ps' len Cons by (cases "unat n = 0") auto
    then show ?thesis
      using np ps' q len Cons by (auto simp: not_past_def split: if_splits)
  qed
qed

lemma not_past_end: "not_past rest ps \<Longrightarrow> concat ps = concat rest \<Longrightarrow> ps = rest"
  by (auto simp: not_past_def)

text \<open>The code and the rest of a message.\<close>

lemma protocol_message_code:
  "fmt \<in> set protocol_messages \<Longrightarrow> fmt_items fmt = map Lit (take 4 fmt) @ fmt_items (drop 4 fmt) \<and> length (take 4 fmt) = 4 \<and>
     string_last (fmt_items (drop 4 fmt))"
proof -
  have "list_all (\<lambda>fmt. fmt_items fmt = map Lit (take 4 fmt) @ fmt_items (drop 4 fmt) \<and> length (take 4 fmt) = 4 \<and>
     string_last (fmt_items (drop 4 fmt))) protocol_messages"
    by (simp add: protocol_messages_def fork_messages_def digit_value_def int_only_def)
  then show "fmt \<in> set protocol_messages \<Longrightarrow> ?thesis" by (simp add: list_all_iff)
qed

lemma writef_void_lits:
  "writef_void (map Lit cs @ is) args = map_option (\<lambda>bs. map of_char cs @ bs) (writef_void is args)"
  by (induction cs) (auto simp: option.map_comp comp_def option.map_ident)

lemma fits_lits: "fits (map Lit cs @ is) args = fits is args"
  by (induction cs) auto

definition body :: "string \<times> warg list \<Rightarrow> bytes" where
  "body m = message_bytes (drop 4 (fst m), snd m)"

definition carried :: "string \<times> warg list \<Rightarrow> rval list" where
  "carried m = rvals (fmt_items (drop 4 (fst m))) (snd m)"

lemma message_split:
  assumes "message_ok (fmt, args)"
  shows "message_bytes (fmt, args) = code fmt @ body (fmt, args)" "length (code fmt) = 4"
    "fits (fmt_items (drop 4 fmt)) args" "writef_void (fmt_items (drop 4 fmt)) args = Some (body (fmt, args))"
proof -
  from assms have m: "fmt \<in> set protocol_messages" "fits (fmt_items fmt) args" by auto
  note c = protocol_message_code [OF m(1)]
  show f: "fits (fmt_items (drop 4 fmt)) args" using m(2) fits_lits c by metis
  then show w: "writef_void (fmt_items (drop 4 fmt)) args = Some (body (fmt, args))"
    using fits_writable [OF f] by (auto simp: body_def)
  show "message_bytes (fmt, args) = code fmt @ body (fmt, args)"
    using w c writef_void_lits [of "take 4 fmt" "fmt_items (drop 4 fmt)" args] by (simp add: code_def)
  show "length (code fmt) = 4" using c by (simp add: code_def)
qed

lemma after_code:
  assumes "message_ok m"
  shows "take 4 (message_bytes m) = code (fst m)"
    "take_packets 4 (message_bytes m # rest) = (if body m = [] then rest else body m # rest)"
  using message_split [of "fst m" "snd m"] assms by simp_all

lemma readf_body:
  assumes "message_ok m" "[] \<notin> set rest"
  shows "readf pk_reader (drop 4 (fst m)) (take_packets 4 (message_bytes m # rest)) = Inr (Some (carried m, rest))"
proof -
  obtain fmt args where m: "m = (fmt, args)" by (cases m)
  note sp = message_split [OF assms(1) [unfolded m]]
  let ?ps = "take_packets 4 (message_bytes m # rest)"
  have ps: "?ps = (if body m = [] then rest else body m # rest)" using after_code(2) [OF assms(1)] .
  then have np: "not_past rest ?ps" "[] \<notin> set ?ps" "concat ?ps = body m @ concat rest"
    using assms(2) by (auto simp: not_past_def)
  from pk_in.vreadf_written [OF sp(3,4) np(2)] np(3) m obtain ps' where
    r: "vreadf pk_reader (fmt_items (drop 4 fmt)) ?ps = Inr (rvals (fmt_items (drop 4 fmt)) args, ps')"
      "concat ps' = concat rest" by auto
  from vreadf_keeps [OF r(1) pk_not_past np(1)] r(2) have "ps' = rest" by (intro not_past_end) auto
  with r(1) m show ?thesis by (simp add: readf_def carried_def)
qed

lemma sp_parse_written:
  assumes "message_ok (fmt, args)" "[] \<notin> set rest"
  shows "sp_parse fmt k (s\<lparr>sp_in := take_packets 4 (message_bytes (fmt, args) # rest)\<rparr>) = k (carried (fmt, args)) (s\<lparr>sp_in := rest\<rparr>)"
  using readf_body [OF assms] by (simp add: sp_parse_def)

text \<open>Reading two conversions is reading one after the other.\<close>

lemma readf_grab:
  assumes "readf pk_reader ''%1i%4i'' ps = Inr (Some ([RInt8 i, RInt32 q], ps'))"
  obtains ps1 where "readf pk_reader ''%1i'' ps = Inr (Some ([RInt8 i], ps1))" "readf pk_reader ''%4i'' ps1 = Inr (Some ([RInt32 q], ps'))"
  using assms by (auto simp: readf_def digit_value_def read_conv_def split: sum.splits if_splits)

lemma sp_grabClipboard_read:
  assumes "readf pk_reader ''%1i%4i'' (sp_in s) = Inr (Some ([RInt8 i, RInt32 q], ps))"
  shows "sp_grabClipboard s = Ret (if kClipboardEnd \<le> i then s\<lparr>sp_in := ps\<rparr> else sp_call (C_grabClipboard i) (s\<lparr>sp_in := ps\<rparr>))"
proof -
  from assms obtain ps1 where r: "readf pk_reader ''%1i'' (sp_in s) = Inr (Some ([RInt8 i], ps1))"
    "readf pk_reader ''%4i'' ps1 = Inr (Some ([RInt32 q], ps))" by (rule readf_grab)
  then show ?thesis by (simp add: sp_grabClipboard_def sp_parse_def)
qed


section \<open>Handling one message\<close>

lemma sp_handle_data_message:
  assumes "message_ok m" "sp_in s = message_bytes m # rest"
    "sp_message env (code (fst m)) (s\<lparr>sp_in := take_packets 4 (sp_in s)\<rparr>) = Ret (kOkay, s')"
  shows "sp_handle_data env s = sp_handle_data env s'"
  using assms(2,3) after_code(1) [OF assms(1)] message_split(2) [of "fst m" "snd m"] assms(1)
  by (subst sp_handle_data.simps) (simp add: Let_def)

lemma sp_handle_data_end: "sp_in s = [] \<Longrightarrow> sp_handle_data env s = Some (Ret (sp_flushCompressedMouse s))"
  by (subst sp_handle_data.simps) simp

text \<open>
  The messages of a screen in use and what they are to the proxy: motion it may compress, input
  that brings the cursor up to date first, the arrival of the cursor, and messages that have
  nothing to do with the cursor.
\<close>

datatype proxy_input =
    Absolute int int
  | Relative int int
  | Acting client_call
  | Entering int int u32 u32
  | Quiet "client_call list" "(string \<times> warg list) list"

definition i16 :: "int \<Rightarrow> int" where
  "i16 i = sint (word_of_int i :: u16)"

definition u16_of :: "u32 \<Rightarrow> u32" where
  "u16_of v = ucast (ucast v :: u16)"

fun meaning :: "server_proxy \<Rightarrow> conn_send \<Rightarrow> proxy_input option" where
  "meaning s (Send_enter x y seqNum mods) = Some (Entering (i16 x) (i16 y) seqNum (u16_of mods))"
| "meaning s Send_leave = Some (Acting C_leave)"
| "meaning s (Send_key_down key mods button) =
     Some (Acting (C_keyDown (sp_translateKey s (u16_of key)) (sp_translateModifierMask s (u16_of mods)) button))"
| "meaning s (Send_key_up key mods button) =
     Some (Acting (C_keyUp (sp_translateKey s (u16_of key)) (sp_translateModifierMask s (u16_of mods)) button))"
| "meaning s (Send_key_repeat key mods count button) =
     Some (Acting (C_keyRepeat (sp_translateKey s (u16_of key)) (sp_translateModifierMask s (u16_of mods))
       (uint (word_of_int count :: u16)) button))"
| "meaning s (Send_mouse_down button) = Some (Acting (C_mouseDown button))"
| "meaning s (Send_mouse_up button) = Some (Acting (C_mouseUp button))"
| "meaning s (Send_mouse_wheel dx dy) = Some (Acting (C_mouseWheel (i16 dx) (i16 dy)))"
| "meaning s (Send_mouse_move x y) = Some (Absolute (i16 x) (i16 y))"
| "meaning s (Send_mouse_relative_move dx dy) = Some (Relative (i16 dx) (i16 dy))"
| "meaning s (Send_screensaver on) = Some (Quiet [C_screensaver on] [])"
| "meaning s (Send_grab_clipboard i) = Some (Quiet (if kClipboardEnd \<le> i then [] else [C_grabClipboard i]) [])"
| "meaning s (Send_dim on) = Some (Quiet [C_dimScreen on] [])"
| "meaning s (Send_lock_state locked) = Some (Quiet [] [])"
| "meaning s Send_info_ack = Some (Quiet [] [])"
| "meaning s Send_keep_alive = Some (Quiet [] [(''CALV'', [])])"
| "meaning s _ = None"

fun apply_input :: "proxy_input \<Rightarrow> server_proxy \<Rightarrow> server_proxy" where
  "apply_input (Absolute x y) s =
     (if sp_compressMouse s \<or> sp_in s \<noteq> []
      then s\<lparr>sp_compressMouse := True, sp_compressMouseRelative := False, sp_xMouse := x, sp_yMouse := y, sp_dxMouse := 0, sp_dyMouse := 0\<rparr>
      else sp_call (C_mouseMove x y) s)"
| "apply_input (Relative dx dy) s =
     (if sp_compressMouseRelative s \<or> sp_in s \<noteq> []
      then s\<lparr>sp_compressMouseRelative := True, sp_dxMouse := sp_dxMouse s + dx, sp_dyMouse := sp_dyMouse s + dy\<rparr>
      else sp_call (C_mouseRelativeMove dx dy) s)"
| "apply_input (Acting c) s = sp_call c (sp_flushCompressedMouse s)"
| "apply_input (Entering x y seqNum mods) s =
     sp_call (C_enter x y seqNum mods)
       (s\<lparr>sp_compressMouse := False, sp_compressMouseRelative := False, sp_dxMouse := 0, sp_dyMouse := 0, sp_seqNum := seqNum\<rparr>)"
| "apply_input (Quiet cs ws) s = s\<lparr>sp_calls := sp_calls s @ cs, sp_out := sp_out s @ ws\<rparr>"

text \<open>A proxy after the handshake whose motion is not being ignored.\<close>

definition sp_active :: "server_proxy \<Rightarrow> bool" where
  "sp_active s \<longleftrightarrow> sp_parser s = parseMessage_p \<and> \<not> sp_ignoreMouse s \<and> (sp_keepAliveAlarmTimer s \<longleftrightarrow> 0 < sp_keepAliveAlarm s)"

lemma flush_in [simp]: "sp_flushCompressedMouse (s\<lparr>sp_in := ps\<rparr>) = (sp_flushCompressedMouse s)\<lparr>sp_in := ps\<rparr>"
  "sp_in (sp_flushCompressedMouse s) = sp_in s" "sp_modifierTable (sp_flushCompressedMouse s) = sp_modifierTable s"
  by (simp_all add: sp_flushCompressedMouse_def sp_call_def Let_def)

lemma translate_table:
  assumes "sp_modifierTable s = sp_modifierTable s'"
  shows "sp_translateKey s = sp_translateKey s'" "sp_translateModifierMask s = sp_translateModifierMask s'"
  unfolding fun_eq_iff sp_translateKey_def sp_translateModifierMask_def assms by simp_all

lemma translate_flush [simp]:
  "sp_translateKey (sp_flushCompressedMouse s) = sp_translateKey s" "sp_translateKey (s\<lparr>sp_in := ps\<rparr>) = sp_translateKey s"
  "sp_translateModifierMask (sp_flushCompressedMouse s) = sp_translateModifierMask s"
  "sp_translateModifierMask (s\<lparr>sp_in := ps\<rparr>) = sp_translateModifierMask s"
  by (rule translate_table, simp)+

lemma of_bool_ne_0 [simp]: "of_bool b \<noteq> (0::'a::zero_neq_one) \<longleftrightarrow> b"
  by (cases b) auto


lemma of_char_u8_eq: "(of_char c :: u8) = of_char d \<longleftrightarrow> c = d"
proof
  have small: "unat (of_char x :: u8) = of_char x" for x :: char
  proof -
    have "(of_char x :: u8) = word_of_nat (of_char x)" by (simp only: of_nat_of_char)
    then show ?thesis using nat_of_char_less_256 [of x] by (simp only: unat_of_nat) simp
  qed
  assume "(of_char c :: u8) = of_char d"
  then have "(of_char c :: nat) = of_char d" using small by metis
  then show "c = d" by simp
qed simp

lemma code_eq: "code f = code g \<longleftrightarrow> take 4 f = take 4 g"
  unfolding code_def by (intro inj_map_eq_map injI) (simp add: of_char_u8_eq)

lemmas sp_handler_defs = sp_enter_def sp_leave_def sp_keyDown_def sp_keyRepeat_def sp_keyUp_def sp_mouseDown_def
  sp_mouseUp_def sp_mouseMove_def sp_mouseRelativeMove_def sp_mouseWheel_def sp_screensaver_def fork_dimScreen_sp_def
  fork_recvLockState_def sp_keepAlive_def sp_infoAcknowledgment_def

lemma ucast_wint: "(ucast (word_of_int i :: u32) :: u16) = word_of_int i"
  by (rule bit_word_eqI) (simp add: bit_simps)

lemma ucast_ucast_u8: "(ucast (ucast b :: u32) :: u8) = b" and ucast_ucast_u16: "(ucast (ucast w :: u32) :: u16) = w"
  by (rule bit_word_eqI, simp add: bit_simps)+

lemma carried_simps:
  "carried (''CINN%2i%2i%4i%2i'', [wint x, wint y, WInt q, WInt m]) = [RInt16 (word_of_int x), RInt16 (word_of_int y), RInt32 q, RInt16 (ucast m)]"
  "carried (''DKDN%2i%2i%2i'', [WInt k, WInt m, WInt (ucast b)]) = [RInt16 (ucast k), RInt16 (ucast m), RInt16 b]"
  "carried (''DKUP%2i%2i%2i'', [WInt k, WInt m, WInt (ucast b)]) = [RInt16 (ucast k), RInt16 (ucast m), RInt16 b]"
  "carried (''DKRP%2i%2i%2i%2i'', [WInt k, WInt m, wint x, WInt (ucast b)]) = [RInt16 (ucast k), RInt16 (ucast m), RInt16 (word_of_int x), RInt16 b]"
  "carried (''DMDN%1i'', [WInt (ucast c)]) = [RInt8 c]" "carried (''DMUP%1i'', [WInt (ucast c)]) = [RInt8 c]"
  "carried (''DMMV%2i%2i'', [wint x, wint y]) = [RInt16 (word_of_int x), RInt16 (word_of_int y)]"
  "carried (''DMRM%2i%2i'', [wint x, wint y]) = [RInt16 (word_of_int x), RInt16 (word_of_int y)]"
  "carried (''DMWM%2i%2i'', [wint x, wint y]) = [RInt16 (word_of_int x), RInt16 (word_of_int y)]"
  "carried (''CSEC%1i'', [WInt (of_bool on)]) = [RInt8 (of_bool on)]"
  "carried (''CDIM%1i'', [WInt (of_bool on)]) = [RInt8 (of_bool on)]"
  "carried (''CLCK%1i'', [WInt (of_bool on)]) = [RInt8 (of_bool on)]"
  "carried (''CCLP%1i%4i'', [WInt (ucast c), WInt q]) = [RInt8 c, RInt32 q]"
  by (simp_all add: carried_def digit_value_def ucast_wint ucast_ucast_u8 ucast_ucast_u16)

lemma input_messages_ok:
  "message_ok (''CINN%2i%2i%4i%2i'', [WInt a, WInt b, WInt c, WInt d])"
  "message_ok (''DKDN%2i%2i%2i'', [WInt a, WInt b, WInt c])" "message_ok (''DKUP%2i%2i%2i'', [WInt a, WInt b, WInt c])"
  "message_ok (''DKRP%2i%2i%2i%2i'', [WInt a, WInt b, WInt c, WInt d])"
  "message_ok (''DMDN%1i'', [WInt a])" "message_ok (''DMUP%1i'', [WInt a])"
  "message_ok (''DMMV%2i%2i'', [WInt a, WInt b])" "message_ok (''DMRM%2i%2i'', [WInt a, WInt b])" "message_ok (''DMWM%2i%2i'', [WInt a, WInt b])"
  "message_ok (''CSEC%1i'', [WInt a])" "message_ok (''CDIM%1i'', [WInt a])" "message_ok (''CLCK%1i'', [WInt a])"
  "message_ok (''CCLP%1i%4i'', [WInt a, WInt b])"
  by (simp_all add: protocol_messages_def fork_messages_def digit_value_def int_bytes_def PROTOCOL_MAX_MESSAGE_LENGTH_def)

lemma no_body:
  assumes "fmt \<in> {''COUT'', ''CIAK'', ''CALV'', ''CNOP'', ''QINF'', ''CROP''}"
  shows "take_packets 4 (message_bytes (fmt, []) # rest) = rest"
  using assms by (auto simp: digit_value_def)

text \<open>Any message of a screen in use is one call of its handler with the values written.\<close>

lemma sp_message_meaning:
  assumes "meaning s c = Some i" "sp_active s" "[] \<notin> set rest"
  shows "sp_message env (code (fst (conn_message c))) (s\<lparr>sp_in := take_packets 4 (message_bytes (conn_message c) # rest)\<rparr>) =
    Ret (kOkay, sp_writef ''CNOP'' [] (apply_input i (s\<lparr>sp_in := rest\<rparr>)))"
proof -
  have p: "sp_parser s = parseMessage_p" "sp_ignoreMouse s = False" "sp_keepAliveAlarmTimer s = (0 < sp_keepAliveAlarm s)"
    using assms(2) by (simp_all add: sp_active_def)
  have k: "sp_resetKeepAliveAlarm (s\<lparr>sp_in := rest, sp_out := ws\<rparr>) = s\<lparr>sp_in := rest, sp_out := ws\<rparr>" for ws
    using p(3) by (simp add: sp_resetKeepAliveAlarm_def)
  have g: "s\<lparr>sp_in := rest, sp_ignoreMouse := False\<rparr> = s\<lparr>sp_in := rest\<rparr>" using p(2) by simp
  have grab: "sp_grabClipboard (s\<lparr>sp_in := take_packets 4 (message_bytes (''CCLP%1i%4i'', [WInt (ucast j), WInt q]) # rest)\<rparr>) =
      Ret (if kClipboardEnd \<le> j then s\<lparr>sp_in := rest\<rparr> else sp_call (C_grabClipboard j) (s\<lparr>sp_in := rest\<rparr>))" for j q
    using sp_grabClipboard_read [of "s\<lparr>sp_in := take_packets 4 (message_bytes (''CCLP%1i%4i'', [WInt (ucast j), WInt q]) # rest)\<rparr>" j q rest]
      readf_body [OF input_messages_ok(13) [of "ucast j" q] assms(3)]
    by (simp add: carried_simps del: message_ok.simps message_bytes.simps take_packets.simps)
  show ?thesis
    using assms(1)
    by (cases c) (auto simp: grab sp_message_def sp_parseMessage_def sp_handlers_def code_eq sp_handler_defs sp_parse_written [OF _ assms(3)]
      input_messages_ok carried_simps no_body Let_def p g i16_def u16_of_def sp_call_def k sp_writef_def
      simp del: message_ok.simps message_bytes.simps take_packets.simps)
qed


section \<open>Compressed mouse motion\<close>

text \<open>
  What a client shows of its calls: each call other than a motion, with the position of the cursor
  it finds where that matters to it, and the final position. Edges of the screen are left out.
\<close>

fun positional :: "client_call \<Rightarrow> bool" where
  "positional C_leave \<longleftrightarrow> True"
| "positional (C_keyDown _ _ _) \<longleftrightarrow> True"
| "positional (C_keyRepeat _ _ _ _) \<longleftrightarrow> True"
| "positional (C_keyUp _ _ _) \<longleftrightarrow> True"
| "positional (C_mouseDown _) \<longleftrightarrow> True"
| "positional (C_mouseUp _) \<longleftrightarrow> True"
| "positional (C_mouseWheel _ _) \<longleftrightarrow> True"
| "positional _ \<longleftrightarrow> False"

type_synonym sight = "client_call \<times> (int \<times> int) option"

definition show_call :: "client_call \<Rightarrow> int \<times> int \<Rightarrow> sight list \<times> int \<times> int" where
  "show_call c p =
     (case c of
        C_mouseMove x y \<Rightarrow> ([], x, y)
      | C_mouseRelativeMove dx dy \<Rightarrow> ([], fst p + dx, snd p + dy)
      | C_enter x y q m \<Rightarrow> ([(c, Some (x, y))], x, y)
      | _ \<Rightarrow> ([(c, if positional c then Some p else None)], p))"

fun observe :: "client_call list \<Rightarrow> int \<times> int \<Rightarrow> sight list \<times> int \<times> int" where
  "observe [] p = ([], p)"
| "observe (c # cs) p = (case show_call c p of (os, p1) \<Rightarrow> case observe cs p1 of (os', p2) \<Rightarrow> (os @ os', p2))"

lemma observe_append:
  "observe (cs @ ds) p = (case observe cs p of (os, p1) \<Rightarrow> case observe ds p1 of (os', p2) \<Rightarrow> (os @ os', p2))"
  by (induction cs arbitrary: p) (simp_all split: prod.splits)

text \<open>The reference: every message is handled before the next one comes.\<close>

fun one_by_one :: "client_env \<Rightarrow> conn_send list \<Rightarrow> server_proxy \<Rightarrow> server_proxy outcome option" where
  "one_by_one env [] s = Some (Ret s)"
| "one_by_one env (c # cs) s =
     (case sp_handle_data env (s\<lparr>sp_in := [message_bytes (conn_message c)]\<rparr>) of
        Some (Ret s') \<Rightarrow> one_by_one env cs s'
      | r \<Rightarrow> r)"

text \<open>Which kinds of motion are held back after a message that is not the last one.\<close>

fun pending :: "conn_send \<Rightarrow> bool \<times> bool \<Rightarrow> bool \<times> bool" where
  "pending (Send_mouse_move _ _) f = (True, False)"
| "pending (Send_mouse_relative_move _ _) f = (fst f, True)"
| "pending Send_info_ack f = f"
| "pending Send_keep_alive f = f"
| "pending (Send_screensaver _) f = f"
| "pending (Send_grab_clipboard _) f = f"
| "pending (Send_dim _) f = f"
| "pending (Send_lock_state _) f = f"
| "pending _ f = (False, False)"

text \<open>The last message is a motion of one kind while only motion of the other kind is held back.\<close>

fun unsettled :: "conn_send \<Rightarrow> bool \<times> bool \<Rightarrow> bool" where
  "unsettled (Send_mouse_move _ _) f \<longleftrightarrow> f = (False, True)"
| "unsettled (Send_mouse_relative_move _ _) f \<longleftrightarrow> f = (True, False)"
| "unsettled _ f \<longleftrightarrow> False"

fun mixed_end :: "bool \<times> bool \<Rightarrow> conn_send list \<Rightarrow> bool" where
  "mixed_end f [] \<longleftrightarrow> False"
| "mixed_end f [c] \<longleftrightarrow> unsettled c f"
| "mixed_end f (c # cs) \<longleftrightarrow> mixed_end (pending c f) cs"

definition held :: "server_proxy \<Rightarrow> bool \<times> bool" where
  "held s = (sp_compressMouse s, sp_compressMouseRelative s)"

definition cursor_erased :: "server_proxy \<Rightarrow> server_proxy" where
  "cursor_erased s = s\<lparr>sp_in := [], sp_calls := [], sp_compressMouse := False, sp_compressMouseRelative := False,
     sp_xMouse := 0, sp_yMouse := 0, sp_dxMouse := 0, sp_dyMouse := 0\<rparr>"

definition looks_like :: "server_proxy \<Rightarrow> server_proxy \<Rightarrow> bool" where
  "looks_like t u \<longleftrightarrow>
     cursor_erased t = cursor_erased u \<and> held u = (False, False) \<and> sp_in u = [] \<and>
     (\<not> sp_compressMouseRelative t \<longrightarrow> sp_dxMouse t = 0 \<and> sp_dyMouse t = 0) \<and>
     sp_dxMouse u = 0 \<and> sp_dyMouse u = 0 \<and>
     observe (sp_calls (sp_flushCompressedMouse t)) = observe (sp_calls u)"

lemma flush_calls:
  "sp_calls (sp_flushCompressedMouse s) = sp_calls s @
     (if sp_compressMouse s then [C_mouseMove (sp_xMouse s) (sp_yMouse s)] else []) @
     (if sp_compressMouseRelative s then [C_mouseRelativeMove (sp_dxMouse s) (sp_dyMouse s)] else [])"
  by (simp add: sp_flushCompressedMouse_def sp_call_def Let_def)

lemma flush_erased [simp]: "cursor_erased (sp_flushCompressedMouse s) = cursor_erased s"
  "held (sp_flushCompressedMouse s) = (False, False)"
  by (simp_all add: sp_flushCompressedMouse_def sp_call_def Let_def cursor_erased_def held_def)

lemma flush_nothing: "held s = (False, False) \<Longrightarrow> sp_flushCompressedMouse s = s"
  by (simp add: sp_flushCompressedMouse_def held_def)

text \<open>Seen from the calls alone: motion that is held back shows in nothing but the final position.\<close>

lemma observe_flush:
  assumes "\<not> sp_compressMouseRelative t \<longrightarrow> sp_dxMouse t = 0 \<and> sp_dyMouse t = 0"
  shows "observe (sp_calls (sp_flushCompressedMouse t)) p = (os, q) \<longleftrightarrow> (\<exists>r. observe (sp_calls t) p = (os, r) \<and>
     (let b = if sp_compressMouse t then (sp_xMouse t, sp_yMouse t) else r in q = (fst b + sp_dxMouse t, snd b + sp_dyMouse t)))"
  using assms by (auto simp: flush_calls observe_append show_call_def split: prod.splits)

lemma erased_apply:
  assumes "cursor_erased t = cursor_erased u"
  shows "cursor_erased (apply_input i (t\<lparr>sp_in := r\<rparr>)) = cursor_erased (apply_input i (u\<lparr>sp_in := r'\<rparr>))"
proof -
  have e: "cursor_erased (apply_input i (s\<lparr>sp_in := ps\<rparr>)) = (case i of
      Entering x y q m \<Rightarrow> (cursor_erased s)\<lparr>sp_seqNum := q\<rparr>
    | Quiet cs ws \<Rightarrow> (cursor_erased s)\<lparr>sp_out := sp_out (cursor_erased s) @ ws\<rparr>
    | _ \<Rightarrow> cursor_erased s)" for s ps
    by (cases i) (simp_all add: cursor_erased_def sp_call_def sp_flushCompressedMouse_def Let_def)
  show ?thesis by (simp only: e assms)
qed

definition settles :: "proxy_input \<Rightarrow> server_proxy \<Rightarrow> bool" where
  "settles i t \<longleftrightarrow> (case i of
     Absolute _ _ \<Rightarrow> sp_compressMouse t \<or> \<not> sp_compressMouseRelative t
   | Relative _ _ \<Rightarrow> sp_compressMouseRelative t \<or> \<not> sp_compressMouse t
   | _ \<Rightarrow> True)"

lemma observe_call: "observe (cs @ [c]) p = (os, q) \<longleftrightarrow> (\<exists>os1 r os2. observe cs p = (os1, r) \<and> show_call c r = (os2, q) \<and> os = os1 @ os2)"
  by (auto simp: observe_append split: prod.splits)

definition quiet_calls :: "client_call list \<Rightarrow> bool" where
  "quiet_calls cs \<longleftrightarrow> (\<forall>c\<in>set cs. \<forall>p. show_call c p = ([(c, None)], p))"

lemma observe_quiet: "quiet_calls cs \<Longrightarrow> observe cs p = (map (\<lambda>c. (c, None)) cs, p)"
  by (induction cs arbitrary: p) (auto simp: quiet_calls_def simp del: split_paired_All)

lemma looks_like_observed:
  assumes "looks_like t u"
  obtains os r q where "observe (sp_calls t) p = (os, r)" "observe (sp_calls u) p = (os, q)"
    "let b = if sp_compressMouse t then (sp_xMouse t, sp_yMouse t) else r in q = (fst b + sp_dxMouse t, snd b + sp_dyMouse t)"
proof -
  obtain os q where "observe (sp_calls u) p = (os, q)" by (cases "observe (sp_calls u) p") blast
  with assms that observe_flush [of t p os q] show thesis by (auto simp: looks_like_def)
qed

text \<open>One message: the proxy that may hold back motion still looks like the one that does not.\<close>

lemma looks_like_apply:
  assumes "looks_like t u" "rest \<noteq> [] \<or> settles i t" "\<And>cs ws. i = Quiet cs ws \<Longrightarrow> quiet_calls cs"
  shows "looks_like (apply_input i (t\<lparr>sp_in := rest\<rparr>)) (apply_input i (u\<lparr>sp_in := []\<rparr>))"
proof -
  let ?t = "apply_input i (t\<lparr>sp_in := rest\<rparr>)" and ?u = "apply_input i (u\<lparr>sp_in := []\<rparr>)"
  have u: "held u = (False, False)" "sp_in u = []" "sp_dxMouse u = 0" "sp_dyMouse u = 0"
    and t: "\<not> sp_compressMouseRelative t \<Longrightarrow> sp_dxMouse t = 0 \<and> sp_dyMouse t = 0" "cursor_erased t = cursor_erased u"
    using assms(1) by (simp_all add: looks_like_def)
  have "held ?u = (False, False)" "sp_in ?u = []" "sp_dxMouse ?u = 0" "sp_dyMouse ?u = 0"
    using u by (cases i; simp add: held_def sp_call_def sp_flushCompressedMouse_def Let_def)+
  moreover have d: "\<not> sp_compressMouseRelative ?t \<longrightarrow> sp_dxMouse ?t = 0 \<and> sp_dyMouse ?t = 0"
    using t(1) by (cases i) (auto simp: sp_call_def sp_flushCompressedMouse_def Let_def)
  moreover have "observe (sp_calls (sp_flushCompressedMouse ?t)) p = observe (sp_calls ?u) p" for p
  proof -
    from looks_like_observed [OF assms(1)] obtain os r q where
      o: "observe (sp_calls t) p = (os, r)" "observe (sp_calls u) p = (os, q)"
        "let b = if sp_compressMouse t then (sp_xMouse t, sp_yMouse t) else r in q = (fst b + sp_dxMouse t, snd b + sp_dyMouse t)" .
    obtain os' q' where u': "observe (sp_calls ?u) p = (os', q')" by (cases "observe (sp_calls ?u) p") blast
    show ?thesis
    proof (cases "\<exists>c. i = Acting c")
      case True
      then obtain c where i: "i = Acting c" ..
      have "sp_calls (sp_flushCompressedMouse ?t) = sp_calls (sp_flushCompressedMouse t) @ [c]" "sp_calls ?u = sp_calls u @ [c]"
        using u(1) by (simp_all add: i held_def sp_call_def sp_flushCompressedMouse_def Let_def)
      then show ?thesis using assms(1) by (simp add: looks_like_def observe_append)
    next
      case False
      have "observe (sp_calls (sp_flushCompressedMouse ?t)) p = (os', q')"
        unfolding observe_flush [OF d]
        using False u' o u assms(2,3) t(1)
        by (cases i) (auto simp: held_def settles_def observe_append observe_quiet show_call_def sp_call_def Let_def split: if_splits)
      with u' show ?thesis by simp
    qed
  qed
  ultimately show ?thesis using erased_apply [OF t(2), of i rest "[]"] by (auto simp: looks_like_def)
qed


definition packets_of :: "conn_send list \<Rightarrow> packets" where
  "packets_of cs = map (\<lambda>c. message_bytes (conn_message c)) cs"

text \<open>The messages a screen in use gets: all but the handshake's, options, transfers and the goodbye.\<close>

fun relayed :: "conn_send \<Rightarrow> bool" where
  "relayed Send_query_info \<longleftrightarrow> False"
| "relayed (Send_drag_info _ _) \<longleftrightarrow> False"
| "relayed Send_reset_options \<longleftrightarrow> False"
| "relayed (Send_set_options _) \<longleftrightarrow> False"
| "relayed (Send_close _) \<longleftrightarrow> False"
| "relayed (Send_clipboard_chunk _) \<longleftrightarrow> False"
| "relayed (Send_file_chunk _) \<longleftrightarrow> False"
| "relayed _ \<longleftrightarrow> True"

lemma relayed_meaning:
  assumes "relayed c"
  obtains i where "meaning s c = Some i" "message_ok (conn_message c)" "\<And>cs ws. i = Quiet cs ws \<Longrightarrow> quiet_calls cs"
proof -
  have "send_ok c" using assms by (cases c) auto
  moreover have "\<exists>i. meaning s c = Some i \<and> (\<forall>cs ws. i = Quiet cs ws \<longrightarrow> quiet_calls cs)"
    using assms by (cases c) (auto simp: quiet_calls_def show_call_def)
  ultimately show thesis using that send_ok_message by blast
qed

lemma meaning_table: "sp_modifierTable t = sp_modifierTable u \<Longrightarrow> meaning t c = meaning u c"
  by (cases c) (simp_all add: translate_table [of t u])

lemma packets_of_nonempty: "list_all relayed cs \<Longrightarrow> [] \<notin> set (packets_of cs)"
proof (induction cs)
  case (Cons c cs)
  then have "message_ok (conn_message c)" using relayed_meaning by (metis list.pred_inject(2))
  then have "message_bytes (conn_message c) \<noteq> []" using message_packet by blast
  with Cons show ?case by (auto simp: packets_of_def)
qed (simp add: packets_of_def)

lemma handle_relayed:
  assumes "relayed c" "sp_active s" "sp_in s = message_bytes (conn_message c) # rest" "[] \<notin> set rest" "meaning s c = Some i"
  shows "sp_handle_data env s = sp_handle_data env (sp_writef ''CNOP'' [] (apply_input i (s\<lparr>sp_in := rest\<rparr>)))"
proof -
  from relayed_meaning [OF assms(1)] have ok: "message_ok (conn_message c)" by metis
  show ?thesis
    using sp_handle_data_message [OF ok assms(3)] sp_message_meaning [OF assms(5,2,4), of env] assms(3) by simp
qed

lemma apply_input_active:
  "sp_active s \<Longrightarrow> sp_active (sp_writef f a (apply_input i (s\<lparr>sp_in := rest\<rparr>)))"
  "sp_in (sp_writef f a (apply_input i (s\<lparr>sp_in := rest\<rparr>))) = rest"
  by (cases i; simp add: sp_active_def sp_call_def sp_writef_def sp_flushCompressedMouse_def Let_def)+

lemma held_call: "held (sp_call k s) = held s" "held (sp_writef f a s) = held s"
  by (simp_all add: held_def sp_call_def sp_writef_def)

lemma held_in: "held (s\<lparr>sp_in := ps\<rparr>) = held s"
  by (simp add: held_def)

lemma apply_input_held:
  assumes "meaning s c = Some i" "rest \<noteq> []"
  shows "held (sp_writef f a (apply_input i (s\<lparr>sp_in := rest\<rparr>))) = pending c (held s)"
proof -
  have "held (apply_input i (s\<lparr>sp_in := rest\<rparr>)) = pending c (held s)"
    using assms by (cases c) (auto simp: held_call held_in, auto simp: held_def)
  then show ?thesis by (simp add: held_call)
qed

lemma looks_like_writef: "looks_like t u \<Longrightarrow> looks_like (sp_writef f a t) (sp_writef f a u)"
proof -
  have "cursor_erased (sp_writef f a s) = sp_writef f a (cursor_erased s)" for s by (simp add: cursor_erased_def sp_writef_def)
  moreover have "sp_calls (sp_flushCompressedMouse (sp_writef f a s)) = sp_calls (sp_flushCompressedMouse s)" for s
    by (simp add: flush_calls sp_writef_def)
  ultimately show "looks_like t u \<Longrightarrow> ?thesis"
    by (simp add: looks_like_def held_call) (simp add: sp_writef_def)
qed

lemma settles_unsettled: "meaning s c = Some i \<Longrightarrow> settles i s \<longleftrightarrow> \<not> unsettled c (held s)"
  by (cases c) (auto simp: settles_def held_def)

lemma looks_like_flush: "looks_like t u \<Longrightarrow> sp_in t = [] \<Longrightarrow> looks_like (sp_flushCompressedMouse t) u"
  by (auto simp: looks_like_def flush_calls held_def) (auto simp: sp_flushCompressedMouse_def sp_call_def Let_def)

lemma erased_fields:
  assumes "cursor_erased t = cursor_erased u"
  shows "sp_modifierTable t = sp_modifierTable u" "sp_active t = sp_active u"
proof -
  have "sp_modifierTable (cursor_erased s) = sp_modifierTable s" "sp_active (cursor_erased s) = sp_active s" for s
    by (simp_all add: cursor_erased_def sp_active_def)
  with assms show "sp_modifierTable t = sp_modifierTable u" "sp_active t = sp_active u" by metis+
qed

lemma batch_looks_like:
  assumes "looks_like t u" "sp_active t" "list_all relayed cs" "\<not> mixed_end (held t) cs" "sp_in t = packets_of cs"
  shows "\<exists>t' u'. sp_handle_data env t = Some (Ret t') \<and> one_by_one env cs u = Some (Ret u') \<and> looks_like t' u' \<and>
    held t' = (False, False) \<and> sp_in t' = []"
  using assms
proof (induction cs arbitrary: t u)
  case Nil
  then have "sp_handle_data env t = Some (Ret (sp_flushCompressedMouse t))" by (simp add: sp_handle_data_end packets_of_def)
  with Nil looks_like_flush [of t u] show ?case by (auto simp: packets_of_def)
next
  case (Cons c cs)
  from Cons.prems(3) have c: "relayed c" "list_all relayed cs" by simp_all
  note ne = packets_of_nonempty [OF c(2)]
  have tab: "sp_modifierTable t = sp_modifierTable u" "sp_active u"
    using Cons.prems(1,2) erased_fields [of t u] by (auto simp: looks_like_def)
  from relayed_meaning [OF c(1)] obtain i where
    i: "meaning t c = Some i" "\<And>cs ws. i = Quiet cs ws \<Longrightarrow> quiet_calls cs" by metis
  have mu: "meaning (u\<lparr>sp_in := ps\<rparr>) c = Some i" for ps using i(1) meaning_table [of t "u\<lparr>sp_in := ps\<rparr>"] tab(1) by simp
  let ?t = "sp_writef ''CNOP'' [] (apply_input i (t\<lparr>sp_in := packets_of cs\<rparr>))"
  let ?u = "sp_writef ''CNOP'' [] (apply_input i (u\<lparr>sp_in := []\<rparr>))"
  have "packets_of cs \<noteq> [] \<or> settles i t"
    using Cons.prems(4) settles_unsettled [OF i(1)] by (cases cs) (auto simp: packets_of_def)
  from looks_like_writef [OF looks_like_apply [OF Cons.prems(1) this i(2)]] have l: "looks_like ?t ?u" .
  have ht: "sp_handle_data env t = sp_handle_data env ?t"
    using handle_relayed [OF c(1) Cons.prems(2) _ ne i(1)] Cons.prems(5) by (simp add: packets_of_def)
  have au: "sp_active (u\<lparr>sp_in := ps\<rparr>)" for ps using tab(2) by (simp add: sp_active_def)
  have "sp_handle_data env (u\<lparr>sp_in := [message_bytes (conn_message c)]\<rparr>) = sp_handle_data env ?u"
    using handle_relayed [OF c(1) au _ _ mu, of _ "[]"] by simp
  also have "\<dots> = Some (Ret ?u)"
    using l flush_nothing [of ?u] by (simp add: sp_handle_data_end looks_like_def)
  finally have hu: "one_by_one env (c # cs) u = one_by_one env cs ?u" by simp
  have m: "\<not> mixed_end (held ?t) cs"
    using Cons.prems(4) apply_input_held [OF i(1), of "packets_of cs"] by (cases cs) (auto simp: packets_of_def)
  from Cons.IH [OF l apply_input_active(1) [OF Cons.prems(2)] c(2) m apply_input_active(2)] ht hu show ?case by simp
qed


lemma looks_like_refl: "held s = (False, False) \<Longrightarrow> sp_in s = [] \<Longrightarrow> sp_dxMouse s = 0 \<Longrightarrow> sp_dyMouse s = 0 \<Longrightarrow>
  looks_like (s\<lparr>sp_in := ps\<rparr>) s"
  by (simp add: looks_like_def cursor_erased_def held_def flush_calls)

lemma batch_observed:
  assumes "sp_active s" "held s = (False, False)" "sp_in s = []" "sp_dxMouse s = 0" "sp_dyMouse s = 0"
    "list_all relayed cs" "\<not> mixed_end (False, False) cs"
  shows "\<exists>t u. sp_handle_data env (s\<lparr>sp_in := packets_of cs\<rparr>) = Some (Ret t) \<and> one_by_one env cs s = Some (Ret u) \<and>
    observe (sp_calls t) = observe (sp_calls u) \<and> cursor_erased t = cursor_erased u"
proof -
  let ?t = "s\<lparr>sp_in := packets_of cs\<rparr>"
  have "sp_active ?t" using assms(1) by (simp add: sp_active_def)
  with batch_looks_like [OF looks_like_refl [OF assms(2-5)], of "packets_of cs" cs env] assms(2,6,7) obtain t u where
    h: "sp_handle_data env ?t = Some (Ret t)" "one_by_one env cs s = Some (Ret u)" "looks_like t u" "held t = (False, False)"
    by (auto simp: held_in)
  then show ?thesis using flush_nothing [of t] by (auto simp: looks_like_def)
qed

text \<open>
  C4. Compressing mouse motion is invisible. The proxy takes a batch of any messages of a screen in
  use (motion of both kinds, keys, buttons, the wheel, entering and leaving, clipboard grabs, the
  screen saver, dimming, keep-alives) in one call of \<open>handle_data\<close>, holding back motion while more
  input is there. It returns, and what the client does is what it does when every message is handled
  before the next comes: the same calls in the same order, each finding the cursor at the same
  position, the same final position, the same replies, and the same state of the proxy otherwise. The
  one condition is that the batch does not end in a motion of one kind while only the other kind is
  held back (\<open>mixed_motion_reordered\<close>).
\<close>

theorem mouse_compression_invisible:
  assumes "sp_active s" "held s = (False, False)" "sp_in s = []" "sp_dxMouse s = 0" "sp_dyMouse s = 0"
    "list_all relayed cs" "\<not> mixed_end (False, False) cs"
  shows "\<exists>t u. sp_handle_data env (s\<lparr>sp_in := packets_of cs\<rparr>) = Some (Ret t) \<and> one_by_one env cs s = Some (Ret u) \<and>
    observe (sp_calls t) = observe (sp_calls u) \<and> cursor_erased t = cursor_erased u"
  by (rule batch_observed [OF assms])

lemma handle_two:
  assumes "sp_active s" "relayed c1" "relayed c2" "meaning s c1 = Some i1" "meaning s c2 = Some i2"
  shows "sp_handle_data env (s\<lparr>sp_in := packets_of [c1, c2]\<rparr>) = Some (Ret (sp_flushCompressedMouse (sp_writef ''CNOP'' []
    (apply_input i2 ((sp_writef ''CNOP'' [] (apply_input i1 (s\<lparr>sp_in := packets_of [c2]\<rparr>)))\<lparr>sp_in := []\<rparr>)))))"
proof -
  let ?s1 = "sp_writef ''CNOP'' [] (apply_input i1 (s\<lparr>sp_in := packets_of [c2]\<rparr>))"
  have m: "meaning (s\<lparr>sp_in := ps\<rparr>) c = meaning s c" for ps c by (rule meaning_table) simp
  have "sp_modifierTable ?s1 = sp_modifierTable s"
    by (cases i1) (simp_all add: sp_writef_def sp_call_def)
  then have m2: "meaning ?s1 c2 = Some i2" using meaning_table [of ?s1 s c2] assms(5) by simp
  have a: "sp_active (s\<lparr>sp_in := ps\<rparr>)" for ps using assms(1) by (simp add: sp_active_def)
  have "sp_handle_data env (s\<lparr>sp_in := packets_of [c1, c2]\<rparr>) = sp_handle_data env ?s1"
    using handle_relayed [OF assms(2) a _ packets_of_nonempty, of _ "[c2]" i1 env] assms(3,4) m by (simp add: packets_of_def)
  also have "\<dots> = sp_handle_data env (sp_writef ''CNOP'' [] (apply_input i2 (?s1\<lparr>sp_in := []\<rparr>)))"
    using handle_relayed [OF assms(3) apply_input_active(1) [OF assms(1)] _ _ m2, of "[]" env] apply_input_active(2)
    by (simp add: packets_of_def)
  also have "\<dots> = Some (Ret (sp_flushCompressedMouse (sp_writef ''CNOP'' [] (apply_input i2 (?s1\<lparr>sp_in := []\<rparr>)))))"
    by (rule sp_handle_data_end) (rule apply_input_active(2))
  finally show ?thesis .
qed

text \<open>The calls an input leads to when nothing is held back.\<close>

fun input_calls :: "proxy_input \<Rightarrow> client_call list" where
  "input_calls (Absolute x y) = [C_mouseMove x y]"
| "input_calls (Relative dx dy) = [C_mouseRelativeMove dx dy]"
| "input_calls (Acting c) = [c]"
| "input_calls (Entering x y seqNum mods) = [C_enter x y seqNum mods]"
| "input_calls (Quiet cs ws) = cs"

lemma one_by_one_calls:
  assumes "sp_active s" "held s = (False, False)" "sp_in s = []" "list_all relayed cs"
  shows "\<exists>u. one_by_one env cs s = Some (Ret u) \<and>
    sp_calls u = sp_calls s @ concat (map (\<lambda>c. input_calls (the (meaning s c))) cs)"
  using assms
proof (induction cs arbitrary: s)
  case (Cons c cs)
  then have c: "relayed c" by simp
  from relayed_meaning [OF c] obtain i where i: "meaning s c = Some i" by metis
  have m: "meaning (s\<lparr>sp_in := ps\<rparr>) c = Some i" for ps using i meaning_table [of "s\<lparr>sp_in := ps\<rparr>" s c] by simp
  have a: "sp_active (s\<lparr>sp_in := ps\<rparr>)" for ps using Cons.prems(1) by (simp add: sp_active_def)
  let ?u = "sp_writef ''CNOP'' [] (apply_input i (s\<lparr>sp_in := []\<rparr>))"
  have f: "\<not> sp_compressMouse s" "\<not> sp_compressMouseRelative s" using Cons.prems(2) by (simp_all add: held_def)
  have u: "held ?u = (False, False)" "sp_calls ?u = sp_calls s @ input_calls i" "sp_modifierTable ?u = sp_modifierTable s"
    using f Cons.prems(3) by (cases i; simp add: held_def sp_writef_def sp_call_def sp_flushCompressedMouse_def)+
  have "sp_handle_data env (s\<lparr>sp_in := [message_bytes (conn_message c)]\<rparr>) = sp_handle_data env ?u"
    using handle_relayed [OF c a _ _ m, of _ "[]"] by simp
  also have "\<dots> = Some (Ret ?u)"
    using apply_input_active(2) u(1) by (simp add: sp_handle_data_end flush_nothing)
  finally have h: "one_by_one env (c # cs) s = one_by_one env cs ?u" by simp
  from Cons.IH [OF apply_input_active(1) [OF Cons.prems(1)] u(1) apply_input_active(2)] Cons.prems(4) obtain w where
    "one_by_one env cs ?u = Some (Ret w)" "sp_calls w = sp_calls ?u @ concat (map (\<lambda>c. input_calls (the (meaning ?u c))) cs)" by auto
  then show ?case using h i u(2) meaning_table [OF u(3)] by simp
qed simp

text \<open>
  Motion of the two kinds is reordered at the end of a batch. An absolute motion with a relative
  one behind it is held back, the relative one is forwarded at once, and the flush then puts the cursor
  back to where it was before the relative motion; a relative motion with an absolute one behind it is
  added after the absolute one. Handled one by one the cursor ends where the server meant it.
\<close>

theorem mixed_motion_reordered:
  assumes "sp_active s" "held s = (False, False)" "sp_calls s = []" "sp_in s = []" "sp_dxMouse s = 0" "sp_dyMouse s = 0"
  shows "(\<exists>t u. sp_handle_data env (s\<lparr>sp_in := packets_of [Send_mouse_move x y, Send_mouse_relative_move dx dy]\<rparr>) = Some (Ret t) \<and>
      one_by_one env [Send_mouse_move x y, Send_mouse_relative_move dx dy] s = Some (Ret u) \<and>
      observe (sp_calls t) p = ([], i16 x, i16 y) \<and> observe (sp_calls u) p = ([], i16 x + i16 dx, i16 y + i16 dy)) \<and>
    (\<exists>t u. sp_handle_data env (s\<lparr>sp_in := packets_of [Send_mouse_relative_move dx dy, Send_mouse_move x y]\<rparr>) = Some (Ret t) \<and>
      one_by_one env [Send_mouse_relative_move dx dy, Send_mouse_move x y] s = Some (Ret u) \<and>
      observe (sp_calls t) p = ([], i16 x + i16 dx, i16 y + i16 dy) \<and> observe (sp_calls u) p = ([], i16 x, i16 y))"
proof -
  from one_by_one_calls [OF assms(1,2,4), of "[Send_mouse_move x y, Send_mouse_relative_move dx dy]" env]
    one_by_one_calls [OF assms(1,2,4), of "[Send_mouse_relative_move dx dy, Send_mouse_move x y]" env] assms(3)
  obtain u u' where u: "one_by_one env [Send_mouse_move x y, Send_mouse_relative_move dx dy] s = Some (Ret u)"
      "sp_calls u = [C_mouseMove (i16 x) (i16 y), C_mouseRelativeMove (i16 dx) (i16 dy)]"
      "one_by_one env [Send_mouse_relative_move dx dy, Send_mouse_move x y] s = Some (Ret u')"
      "sp_calls u' = [C_mouseRelativeMove (i16 dx) (i16 dy), C_mouseMove (i16 x) (i16 y)]" by auto
  have f: "\<not> sp_compressMouse s" "\<not> sp_compressMouseRelative s" using assms(2) by (simp_all add: held_def)
  show ?thesis
    using assms(3,5,6) f u handle_two [OF assms(1), of "Send_mouse_move x y" "Send_mouse_relative_move dx dy" _ _ env]
      handle_two [OF assms(1), of "Send_mouse_relative_move dx dy" "Send_mouse_move x y" _ _ env]
    by (auto simp: flush_calls sp_writef_def sp_call_def show_call_def packets_of_def)
qed

lemma mask_bit: "(if m AND 2 ^ n \<noteq> (0::u32) then 2 ^ n else 0) = m AND 2 ^ n"
  by (rule bit_word_eqI) (auto simp: and_exp_eq_0_iff_not_bit bit_simps)

lemma identity_lookups:
  "map (\<lambda>k. s_translationTable ! unat (identity_table ! k)) [1, 2, 3, 4, 5, 6] =
     [(0xEFE1, 0xEFE2), (0xEFE3, 0xEFE4), (0xEFE9, 0xEFEA), (0xEFE7, 0xEFE8), (0xEFEB, 0xEFEC), (0xEF7E, 0xEF7E)]"
  "map (\<lambda>k. s_masks ! unat (identity_table ! k)) [1, 2, 3, 4, 5, 6] = [2 ^ 0, 2 ^ 1, 2 ^ 2, 2 ^ 3, 2 ^ 4, 2 ^ 5]"
  by code_simp+

lemma translate_identity:
  assumes "sp_modifierTable s = identity_table"
  shows "sp_translateKey s i = i" "sp_translateModifierMask s m = m"
proof -
  show "sp_translateKey s i = i"
    using identity_lookups(1) unfolding sp_translateKey_def modifier_of_key_def assms Let_def by simp
  have "sp_translateModifierMask s m = m AND NOT 0x3f OR
      (if m AND 2 ^ 0 \<noteq> 0 then 2 ^ 0 else 0) OR (if m AND 2 ^ 1 \<noteq> 0 then 2 ^ 1 else 0) OR (if m AND 2 ^ 2 \<noteq> 0 then 2 ^ 2 else 0) OR
      (if m AND 2 ^ 5 \<noteq> 0 then 2 ^ 5 else 0) OR (if m AND 2 ^ 3 \<noteq> 0 then 2 ^ 3 else 0) OR (if m AND 2 ^ 4 \<noteq> 0 then 2 ^ 4 else 0)"
    using identity_lookups(2) unfolding sp_translateModifierMask_def assms by simp
  also have "\<dots> = m AND (NOT 0x3f OR 2 ^ 0 OR 2 ^ 1 OR 2 ^ 2 OR 2 ^ 5 OR 2 ^ 3 OR 2 ^ 4)"
    unfolding mask_bit by (simp only: bit.conj_disj_distrib)
  also have "NOT 0x3f OR 2 ^ 0 OR 2 ^ 1 OR 2 ^ 2 OR 2 ^ 5 OR 2 ^ 3 OR 2 ^ 4 = (- 1 :: u32)" by code_simp
  finally show "sp_translateModifierMask s m = m" by simp
qed

section \<open>From the server's calls to the client's\<close>

text \<open>The call of the client that corresponds to a call of the connection, arguments unchanged.\<close>

fun client_calls :: "conn_send \<Rightarrow> client_call list" where
  "client_calls (Send_enter x y seqNum mods) = [C_enter x y seqNum mods]"
| "client_calls Send_leave = [C_leave]"
| "client_calls (Send_key_down key mods button) = [C_keyDown key mods button]"
| "client_calls (Send_key_up key mods button) = [C_keyUp key mods button]"
| "client_calls (Send_key_repeat key mods count button) = [C_keyRepeat key mods count button]"
| "client_calls (Send_mouse_down button) = [C_mouseDown button]"
| "client_calls (Send_mouse_up button) = [C_mouseUp button]"
| "client_calls (Send_mouse_wheel dx dy) = [C_mouseWheel dx dy]"
| "client_calls (Send_mouse_move x y) = [C_mouseMove x y]"
| "client_calls (Send_mouse_relative_move dx dy) = [C_mouseRelativeMove dx dy]"
| "client_calls (Send_screensaver on) = [C_screensaver on]"
| "client_calls (Send_grab_clipboard i) = [C_grabClipboard i]"
| "client_calls (Send_dim on) = [C_dimScreen on]"
| "client_calls _ = []"

text \<open>Arguments within the 16 bits their conversions carry.\<close>

abbreviation s16 :: "int \<Rightarrow> bool" where
  "s16 i \<equiv> -32768 \<le> i \<and> i < 32768"

fun carries :: "conn_send \<Rightarrow> bool" where
  "carries (Send_enter x y seqNum mods) \<longleftrightarrow> s16 x \<and> s16 y \<and> mods < 65536"
| "carries (Send_key_down key mods button) \<longleftrightarrow> key < 65536 \<and> mods < 65536"
| "carries (Send_key_up key mods button) \<longleftrightarrow> key < 65536 \<and> mods < 65536"
| "carries (Send_key_repeat key mods count button) \<longleftrightarrow> key < 65536 \<and> mods < 65536 \<and> 0 \<le> count \<and> count < 65536"
| "carries (Send_mouse_wheel dx dy) \<longleftrightarrow> s16 dx \<and> s16 dy"
| "carries (Send_mouse_move x y) \<longleftrightarrow> s16 x \<and> s16 y"
| "carries (Send_mouse_relative_move dx dy) \<longleftrightarrow> s16 dx \<and> s16 dy"
| "carries (Send_grab_clipboard i) \<longleftrightarrow> i < kClipboardEnd"
| "carries _ \<longleftrightarrow> True"

lemma i16_id: "s16 i \<Longrightarrow> i16 i = i"
  unfolding i16_def by (simp add: signed_of_int signed_take_bit_int_eq_self_iff)

lemma u16_of_id: "v < 65536 \<Longrightarrow> u16_of v = v"
  by (rule word_unat_eq_iff [THEN iffD2])
    (simp add: u16_of_def word_less_nat_alt unsigned_ucast_eq unsigned_take_bit_eq take_bit_nat_eq_self)

lemma uint_u16_id: "0 \<le> i \<Longrightarrow> i < 65536 \<Longrightarrow> uint (word_of_int i :: u16) = i"
  by (simp add: uint_word_of_int_eq take_bit_int_eq_self)

lemma carries_calls:
  assumes "relayed c" "carries c" "sp_modifierTable s = identity_table"
  shows "input_calls (the (meaning s c)) = client_calls c"
  using assms(1,2) translate_identity [OF assms(3)] by (cases c) (auto simp: i16_id u16_of_id uint_u16_id)

text \<open>
  C3. What the server asks of a remote screen is what the client does there. Take any sequence of the
  sixteen kinds of calls that relay input to a screen in use (entering and leaving it, keys, buttons,
  motion, the wheel, the screen saver, clipboard grabs, dimming, the lock, acknowledgements and keep
  alives; not queries, options, drag information, the goodbye or chunks of clipboards and files), with
  coordinates and codes within the 16 bits the messages have for them and valid clipboard numbers,
  that does not end with one kind of motion while only motion of the other kind is held back
  (\<open>mixed_motion_reordered\<close> shows what happens then). Written as messages and taken in one batch by the
  proxy of a client with the default modifier map that is not waiting for an acknowledgement, it leads
  to the same calls of the client with the same arguments in the same order, motion compressed as
  \<open>mouse_compression_invisible\<close> allows.
\<close>

theorem server_calls_reach_client:
  assumes "sp_active s" "held s = (False, False)" "sp_in s = []" "sp_dxMouse s = 0" "sp_dyMouse s = 0"
    "sp_modifierTable s = identity_table" "list_all relayed cs" "list_all carries cs" "\<not> mixed_end (False, False) cs"
  shows "\<exists>t. sp_handle_data env (s\<lparr>sp_in := packets_of cs\<rparr>) = Some (Ret t) \<and>
    observe (sp_calls t) p = observe (sp_calls s @ concat (map client_calls cs)) p"
proof -
  have e: "map (\<lambda>c. input_calls (the (meaning s c))) cs = map client_calls cs"
    using assms(7,8) carries_calls [OF _ _ assms(6)] by (simp add: list_all_iff)
  show ?thesis
    using batch_observed [OF assms(1-5,7,9), of env] one_by_one_calls [OF assms(1-3,7), of env] unfolding e by auto
qed

section \<open>Witnesses\<close>

definition demo_proxy :: server_proxy where
  "demo_proxy = sp_new\<lparr>sp_parser := parseMessage_p\<rparr>"

lemma demo_proxy_ready:
  "sp_active demo_proxy" "held demo_proxy = (False, False)" "sp_in demo_proxy = []" "sp_calls demo_proxy = []"
  "sp_dxMouse demo_proxy = 0" "sp_dyMouse demo_proxy = 0" "sp_modifierTable demo_proxy = identity_table"
  by (simp_all add: demo_proxy_def sp_active_def held_def sp_new_def sp_setKeepAliveRate_def sp_resetKeepAliveAlarm_def
      kKeepAliveRate_def kKeepAlivesUntilDeath_def)

definition demo_sends :: "conn_send list" where
  "demo_sends = [Send_enter 0 10 7 0, Send_mouse_move 3 4, Send_mouse_move 5 6, Send_mouse_down 1, Send_mouse_relative_move 1 (- 1),
     Send_keep_alive, Send_mouse_relative_move 2 (- 2)]"

lemma demo_sends_ok: "list_all relayed demo_sends" "list_all carries demo_sends" "\<not> mixed_end (False, False) demo_sends"
  by (simp_all add: demo_sends_def)

theorem mouse_compression_invisible_witness:
  "\<exists>t u. sp_handle_data \<lparr>ce_shape = (0, 0, 80, 60), ce_cursor = (0, 0), ce_maxClipboard = 0\<rparr> (demo_proxy\<lparr>sp_in := packets_of demo_sends\<rparr>) = Some (Ret t) \<and>
    one_by_one \<lparr>ce_shape = (0, 0, 80, 60), ce_cursor = (0, 0), ce_maxClipboard = 0\<rparr> demo_sends demo_proxy = Some (Ret u) \<and>
    observe (sp_calls t) = observe (sp_calls u) \<and> cursor_erased t = cursor_erased u"
  by (rule mouse_compression_invisible [OF demo_proxy_ready(1,2,3,5,6) demo_sends_ok(1,3)])

theorem mixed_motion_reordered_witness:
  "\<exists>t. sp_handle_data \<lparr>ce_shape = (0, 0, 80, 60), ce_cursor = (0, 0), ce_maxClipboard = 0\<rparr>
      (demo_proxy\<lparr>sp_in := packets_of [Send_mouse_move 3 4, Send_mouse_relative_move 10 10]\<rparr>) = Some (Ret t) \<and>
    observe (sp_calls t) (0, 0) = ([], 3, 4)"
  using mixed_motion_reordered [OF demo_proxy_ready(1,2,4,3,5,6), of _ 3 4 10 10 "(0, 0)"] by (auto simp: i16_id)

theorem server_calls_reach_client_witness:
  "\<exists>t. sp_handle_data \<lparr>ce_shape = (0, 0, 80, 60), ce_cursor = (0, 0), ce_maxClipboard = 0\<rparr> (demo_proxy\<lparr>sp_in := packets_of demo_sends\<rparr>) = Some (Ret t) \<and>
    observe (sp_calls t) (0, 0) = ([(C_enter 0 10 7 0, Some (0, 10)), (C_mouseDown 1, Some (5, 6))], 8, 3)"
proof -
  have "observe (sp_calls demo_proxy @ concat (map client_calls demo_sends)) (0, 0) =
      ([(C_enter 0 10 7 0, Some (0, 10)), (C_mouseDown 1, Some (5, 6))], 8, 3)"
    by (simp add: demo_sends_def demo_proxy_ready show_call_def)
  then show ?thesis
    using server_calls_reach_client [OF demo_proxy_ready(1,2,3,5,6,7) demo_sends_ok,
      of "\<lparr>ce_shape = (0, 0, 80, 60), ce_cursor = (0, 0), ce_maxClipboard = 0\<rparr>" "(0, 0)"] by simp
qed

end
