(* ===== verification/ProxySafety.thy ===== *)
theory ProxySafety
  imports MessageDelivery
begin

text \<open>
  The client's proxy on whatever input comes: the invariant of its state over any packets, what a
  message that is cut off does to it, and the hang-ups of the dispatcher.
\<close>

section \<open>Messages that are cut off\<close>

fun fmt_width :: "fmt_item list \<Rightarrow> nat" where
  "fmt_width [] = 0"
| "fmt_width (Lit c # is) = 1 + fmt_width is"
| "fmt_width (Conv len k # is) = unat len + fmt_width is"

definition ints :: "fmt_item list \<Rightarrow> bool" where
  "ints is \<longleftrightarrow> list_all (\<lambda>i. case i of Lit c \<Rightarrow> False | Conv len k \<Rightarrow> k = Some CHR ''i'' \<and> (len = 1 \<or> len = 2 \<or> len = 4)) is"

context input_stream
begin

lemma vreadf_short:
  "good s \<Longrightarrow> ints is \<Longrightarrow> length (contents s) < fmt_width is \<Longrightarrow> vreadf rd is s = Inl XIOEndOfStream"
proof (induction "is" arbitrary: s)
  case (Cons i "is")
  then obtain len where i: "i = Conv len (Some CHR ''i'')" "len = 1 \<or> len = 2 \<or> len = 4" "ints is"
    by (cases i) (auto simp: ints_def)
  show ?case
  proof (cases "length (contents s) < unat len")
    case True
    then have "read_conv rd len (Some CHR ''i'') s = Inl XIOEndOfStream"
      using pu_read_eof [OF Cons.prems(1) True] i(2) by (auto simp: read_conv_def)
    then show ?thesis by (simp add: i)
  next
    case False
    with pu_read_ok [OF Cons.prems(1), of len] obtain s1 where
      r: "pu_read rd len s = Inr (take (unat len) (contents s), s1)" "good s1" "contents s1 = drop (unat len) (contents s)" by auto
    then obtain vs where "read_conv rd len (Some CHR ''i'') s = Inr (vs, s1)" using i(2) by (auto simp: read_conv_def)
    moreover have "length (contents s1) < fmt_width is" using Cons.prems(3) False r(3) i(1) by simp
    ultimately show ?thesis using Cons.IH [OF r(2) i(3)] by (simp add: i)
  qed
qed simp

lemma vreadf_long:
  "good s \<Longrightarrow> ints is \<Longrightarrow> fmt_width is \<le> length (contents s) \<Longrightarrow> \<exists>vs s'. vreadf rd is s = Inr (vs, s') \<and> typed is vs"
proof (induction "is" arbitrary: s)
  case (Cons i "is")
  then obtain len where i: "i = Conv len (Some CHR ''i'')" "len = 1 \<or> len = 2 \<or> len = 4" "ints is"
    by (cases i) (auto simp: ints_def)
  have n: "unat len \<le> length (contents s)" using Cons.prems(3) i(1) by simp
  from pu_read_ok [OF Cons.prems(1) n] obtain s1 where
    r: "pu_read rd len s = Inr (take (unat len) (contents s), s1)" "good s1" "contents s1 = drop (unat len) (contents s)" by auto
  have "fmt_width is \<le> length (contents s1)" using Cons.prems(3) r(3) i(1) by simp
  from Cons.IH [OF r(2) i(3) this] obtain vs s' where vs: "vreadf rd is s1 = Inr (vs, s')" "typed is vs" by blast
  obtain v where "read_conv rd len (Some CHR ''i'') s = Inr ([v], s1)" "typed [Conv len (Some CHR ''i'')] [v]"
    using r(1) i(2) by (auto simp: read_conv_def)
  then show ?case using vs i(1) by (cases v) auto
qed simp

end

text \<open>
  The messages whose handlers read integers only and do not look at the result of \<open>readf\<close>, with the
  arguments whose values are used. That of a grab uses the identifier and not the sequence number.
\<close>

definition unchecked_messages :: "string list" where
  "unchecked_messages =
     [''CINN%2i%2i%4i%2i'', ''CCLP%1i'', ''CSEC%1i'', ''DKDN%2i%2i%2i'', ''DKRP%2i%2i%2i%2i'', ''DKUP%2i%2i%2i'',
      ''DMDN%1i'', ''DMUP%1i'', ''DMMV%2i%2i'', ''DMRM%2i%2i'', ''DMWM%2i%2i'', ''CDIM%1i'', ''CLCK%1i'']"

lemma unchecked_ints: "fmt \<in> set unchecked_messages \<Longrightarrow> ints (fmt_items (drop 4 fmt)) \<and> length (code fmt) = 4"
  by (auto simp: unchecked_messages_def ints_def code_def digit_value_def)

lemma sp_parse_short:
  assumes "fmt \<in> set unchecked_messages" "[] \<notin> set (sp_in s)" "length (concat (sp_in s)) < fmt_width (fmt_items (drop 4 fmt))"
  shows "sp_parse fmt k s = Undefined"
  using pk_in.vreadf_short [OF assms(2), of "fmt_items (drop 4 fmt)"] unchecked_ints [OF assms(1)] assms(3)
  by (simp add: sp_parse_def readf_def)

lemma unchecked_handler:
  assumes "fmt \<in> set unchecked_messages"
  obtains h where "find (\<lambda>(f, _). code fmt = code f) (sp_handlers env) = Some (take 4 fmt, h)"
    "\<And>s. \<exists>k s1. h s = sp_parse fmt k s1 \<and> sp_in s1 = sp_in s"
  using assms unfolding unchecked_messages_def
  by (auto simp: sp_handlers_def code_eq sp_handler_defs sp_grabClipboard_def) (metis flush_in(2))+

text \<open>
  C37. A message that is cut off makes the client act on values nobody sent. Every handler of input,
  of entering, of clipboard grabs, of the screen saver, of dimming and of the lock ignores whether
  \<open>readf\<close> succeeded: if the last packet that has arrived holds the code of its message and fewer bytes
  than the arguments take that it uses (for a grab, no byte at all: a cut after the identifier does no
  harm), variables that were never set are read (they decide what is done, or, for motion that is being
  ignored, what is logged), and the client neither notices nor hangs up. With further packets behind it
  the missing bytes would be taken from these instead.
\<close>

theorem cut_off_message_undefined:
  assumes "sp_parser s = parseMessage_p" "fmt \<in> set unchecked_messages"
    "sp_in s = [code fmt @ bs]" "length bs < fmt_width (fmt_items (drop 4 fmt))"
  shows "sp_handle_data env s = Some Undefined"
proof -
  let ?s1 = "s\<lparr>sp_in := take_packets 4 (sp_in s)\<rparr>"
  have c: "length (code fmt) = 4" using unchecked_ints [OF assms(2)] by simp
  from unchecked_handler [OF assms(2), of env] obtain h where
    h: "find (\<lambda>(f, _). code fmt = code f) (sp_handlers env) = Some (take 4 fmt, h)"
      "\<And>s. \<exists>k s1. h s = sp_parse fmt k s1 \<and> sp_in s1 = sp_in s" by blast
  from h(2) [of ?s1] obtain k s2 where k: "h ?s1 = sp_parse fmt k s2" "sp_in s2 = (if bs = [] then [] else [bs])"
    using assms(3) c by auto
  have "sp_parse fmt k s2 = Undefined" using sp_parse_short [OF assms(2)] k(2) assms(4) by simp
  then have "sp_message env (code fmt) ?s1 = Undefined"
    using assms(1) h(1) k(1) by (simp add: sp_message_def sp_parseMessage_def)
  then show ?thesis using assms(3) c by (subst sp_handle_data.simps) (simp add: Let_def)
qed

theorem cut_off_message_undefined_witness:
  "sp_handle_data \<lparr>ce_shape = (0, 0, 80, 60), ce_cursor = (0, 0), ce_maxClipboard = 0\<rparr>
     (demo_proxy\<lparr>sp_in := [code ''DKDN%2i%2i%2i'' @ [0, 97, 0]]\<rparr>) = Some Undefined"
  by (rule cut_off_message_undefined [of _ "''DKDN%2i%2i%2i''" "[0, 97, 0]"])
     (simp_all add: demo_proxy_def unchecked_messages_def digit_value_def)

section \<open>The invariant over any input\<close>

lemma sp_parse_undefined:
  assumes "fmt \<in> set unchecked_messages" "[] \<notin> set (sp_in s)" "sp_parse fmt k s = Undefined"
    and "\<And>vs t. typed (fmt_items (drop 4 fmt)) vs \<Longrightarrow> k vs t \<noteq> Undefined"
  shows "length (concat (sp_in s)) < fmt_width (fmt_items (drop 4 fmt))"
proof (rule ccontr)
  assume "\<not> ?thesis"
  with pk_in.vreadf_long [OF assms(2), of "fmt_items (drop 4 fmt)"] unchecked_ints [OF assms(1)] obtain vs ps where
    "vreadf pk_reader (fmt_items (drop 4 fmt)) (sp_in s) = Inr (vs, ps)" "typed (fmt_items (drop 4 fmt)) vs" by auto
  then show False using assms(3,4) by (simp add: sp_parse_def readf_def)
qed

text \<open>A handler meets an unset variable only in one of these messages, cut off.\<close>

definition cut_off :: "bytes \<Rightarrow> bytes \<Rightarrow> bool" where
  "cut_off c rest \<longleftrightarrow> (\<exists>fmt\<in>set unchecked_messages. c = code fmt \<and> length rest < fmt_width (fmt_items (drop 4 fmt)))"

lemma cut_offI:
  assumes "fmt \<in> set unchecked_messages" "[] \<notin> set (sp_in s)" "sp_parse fmt k s = Undefined"
    and "\<And>vs t. typed (fmt_items (drop 4 fmt)) vs \<Longrightarrow> k vs t \<noteq> Undefined"
  shows "cut_off (code fmt) (concat (sp_in s))"
  using sp_parse_undefined [OF assms] assms(1) unfolding cut_off_def by blast

lemma unchecked_undefined:
  assumes "[] \<notin> set (sp_in s)"
  shows "sp_enter s = Undefined \<Longrightarrow> cut_off (code ''CINN%2i%2i%4i%2i'') (concat (sp_in s))"
    "sp_grabClipboard s = Undefined \<Longrightarrow> cut_off (code ''CCLP%1i'') (concat (sp_in s))"
    "sp_screensaver s = Undefined \<Longrightarrow> cut_off (code ''CSEC%1i'') (concat (sp_in s))"
    "fork_dimScreen_sp s = Undefined \<Longrightarrow> cut_off (code ''CDIM%1i'') (concat (sp_in s))"
    "fork_recvLockState s = Undefined \<Longrightarrow> cut_off (code ''CLCK%1i'') (concat (sp_in s))"
    "sp_mouseMove s = Undefined \<Longrightarrow> cut_off (code ''DMMV%2i%2i'') (concat (sp_in s))"
    "sp_mouseRelativeMove s = Undefined \<Longrightarrow> cut_off (code ''DMRM%2i%2i'') (concat (sp_in s))"
  unfolding sp_enter_def sp_grabClipboard_def sp_screensaver_def fork_dimScreen_sp_def fork_recvLockState_def sp_mouseMove_def
    sp_mouseRelativeMove_def
  by (erule cut_offI [rotated 2]; (simp add: assms unchecked_messages_def; fail)?;
      auto simp: digit_value_def Let_def split: list.splits rval.splits)+

lemma unchecked_undefined_flushed:
  assumes "[] \<notin> set (sp_in s)"
  shows "sp_keyDown s = Undefined \<Longrightarrow> cut_off (code ''DKDN%2i%2i%2i'') (concat (sp_in s))"
    "sp_keyRepeat s = Undefined \<Longrightarrow> cut_off (code ''DKRP%2i%2i%2i%2i'') (concat (sp_in s))"
    "sp_keyUp s = Undefined \<Longrightarrow> cut_off (code ''DKUP%2i%2i%2i'') (concat (sp_in s))"
    "sp_mouseDown s = Undefined \<Longrightarrow> cut_off (code ''DMDN%1i'') (concat (sp_in s))"
    "sp_mouseUp s = Undefined \<Longrightarrow> cut_off (code ''DMUP%1i'') (concat (sp_in s))"
    "sp_mouseWheel s = Undefined \<Longrightarrow> cut_off (code ''DMWM%2i%2i'') (concat (sp_in s))"
  unfolding sp_keyDown_def sp_keyRepeat_def sp_keyUp_def sp_mouseDown_def sp_mouseUp_def sp_mouseWheel_def
    flush_in(2) [of s, symmetric]
  by (erule cut_offI [rotated 2]; (simp add: assms unchecked_messages_def flush_in(2); fail)?;
      auto simp: digit_value_def split: list.splits rval.splits)+

lemma sp_setClipboard_defined:
  assumes "[] \<notin> set (sp_in s)"
  shows "sp_setClipboard env s \<noteq> Undefined"
proof -
  have "readable (fmt_items (drop 4 ''DCLP%1i%4i%1i%s''))" by (simp add: readable_def digit_value_def)
  from pk_in.readf_cases [OF this assms] consider "readf pk_reader (drop 4 ''DCLP%1i%4i%1i%s'') (sp_in s) = Inl XBadClient"
    | r where "readf pk_reader (drop 4 ''DCLP%1i%4i%1i%s'') (sp_in s) = Inr r" by blast
  then show ?thesis
  proof cases
    case (2 r)
    have "\<not> m_open cb_new" by (simp add: cb_new_def)
    from cb.unmarshall_decodes [OF _ this] have "\<forall>d. \<exists>cb. cb_unmarshall d 0 cb_new = Some cb"
      by (fastforce simp: cb_unmarshall_def cb_ops_def)
    then obtain f where "\<And>d. cb_unmarshall d 0 cb_new = Some (f d)" by metis
    then show ?thesis using 2 unfolding sp_setClipboard_def
      by (auto simp: Let_def simp del: clip_assemble_message.simps split: prod.splits assemble_result.splits option.splits)
  qed (simp add: sp_setClipboard_def)
qed

lemma sp_fileChunkReceived_defined:
  assumes "[] \<notin> set (sp_in s)"
  shows "sp_fileChunkReceived s \<noteq> Undefined"
proof -
  have "readable (fmt_items (drop 4 ''DFTR%1i%s''))" by (simp add: readable_def digit_value_def)
  from pk_in.readf_cases [OF this assms] consider "readf pk_reader (drop 4 ''DFTR%1i%s'') (sp_in s) = Inl XBadClient"
    | r where "readf pk_reader (drop 4 ''DFTR%1i%s'') (sp_in s) = Inr r" by blast
  then show ?thesis by cases (simp_all add: sp_fileChunkReceived_def Let_def split: prod.splits)
qed

lemma sp_dragInfoReceived_defined:
  assumes "sp_good B s"
  shows "sp_dragInfoReceived s \<noteq> Undefined"
proof -
  have p: "packets_left B (sp_in s)" "[] \<notin> set (sp_in s)" using assms by (simp_all add: sp_good_def packets_left_def)
  have i: "ints (fmt_items ''%2i'')" by (simp add: ints_def digit_value_def)
  consider "readf pk_reader ''%2i'' (sp_in s) = Inr None" | vs ps where "readf pk_reader ''%2i'' (sp_in s) = Inr (Some (vs, ps))"
    using pk_in.vreadf_long [OF p(2) i] pk_in.vreadf_short [OF p(2) i]
    by (cases "fmt_width (fmt_items ''%2i'') \<le> length (concat (sp_in s))") (auto simp: readf_def simp del: fmt_items.simps)
  then show ?thesis
  proof cases
    case (2 vs ps)
    have "[] \<notin> set ps" using readf_keeps [OF 2 pk_keeps_left p(1)] by (simp add: packets_left_def)
    moreover have "readable (fmt_items ''%s'')" by (simp add: readable_def digit_value_def)
    ultimately consider "readf pk_reader ''%s'' ps = Inl XBadClient" | r where "readf pk_reader ''%s'' ps = Inr r"
      using pk_in.readf_cases by blast
    then show ?thesis using 2 by cases (auto simp: sp_dragInfoReceived_def split: option.splits list.splits rval.splits)
  qed (simp add: sp_dragInfoReceived_def)
qed

lemma sp_handler_undefined:
  assumes "(f, h) \<in> set (sp_handlers env)" "sp_good B s" "h s = Undefined"
  shows "cut_off (code f) (concat (sp_in s))"
proof -
  have n: "[] \<notin> set (sp_in s)" using assms(2) by (simp add: sp_good_def packets_left_def)
  have "sp_setOptions s \<noteq> Undefined" by (simp add: sp_setOptions_def Let_def split: option.splits)
  with assms(1,3) unchecked_undefined [OF n] unchecked_undefined_flushed [OF n] sp_setClipboard_defined [OF n]
    sp_fileChunkReceived_defined [OF n] sp_dragInfoReceived_defined [OF assms(2)]
  show ?thesis
    unfolding sp_handlers_def by (auto simp: code_def sp_keepAlive_def sp_leave_def sp_resetOptions_def)
qed

lemma sp_message_undefined:
  assumes "sp_good B s" "sp_message env c s = Undefined"
  shows "cut_off c (concat (sp_in s))"
proof (cases "sp_parser s")
  case parseHandshakeMessage_p
  have "sp_setOptions s \<noteq> Undefined" by (simp add: sp_setOptions_def Let_def split: option.splits)
  then have "sp_parseHandshakeMessage env c s \<noteq> Undefined"
    by (auto simp: sp_parseHandshakeMessage_def sp_hangup_def sp_keepAlive_def sp_resetOptions_def split: outcome.splits)
  with parseHandshakeMessage_p assms(2) show ?thesis by (simp add: sp_message_def)
next
  case parseMessage_p
  then have m: "sp_parseMessage env c s = Undefined" using assms(2) by (simp add: sp_message_def)
  then obtain f h where h: "find (\<lambda>(f, _). c = code f) (sp_handlers env) = Some (f, h)" "h s = Undefined"
    by (auto simp: sp_parseMessage_def sp_hangup_def split: option.splits if_splits outcome.splits prod.splits)
  then have "(f, h) \<in> set (sp_handlers env)" "c = code f" by (auto simp: find_Some_iff in_set_conv_nth)
  with sp_handler_undefined [of f h env B s] assms(1) h(2) show ?thesis by blast
qed

lemma take_packets_left:
  assumes "packets_left B ps" "ps \<noteq> []"
  shows "packets_left (concat (take_packets 4 ps)) (take_packets 4 ps)" "length (concat (take_packets 4 ps)) < length (concat ps)"
    "concat ps = take 4 (hd ps) @ concat (take_packets 4 ps)"
proof -
  from assms(2) obtain q qs where ps: "ps = q # qs" by (cases ps) auto
  with assms(1) obtain b q' where "q = b # q'" by (cases q) (auto simp: packets_left_def)
  with ps show "length (concat (take_packets 4 ps)) < length (concat ps)" by auto
  have "[] \<notin> set (take_packets 4 ps)" using assms(1) take_packets_nonempty by (simp add: packets_left_def)
  then show "packets_left (concat (take_packets 4 ps)) (take_packets 4 ps)" by (simp add: packets_left_def)
  show "concat ps = take 4 (hd ps) @ concat (take_packets 4 ps)" using ps append_take_drop_id [of 4 q] by (auto simp del: append_take_drop_id)
qed

text \<open>The bytes end inside one of the messages.\<close>

definition ends_cut_off :: "bytes \<Rightarrow> bool" where
  "ends_cut_off B \<longleftrightarrow> (\<exists>fmt\<in>set unchecked_messages. \<exists>pre rest. B = pre @ code fmt @ rest \<and> length rest < fmt_width (fmt_items (drop 4 fmt)))"

lemma ends_cut_off_longer: "ends_cut_off B \<Longrightarrow> ends_cut_off (pre @ B)"
  unfolding ends_cut_off_def by (metis append.assoc)

definition handled :: "bytes \<Rightarrow> server_proxy outcome option \<Rightarrow> bool" where
  "handled B r \<longleftrightarrow> (\<exists>s'. r = Some (Ret s') \<and> sp_good B s') \<or> r = Some Undefined \<and> ends_cut_off B"

lemma handled_longer: "handled B r \<Longrightarrow> handled (pre @ B) r"
  unfolding handled_def sp_good_def packets_left_def using ends_cut_off_longer by (metis append.assoc)

lemma sp_handle_data_handled:
  "sp_good (concat (sp_in s)) s \<Longrightarrow> handled (concat (sp_in s)) (sp_handle_data env s)"
proof (induction "length (concat (sp_in s))" arbitrary: s rule: less_induct)
  case less
  show ?case
  proof (cases "sp_in s")
    case Nil
    then show ?thesis using less.prems by (subst sp_handle_data.simps) (simp add: handled_def)
  next
    case (Cons p ps)
    let ?s1 = "s\<lparr>sp_in := take_packets 4 (sp_in s)\<rparr>" and ?B = "concat (take_packets 4 (sp_in s))"
    have "packets_left (concat (sp_in s)) (sp_in s)" using less.prems by (simp add: sp_good_def)
    from take_packets_left [OF this] Cons have l: "packets_left ?B (take_packets 4 (sp_in s))"
      "length ?B < length (concat (sp_in s))" "concat (sp_in s) = take 4 p @ ?B" by auto
    have g: "sp_good ?B ?s1" using less.prems l(1) by (simp add: sp_good_def)
    have "handled (concat (sp_in s)) (sp_handle_data env s)" if "handled ?B (sp_handle_data env s)"
      using handled_longer [OF that, of "take 4 p"] unfolding l(3) .
    moreover have "handled (concat (sp_in s)) (sp_handle_data env s) \<or> handled ?B (sp_handle_data env s)"
    proof (cases "length (take 4 p) = 4")
      case False
      then have "length p < 4" by auto
      then show ?thesis using Cons g by (subst (2) sp_handle_data.simps) (simp add: Let_def handled_def)
    next
      case c: True
      show ?thesis
      proof (cases "sp_message env (take 4 p) ?s1")
        case (Ret a)
        obtain r s2 where a: "a = (r, s2)" by (cases a)
        have g2: "sp_good ?B s2" using sp_message_good [OF g] Ret a by blast
        have e: "sp_handle_data env s = (case r of kOkay \<Rightarrow> sp_handle_data env s2
            | kUnknown \<Rightarrow> Some (Ret (sp_disconnect (Some ''invalid message from server'') s2)) | kDisconnect \<Rightarrow> Some (Ret s2))"
          using Cons c Ret a by (subst sp_handle_data.simps) (simp add: Let_def)
        from g2 obtain pre where pre: "?B = pre @ concat (sp_in s2)" by (auto simp: sp_good_def packets_left_def)
        have "sp_good (concat (sp_in s2)) s2" using g2 by (auto simp: sp_good_def packets_left_def)
        moreover have "length (concat (sp_in s2)) < length (concat (sp_in s))" using l(2) unfolding pre by simp
        ultimately have "handled (concat (sp_in s2)) (sp_handle_data env s2)" using less.hyps by blast
        then have "handled ?B (sp_handle_data env s2)" unfolding pre by (rule handled_longer)
        then show ?thesis unfolding e using g2 by (cases r) (simp_all add: handled_def)
      next
        case Bad
        then show ?thesis using Cons c g by (subst (2) sp_handle_data.simps) (simp add: Let_def handled_def)
      next
        case Undefined
        then have "cut_off (take 4 p) ?B" using sp_message_undefined [OF g] by simp
        then have "ends_cut_off (concat (sp_in s))" unfolding cut_off_def ends_cut_off_def l(3) by (metis append.left_neutral)
        then show ?thesis using Cons c Undefined by (subst sp_handle_data.simps) (simp add: Let_def handled_def)
      qed
    qed
    ultimately show ?thesis by blast
  qed
qed

text \<open>
  C18. Whatever packets come, \<open>handle_data\<close> returns, and unless the bytes that came end inside one of
  the messages of C37, with fewer bytes behind its code than its handler uses, the proxy stays well
  formed: the modifier table keeps its seven entries, each of them an index into the translation
  tables (so no option the server sends makes \<open>translateKey\<close> or \<open>translateModifierMask\<close> read outside
  them), the keep-alive alarm is armed exactly when its time is positive, and no relative motion is
  recorded that is not going to be flushed. What is left unread is the end of what was there. If the
  bytes do end that way, this holds too, or a handler reads a variable that was never set, and
  nothing is said about the proxy.
\<close>

theorem proxy_stays_well_formed:
  assumes "sp_good (concat (sp_in s)) s"
  shows "(\<exists>s'. sp_handle_data env s = Some (Ret s') \<and> sp_good (concat (sp_in s)) s' \<and>
      (\<forall>m<kKeyModifierIDLast. unat (sp_modifierTable s' ! m) < length s_translationTable)) \<or>
    sp_handle_data env s = Some Undefined \<and>
      (\<exists>fmt\<in>set unchecked_messages. \<exists>pre rest. concat (sp_in s) = pre @ code fmt @ rest \<and> length rest < fmt_width (fmt_items (drop 4 fmt)))"
proof -
  have "unat (sp_modifierTable s' ! m) < length s_translationTable" if "sp_good B s'" "m < kKeyModifierIDLast" for B s' m
  proof -
    have "length s_translationTable = kKeyModifierIDLast" by (simp add: s_translationTable_def kKeyModifierIDLast_def)
    moreover have "sp_modifierTable s' ! m \<in> set (sp_modifierTable s')" using that by (simp add: sp_good_def)
    ultimately show ?thesis using that(1) by (simp add: sp_good_def)
  qed
  then show ?thesis using sp_handle_data_handled [OF assms, of env] unfolding handled_def ends_cut_off_def by blast
qed

theorem proxy_stays_well_formed_witness:
  "\<exists>s'. sp_handle_data \<lparr>ce_shape = (0, 0, 80, 60), ce_cursor = (0, 0), ce_maxClipboard = 0\<rparr> (demo_proxy\<lparr>sp_in := [[1, 2, 3], [4]]\<rparr>) = Some (Ret s') \<and>
    sp_good [1, 2, 3, 4] s'"
proof -
  have "\<not> ends_cut_off [1, 2, 3, 4]"
  proof
    assume "ends_cut_off [1, 2, 3, 4]"
    then obtain fmt pre rest where f: "fmt \<in> set unchecked_messages" "[1, 2, 3, 4] = pre @ code fmt @ rest" unfolding ends_cut_off_def by blast
    have "length (pre @ code fmt @ rest) = 4" unfolding f(2) [symmetric] by simp
    then have "code fmt = [1, 2, 3, 4]" using f(2) unchecked_ints [OF f(1)] by simp
    then show False using f(1) by (auto simp: unchecked_messages_def code_def)
  qed
  moreover have "sp_good [1, 2, 3, 4] (demo_proxy\<lparr>sp_in := [[1, 2, 3], [4]]\<rparr>)"
    using identity_table_ok
    by (auto simp: demo_proxy_def sp_new_def sp_setKeepAliveRate_def sp_resetKeepAliveAlarm_def sp_good_def packets_left_def)
  ultimately show ?thesis
    using proxy_stays_well_formed [of "demo_proxy\<lparr>sp_in := [[1, 2, 3], [4]]\<rparr>"
      "\<lparr>ce_shape = (0, 0, 80, 60), ce_cursor = (0, 0), ce_maxClipboard = 0\<rparr>"]
    unfolding ends_cut_off_def [symmetric] by auto
qed

end
