(* ===== verification/ClientProxies.thy ===== *)
theory ClientProxies
  imports MessageDelivery
begin

text \<open>
  The server's end of a client (\<^verbatim>\<open>src/lib/server/ClientProxy1_6.cpp\<close> with its bases \<open>ClientProxy\<close> and
  \<open>BaseClientProxy\<close> and \<^verbatim>\<open>src/fork/lib/server/BaseClientProxyExtension.cpp\<close>). The input is the list of
  complete packets, as for the client's proxy; the calls of the connection are listed in \<open>cp_sent\<close>, the
  events the proxy posts and its direct calls of the server in \<open>cp_told\<close>, in one order. The data of a
  file transfer belongs to the server and is threaded through.
\<close>

section \<open>State\<close>

record client_info =
  ci_x :: int
  ci_y :: int
  ci_w :: int
  ci_h :: int
  ci_mx :: int
  ci_my :: int

record client_clipboard =
  cl_clipboard :: clipboard
  cl_sequenceNumber :: u32
  cl_dirty :: bool

datatype cp_told =
    CLIENT_PROXY_READY
  | CLIENT_PROXY_DISCONNECTED
  | SCREEN_SHAPE_CHANGED
  | CLIPBOARD_CHANGED u8 u32
  | CLIPBOARD_GRABBED u8 u32
  | CLIPBOARD_SENDING "clip_chunk chunk_event"
  | FILE_RECEIVE_COMPLETED
  | Srv_dragInfoReceived u32 bytes
  | Srv_switchToScreen string

datatype cp_parser = cp_parseHandshake | cp_parseMessages

record client_proxy =
  cp_name :: string
  cp_in :: packets
  cp_sent :: "conn_send list"
  cp_told :: "cp_told list"
  cp_handlers :: bool
  cp_open :: bool
  cp_parser :: cp_parser
  cp_info :: client_info
  cp_clipboards :: "client_clipboard list"
  cp_keepAliveRate :: rat
  cp_heartbeatAlarm :: rat
  cp_keepAliveTimer :: bool
  cp_heartbeatTimer :: bool
  cp_liveAlarms :: nat
  cp_data_cached :: bytes
  cp_chunk_state :: clip_assembly
  cp_fileData :: bytes
  cp_fileSize :: size_t
  cp_lastDimSent :: int
  cp_lastLockSent :: int
  cp_jump :: "int \<times> int"

definition cp_send :: "conn_send \<Rightarrow> client_proxy \<Rightarrow> client_proxy" where
  "cp_send m s = s\<lparr>cp_sent := cp_sent s @ [m]\<rparr>"

definition cp_tell :: "cp_told \<Rightarrow> client_proxy \<Rightarrow> client_proxy" where
  "cp_tell e s = s\<lparr>cp_told := cp_told s @ [e]\<rparr>"

definition kHeartRate :: rat where "kHeartRate = - 1"
definition kHeartBeatsUntilDeath :: rat where "kHeartBeatsUntilDeath = 3"

definition client_clipboard_new :: client_clipboard where
  "client_clipboard_new = \<lparr>cl_clipboard = cb_new, cl_sequenceNumber = 0, cl_dirty = True\<rparr>"

section \<open>Heartbeat\<close>

text \<open>
  \<open>cp_liveAlarms\<close> counts the one-shot alarms the event queue holds for the proxy; the proxy has a
  pointer to one of them at most (\<open>cp_heartbeatTimer\<close>). Any of them fires \<open>handle_flatline\<close>.
\<close>

definition cp_newAlarm :: "client_proxy \<Rightarrow> client_proxy" where
  "cp_newAlarm s = (if 0 < cp_heartbeatAlarm s then s\<lparr>cp_heartbeatTimer := True, cp_liveAlarms := cp_liveAlarms s + 1\<rparr> else s)"

definition cp_deleteAlarm :: "client_proxy \<Rightarrow> client_proxy" where
  "cp_deleteAlarm s = (if cp_heartbeatTimer s then s\<lparr>cp_heartbeatTimer := False, cp_liveAlarms := cp_liveAlarms s - 1\<rparr> else s)"

definition cp_addHeartbeatTimer :: "client_proxy \<Rightarrow> client_proxy" where
  "cp_addHeartbeatTimer s = cp_newAlarm (if 0 < cp_keepAliveRate s then s\<lparr>cp_keepAliveTimer := True\<rparr> else s)"

definition cp_removeHeartbeatTimer :: "client_proxy \<Rightarrow> client_proxy" where
  "cp_removeHeartbeatTimer s = cp_deleteAlarm (s\<lparr>cp_keepAliveTimer := False\<rparr>)"

definition cp_resetHeartbeatTimer :: "client_proxy \<Rightarrow> client_proxy" where
  "cp_resetHeartbeatTimer s = cp_newAlarm (cp_deleteAlarm s)"

definition cp_setHeartbeatRate :: "rat \<Rightarrow> rat \<Rightarrow> client_proxy \<Rightarrow> client_proxy" where
  "cp_setHeartbeatRate rate alarm s = s\<lparr>cp_keepAliveRate := rate, cp_heartbeatAlarm := alarm\<rparr>"

definition cp_resetHeartbeatRate :: "client_proxy \<Rightarrow> client_proxy" where
  "cp_resetHeartbeatRate = cp_setHeartbeatRate kKeepAliveRate (kKeepAliveRate * kKeepAlivesUntilDeath)"

definition cp_remove_handlers :: "client_proxy \<Rightarrow> client_proxy" where
  "cp_remove_handlers s = cp_removeHeartbeatTimer (s\<lparr>cp_handlers := False\<rparr>)"

definition cp_disconnect :: "client_proxy \<Rightarrow> client_proxy" where
  "cp_disconnect s = cp_tell CLIENT_PROXY_DISCONNECTED ((cp_remove_handlers s)\<lparr>cp_open := False\<rparr>)"

text \<open>The constructor. The shape is unset until the client has sent its own.\<close>

definition cp_new :: "string \<Rightarrow> client_info \<Rightarrow> client_proxy" where
  "cp_new name info =
     cp_setHeartbeatRate kKeepAliveRate (kKeepAliveRate * kKeepAlivesUntilDeath)
       (cp_send Send_query_info
         (cp_setHeartbeatRate kHeartRate (kHeartRate * kHeartBeatsUntilDeath)
           \<lparr>cp_name = name, cp_in = [], cp_sent = [], cp_told = [], cp_handlers = True, cp_open = True,
            cp_parser = cp_parseHandshake, cp_info = info,
            cp_clipboards = [client_clipboard_new, client_clipboard_new],
            cp_keepAliveRate = kKeepAliveRate, cp_heartbeatAlarm = 0, cp_keepAliveTimer = False, cp_heartbeatTimer = False, cp_liveAlarms = 0,
            cp_data_cached = [], cp_chunk_state = clip_assembly_init, cp_fileData = [], cp_fileSize = 0,
            cp_lastDimSent = - 1, cp_lastLockSent = - 1, cp_jump = (0, 0)\<rparr>))"

section \<open>Calls of the server\<close>

definition cp_getClipboard :: "nat \<Rightarrow> clipboard \<Rightarrow> client_proxy \<Rightarrow> clipboard option" where
  "cp_getClipboard i dst s = map_option (\<lambda>(_, d, _). d) (copy cb_ops cb_ops dst (cl_clipboard (cp_clipboards s ! i)))"

definition cp_getShape :: "client_proxy \<Rightarrow> int \<times> int \<times> int \<times> int" where
  "cp_getShape s = (ci_x (cp_info s), ci_y (cp_info s), ci_w (cp_info s), ci_h (cp_info s))"

definition cp_getCursorPos :: "client_proxy \<Rightarrow> int \<times> int" where
  "cp_getCursorPos s = (ci_mx (cp_info s), ci_my (cp_info s))"

definition cp_setJumpCursorPos :: "int \<Rightarrow> int \<Rightarrow> client_proxy \<Rightarrow> client_proxy" where
  "cp_setJumpCursorPos x y s = s\<lparr>cp_jump := (x, y)\<rparr>"

definition cp_enter :: "int \<Rightarrow> int \<Rightarrow> u32 \<Rightarrow> u32 \<Rightarrow> bool \<Rightarrow> client_proxy \<Rightarrow> client_proxy" where
  "cp_enter x y seqNum mods forScreensaver = cp_send (Send_enter x y seqNum mods)"

definition cp_leave :: "client_proxy \<Rightarrow> bool \<times> client_proxy" where
  "cp_leave s = (True, cp_send Send_leave s)"

definition cp_clipboard_update :: "nat \<Rightarrow> (client_clipboard \<Rightarrow> client_clipboard) \<Rightarrow> client_proxy \<Rightarrow> client_proxy" where
  "cp_clipboard_update i f s = s\<lparr>cp_clipboards := (cp_clipboards s)[i := f (cp_clipboards s ! i)]\<rparr>"

text \<open>\<open>setClipboard\<close>: copy, marshal and post the chunks. \<open>None\<close> is a failed assertion in the clipboard.\<close>

definition cp_setClipboard :: "nat \<Rightarrow> clipboard \<Rightarrow> client_proxy \<Rightarrow> client_proxy option" where
  "cp_setClipboard i clipboard s =
     (if cl_dirty (cp_clipboards s ! i) then
        let s1 = cp_clipboard_update i (\<lambda>c. c\<lparr>cl_dirty := False\<rparr>) s
        in Option.bind (copy cb_ops cb_ops (cl_clipboard (cp_clipboards s1 ! i)) clipboard) (\<lambda>(_, cb, _).
           Option.bind (cb_marshall cb) (\<lambda>(data, cb').
           Option.bind (sendClipboard data (length data) (of_nat i) 0) (\<lambda>evs.
             Some (fold (cp_tell \<circ> CLIPBOARD_SENDING) evs (cp_clipboard_update i (\<lambda>c. c\<lparr>cl_clipboard := cb'\<rparr>) s1)))))
      else Some s)"

definition cp_grabClipboard :: "nat \<Rightarrow> client_proxy \<Rightarrow> client_proxy" where
  "cp_grabClipboard i s = cp_clipboard_update i (\<lambda>c. c\<lparr>cl_dirty := True\<rparr>) (cp_send (Send_grab_clipboard (of_nat i)) s)"

definition cp_setClipboardDirty :: "nat \<Rightarrow> bool \<Rightarrow> client_proxy \<Rightarrow> client_proxy" where
  "cp_setClipboardDirty i dirty = cp_clipboard_update i (\<lambda>c. c\<lparr>cl_dirty := dirty\<rparr>)"

definition cp_keyDown :: "u32 \<Rightarrow> u32 \<Rightarrow> u16 \<Rightarrow> client_proxy \<Rightarrow> client_proxy" where
  "cp_keyDown key mods button = cp_send (Send_key_down key mods button)"

definition cp_keyRepeat :: "u32 \<Rightarrow> u32 \<Rightarrow> int \<Rightarrow> u16 \<Rightarrow> client_proxy \<Rightarrow> client_proxy" where
  "cp_keyRepeat key mods count button = cp_send (Send_key_repeat key mods count button)"

definition cp_keyUp :: "u32 \<Rightarrow> u32 \<Rightarrow> u16 \<Rightarrow> client_proxy \<Rightarrow> client_proxy" where
  "cp_keyUp key mods button = cp_send (Send_key_up key mods button)"

definition cp_mouseDown :: "u8 \<Rightarrow> client_proxy \<Rightarrow> client_proxy" where
  "cp_mouseDown button = cp_send (Send_mouse_down button)"

definition cp_mouseUp :: "u8 \<Rightarrow> client_proxy \<Rightarrow> client_proxy" where
  "cp_mouseUp button = cp_send (Send_mouse_up button)"

definition cp_mouseMove :: "int \<Rightarrow> int \<Rightarrow> client_proxy \<Rightarrow> client_proxy" where
  "cp_mouseMove x y = cp_send (Send_mouse_move x y)"

definition cp_mouseRelativeMove :: "int \<Rightarrow> int \<Rightarrow> client_proxy \<Rightarrow> client_proxy" where
  "cp_mouseRelativeMove dx dy = cp_send (Send_mouse_relative_move dx dy)"

definition cp_mouseWheel :: "int \<Rightarrow> int \<Rightarrow> client_proxy \<Rightarrow> client_proxy" where
  "cp_mouseWheel dx dy = cp_send (Send_mouse_wheel dx dy)"

definition cp_sendDragInfo :: "u32 \<Rightarrow> bytes \<Rightarrow> client_proxy \<Rightarrow> client_proxy" where
  "cp_sendDragInfo fileCount info = cp_send (Send_drag_info fileCount info)"

definition cp_file_chunk_sending :: "file_chunk \<Rightarrow> client_proxy \<Rightarrow> client_proxy" where
  "cp_file_chunk_sending c = cp_send (Send_file_chunk c)"

definition cp_screensaver :: "bool \<Rightarrow> client_proxy \<Rightarrow> client_proxy" where
  "cp_screensaver on = cp_send (Send_screensaver on)"

definition cp_resetOptions :: "client_proxy \<Rightarrow> client_proxy" where
  "cp_resetOptions s =
     cp_addHeartbeatTimer (cp_removeHeartbeatTimer (cp_resetHeartbeatRate (cp_send Send_reset_options s)))"

fun cp_check_options :: "u32 list \<Rightarrow> client_proxy \<Rightarrow> client_proxy" where
  "cp_check_options (i # v # opts) s =
     cp_check_options opts
       (if i = kOptionHeartbeat then
          let rate0 = of_nat (unat v) / 1000; rate = (if rate0 \<le> 0 then - 1 else rate0)
          in cp_addHeartbeatTimer (cp_removeHeartbeatTimer (cp_setHeartbeatRate rate (rate * kHeartBeatsUntilDeath) s))
        else s)"
| "cp_check_options _ s = s"

definition cp_setOptions :: "u32 list \<Rightarrow> client_proxy \<Rightarrow> client_proxy" where
  "cp_setOptions options s =
     (if odd (length options) then s else cp_check_options options (cp_send (Send_set_options options) s))"

text \<open>\<open>ClientProxy::close\<close> has the message as its argument and flushes the stream.\<close>

definition cp_close :: "string \<Rightarrow> client_proxy \<Rightarrow> client_proxy" where
  "cp_close msg s = s"

definition cp_fork_dimScreen :: "bool \<Rightarrow> client_proxy \<Rightarrow> client_proxy" where
  "cp_fork_dimScreen dimmed s =
     (let want = of_bool dimmed
      in if want = cp_lastDimSent s then s else (cp_send (Send_dim dimmed) s)\<lparr>cp_lastDimSent := want\<rparr>)"

definition cp_fork_sendLockState :: "bool \<Rightarrow> client_proxy \<Rightarrow> client_proxy" where
  "cp_fork_sendLockState locked s =
     (let want = of_bool locked
      in if want = cp_lastLockSent s then s else (cp_send (Send_lock_state locked) s)\<lparr>cp_lastLockSent := want\<rparr>)"

section \<open>Messages of the client\<close>

definition cp_recvInfo :: "client_proxy \<Rightarrow> (bool \<times> client_proxy) outcome" where
  "cp_recvInfo s =
     (case readf pk_reader (drop 4 ''DINF%2i%2i%2i%2i%2i%2i%2i'') (cp_in s) of
        Inl e \<Rightarrow> if e = XBadClient then Bad else Undefined
      | Inr (Some ([RInt16 x0, RInt16 y0, RInt16 w0, RInt16 h0, RInt16 dummy1, RInt16 mx0, RInt16 my0], ps)) \<Rightarrow>
          let x = sint x0; y = sint y0; w = sint w0; h = sint h0; mx = sint mx0; my = sint my0; s1 = s\<lparr>cp_in := ps\<rparr>
          in if w \<le> 0 \<or> h \<le> 0 then Ret (False, s1)
             else
               let (mx', my') = (if mx < x \<or> x + w \<le> mx \<or> my < y \<or> y + h \<le> my
                                 then (i16 (x + w div 2), i16 (y + h div 2)) else (mx, my))
               in Ret (True, cp_send Send_info_ack
                    (s1\<lparr>cp_info := \<lparr>ci_x = x, ci_y = y, ci_w = w, ci_h = h, ci_mx = mx', ci_my = my'\<rparr>\<rparr>))
      | Inr _ \<Rightarrow> Ret (False, s\<lparr>cp_in := []\<rparr>))"

text \<open>The part of \<open>recvClipboard\<close> behind \<open>ClipboardChunk::assemble\<close>, with its results.\<close>

definition cp_clipboard_assembled ::
    "clip_chunk option \<Rightarrow> packets \<Rightarrow> assemble_result \<times> bytes \<times> clip_assembly \<Rightarrow> client_proxy \<Rightarrow> (bool \<times> client_proxy) outcome" where
  "cp_clipboard_assembled c ps r s =
     (case r of (res, d, st) \<Rightarrow>
        let s1 = s\<lparr>cp_in := ps, cp_data_cached := d, cp_chunk_state := st\<rparr>
        in case (res, c) of
             (kFinish, Some m) \<Rightarrow>
               (case cb_unmarshall d 0 (cl_clipboard (cp_clipboards s1 ! unat (cc_id m))) of
                  None \<Rightarrow> Undefined
                | Some cb \<Rightarrow>
                    Ret (True, cp_tell (CLIPBOARD_CHANGED (cc_id m) (cc_sequence m))
                      ((cp_clipboard_update (unat (cc_id m)) (\<lambda>e. e\<lparr>cl_clipboard := cb, cl_sequenceNumber := cc_sequence m\<rparr>) s1)
                         \<lparr>cp_data_cached := []\<rparr>)))
           | _ \<Rightarrow> Ret (True, s1))"

definition cp_recvClipboard :: "size_t \<Rightarrow> client_proxy \<Rightarrow> (bool \<times> client_proxy) outcome" where
  "cp_recvClipboard maximum s =
     (case readf pk_reader (drop 4 ''DCLP%1i%4i%1i%s'') (cp_in s) of
        Inl e \<Rightarrow> if e = XBadClient then Bad else Undefined
      | Inr r \<Rightarrow>
          let (c, ps) = (case r of None \<Rightarrow> (None, []) | Some (vs, ps) \<Rightarrow> (clip_message vs, ps))
          in cp_clipboard_assembled c ps (clip_assemble_message maximum c (cp_data_cached s, cp_chunk_state s)) s)"

definition cp_recvGrabClipboard :: "client_proxy \<Rightarrow> (bool \<times> client_proxy) outcome" where
  "cp_recvGrabClipboard s =
     (case readf pk_reader (drop 4 ''CCLP%1i%4i'') (cp_in s) of
        Inl e \<Rightarrow> if e = XBadClient then Bad else Undefined
      | Inr (Some ([RInt8 i, RInt32 seqNum], ps)) \<Rightarrow>
          if kClipboardEnd \<le> i then Ret (False, s\<lparr>cp_in := ps\<rparr>)
          else Ret (True, cp_tell (CLIPBOARD_GRABBED i seqNum) (s\<lparr>cp_in := ps\<rparr>))
      | Inr _ \<Rightarrow> Ret (False, s\<lparr>cp_in := []\<rparr>))"

definition cp_fileChunkReceived :: "client_proxy \<Rightarrow> (bool \<times> client_proxy) outcome" where
  "cp_fileChunkReceived s =
     (case readf pk_reader (drop 4 ''DFTR%1i%s'') (cp_in s) of
        Inl e \<Rightarrow> if e = XBadClient then Bad else Undefined
      | Inr r \<Rightarrow>
          let (c, ps) = (case r of None \<Rightarrow> (None, []) | Some (vs, ps) \<Rightarrow> (file_message vs, ps));
              (res, d, n) = file_assemble_message c (cp_fileData s, cp_fileSize s);
              s1 = s\<lparr>cp_in := ps, cp_fileData := d, cp_fileSize := n\<rparr>
          in Ret (True, if res = kFinish then cp_tell FILE_RECEIVE_COMPLETED s1 else s1))"

definition cp_dragInfoReceived :: "client_proxy \<Rightarrow> (bool \<times> client_proxy) outcome" where
  "cp_dragInfoReceived s =
     (case readf pk_reader ''%2i'' (cp_in s) of
        Inr (Some ([RInt16 fileNum], ps)) \<Rightarrow>
          (case readf pk_reader ''%s'' ps of
             Inl e \<Rightarrow> if e = XBadClient then Bad else Undefined
           | Inr (Some ([RStr content], ps')) \<Rightarrow> Ret (True, cp_tell (Srv_dragInfoReceived (ucast fileNum) content) (s\<lparr>cp_in := ps'\<rparr>))
           | Inr _ \<Rightarrow> Ret (True, cp_tell (Srv_dragInfoReceived (ucast fileNum) []) (s\<lparr>cp_in := []\<rparr>)))
      | Inr _ \<Rightarrow> Ret (True, cp_tell (Srv_dragInfoReceived 0 []) (s\<lparr>cp_in := []\<rparr>))
      | Inl _ \<Rightarrow> Undefined)"

definition cp_parseHandshakeMessage :: "bytes \<Rightarrow> client_proxy \<Rightarrow> (bool \<times> client_proxy) outcome" where
  "cp_parseHandshakeMessage c s =
     (if c = code ''CNOP'' then Ret (True, s)
      else if c = code ''DINF'' then
        (case cp_recvInfo (s\<lparr>cp_parser := cp_parseMessages\<rparr>) of
           Ret (True, s1) \<Rightarrow> Ret (True, cp_addHeartbeatTimer (cp_tell CLIENT_PROXY_READY s1))
         | r \<Rightarrow> r)
      else Ret (False, s))"

definition cp_parseMessage :: "size_t \<Rightarrow> bytes \<Rightarrow> client_proxy \<Rightarrow> (bool \<times> client_proxy) outcome" where
  "cp_parseMessage maximum c s =
     (if c = code ''DFTR'' then cp_fileChunkReceived s
      else if c = code ''DDRG'' then cp_dragInfoReceived s
      else if c = code ''CALV'' then Ret (True, cp_resetHeartbeatTimer s)
      else if c = code ''DINF'' then
        (case cp_recvInfo s of Ret (True, s1) \<Rightarrow> Ret (True, cp_tell SCREEN_SHAPE_CHANGED s1) | r \<Rightarrow> r)
      else if c = code ''CNOP'' then Ret (True, s)
      else if c = code ''CCLP'' then cp_recvGrabClipboard s
      else if c = code ''DCLP'' then cp_recvClipboard maximum s
      else if c = code ''DUNR'' then Ret (True, cp_tell (Srv_switchToScreen (cp_name s)) s)
      else Ret (False, s))"

definition cp_message :: "size_t \<Rightarrow> bytes \<Rightarrow> client_proxy \<Rightarrow> (bool \<times> client_proxy) outcome" where
  "cp_message maximum c s =
     (case cp_parser s of cp_parseHandshake \<Rightarrow> cp_parseHandshakeMessage c s | cp_parseMessages \<Rightarrow> cp_parseMessage maximum c s)"

partial_function (option) cp_handle_data :: "size_t \<Rightarrow> client_proxy \<Rightarrow> client_proxy outcome option" where
  "cp_handle_data maximum s =
     (case cp_in s of
        [] \<Rightarrow> Some (Ret (cp_resetHeartbeatTimer s))
      | p # _ \<Rightarrow>
          let c = take 4 p; s1 = s\<lparr>cp_in := take_packets 4 (cp_in s)\<rparr>
          in if length c \<noteq> 4 then Some (Ret (cp_disconnect s1))
             else case cp_message maximum c s1 of
                    Undefined \<Rightarrow> Some Undefined
                  | Bad \<Rightarrow> Some (Ret (cp_disconnect s1))
                  | Ret (ok, s2) \<Rightarrow> if ok then cp_handle_data maximum s2 else Some (Ret (cp_disconnect s2)))"

declare cp_handle_data.simps [code]

definition cp_handle_clipboard_sending_event :: "clip_chunk \<Rightarrow> client_proxy \<Rightarrow> client_proxy" where
  "cp_handle_clipboard_sending_event c = cp_send (Send_clipboard_chunk c)"

definition cp_keepAlive :: "client_proxy \<Rightarrow> client_proxy" where
  "cp_keepAlive = cp_send Send_keep_alive"

text \<open>\<open>handle_disconnect\<close>, \<open>handle_write_error\<close> and \<open>handle_flatline\<close> log and disconnect.\<close>

definition cp_handle_flatline :: "client_proxy \<Rightarrow> client_proxy" where
  "cp_handle_flatline = cp_disconnect"

section \<open>What a client can make of it\<close>

lemma cp_send_simps [simp]: "cp_in (cp_send m s) = cp_in s" "cp_info (cp_send m s) = cp_info s" "cp_clipboards (cp_send m s) = cp_clipboards s"
  "cp_parser (cp_send m s) = cp_parser s" "cp_sent (cp_send m s) = cp_sent s @ [m]" "cp_told (cp_send m s) = cp_told s"
  "cp_handlers (cp_send m s) = cp_handlers s" "cp_open (cp_send m s) = cp_open s"
  by (simp_all add: cp_send_def)

lemma cp_tell_simps [simp]: "cp_in (cp_tell m s) = cp_in s" "cp_info (cp_tell m s) = cp_info s" "cp_clipboards (cp_tell m s) = cp_clipboards s"
  "cp_parser (cp_tell m s) = cp_parser s" "cp_sent (cp_tell m s) = cp_sent s" "cp_told (cp_tell m s) = cp_told s @ [m]"
  "cp_handlers (cp_tell m s) = cp_handlers s" "cp_open (cp_tell m s) = cp_open s"
  by (simp_all add: cp_tell_def)

lemma cp_alarm_frame:
  "cp_newAlarm s = s\<lparr>cp_heartbeatTimer := 0 < cp_heartbeatAlarm s \<or> cp_heartbeatTimer s,
     cp_liveAlarms := cp_liveAlarms s + of_bool (0 < cp_heartbeatAlarm s)\<rparr>"
  "cp_deleteAlarm s = s\<lparr>cp_heartbeatTimer := False, cp_liveAlarms := cp_liveAlarms s - of_bool (cp_heartbeatTimer s)\<rparr>"
  "cp_addHeartbeatTimer s = cp_newAlarm (s\<lparr>cp_keepAliveTimer := 0 < cp_keepAliveRate s \<or> cp_keepAliveTimer s\<rparr>)"
  by (simp_all add: cp_newAlarm_def cp_deleteAlarm_def cp_addHeartbeatTimer_def)

lemmas cp_timer_frame = cp_alarm_frame cp_removeHeartbeatTimer_def cp_resetHeartbeatTimer_def

text \<open>
  The shape of a client that has sent one: both sides positive, all numbers those of a 16 bit
  message. The clipboards are there and closed.
\<close>

definition info_ok :: "client_info \<Rightarrow> bool" where
  "info_ok i \<longleftrightarrow> s16 (ci_x i) \<and> s16 (ci_y i) \<and> 0 < ci_w i \<and> ci_w i < 32768 \<and> 0 < ci_h i \<and> ci_h i < 32768 \<and>
     s16 (ci_mx i) \<and> s16 (ci_my i) \<and>
     (ci_x i + ci_w i \<le> 32768 \<longrightarrow> ci_y i + ci_h i \<le> 32768 \<longrightarrow>
        ci_x i \<le> ci_mx i \<and> ci_mx i < ci_x i + ci_w i \<and> ci_y i \<le> ci_my i \<and> ci_my i < ci_y i + ci_h i)"

definition cp_good :: "nat \<Rightarrow> client_proxy \<Rightarrow> bool" where
  "cp_good L s \<longleftrightarrow> packets_within L (cp_in s) \<and>
     length (cp_clipboards s) = unat kClipboardEnd \<and> (\<forall>c\<in>set (cp_clipboards s). \<not> m_open (cl_clipboard c)) \<and>
     (CLIENT_PROXY_READY \<in> set (cp_told s) \<longrightarrow> info_ok (cp_info s) \<and> cp_parser s = cp_parseMessages)"

lemma i16_range: "s16 (i16 i)" "s16 (sint (w :: u16))"
  using sint_ge [of "word_of_int i :: u16"] sint_lt [of "word_of_int i :: u16"] sint_ge [of w] sint_lt [of w] by (simp_all add: i16_def)

lemma pk_readf_cases:
  assumes "packets_within L ps" "readable (fmt_items fmt)"
  shows "readf pk_reader fmt ps = Inl XBadClient \<or> readf pk_reader fmt ps = Inr None \<or>
    (\<exists>vs ps'. readf pk_reader fmt ps = Inr (Some (vs, ps')) \<and> typed (fmt_items fmt) vs \<and> packets_within L ps')"
proof -
  have "[] \<notin> set ps" using assms(1) by (simp add: packets_within_def)
  from pk_in.readf_cases [OF assms(2) this] readf_keeps [OF _ pk_keeps assms(1)] show ?thesis by blast
qed

lemma fmt_items_info:
  "fmt_items (drop 4 ''DINF%2i%2i%2i%2i%2i%2i%2i'') = replicate 7 (Conv 2 (Some CHR ''i''))"
  by code_simp

lemma typed_int16s: "typed (replicate n (Conv 2 (Some CHR ''i''))) vs \<Longrightarrow> \<exists>xs. vs = map RInt16 xs \<and> length xs = n"
proof (induction n arbitrary: vs)
  case (Suc n)
  then obtain v ws where "vs = RInt16 v # ws" "typed (replicate n (Conv 2 (Some CHR ''i''))) ws"
    by (auto split: list.splits rval.splits)
  with Suc.IH show ?case by (metis length_Cons list.map(2))
qed simp

lemma cp_recvInfo_cases:
  assumes "packets_within L (cp_in s)"
  shows "cp_recvInfo s = Bad \<or> (\<exists>ps. packets_within L ps \<and> cp_recvInfo s = Ret (False, s\<lparr>cp_in := ps\<rparr>)) \<or>
    (\<exists>ps i. packets_within L ps \<and> info_ok i \<and> cp_recvInfo s = Ret (True, cp_send Send_info_ack (s\<lparr>cp_in := ps, cp_info := i\<rparr>)))"
proof -
  let ?fmt = "drop 4 ''DINF%2i%2i%2i%2i%2i%2i%2i''"
  have "readable (fmt_items ?fmt)" unfolding fmt_items_info by (simp add: readable_def numeral_eq_Suc)
  from pk_readf_cases [OF assms this] consider "readf pk_reader ?fmt (cp_in s) = Inl XBadClient" | "readf pk_reader ?fmt (cp_in s) = Inr None"
    | vs ps where "readf pk_reader ?fmt (cp_in s) = Inr (Some (vs, ps))" "typed (fmt_items ?fmt) vs" "packets_within L ps" by blast
  then show ?thesis
  proof cases
    case (3 vs ps)
    from 3(2) obtain x y w h d mx my where
      vs: "vs = [RInt16 x, RInt16 y, RInt16 w, RInt16 h, RInt16 d, RInt16 mx, RInt16 my]"
      unfolding fmt_items_info by (auto simp: numeral_eq_Suc length_Suc_conv dest!: typed_int16s simp del: typed.simps replicate.simps)
    let ?out = "sint mx < sint x \<or> sint x + sint w \<le> sint mx \<or> sint my < sint y \<or> sint y + sint h \<le> sint my"
    let ?i = "\<lparr>ci_x = sint x, ci_y = sint y, ci_w = sint w, ci_h = sint h,
      ci_mx = if ?out then i16 (sint x + sint w div 2) else sint mx, ci_my = if ?out then i16 (sint y + sint h div 2) else sint my\<rparr>"
    have r: "cp_recvInfo s = (if sint w \<le> 0 \<or> sint h \<le> 0 then Ret (False, s\<lparr>cp_in := ps\<rparr>)
        else Ret (True, cp_send Send_info_ack (s\<lparr>cp_in := ps, cp_info := ?i\<rparr>)))"
      unfolding cp_recvInfo_def 3(1) vs by (simp add: Let_def)
    have "info_ok ?i" if "0 < sint w" "0 < sint h"
    proof -
      have mid: "sint a \<le> i16 (sint a + sint b div 2) \<and> i16 (sint a + sint b div 2) < sint a + sint b"
        if "0 < sint b" "sint a + sint b \<le> 32768" for a b :: u16
        using that i16_range(2) [of a] i16_range(2) [of b] by (subst (1 2) i16_id) auto
      show ?thesis
        using that mid [of w x] mid [of h y] i16_range(2) [of w] i16_range(2) [of h] i16_range by (auto simp: info_ok_def)
    qed
    then have "sint w \<le> 0 \<or> sint h \<le> 0 \<or> info_ok ?i" by linarith
    with r 3(3) show ?thesis by metis
  qed (use within_none in \<open>auto simp: cp_recvInfo_def intro: exI [of _ "[]"]\<close>)
qed

text \<open>Every message keeps the invariant.\<close>

lemma cp_good_keeps:
  "cp_good L s \<Longrightarrow> packets_within L ps \<Longrightarrow> cp_good L (s\<lparr>cp_in := ps\<rparr>)"
  "e \<noteq> CLIENT_PROXY_READY \<Longrightarrow> cp_good L (cp_tell e s) \<longleftrightarrow> cp_good L s"
  "cp_good L (cp_send m s) \<longleftrightarrow> cp_good L s"
  "cp_good L (s\<lparr>cp_data_cached := d\<rparr>) \<longleftrightarrow> cp_good L s" "cp_good L (s\<lparr>cp_chunk_state := st\<rparr>) \<longleftrightarrow> cp_good L s"
  "cp_good L (s\<lparr>cp_fileData := d\<rparr>) \<longleftrightarrow> cp_good L s" "cp_good L (s\<lparr>cp_fileSize := n\<rparr>) \<longleftrightarrow> cp_good L s"
  "cp_good L (s\<lparr>cp_handlers := b\<rparr>) \<longleftrightarrow> cp_good L s" "cp_good L (s\<lparr>cp_open := b\<rparr>) \<longleftrightarrow> cp_good L s"
  "cp_good L (s\<lparr>cp_keepAliveTimer := b\<rparr>) \<longleftrightarrow> cp_good L s" "cp_good L (s\<lparr>cp_heartbeatTimer := b\<rparr>) \<longleftrightarrow> cp_good L s"
  "cp_good L (s\<lparr>cp_liveAlarms := n'\<rparr>) \<longleftrightarrow> cp_good L s"
  by (auto simp: cp_good_def cp_tell_def cp_send_def)

lemma cp_good_timers:
  "cp_good L (cp_newAlarm s) \<longleftrightarrow> cp_good L s" "cp_good L (cp_deleteAlarm s) \<longleftrightarrow> cp_good L s"
  "cp_good L (cp_addHeartbeatTimer s) \<longleftrightarrow> cp_good L s" "cp_good L (cp_removeHeartbeatTimer s) \<longleftrightarrow> cp_good L s"
  "cp_good L (cp_resetHeartbeatTimer s) \<longleftrightarrow> cp_good L s" "cp_good L (cp_disconnect s) \<longleftrightarrow> cp_good L s"
  by (auto simp: cp_timer_frame cp_good_def cp_disconnect_def cp_remove_handlers_def)

lemma cp_good_info: "cp_good L s \<Longrightarrow> info_ok i \<Longrightarrow> cp_good L (s\<lparr>cp_info := i\<rparr>)"
  by (simp add: cp_good_def)

lemma unat_kClipboardEnd: "unat kClipboardEnd = 2"
  by (simp add: kClipboardEnd_def)

lemma cp_good_clipboard:
  assumes "cp_good L s" "\<not> m_open (cl_clipboard (f (cp_clipboards s ! i)))"
  shows "cp_good L (cp_clipboard_update i f s)"
  using assms set_update_subset_insert [of "cp_clipboards s" i "f (cp_clipboards s ! i)"]
  by (auto simp: cp_good_def cp_clipboard_update_def)

definition good_result :: "nat \<Rightarrow> (bool \<times> client_proxy) outcome \<Rightarrow> bool" where
  "good_result L r \<longleftrightarrow> (case r of Ret (_, s') \<Rightarrow> cp_good L s' | Bad \<Rightarrow> True | Undefined \<Rightarrow> False)"

lemma cp_recvInfo_good: "cp_good L s \<Longrightarrow> good_result L (cp_recvInfo s)"
  using cp_recvInfo_cases [of L s] by (auto simp: good_result_def cp_good_keeps) (auto simp: cp_good_def cp_send_def)

lemma pk_readf_good:
  assumes "cp_good L s" "fmt \<in> set [drop 4 ''CCLP%1i%4i'', drop 4 ''DFTR%1i%s'', drop 4 ''DCLP%1i%4i%1i%s'']"
  obtains "readf pk_reader fmt (cp_in s) = Inl XBadClient" | "readf pk_reader fmt (cp_in s) = Inr None"
  | vs ps where "readf pk_reader fmt (cp_in s) = Inr (Some (vs, ps))" "packets_within L ps"
proof -
  have p: "packets_within L (cp_in s)" using assms(1) by (simp add: cp_good_def)
  have r: "readable (fmt_items fmt)" using assms(2) by (auto simp: readable_def digit_value_def)
  show thesis using pk_readf_cases [OF p r] that by blast
qed

lemma cp_recvGrabClipboard_good: "cp_good L s \<Longrightarrow> good_result L (cp_recvGrabClipboard s)"
  by (rule pk_readf_good [of L s "drop 4 ''CCLP%1i%4i''"])
     (auto simp: cp_recvGrabClipboard_def good_result_def cp_good_keeps split: list.splits rval.splits)

lemma cp_fileChunkReceived_good: "cp_good L s \<Longrightarrow> good_result L (cp_fileChunkReceived s)"
  by (rule pk_readf_good [of L s "drop 4 ''DFTR%1i%s''"])
     (auto simp: cp_fileChunkReceived_def good_result_def cp_good_keeps Let_def split: prod.splits simp del: file_assemble_message.simps)

lemma kFinish_id:
  "clip_assemble_message max_size (Some c) st = (kFinish, r) \<Longrightarrow> unat (cc_id c) < unat kClipboardEnd"
  by (cases st) (auto simp: Let_def not_le word_less_nat_alt split: if_splits)

lemma cp_clipboard_assembled_good:
  assumes "cp_good L s" "packets_within L ps"
  shows "good_result L (cp_clipboard_assembled c ps (clip_assemble_message maximum c (cp_data_cached s, cp_chunk_state s)) s)"
proof -
  obtain res d st where a: "clip_assemble_message maximum c (cp_data_cached s, cp_chunk_state s) = (res, d, st)" by (metis prod_cases3)
  let ?s1 = "s\<lparr>cp_in := ps, cp_data_cached := d, cp_chunk_state := st\<rparr>"
  have g: "cp_good L ?s1" using assms by (simp add: cp_good_keeps)
  show ?thesis
  proof (cases "res = kFinish \<and> c \<noteq> None")
    case False
    then show ?thesis using g unfolding a
      by (cases res; cases c) (simp_all add: good_result_def cp_clipboard_assembled_def)
  next
    case True
    then obtain m where m: "c = Some m" by auto
    have i: "unat (cc_id m) < length (cp_clipboards s)"
      using kFinish_id a True m assms by (auto simp: cp_good_def)
    then have o: "\<not> m_open (cl_clipboard (cp_clipboards s ! unat (cc_id m)))" using assms by (simp add: cp_good_def)
    from cb.unmarshall_decodes [OF _ o, of d 0] obtain cb where
      cb: "cb_unmarshall d 0 (cl_clipboard (cp_clipboards s ! unat (cc_id m))) = Some cb" "\<not> m_open cb"
      by (auto simp: cb_unmarshall_def cb_ops_def)
    have "cp_good L (cp_clipboard_update (unat (cc_id m)) (\<lambda>e. e\<lparr>cl_clipboard := cb, cl_sequenceNumber := cc_sequence m\<rparr>) ?s1)"
      by (rule cp_good_clipboard [OF g]) (simp add: cb(2))
    then show ?thesis unfolding a using True m cb(1) by (simp add: good_result_def cp_good_keeps cp_clipboard_assembled_def)
  qed
qed

lemma cp_recvClipboard_good: "cp_good L s \<Longrightarrow> good_result L (cp_recvClipboard maximum s)"
  by (rule pk_readf_good [of L s "drop 4 ''DCLP%1i%4i%1i%s''"])
     (auto simp: cp_recvClipboard_def good_result_def [of L Bad] intro!: cp_clipboard_assembled_good simp del: clip_assemble_message.simps)


lemma readf_2i:
  assumes "packets_within L ps"
  shows "readf pk_reader ''%2i'' ps = Inr None \<or> (\<exists>n ps'. readf pk_reader ''%2i'' ps = Inr (Some ([RInt16 n], ps')) \<and> packets_within L ps')"
proof -
  have "[] \<notin> set ps" using assms by (simp add: packets_within_def)
  from pk_in.pu_read_cases [OF this, of 2] consider "pu_read pk_reader 2 ps = Inl XIOEndOfStream" | bs ps' where "pu_read pk_reader 2 ps = Inr (bs, ps')"
    by blast
  then show ?thesis
  proof cases
    case (2 bs ps')
    then show ?thesis using pu_read_keeps [OF 2 pk_keeps assms] by (simp add: readf_def digit_value_def read_conv_def)
  qed (simp add: readf_def digit_value_def read_conv_def)
qed

lemma cp_dragInfoReceived_good:
  assumes "cp_good L s"
  shows "good_result L (cp_dragInfoReceived s)"
proof -
  have p: "packets_within L (cp_in s)" using assms by (simp add: cp_good_def)
  from readf_2i [OF p] show ?thesis
  proof
    assume "\<exists>n ps'. readf pk_reader ''%2i'' (cp_in s) = Inr (Some ([RInt16 n], ps')) \<and> packets_within L ps'"
    then obtain n ps where n: "readf pk_reader ''%2i'' (cp_in s) = Inr (Some ([RInt16 n], ps))" "packets_within L ps" by blast
    have "readable (fmt_items ''%s'')" by (simp add: readable_def digit_value_def)
    from pk_readf_cases [OF n(2) this] consider "readf pk_reader ''%s'' ps = Inl XBadClient" | "readf pk_reader ''%s'' ps = Inr None"
      | vs ps' where "readf pk_reader ''%s'' ps = Inr (Some (vs, ps'))" "packets_within L ps'" by blast
    then show ?thesis using assms n(1)
      by cases (auto simp: cp_dragInfoReceived_def good_result_def cp_good_keeps split: list.splits rval.splits)
  qed (use assms in \<open>simp add: cp_dragInfoReceived_def good_result_def cp_good_keeps\<close>)
qed

lemma cp_message_good:
  assumes "cp_good L s"
  shows "good_result L (cp_message maximum c s)"
proof -
  have h: "good_result L (cp_parseHandshakeMessage c s)"
  proof -
    let ?s = "s\<lparr>cp_parser := cp_parseMessages\<rparr>"
    have g: "cp_good L ?s" using assms by (auto simp: cp_good_def)
    have "packets_within L (cp_in ?s)" using g by (simp add: cp_good_def)
    moreover have "cp_good L (cp_tell CLIENT_PROXY_READY (cp_send Send_info_ack (?s\<lparr>cp_in := ps, cp_info := i\<rparr>)))"
      if "packets_within L ps" "info_ok i" for ps i using assms that by (auto simp: cp_good_def cp_send_def cp_tell_def)
    ultimately show ?thesis
      using cp_recvInfo_cases [of L ?s] assms g
      by (auto simp: cp_parseHandshakeMessage_def good_result_def cp_good_timers cp_good_keeps)
  qed
  have m: "good_result L (cp_parseMessage maximum c s)"
    using assms cp_recvInfo_good [OF assms] cp_recvGrabClipboard_good [OF assms] cp_recvClipboard_good [OF assms]
      cp_fileChunkReceived_good [OF assms] cp_dragInfoReceived_good [OF assms]
    by (auto simp: cp_parseMessage_def cp_good_timers cp_good_keeps good_result_def split: outcome.splits prod.splits bool.splits)
  show ?thesis using h m by (simp add: cp_message_def split: cp_parser.splits)
qed

lemma cp_handle_data_good:
  "cp_good L s \<Longrightarrow> \<exists>s'. cp_handle_data maximum s = Some (Ret s') \<and> cp_good L s'"
proof (induction L arbitrary: s rule: less_induct)
  case (less L)
  show ?case
  proof (cases "cp_in s")
    case Nil
    then show ?thesis using less.prems by (subst cp_handle_data.simps) (simp add: cp_good_timers)
  next
    case (Cons p ps)
    let ?s1 = "s\<lparr>cp_in := take_packets 4 (cp_in s)\<rparr>"
    from take_packets_shorter [of L "cp_in s" 4] less.prems Cons obtain L' where
      L': "L' < L" "packets_within L' (take_packets 4 (cp_in s))" by (auto simp: cp_good_def)
    then have g: "cp_good L' ?s1" using less.prems by (simp add: cp_good_def)
    have up: "cp_good L t" if "cp_good L' t" for t using that L'(1) by (auto simp: cp_good_def packets_within_def)
    show ?thesis
    proof (cases "length (take 4 p) = 4")
      case False
      then have "length p < 4" by auto
      then show ?thesis using Cons up [OF g] by (subst cp_handle_data.simps) (simp add: Let_def cp_good_timers)
    next
      case c: True
      note m = cp_message_good [OF g, of maximum "take 4 p"]
      show ?thesis
      proof (cases "cp_message maximum (take 4 p) ?s1")
        case (Ret a)
        obtain r s2 where a: "a = (r, s2)" by (cases a)
        have g2: "cp_good L' s2" using m Ret a by (simp add: good_result_def)
        have e: "cp_handle_data maximum s = (if r then cp_handle_data maximum s2 else Some (Ret (cp_disconnect s2)))"
          using Cons c Ret a by (subst cp_handle_data.simps) (simp add: Let_def)
        from less.IH [OF L'(1) g2] up [OF g2] up show ?thesis unfolding e by (cases r) (auto simp: cp_good_timers)
      next
        case Bad
        then show ?thesis using Cons c up [OF g] by (subst cp_handle_data.simps) (simp add: Let_def cp_good_timers)
      next
        case Undefined
        with m show ?thesis by (simp add: good_result_def)
      qed
    qed
  qed
qed


section \<open>A proxy in use\<close>

text \<open>What happens to a proxy: packets, the alarm, and the calls of the server.\<close>

datatype cp_action =
    Arrives packets
  | Alarm
  | Sends conn_send
  | Sets_clipboard nat clipboard
  | Grabs nat
  | Dirties nat bool
  | Resets_options
  | Sets_options "u32 list"
  | Dims bool
  | Locks bool
  | Closes string

fun action_ok :: "cp_action \<Rightarrow> bool" where
  "action_ok (Arrives ps) \<longleftrightarrow> [] \<notin> set ps"
| "action_ok (Sets_clipboard i cb) \<longleftrightarrow> i < unat kClipboardEnd \<and> \<not> m_open cb"
| "action_ok (Grabs i) \<longleftrightarrow> i < unat kClipboardEnd"
| "action_ok (Dirties i b) \<longleftrightarrow> i < unat kClipboardEnd"
| "action_ok _ \<longleftrightarrow> True"

fun cp_do :: "size_t \<Rightarrow> cp_action \<Rightarrow> client_proxy \<Rightarrow> client_proxy option" where
  "cp_do maximum (Arrives ps) s =
     (if cp_handlers s
      then case cp_handle_data maximum (s\<lparr>cp_in := cp_in s @ ps\<rparr>) of Some (Ret s') \<Rightarrow> Some s' | _ \<Rightarrow> None
      else Some s)"
| "cp_do maximum Alarm s = Some (if cp_handlers s then cp_handle_flatline s else s)"
| "cp_do maximum (Sends m) s = Some (cp_send m s)"
| "cp_do maximum (Sets_clipboard i cb) s = cp_setClipboard i cb s"
| "cp_do maximum (Grabs i) s = Some (cp_grabClipboard i s)"
| "cp_do maximum (Dirties i b) s = Some (cp_setClipboardDirty i b s)"
| "cp_do maximum Resets_options s = Some (cp_resetOptions s)"
| "cp_do maximum (Sets_options opts) s = Some (cp_setOptions opts s)"
| "cp_do maximum (Dims b) s = Some (cp_fork_dimScreen b s)"
| "cp_do maximum (Locks b) s = Some (cp_fork_sendLockState b s)"
| "cp_do maximum (Closes msg) s = Some (cp_close msg s)"

fun cp_session :: "size_t \<Rightarrow> cp_action list \<Rightarrow> client_proxy \<Rightarrow> client_proxy option" where
  "cp_session maximum [] s = Some s"
| "cp_session maximum (a # as) s = Option.bind (cp_do maximum a s) (cp_session maximum as)"

lemma cp_setClipboard_ok:
  assumes "cp_good L s" "i < unat kClipboardEnd" "\<not> m_open cb" "cl_dirty (cp_clipboards s ! i)"
  shows "\<exists>cb' data evs. cp_setClipboard i cb s =
      Some (fold (cp_tell \<circ> CLIPBOARD_SENDING) evs (cp_clipboard_update i (\<lambda>c. c\<lparr>cl_clipboard := cb'\<rparr>)
        (cp_clipboard_update i (\<lambda>c. c\<lparr>cl_dirty := False\<rparr>) s))) \<and>
    \<not> m_open cb' \<and> data = encode (cb_view cb) \<and> sendClipboard data (length data) (of_nat i) 0 = Some evs"
proof -
  have o: "\<not> m_open (cl_clipboard (cp_clipboards s ! i))" and len: "i < length (cp_clipboards s)"
    using assms(1,2) by (auto simp: cp_good_def)
  from cb_pair.copy_at_copies [OF _ o _ assms(3), of "cb_getTime cb"] obtain cb1 src where
    c: "copy cb_ops cb_ops (cl_clipboard (cp_clipboards s ! i)) cb = Some (True, cb1, src)" "\<not> m_open cb1" "cb_view cb1 = cb_view cb"
    by (auto simp: copy_def cb_ops_def)
  from cb.marshall_encodes [OF _ c(2)] obtain cb2 where
    m: "cb_marshall cb1 = Some (encode (cb_view cb1), cb2)" "\<not> m_open cb2" by (auto simp: cb_marshall_def cb_ops_def)
  from sendClipboard_chunks [of "encode (cb_view cb)" "of_nat i" 0] obtain evs where
    e: "sendClipboard (encode (cb_view cb)) (length (encode (cb_view cb))) (of_nat i) 0 = Some evs" by blast
  show ?thesis
    using assms(4) c m e len by (auto simp: cp_setClipboard_def cp_clipboard_update_def)
qed

lemma fold_tell:
  "fold (cp_tell \<circ> CLIPBOARD_SENDING) evs s = s\<lparr>cp_told := cp_told s @ map CLIPBOARD_SENDING evs\<rparr>"
  by (induction evs arbitrary: s) (simp_all add: cp_tell_def)


lemma cp_check_options_good: "cp_good L s \<Longrightarrow> cp_good L (cp_check_options opts s)"
proof (induction opts s rule: cp_check_options.induct)
  case (1 i v opts s)
  have "cp_good L (cp_setHeartbeatRate r a s)" for r a using 1(2) by (simp add: cp_good_def cp_setHeartbeatRate_def)
  then have "cp_good L (cp_addHeartbeatTimer (cp_removeHeartbeatTimer (cp_setHeartbeatRate r a s)))" for r a
    by (simp add: cp_good_timers)
  with 1 show ?case by (simp add: Let_def)
qed simp_all

lemma cp_do_good:
  assumes "\<exists>L. cp_good L s" "action_ok a"
  shows "\<exists>s'. cp_do maximum a s = Some s' \<and> (\<exists>L. cp_good L s')"
proof -
  from assms(1) obtain L where g: "cp_good L s" ..
  show ?thesis
  proof (cases a)
    case (Arrives ps)
    have "cp_good (length (concat (cp_in s @ ps))) (s\<lparr>cp_in := cp_in s @ ps\<rparr>)"
      using g assms(2) Arrives by (auto simp: cp_good_def packets_within_def)
    from cp_handle_data_good [OF this, of maximum] g Arrives show ?thesis by auto
  next
    case (Sets_clipboard i cb)
    show ?thesis
    proof (cases "cl_dirty (cp_clipboards s ! i)")
      case True
      from cp_setClipboard_ok [OF g _ _ True, of cb] assms(2) Sets_clipboard obtain cb' evs where
        e: "cp_setClipboard i cb s = Some (fold (cp_tell \<circ> CLIPBOARD_SENDING) evs (cp_clipboard_update i (\<lambda>c. c\<lparr>cl_clipboard := cb'\<rparr>)
              (cp_clipboard_update i (\<lambda>c. c\<lparr>cl_dirty := False\<rparr>) s)))" "\<not> m_open cb'" by auto
      have "i < length (cp_clipboards s)" using g assms(2) Sets_clipboard by (simp add: cp_good_def)
      then have "cp_good L (cp_clipboard_update i (\<lambda>c. c\<lparr>cl_clipboard := cb'\<rparr>) (cp_clipboard_update i (\<lambda>c. c\<lparr>cl_dirty := False\<rparr>) s))"
        using g e(2) by (intro cp_good_clipboard) (auto simp: cp_good_def)
      then have "cp_good L (fold (cp_tell \<circ> CLIPBOARD_SENDING) evs (cp_clipboard_update i (\<lambda>c. c\<lparr>cl_clipboard := cb'\<rparr>)
              (cp_clipboard_update i (\<lambda>c. c\<lparr>cl_dirty := False\<rparr>) s)))"
        unfolding fold_tell by (auto simp: cp_good_def)
      with e(1) Sets_clipboard show ?thesis by auto
    qed (use g Sets_clipboard in \<open>auto simp: cp_setClipboard_def\<close>)
  next
    case (Grabs i)
    have "cp_good L (cp_grabClipboard i s)" unfolding cp_grabClipboard_def
      using g assms(2) Grabs by (intro cp_good_clipboard) (auto simp: cp_good_keeps, auto simp: cp_good_def)
    with Grabs show ?thesis by auto
  next
    case (Dirties i b)
    have "cp_good L (cp_setClipboardDirty i b s)" unfolding cp_setClipboardDirty_def
      using g assms(2) Dirties by (intro cp_good_clipboard) (auto simp: cp_good_def)
    with Dirties show ?thesis by auto
  next
    case Resets_options
    have "cp_good L (cp_resetHeartbeatRate (cp_send Send_reset_options s))"
      using g by (simp add: cp_good_def cp_resetHeartbeatRate_def cp_setHeartbeatRate_def)
    with Resets_options show ?thesis by (auto simp: cp_resetOptions_def cp_good_timers)
  next
    case (Dims b)
    have "cp_good L (cp_fork_dimScreen b s)" using g by (simp add: cp_fork_dimScreen_def Let_def cp_good_def)
    with Dims show ?thesis by auto
  next
    case (Locks b)
    have "cp_good L (cp_fork_sendLockState b s)" using g by (simp add: cp_fork_sendLockState_def Let_def cp_good_def)
    with Locks show ?thesis by auto
  next
    case (Sets_options opts)
    have "cp_good L (cp_setOptions opts s)" using g by (simp add: cp_setOptions_def cp_check_options_good cp_good_keeps)
    with Sets_options show ?thesis by auto
  qed (use g in \<open>auto simp: cp_handle_flatline_def cp_good_timers cp_good_keeps cp_close_def\<close>)
qed

lemma cp_session_good:
  "\<exists>L. cp_good L s \<Longrightarrow> list_all action_ok as \<Longrightarrow> \<exists>s'. cp_session maximum as s = Some s' \<and> (\<exists>L. cp_good L s')"
proof (induction as arbitrary: s)
  case (Cons a as)
  then have "action_ok a" "list_all action_ok as" by simp_all
  with cp_do_good [OF Cons.prems(1), of a maximum] Cons.IH show ?case by fastforce
qed simp

lemma cp_new_good: "cp_good 0 (cp_new name info)"
  by (simp add: cp_good_def cp_new_def cp_setHeartbeatRate_def cp_send_def unat_kClipboardEnd client_clipboard_new_def cb_new_def)

text \<open>
  C7. The server's proxy survives any client. From its creation on, whatever packets the client sends,
  in whatever batches, and whatever the server calls in between, every operation returns: no assertion
  of a clipboard fails, no clipboard is written outside the table, nothing is acted on that the client
  did not send. A client that was announced as ready has a shape with positive sides, and its cursor is
  inside the shape as long as the shape's far corner is within the 16 bit coordinates.
\<close>

theorem client_proxy_survives:
  assumes "list_all action_ok as"
  shows "\<exists>s. cp_session maximum as (cp_new name info) = Some s \<and>
    length (cp_clipboards s) = unat kClipboardEnd \<and> (\<forall>c\<in>set (cp_clipboards s). \<not> m_open (cl_clipboard c)) \<and>
    (CLIENT_PROXY_READY \<in> set (cp_told s) \<longrightarrow> info_ok (cp_info s))"
proof -
  from cp_session_good [OF exI [of _ 0] assms, OF cp_new_good, of maximum name info] obtain s L where
    "cp_session maximum as (cp_new name info) = Some s" "cp_good L s" by blast
  then show ?thesis by (auto simp: cp_good_def)
qed

text \<open>The message in which a client sends its shape and the position of its cursor.\<close>

definition info_message :: "client_env \<Rightarrow> string \<times> warg list" where
  "info_message env = (''DINF%2i%2i%2i%2i%2i%2i%2i'',
     case ce_shape env of (x, y, w, h) \<Rightarrow> case ce_cursor env of (mx, my) \<Rightarrow> map (\<lambda>v. WInt (word_of_int v)) [x, y, w, h, 0, mx, my])"

lemma sp_queryInfo_message: "sp_out (sp_queryInfo env s) = sp_out s @ [info_message env]"
  by (simp add: sp_queryInfo_def sp_writef_def info_message_def split: prod.splits)

lemma info_message_ok: "message_ok (info_message env)"
  by (simp add: info_message_def protocol_messages_def digit_value_def int_bytes_def PROTOCOL_MAX_MESSAGE_LENGTH_def split: prod.splits)

lemma info_message_carried:
  assumes "ce_shape env = (x, y, w, h)" "ce_cursor env = (mx, my)"
  shows "carried (info_message env) = map (\<lambda>v. RInt16 (word_of_int v)) [x, y, w, h, 0, mx, my]"
  using assms by (simp add: carried_def info_message_def digit_value_def ucast_wint)

definition centred :: "int \<times> int \<times> int \<times> int \<Rightarrow> int \<times> int \<Rightarrow> int \<times> int" where
  "centred r m = (case r of (x, y, w, h) \<Rightarrow> case m of (mx, my) \<Rightarrow>
     if mx < x \<or> x + w \<le> mx \<or> my < y \<or> y + h \<le> my then (i16 (x + w div 2), i16 (y + h div 2)) else (mx, my))"

lemma cp_recvInfo_message:
  assumes "ce_shape env = (x, y, w, h)" "ce_cursor env = (mx, my)"
    and "s16 x" "s16 y" "0 < w" "w < 32768" "0 < h" "h < 32768" "s16 mx" "s16 my" "[] \<notin> set rest"
    and "cp_in s = take_packets 4 (message_bytes (info_message env) # rest)"
  shows "cp_recvInfo s = Ret (True, cp_send Send_info_ack (s\<lparr>cp_in := rest, cp_info :=
    \<lparr>ci_x = x, ci_y = y, ci_w = w, ci_h = h,
     ci_mx = fst (centred (x, y, w, h) (mx, my)), ci_my = snd (centred (x, y, w, h) (mx, my))\<rparr>\<rparr>))"
proof -
  have "fst (info_message env) = ''DINF%2i%2i%2i%2i%2i%2i%2i''" by (simp add: info_message_def)
  with readf_body [OF info_message_ok assms(11), of env] assms(12) info_message_carried [OF assms(1,2)]
  have "readf pk_reader (drop 4 ''DINF%2i%2i%2i%2i%2i%2i%2i'') (cp_in s) =
      Inr (Some (map (\<lambda>v. RInt16 (word_of_int v)) [x, y, w, h, 0, mx, my], rest))" by metis
  moreover have "sint (word_of_int v :: u16) = v" if "s16 v" for v using i16_id [OF that] by (simp add: i16_def)
  ultimately show ?thesis using assms(3-10) by (simp add: cp_recvInfo_def Let_def centred_def)
qed

lemma cp_handle_info:
  assumes "cp_parser s = cp_parseMessages" "cp_in s = [message_bytes (info_message env)]"
    "cp_recvInfo (s\<lparr>cp_in := take_packets 4 (cp_in s)\<rparr>) = Ret (True, s1)" "cp_in s1 = []"
  shows "cp_handle_data maximum s = Some (Ret (cp_resetHeartbeatTimer (cp_tell SCREEN_SHAPE_CHANGED s1)))"
proof -
  have f: "fst (info_message env) = ''DINF%2i%2i%2i%2i%2i%2i%2i''" by (simp add: info_message_def)
  have c: "take 4 (message_bytes (info_message env)) = code ''DINF''" "length (code ''DINF'') = 4"
    using after_code(1) [OF info_message_ok, of env] f by (simp_all add: code_def)
  have "cp_message maximum (code ''DINF'') (s\<lparr>cp_in := take_packets 4 (cp_in s)\<rparr>) = Ret (True, cp_tell SCREEN_SHAPE_CHANGED s1)"
    using assms(1,3) by (simp add: cp_message_def cp_parseMessage_def code_eq)
  moreover have "cp_handle_data maximum (cp_tell SCREEN_SHAPE_CHANGED s1) = Some (Ret (cp_resetHeartbeatTimer (cp_tell SCREEN_SHAPE_CHANGED s1)))"
    using assms(4) by (subst cp_handle_data.simps) simp
  ultimately show ?thesis using assms(2) c by (subst cp_handle_data.simps) (simp add: Let_def del: take_packets.simps)
qed


text \<open>
  C19. A changed screen is known on both sides again. A client that reports a new shape (within 16 bit
  coordinates, the cursor inside) ignores motion from then on; the server's proxy takes the message,
  has exactly the shape and the cursor position of the client, announces the change and acknowledges
  it; and the acknowledgement makes the client's proxy take motion again.
\<close>

theorem shape_change_roundtrip:
  assumes "ce_shape env = (x, y, w, h)" "ce_cursor env = (mx, my)"
    and "s16 x" "s16 y" "0 < w" "w < 32768" "0 < h" "h < 32768" "s16 mx" "s16 my"
    and "x \<le> mx" "mx < x + w" "y \<le> my" "my < y + h"
    and "sp_parser s = parseMessage_p" "cp_parser t = cp_parseMessages" "s' = sp_onInfoChanged env s"
    and "cp_in t = [message_bytes (last (sp_out s'))]"
  shows "sp_ignoreMouse s' \<and> (\<exists>t'. cp_handle_data maximum t = Some (Ret t') \<and>
      cp_getShape t' = ce_shape env \<and> cp_getCursorPos t' = ce_cursor env \<and>
      cp_told t' = cp_told t @ [SCREEN_SHAPE_CHANGED] \<and> cp_sent t' = cp_sent t @ [Send_info_ack]) \<and>
    (\<exists>s''. sp_handle_data env (s'\<lparr>sp_in := packets_of [Send_info_ack]\<rparr>) = Some (Ret s'') \<and> \<not> sp_ignoreMouse s'')"
proof (intro conjI)
  have last: "last (sp_out s') = info_message env" using sp_queryInfo_message assms(17) by (simp add: sp_onInfoChanged_def)
  show "sp_ignoreMouse s'"
    using assms(17) by (simp add: sp_onInfoChanged_def sp_queryInfo_def sp_writef_def split: prod.splits)
  let ?i = "\<lparr>ci_x = x, ci_y = y, ci_w = w, ci_h = h, ci_mx = mx, ci_my = my\<rparr>"
  have t: "cp_in t = [message_bytes (info_message env)]" using assms(18) last by simp
  have "cp_recvInfo (t\<lparr>cp_in := take_packets 4 (cp_in t)\<rparr>) = Ret (True, cp_send Send_info_ack (t\<lparr>cp_in := [], cp_info := ?i\<rparr>))"
    using cp_recvInfo_message [OF assms(1-10), of "[]" "t\<lparr>cp_in := take_packets 4 (cp_in t)\<rparr>"] t assms(11-14)
    by (simp add: centred_def)
  from cp_handle_info [OF assms(16) t this, of maximum] assms(1,2)
  show "\<exists>t'. cp_handle_data maximum t = Some (Ret t') \<and> cp_getShape t' = ce_shape env \<and> cp_getCursorPos t' = ce_cursor env \<and>
      cp_told t' = cp_told t @ [SCREEN_SHAPE_CHANGED] \<and> cp_sent t' = cp_sent t @ [Send_info_ack]"
    by (simp add: cp_timer_frame cp_getShape_def cp_getCursorPos_def)
  have "sp_message env (code ''CIAK'') (s'\<lparr>sp_in := []\<rparr>) = Ret (kOkay, sp_writef ''CNOP'' [] (s'\<lparr>sp_in := [], sp_ignoreMouse := False\<rparr>))"
    using assms(15,17) by (simp add: sp_message_def sp_parseMessage_def sp_handlers_def code_eq sp_infoAcknowledgment_def
        sp_onInfoChanged_def sp_queryInfo_def sp_writef_def split: prod.splits)
  moreover have "message_ok (''CIAK'', [])" using send_ok_message [of Send_info_ack] by simp
  ultimately have "sp_handle_data env (s'\<lparr>sp_in := packets_of [Send_info_ack]\<rparr>) =
      sp_handle_data env (sp_writef ''CNOP'' [] (s'\<lparr>sp_in := [], sp_ignoreMouse := False\<rparr>))"
    using sp_handle_data_message [of "(''CIAK'', [])" "s'\<lparr>sp_in := packets_of [Send_info_ack]\<rparr>" "[]" env] no_body [of "''CIAK''" "[]"]
    by (simp add: packets_of_def del: message_bytes.simps message_ok.simps take_packets.simps)
  then show "\<exists>s''. sp_handle_data env (s'\<lparr>sp_in := packets_of [Send_info_ack]\<rparr>) = Some (Ret s'') \<and> \<not> sp_ignoreMouse s''"
    by (simp add: sp_handle_data_end sp_writef_def sp_flushCompressedMouse_def sp_call_def Let_def)
qed

text \<open>
  A client whose shape reaches past the 16 bit coordinates gets a cursor outside its screen: the
  centre of the shape, which stands in for a cursor that is not inside, is computed in full and then
  cut down to 16 bits, to the far left of the screen.
\<close>

theorem cursor_centre_wraps:
  assumes "ce_shape env = (x, y, w, h)" "ce_cursor env = (mx, my)"
    and "s16 x" "s16 y" "0 < w" "w < 32768" "0 < h" "h < 32768" "s16 mx" "s16 my"
    and "mx < x" "32768 \<le> x + w div 2"
    and "cp_parser t = cp_parseMessages" "cp_in t = [message_bytes (info_message env)]"
  shows "\<exists>t'. cp_handle_data maximum t = Some (Ret t') \<and> cp_getShape t' = (x, y, w, h) \<and>
    fst (cp_getCursorPos t') = x + w div 2 - 65536 \<and> fst (cp_getCursorPos t') < x"
proof -
  have r: "cp_recvInfo (t\<lparr>cp_in := take_packets 4 (cp_in t)\<rparr>) = Ret (True, cp_send Send_info_ack (t\<lparr>cp_in := [], cp_info :=
      \<lparr>ci_x = x, ci_y = y, ci_w = w, ci_h = h, ci_mx = i16 (x + w div 2), ci_my = i16 (y + h div 2)\<rparr>\<rparr>))"
    using cp_recvInfo_message [OF assms(1-10), of "[]" "t\<lparr>cp_in := take_packets 4 (cp_in t)\<rparr>"] assms(11,14)
    by (simp add: centred_def)
  have "x + w div 2 < 65536" using assms(3,6) by linarith
  moreover have "(v + 32768) mod 65536 = v - 32768" if "32768 \<le> v" "v < 65536" for v :: int
    using that mod_add_self2 [of "v - 32768" 65536] by (simp add: mod_pos_pos_trivial add.commute)
  ultimately have "i16 (x + w div 2) = x + w div 2 - 65536"
    using assms(12) unfolding i16_def int_word_sint by simp
  with cp_handle_info [OF assms(13,14) r, of maximum] assms(3,5,6,12) show ?thesis
    by (simp add: cp_timer_frame cp_getShape_def cp_getCursorPos_def)
qed


text \<open>
  An alarm of the handshake is lost and kills the client later. If a proxy still waiting for the
  client's shape handles input once (a no-op, or nothing at all), \<open>handle_data\<close> arms the alarm; the
  shape then arms a second one without deleting the first. The event queue holds two alarms, the proxy
  has a pointer to one: nothing the client sends can stop the other, and when it fires the proxy hangs
  up on a client that is alive.
\<close>

theorem handshake_alarm_lost:
  assumes "cp_parser s = cp_parseHandshake" "\<not> cp_heartbeatTimer s" "cp_liveAlarms s = 0" "0 < cp_heartbeatAlarm s" "cp_in s = []"
    and "ce_shape env = (x, y, w, h)" "ce_cursor env = (mx, my)"
    and "s16 x" "s16 y" "0 < w" "w < 32768" "0 < h" "h < 32768" "s16 mx" "s16 my"
  shows "\<exists>s1 s2. cp_handle_data maximum s = Some (Ret s1) \<and>
    cp_handle_data maximum (s1\<lparr>cp_in := [message_bytes (info_message env)]\<rparr>) = Some (Ret s2) \<and>
    CLIENT_PROXY_READY \<in> set (cp_told s2) \<and> cp_liveAlarms s2 = 2 \<and> cp_liveAlarms (cp_removeHeartbeatTimer s2) = 1"
proof -
  let ?s1 = "cp_resetHeartbeatTimer s"
  have 1: "cp_handle_data maximum s = Some (Ret ?s1)" using assms(5) by (subst cp_handle_data.simps) simp
  let ?in = "?s1\<lparr>cp_in := [message_bytes (info_message env)]\<rparr>"
  let ?i = "\<lparr>ci_x = x, ci_y = y, ci_w = w, ci_h = h,
     ci_mx = fst (centred (x, y, w, h) (mx, my)), ci_my = snd (centred (x, y, w, h) (mx, my))\<rparr>"
  let ?s2 = "cp_addHeartbeatTimer (cp_tell CLIENT_PROXY_READY (cp_send Send_info_ack
      (?in\<lparr>cp_parser := cp_parseMessages, cp_in := [], cp_info := ?i\<rparr>)))"
  have c: "take 4 (message_bytes (info_message env)) = code ''DINF''" "length (code ''DINF'') = 4"
    using after_code(1) [OF info_message_ok, of env] by (simp_all add: code_def info_message_def)
  have "cp_recvInfo (?in\<lparr>cp_in := take_packets 4 (cp_in ?in), cp_parser := cp_parseMessages\<rparr>) =
      Ret (True, cp_send Send_info_ack (?in\<lparr>cp_parser := cp_parseMessages, cp_in := [], cp_info := ?i\<rparr>))"
    using cp_recvInfo_message [OF assms(6-15), of "[]" "?in\<lparr>cp_in := take_packets 4 (cp_in ?in), cp_parser := cp_parseMessages\<rparr>"] by simp
  moreover have "cp_parser ?s1 = cp_parseHandshake" using assms(1) by (simp add: cp_timer_frame)
  ultimately have "cp_message maximum (code ''DINF'') (?in\<lparr>cp_in := take_packets 4 (cp_in ?in)\<rparr>) = Ret (True, ?s2)"
    by (simp add: cp_message_def cp_parseHandshakeMessage_def code_eq)
  moreover have "cp_in ?s2 = []" by (simp add: cp_timer_frame)
  then have "cp_handle_data maximum ?s2 = Some (Ret (cp_resetHeartbeatTimer ?s2))" by (subst cp_handle_data.simps) simp
  ultimately have 2: "cp_handle_data maximum ?in = Some (Ret (cp_resetHeartbeatTimer ?s2))"
    using c by (subst cp_handle_data.simps) (simp add: Let_def del: take_packets.simps)
  have "CLIENT_PROXY_READY \<in> set (cp_told (cp_resetHeartbeatTimer ?s2))" "cp_liveAlarms (cp_resetHeartbeatTimer ?s2) = 2"
    "cp_liveAlarms (cp_removeHeartbeatTimer (cp_resetHeartbeatTimer ?s2)) = 1"
    using assms(2-4) by (simp_all add: cp_timer_frame cp_tell_def cp_send_def)
  with 1 2 show ?thesis by blast
qed


text \<open>Which clipboards are due is changed by the calls of the server only.\<close>

definition dirties :: "client_proxy \<Rightarrow> bool list" where
  "dirties s = map cl_dirty (cp_clipboards s)"

lemma dirties_simps [simp]:
  "dirties (cp_send m s) = dirties s" "dirties (cp_tell e s) = dirties s" "dirties (s\<lparr>cp_in := ps\<rparr>) = dirties s"
  "dirties (cp_newAlarm s) = dirties s" "dirties (cp_deleteAlarm s) = dirties s" "dirties (cp_addHeartbeatTimer s) = dirties s"
  "dirties (cp_removeHeartbeatTimer s) = dirties s" "dirties (cp_resetHeartbeatTimer s) = dirties s" "dirties (cp_disconnect s) = dirties s"
  "dirties (cp_setHeartbeatRate r a s) = dirties s" "dirties (s\<lparr>cp_parser := p\<rparr>) = dirties s"
  "dirties (s\<lparr>cp_lastDimSent := v\<rparr>) = dirties s" "dirties (s\<lparr>cp_lastLockSent := v\<rparr>) = dirties s"
  by (simp_all add: dirties_def cp_timer_frame cp_disconnect_def cp_remove_handlers_def cp_setHeartbeatRate_def)

lemma dirties_check_options [simp]: "dirties (cp_check_options opts s) = dirties s"
  by (induction opts s rule: cp_check_options.induct) (simp_all add: Let_def)

lemma dirties_update: "dirties (cp_clipboard_update i f s) = (dirties s)[i := cl_dirty (f (cp_clipboards s ! i))]"
  by (simp add: dirties_def cp_clipboard_update_def map_update)

lemma dirties_recvInfo: "cp_recvInfo s = Ret (ok, s') \<Longrightarrow> dirties s' = dirties s"
  unfolding cp_recvInfo_def
  by (auto simp: Let_def dirties_def split: sum.splits if_splits option.splits list.splits rval.splits prod.splits)

lemma dirties_recvClipboard: "cp_recvClipboard maximum s = Ret (ok, s') \<Longrightarrow> dirties s' = dirties s"
proof -
  have same: "map cl_dirty ((cp_clipboards s)[k := (cp_clipboards s ! k)\<lparr>cl_clipboard := cb, cl_sequenceNumber := q\<rparr>]) = map cl_dirty (cp_clipboards s)" for k cb q
    by (cases "k < length (cp_clipboards s)") (simp_all add: map_update list_update_same_conv list_update_beyond)
  show "cp_recvClipboard maximum s = Ret (ok, s') \<Longrightarrow> dirties s' = dirties s"
    unfolding cp_recvClipboard_def cp_clipboard_assembled_def
    by (auto simp: Let_def dirties_def cp_clipboard_update_def same simp del: clip_assemble_message.simps
        split: sum.splits if_splits option.splits prod.splits assemble_result.splits)
qed

lemma dirties_others:
  "cp_recvGrabClipboard s = Ret (ok, s') \<Longrightarrow> dirties s' = dirties s"
  "cp_fileChunkReceived s = Ret (ok, s') \<Longrightarrow> dirties s' = dirties s"
  "cp_dragInfoReceived s = Ret (ok, s') \<Longrightarrow> dirties s' = dirties s"
  unfolding cp_recvGrabClipboard_def cp_fileChunkReceived_def cp_dragInfoReceived_def
  by (auto simp: Let_def dirties_def simp del: file_assemble_message.simps
      split: sum.splits if_splits option.splits list.splits rval.splits prod.splits)

lemma dirties_message: "cp_message maximum c s = Ret (ok, s') \<Longrightarrow> dirties s' = dirties s"
proof -
  have "dirties s' = dirties s" if "cp_parseHandshakeMessage c s = Ret (ok, s')"
    using that dirties_recvInfo [of "s\<lparr>cp_parser := cp_parseMessages\<rparr>"]
    by (auto simp: cp_parseHandshakeMessage_def split: if_splits outcome.splits prod.splits bool.splits)
  moreover have "dirties s' = dirties s" if "cp_parseMessage maximum c s = Ret (ok, s')"
    using that dirties_recvInfo [of s] dirties_recvClipboard [of maximum s] dirties_others [of s]
    by (auto simp: cp_parseMessage_def split: if_splits outcome.splits prod.splits bool.splits)
  ultimately show "cp_message maximum c s = Ret (ok, s') \<Longrightarrow> ?thesis" by (auto simp: cp_message_def split: cp_parser.splits)
qed

lemma dirties_handle_data:
  assumes "cp_handle_data maximum s = Some r"
  shows "\<forall>s'. r = Ret s' \<longrightarrow> dirties s' = dirties s"
  using assms
proof (rule cp_handle_data.raw_induct [where P = "\<lambda>maximum s r. \<forall>s'. r = Ret s' \<longrightarrow> dirties s' = dirties s", rotated])
  fix loop maximum s r
  assume IH: "\<And>maximum s r. loop maximum s = Some r \<Longrightarrow> \<forall>s'. r = Ret s' \<longrightarrow> dirties s' = dirties s"
    and b: "(case cp_in s of
        [] \<Rightarrow> Some (Ret (cp_resetHeartbeatTimer s))
      | p # _ \<Rightarrow>
          let c = take 4 p; s1 = s\<lparr>cp_in := take_packets 4 (cp_in s)\<rparr>
          in if length c \<noteq> 4 then Some (Ret (cp_disconnect s1))
             else case cp_message maximum c s1 of
                    Undefined \<Rightarrow> Some Undefined
                  | Bad \<Rightarrow> Some (Ret (cp_disconnect s1))
                  | Ret (ok, s2) \<Rightarrow> if ok then loop maximum s2 else Some (Ret (cp_disconnect s2))) = Some r"
  show "\<forall>s'. r = Ret s' \<longrightarrow> dirties s' = dirties s"
  proof (cases "cp_in s")
    case (Cons p ps)
    then show ?thesis using b
      by (auto simp: Let_def dest!: dirties_message IH split: if_splits outcome.splits prod.splits)
  qed (use b in auto)
qed

text \<open>The calls that do not make a clipboard due.\<close>

fun not_due :: "nat \<Rightarrow> cp_action \<Rightarrow> bool" where
  "not_due i (Grabs j) \<longleftrightarrow> j \<noteq> i"
| "not_due i (Dirties j b) \<longleftrightarrow> j \<noteq> i \<or> \<not> b"
| "not_due i _ \<longleftrightarrow> True"

lemma cp_setClipboard_clean:
  assumes "cp_setClipboard j cb s = Some s'" "\<not> dirties s ! i" "i < length (dirties s)"
  shows "\<not> dirties s' ! i \<and> length (dirties s') = length (dirties s)"
proof (cases "cl_dirty (cp_clipboards s ! j)")
  case True
  then obtain cb' evs where "s' = fold (cp_tell \<circ> CLIPBOARD_SENDING) evs (cp_clipboard_update j (\<lambda>c. c\<lparr>cl_clipboard := cb'\<rparr>)
      (cp_clipboard_update j (\<lambda>c. c\<lparr>cl_dirty := False\<rparr>) s))"
    using assms(1) by (auto simp: cp_setClipboard_def Let_def bind_eq_Some_conv)
  then have "dirties s' = dirties (cp_clipboard_update j (\<lambda>c. c\<lparr>cl_clipboard := cb'\<rparr>) (cp_clipboard_update j (\<lambda>c. c\<lparr>cl_dirty := False\<rparr>) s))"
    by (simp add: fold_tell dirties_def)
  then show ?thesis using assms(2,3)
    by (cases "i = j") (simp_all add: dirties_update, simp_all add: dirties_def cp_clipboard_update_def)
qed (use assms in \<open>simp add: cp_setClipboard_def\<close>)

lemma cp_session_clean:
  "cp_session maximum as s = Some t \<Longrightarrow> list_all (not_due i) as \<Longrightarrow> \<not> dirties s ! i \<Longrightarrow> i < length (dirties s) \<Longrightarrow>
     \<not> dirties t ! i \<and> length (dirties t) = length (dirties s)"
proof (induction as arbitrary: s)
  case (Cons a as)
  from Cons.prems(1) obtain s1 where s1: "cp_do maximum a s = Some s1" "cp_session maximum as s1 = Some t" by (auto simp: bind_eq_Some_conv)
  have "\<not> dirties s1 ! i \<and> length (dirties s1) = length (dirties s)"
  proof (cases a)
    case (Arrives ps)
    then show ?thesis using s1(1) Cons.prems dirties_handle_data [of maximum "s\<lparr>cp_in := cp_in s @ ps\<rparr>"]
      by (auto split: if_splits option.splits outcome.splits)
  next
    case (Sets_clipboard j cb)
    then show ?thesis using s1(1) Cons.prems cp_setClipboard_clean by simp
  next
    case (Dirties j b)
    then show ?thesis using s1(1) Cons.prems by (cases "j = i") (auto simp: cp_setClipboardDirty_def dirties_update)
  qed (use s1(1) Cons.prems in \<open>auto simp: cp_handle_flatline_def cp_grabClipboard_def cp_setClipboardDirty_def dirties_update nth_list_update
    cp_resetOptions_def cp_resetHeartbeatRate_def cp_setOptions_def cp_fork_dimScreen_def cp_fork_sendLockState_def cp_close_def Let_def split: if_splits\<close>)
  then show ?case using Cons.IH [OF s1(2)] Cons.prems by simp
qed simp

text \<open>
  C20. A clipboard that is due is sent once. A dirty clipboard that the server sets is sent: the chunks
  that are posted assemble on the other side, in any state of the receiver, to data that unmarshals to
  exactly the formats that were set, provided the data is within the receiver's limit. After that,
  whatever messages arrive and whatever else the server calls on this proxy, setting this clipboard
  again posts nothing, whatever it is set to, until the server calls \<open>grabClipboard\<close> for it or marks it
  dirty with \<open>setClipboardDirty\<close>; either makes it due again.
\<close>

theorem clipboard_sent_once_per_grab:
  assumes "cp_good L s" "i < unat kClipboardEnd" "\<not> m_open cb" "cl_dirty (cp_clipboards s ! i)"
    and "\<forall>f d. cb_view cb f = Some d \<longrightarrow> length d < 2 ^ 32" "length (encode (cb_view cb)) \<le> unat max_size"
  shows "\<exists>s' evs. cp_setClipboard i cb s = Some s' \<and> cp_told s' = cp_told s @ map CLIPBOARD_SENDING evs \<and>
    (\<exists>rs d cb'. clip_receive max_size (map Some (chunks_of evs)) st = (rs @ [kFinish], d, clip_assembly_init) \<and>
       cb_unmarshall d 0 cb_new = Some cb' \<and> cb_view cb' = cb_view cb) \<and>
    (\<forall>maximum as t cb2. cp_session maximum as s' = Some t \<longrightarrow> list_all (not_due i) as \<longrightarrow> cp_setClipboard i cb2 t = Some t) \<and>
    cl_dirty (cp_clipboards (cp_grabClipboard i s') ! i) \<and> cl_dirty (cp_clipboards (cp_setClipboardDirty i True s') ! i)"
proof -
  let ?data = "encode (cb_view cb)"
  from cp_setClipboard_ok [OF assms(1-4)] obtain cb1 evs where
    e: "cp_setClipboard i cb s = Some (fold (cp_tell \<circ> CLIPBOARD_SENDING) evs (cp_clipboard_update i (\<lambda>c. c\<lparr>cl_clipboard := cb1\<rparr>)
          (cp_clipboard_update i (\<lambda>c. c\<lparr>cl_dirty := False\<rparr>) s)))"
      "sendClipboard ?data (length ?data) (of_nat i) 0 = Some evs" by blast
  let ?s' = "(cp_clipboard_update i (\<lambda>c. c\<lparr>cl_clipboard := cb1\<rparr>) (cp_clipboard_update i (\<lambda>c. c\<lparr>cl_dirty := False\<rparr>) s))
    \<lparr>cp_told := cp_told s @ map CLIPBOARD_SENDING evs\<rparr>"
  have s': "cp_setClipboard i cb s = Some ?s'" unfolding e(1) fold_tell by (simp add: cp_clipboard_update_def)
  have len: "i < length (cp_clipboards s)" using assms(1,2) by (simp add: cp_good_def)
  have d: "\<not> dirties ?s' ! i" "i < length (dirties ?s')" "cl_dirty (cp_clipboards (cp_grabClipboard i ?s') ! i)"
    "cl_dirty (cp_clipboards (cp_setClipboardDirty i True ?s') ! i)"
    using len by (simp_all add: dirties_def cp_clipboard_update_def cp_grabClipboard_def cp_setClipboardDirty_def)
  have quiet: "cp_setClipboard i cb2 t = Some t" if "cp_session maximum as ?s' = Some t" "list_all (not_due i) as" for maximum as t cb2
  proof -
    from cp_session_clean [OF that d(1,2)] d(2) have "\<not> dirties t ! i" "i < length (cp_clipboards t)" by (simp_all add: dirties_def)
    then show ?thesis by (simp add: cp_setClipboard_def dirties_def)
  qed
  from sendClipboard_chunks [of ?data "of_nat i" 0] e(2) obtain ds where
    "chunks_of evs = clip_start (of_nat i) 0 (of_nat (length ?data)) # map (clip_data (of_nat i) 0) ds @ [clip_end (of_nat i) 0]"
    "concat ds = ?data" by auto
  moreover have "(of_nat i :: u8) < kClipboardEnd" using assms(2) by (auto simp: unat_kClipboardEnd kClipboardEnd_def less_2_cases_iff)
  ultimately have r: "clip_receive max_size (map Some (chunks_of evs)) st =
      ((kStart # replicate (length ds) kNotFinish) @ [kFinish], ?data, clip_assembly_init)"
    using clip_receive_transfer [of "of_nat i" ?data max_size ds 0 st] assms(6) by simp
  have "\<not> m_open cb_new" by (simp add: cb_new_def)
  from cb.unmarshall_decodes [OF _ this, of ?data 0] decode_encode [OF assms(5)] obtain cb' where
    "cb_unmarshall ?data 0 cb_new = Some cb'" "cb_view cb' = cb_view cb" by (auto simp: cb_unmarshall_def cb_ops_def)
  with r s' d(3,4) quiet show ?thesis by (intro exI [of _ ?s'] exI [of _ evs]) auto
qed

section \<open>Witnesses\<close>

definition demo_env :: client_env where
  "demo_env = \<lparr>ce_shape = (0, 0, 80, 60), ce_cursor = (7, 8), ce_maxClipboard = 100\<rparr>"

definition wide_env :: client_env where
  "wide_env = \<lparr>ce_shape = (30000, 0, 10000, 60), ce_cursor = (7, 8), ce_maxClipboard = 100\<rparr>"

definition demo_cp :: client_proxy where
  "demo_cp = cp_new ''left'' \<lparr>ci_x = 0, ci_y = 0, ci_w = 0, ci_h = 0, ci_mx = 0, ci_my = 0\<rparr>"

lemma demo_cp_simps:
  "cp_parser demo_cp = cp_parseHandshake" "\<not> cp_heartbeatTimer demo_cp" "cp_liveAlarms demo_cp = 0" "0 < cp_heartbeatAlarm demo_cp"
  "cp_in demo_cp = []" "cl_dirty (cp_clipboards demo_cp ! 0)"
  by (simp_all add: demo_cp_def cp_new_def cp_setHeartbeatRate_def cp_send_def kKeepAliveRate_def kKeepAlivesUntilDeath_def
      client_clipboard_new_def)

theorem client_proxy_survives_witness:
  "\<exists>s. cp_session 100 [Arrives [message_bytes (info_message demo_env)], Grabs 1, Sets_clipboard 1 cb_new, Arrives [[1, 2], [3]], Alarm]
      (cp_new ''left'' \<lparr>ci_x = 0, ci_y = 0, ci_w = 0, ci_h = 0, ci_mx = 0, ci_my = 0\<rparr>) = Some s \<and>
    length (cp_clipboards s) = unat kClipboardEnd \<and> (\<forall>c\<in>set (cp_clipboards s). \<not> m_open (cl_clipboard c)) \<and>
    (CLIENT_PROXY_READY \<in> set (cp_told s) \<longrightarrow> info_ok (cp_info s))"
proof (rule client_proxy_survives)
  have "message_bytes (info_message demo_env) \<noteq> []" using message_packet [OF info_message_ok] by blast
  then show "list_all action_ok [Arrives [message_bytes (info_message demo_env)], Grabs 1, Sets_clipboard 1 cb_new, Arrives [[1, 2], [3]], Alarm]"
    by (simp add: unat_kClipboardEnd cb_new_def)
qed

theorem cursor_centre_wraps_witness:
  "\<exists>t'. cp_handle_data 100 (demo_cp\<lparr>cp_parser := cp_parseMessages, cp_in := [message_bytes (info_message wide_env)]\<rparr>) = Some (Ret t') \<and>
    cp_getShape t' = (30000, 0, 10000, 60) \<and> fst (cp_getCursorPos t') = - 30536"
  using cursor_centre_wraps [of wide_env 30000 0 10000 60 7 8
      "demo_cp\<lparr>cp_parser := cp_parseMessages, cp_in := [message_bytes (info_message wide_env)]\<rparr>" 100]
  by (auto simp: wide_env_def)

theorem shape_change_roundtrip_witness:
  "\<exists>t'. cp_handle_data 100 (demo_cp\<lparr>cp_parser := cp_parseMessages, cp_in := [message_bytes (last (sp_out (sp_onInfoChanged demo_env demo_proxy)))]\<rparr>) = Some (Ret t') \<and>
    cp_getShape t' = (0, 0, 80, 60) \<and> cp_getCursorPos t' = (7, 8)"
  using shape_change_roundtrip [of demo_env 0 0 80 60 7 8 demo_proxy
      "demo_cp\<lparr>cp_parser := cp_parseMessages, cp_in := [message_bytes (last (sp_out (sp_onInfoChanged demo_env demo_proxy)))]\<rparr>" _ 100]
  by (auto simp: demo_env_def demo_proxy_def)

theorem handshake_alarm_lost_witness:
  "\<exists>s1 s2. cp_handle_data 100 demo_cp = Some (Ret s1) \<and>
    cp_handle_data 100 (s1\<lparr>cp_in := [message_bytes (info_message demo_env)]\<rparr>) = Some (Ret s2) \<and> cp_liveAlarms s2 = 2"
  using handshake_alarm_lost [OF demo_cp_simps(1-5), of demo_env 0 0 80 60 7 8 100] by (auto simp: demo_env_def)

theorem clipboard_sent_once_per_grab_witness:
  "\<exists>s' t. cp_setClipboard 0 demo_clip demo_cp = Some s' \<and> cp_session 100 [Dims True, Locks False] s' = Some t \<and>
     (\<forall>cb2. cp_setClipboard 0 cb2 t = Some t)"
proof -
  have "cp_good 0 demo_cp" "0 < unat kClipboardEnd" "\<not> m_open demo_clip"
    "\<forall>f d. cb_view demo_clip f = Some d \<longrightarrow> length d < 2 ^ 32"
    using cp_new_good by (simp_all add: demo_cp_def unat_kClipboardEnd demo_clip_def cb_new_def cb_view_def)
  moreover have "length (encode (cb_view demo_clip)) \<le> unat (100 :: size_t)"
    by (simp add: encode_def encode_entry_def present_def demo_clip_def cb_view_def all_formats_def)
  ultimately obtain s' where s': "cp_setClipboard 0 demo_clip demo_cp = Some s'"
    "\<And>as t cb2. cp_session 100 as s' = Some t \<Longrightarrow> list_all (not_due 0) as \<Longrightarrow> cp_setClipboard 0 cb2 t = Some t"
    using clipboard_sent_once_per_grab [of 0 demo_cp 0 demo_clip 100 "([], clip_assembly_init)"] demo_cp_simps(6) by blast
  have "\<exists>t. cp_session 100 [Dims True, Locks False] s' = Some t" by simp
  then obtain t where t: "cp_session 100 [Dims True, Locks False] s' = Some t" ..
  moreover have "list_all (not_due 0) [Dims True, Locks False]" by simp
  ultimately show ?thesis using s' by blast
qed

end
