(* ===== verification/ClientHandshake.thy ===== *)
theory ClientHandshake
  imports ClientProxies
begin

text \<open>
  A connection before its client is known (\<^verbatim>\<open>src/lib/server/ClientProxyUnknown.cpp\<close>): the greeting,
  the reply, the proxy made for it, and the timeout. \<open>Undefined\<close> is a failed assertion or a null pointer.
\<close>

section \<open>Unknown clients\<close>

datatype un_event = CLIENT_PROXY_UNKNOWN_SUCCESS | CLIENT_PROXY_UNKNOWN_FAILURE

record unknown_client =
  un_stream :: bool
  un_in :: packets
  un_out :: "(string \<times> warg list) list"
  un_proxy :: "client_proxy option"
  un_ready :: bool
  un_timer :: bool
  un_streamHandlers :: bool
  un_proxyHandlers :: bool
  un_posted :: "un_event list"

definition kMaxHelloLength :: nat where "kMaxHelloLength = 1024"

text \<open>\<open>writef\<close> on \<open>stream_.get()\<close>, which asserts that there is a stream.\<close>

definition un_writef :: "string \<Rightarrow> warg list \<Rightarrow> unknown_client \<Rightarrow> unknown_client outcome" where
  "un_writef fmt args s = (if un_stream s then Ret (s\<lparr>un_out := un_out s @ [(fmt, args)]\<rparr>) else Undefined)"

definition kHello :: "string \<times> warg list" where
  "kHello = (''Barrier%2i%2i'', [WInt 1, WInt 6])"

definition un_new :: unknown_client where
  "un_new = \<lparr>un_stream = True, un_in = [], un_out = [kHello], un_proxy = None, un_ready = False, un_timer = True,
     un_streamHandlers = True, un_proxyHandlers = False, un_posted = []\<rparr>"

definition un_remove_handlers :: "unknown_client \<Rightarrow> unknown_client" where
  "un_remove_handlers s =
     (let s1 = (if un_stream s then s\<lparr>un_streamHandlers := False\<rparr> else s)
      in if un_proxy s1 \<noteq> None then s1\<lparr>un_proxyHandlers := False\<rparr> else s1)"

definition un_removeTimer :: "unknown_client \<Rightarrow> unknown_client" where
  "un_removeTimer s = s\<lparr>un_timer := False\<rparr>"

definition un_addProxyHandlers :: "unknown_client \<Rightarrow> unknown_client outcome" where
  "un_addProxyHandlers s = (if un_proxy s = None then Undefined else Ret (s\<lparr>un_proxyHandlers := True\<rparr>))"

definition un_orphanClientProxy :: "unknown_client \<Rightarrow> client_proxy option \<times> unknown_client" where
  "un_orphanClientProxy s =
     (if un_ready s then let s1 = un_remove_handlers s in (un_proxy s1, s1\<lparr>un_proxy := None\<rparr>) else (None, s))"

definition un_sendSuccess :: "unknown_client \<Rightarrow> unknown_client" where
  "un_sendSuccess s = (un_removeTimer (s\<lparr>un_ready := True\<rparr>))\<lparr>un_posted := un_posted s @ [CLIENT_PROXY_UNKNOWN_SUCCESS]\<rparr>"

text \<open>Deleting the proxy removes its handlers with it.\<close>

definition un_sendFailure :: "unknown_client \<Rightarrow> unknown_client" where
  "un_sendFailure s =
     (un_removeTimer (un_remove_handlers (s\<lparr>un_proxy := None, un_proxyHandlers := False, un_ready := False\<rparr>)))
       \<lparr>un_posted := un_posted s @ [CLIENT_PROXY_UNKNOWN_FAILURE]\<rparr>"

datatype hello_error = Incompatible | BadHello

text \<open>The body of the \<open>try\<close> block: the exceptions thrown in it are results.\<close>

definition un_parse_hello :: "client_info \<Rightarrow> unknown_client \<Rightarrow> unknown_client \<times> hello_error option" where
  "un_parse_hello info s =
     (if (case un_in s of [] \<Rightarrow> 0 | p # _ \<Rightarrow> length p) > kMaxHelloLength then (s, Some BadHello)
      else case readf pk_reader ''Barrier%2i%2i%s'' (un_in s) of
             Inr (Some ([RInt16 major, RInt16 minor, RStr name], ps)) \<Rightarrow>
               let s1 = s\<lparr>un_in := ps\<rparr>
               in if sint major \<le> 0 \<or> sint minor < 0 then (s1, Some Incompatible)
                  else
                    let s2 = (un_remove_handlers s1)\<lparr>un_stream := False\<rparr>
                    in if major = 1 \<and> minor = 6 then
                         (s2\<lparr>un_proxy := Some ((cp_new (map (\<lambda>b. char_of (unat b)) name) info)\<lparr>cp_in := ps\<rparr>), un_in := [], un_proxyHandlers := True\<rparr>, None)
                       else (s2, Some Incompatible)
           | _ \<Rightarrow> (s\<lparr>un_in := []\<rparr>, Some BadHello))"

definition un_handle_data :: "client_info \<Rightarrow> unknown_client \<Rightarrow> unknown_client outcome" where
  "un_handle_data info s =
     (case un_parse_hello info s of
        (s1, None) \<Rightarrow> Ret s1
      | (s1, Some Incompatible) \<Rightarrow>
          (case un_writef ''EICV%2i%2i'' [WInt 1, WInt 6] s1 of Ret s2 \<Rightarrow> Ret (un_sendFailure s2) | r \<Rightarrow> r)
      | (s1, Some BadHello) \<Rightarrow>
          (case un_writef ''EBAD'' [] s1 of Ret s2 \<Rightarrow> Ret (un_sendFailure s2) | r \<Rightarrow> r))"

text \<open>\<open>handle_write_error\<close>, \<open>handle_timeout\<close> and \<open>handle_disconnect\<close>; \<open>handle_ready\<close>.\<close>

definition un_handle_timeout :: "unknown_client \<Rightarrow> unknown_client" where
  "un_handle_timeout = un_sendFailure"

definition un_handle_disconnect :: "unknown_client \<Rightarrow> unknown_client" where
  "un_handle_disconnect = un_sendFailure"

definition un_handle_ready :: "unknown_client \<Rightarrow> unknown_client" where
  "un_handle_ready = un_sendSuccess"

section \<open>Replies to the greeting\<close>

definition hello_back :: "int \<Rightarrow> int \<Rightarrow> bytes \<Rightarrow> string \<times> warg list" where
  "hello_back major minor name = (''Barrier%2i%2i%s'', [wint major, wint minor, WStr name])"

lemma fmt_items_hello:
  "fmt_items ''Barrier%2i%2i%s'' = map Lit ''Barrier'' @ [Conv 2 (Some CHR ''i''), Conv 2 (Some CHR ''i''), Conv 0 (Some CHR ''s'')]"
  by (simp add: digit_value_def)

lemma hello_back_bytes:
  assumes "length name \<le> 1000"
  shows "\<exists>bs. writef ''Barrier%2i%2i%s'' (snd (hello_back major minor name)) = Some (Some bs) \<and> message_bytes (hello_back major minor name) = bs \<and>
    length bs \<le> kMaxHelloLength \<and> bs \<noteq> [] \<and> fits (fmt_items ''Barrier%2i%2i%s'') (snd (hello_back major minor name))"
proof -
  have ok: "message_ok (hello_back major minor name)"
    using assms unfolding hello_back_def message_ok.simps message_bytes.simps fmt_items_hello
    by (simp add: protocol_messages_def int_bytes_def PROTOCOL_MAX_MESSAGE_LENGTH_def)
  have "length (message_bytes (hello_back major minor name)) \<le> kMaxHelloLength"
    using assms unfolding hello_back_def message_bytes.simps fmt_items_hello by (simp add: int_bytes_def kMaxHelloLength_def)
  with message_written [of "''Barrier%2i%2i%s''" "snd (hello_back major minor name)"] ok show ?thesis
    by (auto simp: hello_back_def simp del: message_bytes.simps)
qed

lemma rvals_hello:
  "rvals (fmt_items ''Barrier%2i%2i%s'') (snd (hello_back major minor name)) = [RInt16 (word_of_int major), RInt16 (word_of_int minor), RStr name]"
  unfolding fmt_items_hello by (simp add: hello_back_def ucast_wint)

lemma readf_hello:
  assumes "length name \<le> 1000"
  shows "readf pk_reader ''Barrier%2i%2i%s'' [message_bytes (hello_back major minor name)] =
    Inr (Some ([RInt16 (word_of_int major), RInt16 (word_of_int minor), RStr name], []))"
proof -
  from hello_back_bytes [OF assms, of major minor] obtain bs where
    bs: "writef ''Barrier%2i%2i%s'' (snd (hello_back major minor name)) = Some (Some bs)" "message_bytes (hello_back major minor name) = bs"
      "bs \<noteq> []" "fits (fmt_items ''Barrier%2i%2i%s'') (snd (hello_back major minor name))" by blast
  from pk_in.readf_writef [OF bs(4,1), of "[bs]" "[]"] bs(2,3) rvals_hello obtain ps where
    r: "readf pk_reader ''Barrier%2i%2i%s'' [message_bytes (hello_back major minor name)] =
      Inr (Some ([RInt16 (word_of_int major), RInt16 (word_of_int minor), RStr name], ps))" "[] \<notin> set ps" "concat ps = []" by auto
  then have "ps = []" by (cases ps) auto
  with r(1) show ?thesis by simp
qed

text \<open>
  C38. A client of another version crashes the server. A reply to the greeting with a version that is
  valid but not 1.6 (1.5 or 2.0, say) is to be answered with \<open>kMsgEIncompatible\<close>. By then the stream
  has been moved into a connection object that is already destroyed, and the answer is written to a
  null pointer. Versions that are not valid at all are answered properly: the message is written, the
  failure is posted and the handlers are removed.
\<close>

theorem unsupported_version_crashes:
  assumes "s16 major" "s16 minor" "length name \<le> 1000"
    and "un_stream s" "un_proxy s = None" "un_in s = [message_bytes (hello_back major minor name)]" "(major, minor) \<noteq> (1, 6)"
  shows "if 0 < major \<and> 0 \<le> minor then un_handle_data info s = Undefined
    else \<exists>s'. un_handle_data info s = Ret s' \<and> un_out s' = un_out s @ [(''EICV%2i%2i'', [WInt 1, WInt 6])] \<and>
      un_posted s' = un_posted s @ [CLIENT_PROXY_UNKNOWN_FAILURE] \<and> \<not> un_streamHandlers s' \<and> \<not> un_timer s'"
proof -
  have "length (message_bytes (hello_back major minor name)) \<le> kMaxHelloLength" using hello_back_bytes [OF assms(3)] by blast
  moreover have v: "sint (word_of_int v :: u16) = v" if "s16 v" for v using i16_id [OF that] by (simp add: i16_def)
  moreover have "word_of_int major \<noteq> (1 :: u16) \<or> word_of_int minor \<noteq> (6 :: u16)"
    using v [OF assms(1)] v [OF assms(2)] assms(7) by auto
  ultimately show ?thesis
    using readf_hello [OF assms(3), of major minor] assms
    by (auto simp: un_handle_data_def un_parse_hello_def un_writef_def Let_def un_remove_handlers_def un_sendFailure_def un_removeTimer_def)
qed

text \<open>
  A client of version 1.6 gets its proxy. The reply to the greeting makes a proxy with the name the
  client gave, which asks for the client's shape; the proxy takes over the stream with everything that
  is still unread in it, and the greeting's handlers are gone.
\<close>

theorem hello_makes_proxy:
  assumes "length name \<le> 1000" "un_stream s" "un_in s = [message_bytes (hello_back 1 6 name)]"
  shows "\<exists>s' p. un_handle_data info s = Ret s' \<and> un_proxy s' = Some p \<and> cp_name p = map (\<lambda>b. char_of (unat b)) name \<and>
    cp_sent p = [Send_query_info] \<and> cp_parser p = cp_parseHandshake \<and>
    \<not> un_stream s' \<and> \<not> un_streamHandlers s' \<and> un_proxyHandlers s' \<and> un_posted s' = un_posted s"
proof -
  have "length (message_bytes (hello_back 1 6 name)) \<le> kMaxHelloLength" using hello_back_bytes [OF assms(1)] by blast
  then show ?thesis
    using readf_hello [OF assms(1), of 1 6] assms
    by (simp add: un_handle_data_def un_parse_hello_def Let_def un_remove_handlers_def cp_new_def cp_setHeartbeatRate_def cp_send_def)
qed

text \<open>Witnesses.\<close>

theorem unsupported_version_crashes_witness:
  "un_handle_data \<lparr>ci_x = 0, ci_y = 0, ci_w = 0, ci_h = 0, ci_mx = 0, ci_my = 0\<rparr>
     (un_new\<lparr>un_in := [message_bytes (hello_back 1 5 [97])]\<rparr>) = Undefined"
  using unsupported_version_crashes [of 1 5 "[97]" "un_new\<lparr>un_in := [message_bytes (hello_back 1 5 [97])]\<rparr>"]
  by (simp add: un_new_def)

theorem hello_makes_proxy_witness:
  "\<exists>s' p. un_handle_data \<lparr>ci_x = 0, ci_y = 0, ci_w = 0, ci_h = 0, ci_mx = 0, ci_my = 0\<rparr>
     (un_new\<lparr>un_in := [message_bytes (hello_back 1 6 [97])]\<rparr>) = Ret s' \<and> un_proxy s' = Some p \<and> cp_name p = ''a''"
proof -
  have a: "char_of (unat (97 :: u8)) = CHR ''a''" by code_simp
  show ?thesis
    using hello_makes_proxy [of "[97]" "un_new\<lparr>un_in := [message_bytes (hello_back 1 6 [97])]\<rparr>"
        "\<lparr>ci_x = 0, ci_y = 0, ci_w = 0, ci_h = 0, ci_mx = 0, ci_my = 0\<rparr>"] a
    by (auto simp: un_new_def)
qed

end
