(* ===== verification/Client.thy ===== *)
theory Client
  imports ServerProxy
begin

text \<open>
  The client (\<^verbatim>\<open>src/lib/client/Client.cpp\<close>): the life of its connection, the screen calls of the
  proxy, the options and the clipboards. The proxy is present or not; its own state is the subject of
  \<open>ServerProxy\<close>. The pointers of the class are flags, the handlers installed on the stream and on the
  screen are flags, and what is called or posted is listed in one order. The screen's clipboards and
  the contents of the greeting are arguments. \<open>Undefined\<close> is a failed assertion or a use of a null
  or dangling pointer.
\<close>

section \<open>State\<close>

datatype cl_act =
    Scr_mouseMove int int
  | Scr_enter u32
  | Scr_leave
  | Scr_setClipboard u8 clipboard
  | Scr_grabClipboard u8
  | Scr_keyDown u32 u32 u16
  | Scr_keyRepeat u32 u32 int u16
  | Scr_keyUp u32 u32 u16
  | Scr_mouseDown u8
  | Scr_mouseUp u8
  | Scr_mouseRelativeMove int int
  | Scr_mouseWheel int int
  | Scr_screensaver bool
  | Scr_resetOptions
  | Scr_setOptions "u32 list"
  | Scr_enable
  | Scr_disable
  | Srv_onInfoChanged
  | Srv_onGrabClipboard u8
  | Srv_onClipboardChanged u8 bytes
  | Srv_file_chunk_sending file_chunk
  | Str_writef string "warg list"
  | Str_connect
  | Post_CLIENT_CONNECTED
  | Post_CLIENT_DISCONNECTED
  | Post_CLIENT_CONNECTION_FAILED string
  | Post_STREAM_INPUT_READY

record client =
  cl_name :: bytes
  cl_crypto :: bool
  cl_enableDragDrop :: bool
  cl_stream :: bool
  cl_timer :: bool
  cl_server :: bool
  cl_ready :: bool
  cl_active :: bool
  cl_suspended :: bool
  cl_connectOnResume :: bool
  cl_restartable :: bool
  cl_enableClipboard :: bool
  cl_maximumClipboardSize :: nat
  cl_ownClipboard :: "u8 \<Rightarrow> bool"
  cl_sentClipboard :: "u8 \<Rightarrow> bool"
  cl_timeClipboard :: "u8 \<Rightarrow> u32"
  cl_dataClipboard :: "u8 \<Rightarrow> bytes"
  h_connected :: bool
  h_connectionFailed :: bool
  h_connection :: bool
  h_screen :: bool
  cl_done :: "cl_act list"

definition cl_act :: "cl_act \<Rightarrow> client \<Rightarrow> client" where
  "cl_act a s = s\<lparr>cl_done := cl_done s @ [a]\<rparr>"

definition cl_new :: "bytes \<Rightarrow> bool \<Rightarrow> bool \<Rightarrow> client" where
  "cl_new name crypto dragDrop =
     \<lparr>cl_name = name, cl_crypto = crypto, cl_enableDragDrop = dragDrop, cl_stream = False, cl_timer = False, cl_server = False, cl_ready = False, cl_active = False,
      cl_suspended = False, cl_connectOnResume = False, cl_restartable = True, cl_enableClipboard = True,
      cl_maximumClipboardSize = 2147483647, cl_ownClipboard = (\<lambda>_. False), cl_sentClipboard = (\<lambda>_. False),
      cl_timeClipboard = (\<lambda>_. 0), cl_dataClipboard = (\<lambda>_. []),
      h_connected = False, h_connectionFailed = False, h_connection = False, h_screen = False, cl_done = []\<rparr>"

section \<open>Setting up and tearing down\<close>

definition cl_setupConnecting :: "client \<Rightarrow> client outcome" where
  "cl_setupConnecting s = (if cl_stream s then Ret (s\<lparr>h_connected := True, h_connectionFailed := True\<rparr>) else Undefined)"

definition cl_setupConnection :: "client \<Rightarrow> client outcome" where
  "cl_setupConnection s = (if cl_stream s then Ret (s\<lparr>h_connection := True\<rparr>) else Undefined)"

text \<open>The proxy is made on the stream; its own handler of input takes the place of \<open>handle_hello\<close>.\<close>

definition cl_setupScreen :: "client \<Rightarrow> client outcome" where
  "cl_setupScreen s =
     (if cl_server s \<or> \<not> cl_stream s then Undefined else Ret (s\<lparr>cl_ready := False, cl_server := True, h_screen := True\<rparr>))"

definition cl_setupTimer :: "client \<Rightarrow> client outcome" where
  "cl_setupTimer s = (if cl_timer s then Undefined else Ret (s\<lparr>cl_timer := True\<rparr>))"

text \<open>With encryption the handler of the connection is installed for another event than the one removed here.\<close>

definition cl_cleanupConnecting :: "client \<Rightarrow> client" where
  "cl_cleanupConnecting s =
     (if cl_stream s then s\<lparr>h_connected := h_connected s \<and> cl_crypto s, h_connectionFailed := False\<rparr> else s)"

text \<open>A stream that is deleted takes its handlers with it.\<close>

definition cl_cleanupStream :: "client \<Rightarrow> client" where
  "cl_cleanupStream s = s\<lparr>cl_stream := False, h_connected := False, h_connectionFailed := False, h_connection := False\<rparr>"

definition cl_cleanupConnection :: "client \<Rightarrow> client" where
  "cl_cleanupConnection s = (if cl_stream s then cl_cleanupStream (s\<lparr>h_connection := False\<rparr>) else s)"

definition cl_cleanupScreen :: "client \<Rightarrow> client" where
  "cl_cleanupScreen s =
     (if cl_server s then
        let s1 = (if cl_ready s then (cl_act Scr_disable s)\<lparr>cl_ready := False\<rparr> else s)
        in s1\<lparr>h_screen := False, cl_server := False\<rparr>
      else s)"

definition cl_cleanupTimer :: "client \<Rightarrow> client" where
  "cl_cleanupTimer s = s\<lparr>cl_timer := False\<rparr>"

definition cl_sendConnectionFailedEvent :: "string \<Rightarrow> client \<Rightarrow> client" where
  "cl_sendConnectionFailedEvent msg = cl_act (Post_CLIENT_CONNECTION_FAILED msg)"

fun then_do :: "'a outcome \<Rightarrow> ('a \<Rightarrow> 'b outcome) \<Rightarrow> 'b outcome" where
  "then_do (Ret a) f = f a"
| "then_do Bad f = Bad"
| "then_do Undefined f = Undefined"

text \<open>
  \<open>connect\<close>; \<open>creating\<close> is the message of an exception in resolving the address or making the socket,
  \<open>connecting\<close> of one in the socket's own \<open>connect\<close>, if there is one.
\<close>

definition cl_connect :: "string option \<Rightarrow> string option \<Rightarrow> client \<Rightarrow> client outcome" where
  "cl_connect creating connecting s =
     (if cl_stream s then Ret s
      else if cl_suspended s then Ret (s\<lparr>cl_connectOnResume := True\<rparr>)
      else
        let failed = (\<lambda>e t. cl_sendConnectionFailedEvent e (cl_cleanupStream (cl_cleanupConnecting (cl_cleanupTimer t))))
        in case creating of
             Some e \<Rightarrow> Ret (failed e s)
           | None \<Rightarrow> then_do (cl_setupConnecting (s\<lparr>cl_stream := True\<rparr>)) (\<lambda>s1.
                then_do (cl_setupTimer s1) (\<lambda>s2.
                  Ret (case connecting of None \<Rightarrow> cl_act Str_connect s2 | Some e \<Rightarrow> failed e (cl_act Str_connect s2)))))"

definition cl_disconnect :: "string option \<Rightarrow> client \<Rightarrow> client" where
  "cl_disconnect msg s =
     (let s1 = cl_cleanupConnection (cl_cleanupConnecting (cl_cleanupScreen (cl_cleanupTimer (s\<lparr>cl_connectOnResume := False\<rparr>))))
      in case msg of Some m \<Rightarrow> cl_sendConnectionFailedEvent m s1 | None \<Rightarrow> cl_act Post_CLIENT_DISCONNECTED s1)"

definition cl_handshakeComplete :: "client \<Rightarrow> client" where
  "cl_handshakeComplete s = cl_act Post_CLIENT_CONNECTED (cl_act Scr_enable (s\<lparr>cl_ready := True\<rparr>))"

section \<open>Handlers of the connection\<close>

definition cl_handle_connected :: "client \<Rightarrow> client outcome" where
  "cl_handle_connected s =
     then_do (cl_setupConnection (cl_cleanupConnecting s)) (\<lambda>s1.
       Ret (s1\<lparr>cl_ownClipboard := (\<lambda>i. if i < kClipboardEnd then False else cl_ownClipboard s1 i),
               cl_sentClipboard := (\<lambda>i. if i < kClipboardEnd then False else cl_sentClipboard s1 i),
               cl_timeClipboard := (\<lambda>i. if i < kClipboardEnd then 0 else cl_timeClipboard s1 i)\<rparr>))"

definition cl_handle_connection_failed :: "string \<Rightarrow> client \<Rightarrow> client" where
  "cl_handle_connection_failed what s =
     cl_sendConnectionFailedEvent what (cl_cleanupStream (cl_cleanupConnecting (cl_cleanupTimer s)))"

definition cl_handle_connect_timeout :: "client \<Rightarrow> client" where
  "cl_handle_connect_timeout s =
     cl_sendConnectionFailedEvent ''Timed out'' (cl_cleanupStream (cl_cleanupConnection (cl_cleanupConnecting (cl_cleanupTimer s))))"

definition cl_handle_output_error :: "client \<Rightarrow> client" where
  "cl_handle_output_error s = cl_act Post_CLIENT_DISCONNECTED (cl_cleanupConnection (cl_cleanupScreen (cl_cleanupTimer s)))"

definition cl_handle_disconnected :: "client \<Rightarrow> client" where
  "cl_handle_disconnected s = cl_act Post_CLIENT_DISCONNECTED (cl_cleanupConnection (cl_cleanupScreen (cl_cleanupTimer s)))"

definition cl_handle_stop_retry :: "client \<Rightarrow> client" where
  "cl_handle_stop_retry s = s\<lparr>cl_restartable := False\<rparr>"

definition cl_handle_shape_changed :: "client \<Rightarrow> client outcome" where
  "cl_handle_shape_changed s = (if cl_server s then Ret (cl_act Srv_onInfoChanged s) else Undefined)"

text \<open>
  A chunk of a file to be sent, posted by the thread that reads the file. The handler is installed by the
  constructor when drag and drop is enabled, and stays whether there is a connection or not.
\<close>

definition cl_send_file_chunk :: "file_chunk \<Rightarrow> client \<Rightarrow> client outcome" where
  "cl_send_file_chunk chunk s = (if cl_server s then Ret (cl_act (Srv_file_chunk_sending chunk) s) else Undefined)"

definition cl_handle_file_chunk_sending :: "file_chunk \<Rightarrow> client \<Rightarrow> client outcome" where
  "cl_handle_file_chunk_sending chunk s = cl_send_file_chunk chunk s"

text \<open>The message of the exception \<open>XIncompatibleClient\<close>.\<close>

definition sprintf_d :: "int \<Rightarrow> string" where
  "sprintf_d i = (if i < 0 then ''-'' else []) @ map (\<lambda>b. char_of (unat b)) (decimal (nat \<bar>i\<bar>))"

definition incompatible_what :: "int \<Rightarrow> int \<Rightarrow> string" where
  "incompatible_what major minor = ''incompatible client '' @ sprintf_d major @ ''.'' @ sprintf_d minor"

text \<open>\<open>handle_hello\<close>: the packets of the stream; what is left of them stays for the proxy.\<close>

definition cl_handle_hello :: "packets \<Rightarrow> client \<Rightarrow> (packets \<times> client) outcome" where
  "cl_handle_hello ps s =
     (if \<not> cl_stream s then Undefined
      else case readf pk_reader ''Barrier%2i%2i'' ps of
             Inr (Some ([RInt16 major, RInt16 minor], ps')) \<Rightarrow>
               if sint major < 1 \<or> sint major = 1 \<and> sint minor < 6 then
                 Ret ([], cl_cleanupConnection (cl_cleanupTimer (cl_sendConnectionFailedEvent (incompatible_what (sint major) (sint minor)) s)))
               else
                 then_do (cl_setupScreen (cl_act (Str_writef ''Barrier%2i%2i%s'' [WInt 1, WInt 6, WStr (cl_name s)]) s)) (\<lambda>s1.
                   let s2 = cl_cleanupTimer s1
                   in Ret (ps', if ps' \<noteq> [] then cl_act Post_STREAM_INPUT_READY s2 else s2))
           | Inr _ \<Rightarrow>
               Ret ([], cl_cleanupConnection (cl_cleanupTimer
                 (cl_sendConnectionFailedEvent ''Protocol error from server, check encryption settings'' s)))
           | Inl _ \<Rightarrow> Undefined)"

definition cl_handle_suspend :: "client \<Rightarrow> client" where
  "cl_handle_suspend s = (cl_disconnect None (s\<lparr>cl_suspended := True\<rparr>))\<lparr>cl_connectOnResume := cl_server s\<rparr>"

definition cl_handle_resume :: "string option \<Rightarrow> string option \<Rightarrow> client \<Rightarrow> client outcome" where
  "cl_handle_resume creating connecting s =
     (let s1 = s\<lparr>cl_suspended := False\<rparr>
      in if cl_connectOnResume s1 then cl_connect creating connecting (s1\<lparr>cl_connectOnResume := False\<rparr>) else Ret s1)"

section \<open>Clipboards\<close>

text \<open>\<open>get\<close> is the screen's \<open>getClipboard\<close>: the clipboard it is given, filled.\<close>

definition cl_sendClipboard :: "(u8 \<Rightarrow> clipboard \<Rightarrow> clipboard) \<Rightarrow> u8 \<Rightarrow> client \<Rightarrow> client outcome" where
  "cl_sendClipboard get i s =
     (if \<not> cl_server s then Undefined
      else case Option.bind (cb_open (cl_timeClipboard s i) cb_new) (\<lambda>(opened, c). if opened then cb_close c else Some c) of
             None \<Rightarrow> Undefined
           | Some c0 \<Rightarrow>
               let c = get i c0
               in if cl_timeClipboard s i = 0 \<or> cb_getTime c \<noteq> cl_timeClipboard s i then
                    let s1 = s\<lparr>cl_timeClipboard := (cl_timeClipboard s)(i := cb_getTime c)\<rparr>
                    in case cb_marshall c of
                         None \<Rightarrow> Undefined
                       | Some (data, c') \<Rightarrow>
                           Ret (if cl_maximumClipboardSize s1 \<le> length data then s1
                                else if \<not> cl_sentClipboard s1 i \<or> data \<noteq> cl_dataClipboard s1 i then
                                  cl_act (Srv_onClipboardChanged i data)
                                    (s1\<lparr>cl_sentClipboard := (cl_sentClipboard s1)(i := True), cl_dataClipboard := (cl_dataClipboard s1)(i := data)\<rparr>)
                                else s1)
                  else Ret s)"

definition cl_handle_clipboard_grabbed :: "(u8 \<Rightarrow> clipboard \<Rightarrow> clipboard) \<Rightarrow> u8 \<Rightarrow> client \<Rightarrow> client outcome" where
  "cl_handle_clipboard_grabbed get i s =
     (if \<not> cl_enableClipboard s \<or> cl_maximumClipboardSize s = 0 then Ret s
      else if \<not> cl_server s then Undefined
      else
        let s1 = (cl_act (Srv_onGrabClipboard i) s)\<lparr>cl_ownClipboard := (cl_ownClipboard s)(i := True),
              cl_sentClipboard := (cl_sentClipboard s)(i := False), cl_timeClipboard := (cl_timeClipboard s)(i := 0)\<rparr>
        in if \<not> cl_active s1 then cl_sendClipboard get i s1 else Ret s1)"

fun cl_send_owned :: "(u8 \<Rightarrow> clipboard \<Rightarrow> clipboard) \<Rightarrow> u8 list \<Rightarrow> client \<Rightarrow> client outcome" where
  "cl_send_owned get [] s = Ret s"
| "cl_send_owned get (i # is) s =
     (if cl_ownClipboard s i then then_do (cl_sendClipboard get i s) (cl_send_owned get is) else cl_send_owned get is s)"

definition client_clipboard_ids :: "u8 list" where
  "client_clipboard_ids = [0, 1]"

section \<open>The calls of the proxy\<close>

definition cl_enter :: "int \<Rightarrow> int \<Rightarrow> u32 \<Rightarrow> client \<Rightarrow> client" where
  "cl_enter x y mods s = cl_act (Scr_enter mods) (cl_act (Scr_mouseMove x y) (s\<lparr>cl_active := True\<rparr>))"

definition cl_leave :: "(u8 \<Rightarrow> clipboard \<Rightarrow> clipboard) \<Rightarrow> client \<Rightarrow> client outcome" where
  "cl_leave get s =
     (let s1 = cl_act Scr_leave (s\<lparr>cl_active := False\<rparr>)
      in if cl_enableClipboard s1 then cl_send_owned get client_clipboard_ids s1 else Ret s1)"

definition cl_setClipboard :: "u8 \<Rightarrow> clipboard \<Rightarrow> client \<Rightarrow> client" where
  "cl_setClipboard i cb s =
     (cl_act (Scr_setClipboard i cb) s)\<lparr>cl_ownClipboard := (cl_ownClipboard s)(i := False), cl_sentClipboard := (cl_sentClipboard s)(i := False)\<rparr>"

definition cl_grabClipboard :: "u8 \<Rightarrow> client \<Rightarrow> client" where
  "cl_grabClipboard i s =
     (cl_act (Scr_grabClipboard i) s)\<lparr>cl_ownClipboard := (cl_ownClipboard s)(i := False), cl_sentClipboard := (cl_sentClipboard s)(i := False)\<rparr>"

text \<open>
  The loop of \<open>setOptions\<close>. It goes over identifiers and values alike; an identifier of one of the two
  options in the last place makes the iterator run past the end.
\<close>

fun cl_scan_options :: "u32 list \<Rightarrow> client \<Rightarrow> client outcome" where
  "cl_scan_options [] s = Ret s"
| "cl_scan_options (i # rest) s =
     (if i = kOptionClipboardSharing then
        (case rest of [] \<Rightarrow> Undefined | v # _ \<Rightarrow> Ret (s\<lparr>cl_enableClipboard := v \<noteq> 0\<rparr>))
      else if i = kOptionClipboardSharingSize then
        (case rest of [] \<Rightarrow> Undefined | v # rest' \<Rightarrow> cl_scan_options rest' (s\<lparr>cl_maximumClipboardSize := unat v\<rparr>))
      else cl_scan_options rest s)"

definition cl_setOptions :: "u32 list \<Rightarrow> client \<Rightarrow> client outcome" where
  "cl_setOptions options s =
     (if odd (length options) then Ret s
      else then_do (cl_scan_options options s) (\<lambda>s1.
        Ret (cl_act (Scr_setOptions options)
          (if cl_enableClipboard s1 \<and> cl_maximumClipboardSize s1 = 0 then s1\<lparr>cl_enableClipboard := False\<rparr> else s1))))"

text \<open>What \<open>m_client->\<close> calls do. Files and drags start threads and are left out, as is dimming.\<close>

fun cl_perform :: "(u8 \<Rightarrow> clipboard \<Rightarrow> clipboard) \<Rightarrow> client_call \<Rightarrow> client \<Rightarrow> client outcome" where
  "cl_perform get (C_enter x y seqNum mods) s = Ret (cl_enter x y mods s)"
| "cl_perform get C_leave s = cl_leave get s"
| "cl_perform get (C_setClipboard i cb) s = Ret (cl_setClipboard i cb s)"
| "cl_perform get (C_grabClipboard i) s = Ret (cl_grabClipboard i s)"
| "cl_perform get (C_keyDown key mods button) s = Ret (cl_act (Scr_keyDown key mods button) s)"
| "cl_perform get (C_keyRepeat key mods count button) s = Ret (cl_act (Scr_keyRepeat key mods count button) s)"
| "cl_perform get (C_keyUp key mods button) s = Ret (cl_act (Scr_keyUp key mods button) s)"
| "cl_perform get (C_mouseDown button) s = Ret (cl_act (Scr_mouseDown button) s)"
| "cl_perform get (C_mouseUp button) s = Ret (cl_act (Scr_mouseUp button) s)"
| "cl_perform get (C_mouseMove x y) s = Ret (cl_act (Scr_mouseMove x y) s)"
| "cl_perform get (C_mouseRelativeMove dx dy) s = Ret (cl_act (Scr_mouseRelativeMove dx dy) s)"
| "cl_perform get (C_mouseWheel dx dy) s = Ret (cl_act (Scr_mouseWheel dx dy) s)"
| "cl_perform get (C_screensaver on) s = Ret (cl_act (Scr_screensaver on) s)"
| "cl_perform get C_resetOptions s = Ret (cl_act Scr_resetOptions s)"
| "cl_perform get (C_setOptions options) s = cl_setOptions options s"
| "cl_perform get C_handshakeComplete s = Ret (cl_handshakeComplete s)"
| "cl_perform get (C_disconnect msg) s = Ret (cl_disconnect msg s)"
| "cl_perform get _ s = Ret s"


section \<open>Runs of the client\<close>

datatype cl_event =
    E_connect "string option" "string option"
  | E_disconnect "string option"
  | E_connected
  | E_connection_failed string
  | E_timeout
  | E_hello packets
  | E_output_error
  | E_disconnected
  | E_stop_retry
  | E_shape_changed
  | E_clipboard_grabbed u8
  | E_file_chunk_sending file_chunk
  | E_suspend
  | E_resume "string option" "string option"
  | E_call client_call

text \<open>
  An event happens only while its handler is installed; a socket reports its connection once. The
  client's application may connect and disconnect at any time, the system suspend and resume; the
  proxy calls as long as it exists, with whatever arguments. A received file, which only starts the
  thread that writes it, is not among the events.
\<close>

fun cl_enabled :: "cl_event \<Rightarrow> client \<Rightarrow> bool" where
  "cl_enabled E_connected s \<longleftrightarrow> h_connected s \<and> \<not> h_connection s"
| "cl_enabled (E_connection_failed _) s \<longleftrightarrow> h_connectionFailed s"
| "cl_enabled E_timeout s \<longleftrightarrow> cl_timer s"
| "cl_enabled (E_hello ps) s \<longleftrightarrow> h_connection s \<and> \<not> cl_server s \<and> [] \<notin> set ps"
| "cl_enabled E_output_error s \<longleftrightarrow> h_connection s"
| "cl_enabled E_disconnected s \<longleftrightarrow> h_connection s"
| "cl_enabled E_stop_retry s \<longleftrightarrow> h_connection s"
| "cl_enabled E_shape_changed s \<longleftrightarrow> h_screen s"
| "cl_enabled (E_clipboard_grabbed i) s \<longleftrightarrow> h_screen s"
| "cl_enabled (E_file_chunk_sending chunk) s \<longleftrightarrow> cl_enableDragDrop s"
| "cl_enabled (E_call _) s \<longleftrightarrow> cl_server s"
| "cl_enabled _ s \<longleftrightarrow> True"

fun cl_react :: "(u8 \<Rightarrow> clipboard \<Rightarrow> clipboard) \<Rightarrow> cl_event \<Rightarrow> client \<Rightarrow> client outcome" where
  "cl_react get (E_connect creating connecting) s = cl_connect creating connecting s"
| "cl_react get (E_disconnect msg) s = Ret (cl_disconnect msg s)"
| "cl_react get E_connected s = cl_handle_connected s"
| "cl_react get (E_connection_failed what) s = Ret (cl_handle_connection_failed what s)"
| "cl_react get E_timeout s = Ret (cl_handle_connect_timeout s)"
| "cl_react get (E_hello ps) s = then_do (cl_handle_hello ps s) (\<lambda>(_, s'). Ret s')"
| "cl_react get E_output_error s = Ret (cl_handle_output_error s)"
| "cl_react get E_disconnected s = Ret (cl_handle_disconnected s)"
| "cl_react get E_stop_retry s = Ret (cl_handle_stop_retry s)"
| "cl_react get E_shape_changed s = cl_handle_shape_changed s"
| "cl_react get (E_clipboard_grabbed i) s = cl_handle_clipboard_grabbed get i s"
| "cl_react get (E_file_chunk_sending chunk) s = cl_handle_file_chunk_sending chunk s"
| "cl_react get E_suspend s = Ret (cl_handle_suspend s)"
| "cl_react get (E_resume creating connecting) s = cl_handle_resume creating connecting s"
| "cl_react get (E_call c) s = cl_perform get c s"

inductive cl_reachable :: "(u8 \<Rightarrow> clipboard \<Rightarrow> clipboard) \<Rightarrow> client \<Rightarrow> bool" for get where
  start: "cl_reachable get (cl_new name crypto dragDrop)"
| event: "cl_reachable get s \<Longrightarrow> cl_enabled e s \<Longrightarrow> cl_react get e s = Ret s' \<Longrightarrow> cl_reachable get s'"

text \<open>
  The state of a connection: idle (no stream, no timer, no proxy, no handlers), connecting (a stream and
  a timer), or connected (a stream and a proxy, no timer).
\<close>

definition cl_inv :: "client \<Rightarrow> bool" where
  "cl_inv s \<longleftrightarrow>
     (cl_stream s \<longleftrightarrow> (cl_timer s \<noteq> cl_server s)) \<and> \<not> (cl_timer s \<and> cl_server s) \<and>
     (h_screen s \<longleftrightarrow> cl_server s) \<and> (cl_ready s \<longrightarrow> cl_server s) \<and> (cl_server s \<longrightarrow> h_connection s) \<and>
     (h_connected s \<or> h_connectionFailed s \<or> h_connection s \<longrightarrow> cl_stream s) \<and>
     (h_connectionFailed s \<longrightarrow> \<not> h_connection s) \<and>
     (cl_connectOnResume s \<longrightarrow> cl_suspended s) \<and> (cl_suspended s \<longrightarrow> \<not> cl_stream s)"

lemma cl_inv_act [simp]: "cl_inv (cl_act a s) \<longleftrightarrow> cl_inv s" "cl_inv (cl_sendConnectionFailedEvent m s) \<longleftrightarrow> cl_inv s"
  by (simp_all add: cl_inv_def cl_act_def cl_sendConnectionFailedEvent_def)

lemmas cl_teardown = cl_cleanupConnecting_def cl_cleanupConnection_def cl_cleanupStream_def cl_cleanupScreen_def cl_cleanupTimer_def
  cl_act_def cl_sendConnectionFailedEvent_def

lemma cl_handlers_inv:
  assumes "cl_inv s"
  shows "cl_inv (cl_disconnect msg s)" "cl_inv (cl_handle_suspend s)" "cl_inv (cl_handle_disconnected s)" "cl_inv (cl_handle_output_error s)"
    "cl_timer s \<Longrightarrow> cl_inv (cl_handle_connect_timeout s)" "h_connectionFailed s \<Longrightarrow> cl_inv (cl_handle_connection_failed what s)"
  using assms
  by (auto simp: cl_inv_def cl_disconnect_def cl_handle_suspend_def cl_handle_disconnected_def cl_handle_output_error_def
      cl_handle_connect_timeout_def cl_handle_connection_failed_def cl_teardown Let_def split: option.splits)


definition inv_result :: "client outcome \<Rightarrow> bool" where
  "inv_result r \<longleftrightarrow> (\<exists>s'. r = Ret s' \<and> cl_inv s')"

lemma cl_connect_inv: "cl_inv s \<Longrightarrow> inv_result (cl_connect creating connecting s)"
  by (auto simp: inv_result_def cl_inv_def cl_connect_def cl_setupConnecting_def cl_setupTimer_def cl_teardown Let_def split: option.splits)

lemma cl_resume_inv: "cl_inv s \<Longrightarrow> inv_result (cl_handle_resume creating connecting s)"
proof -
  assume "cl_inv s"
  then have "cl_inv (s\<lparr>cl_suspended := False, cl_connectOnResume := False\<rparr>)" "\<not> cl_connectOnResume s \<Longrightarrow> cl_inv (s\<lparr>cl_suspended := False\<rparr>)"
    by (auto simp: cl_inv_def)
  then show ?thesis using cl_connect_inv by (auto simp: cl_handle_resume_def Let_def inv_result_def [of "Ret _"])
qed

lemma cl_connected_inv: "cl_inv s \<Longrightarrow> h_connected s \<Longrightarrow> \<not> h_connection s \<Longrightarrow> inv_result (cl_handle_connected s)"
  by (auto simp: inv_result_def cl_inv_def cl_handle_connected_def cl_setupConnection_def cl_cleanupConnecting_def)

context input_stream
begin

lemma vreadf_ints:
  "good s \<Longrightarrow> int_only is \<Longrightarrow> vreadf rd is s = Inl e \<Longrightarrow> e = XIOEndOfStream \<or> e = XIOReadMismatch"
proof (induction "is" arbitrary: s)
  case (Cons i "is")
  have rest: "int_only is" using Cons.prems(2) by (simp add: int_only_def)
  show ?case
  proof (cases i)
    case (Lit c)
    from pu_read_cases [OF Cons.prems(1), of 1] Cons.prems(3) Lit Cons.IH [OF _ rest] show ?thesis
      by (auto split: if_splits)
  next
    case (Conv len k)
    then have k: "k = Some CHR ''i''" "len = 1 \<or> len = 2 \<or> len = 4" using Cons.prems(2) by (auto simp: int_only_def)
    from pu_read_cases [OF Cons.prems(1), of len] consider "read_conv rd len k s = Inl XIOEndOfStream"
      | vs s1 where "read_conv rd len k s = Inr (vs, s1)" "good s1" using k by (auto simp: read_conv_def)
    then show ?thesis using Cons.prems(3) Conv Cons.IH [OF _ rest] by cases (auto split: sum.splits)
  qed
qed simp

end

lemma readf_greeting:
  assumes "[] \<notin> set ps"
  shows "\<exists>r. readf pk_reader ''Barrier%2i%2i'' ps = Inr r"
proof -
  have "int_only (fmt_items ''Barrier%2i%2i'')" by (simp add: int_only_def digit_value_def)
  from pk_in.vreadf_ints [OF assms this] show ?thesis
    by (cases "vreadf pk_reader (fmt_items ''Barrier%2i%2i'') ps") (auto simp: readf_def simp del: fmt_items.simps)
qed

lemma cl_inv_frame [simp]:
  "cl_inv (s\<lparr>cl_timeClipboard := t\<rparr>) \<longleftrightarrow> cl_inv s" "cl_inv (s\<lparr>cl_sentClipboard := u\<rparr>) \<longleftrightarrow> cl_inv s"
  "cl_inv (s\<lparr>cl_dataClipboard := d\<rparr>) \<longleftrightarrow> cl_inv s" "cl_inv (s\<lparr>cl_ownClipboard := u\<rparr>) \<longleftrightarrow> cl_inv s"
  "cl_inv (s\<lparr>cl_enableClipboard := b\<rparr>) \<longleftrightarrow> cl_inv s" "cl_inv (s\<lparr>cl_maximumClipboardSize := n\<rparr>) \<longleftrightarrow> cl_inv s"
  "cl_inv (s\<lparr>cl_active := b\<rparr>) \<longleftrightarrow> cl_inv s" "cl_inv (s\<lparr>cl_restartable := b\<rparr>) \<longleftrightarrow> cl_inv s"
  by (simp_all add: cl_inv_def)

lemma cl_act_server [simp]: "cl_server (cl_act a s) = cl_server s" by (simp add: cl_act_def)

lemma cl_hello_inv:
  assumes "cl_inv s" "h_connection s" "\<not> cl_server s" "\<not> h_connectionFailed s" "[] \<notin> set ps"
  shows "\<exists>ps' s'. cl_handle_hello ps s = Ret (ps', s') \<and> cl_inv s'"
proof -
  have st: "cl_stream s" using assms(1-3) by (auto simp: cl_inv_def)
  let ?fail = "\<lambda>m. cl_cleanupConnection (cl_cleanupTimer (cl_sendConnectionFailedEvent m s))"
  let ?ok = "\<lambda>a. cl_cleanupTimer ((cl_act a s)\<lparr>cl_ready := False, cl_server := True, h_screen := True\<rparr>)"
  have inv: "cl_inv (?fail m)" "cl_inv (?ok a)" for m a
    using assms(1-4) by (auto simp: cl_inv_def cl_teardown)
  from readf_greeting [OF assms(5)] obtain r where r: "readf pk_reader ''Barrier%2i%2i'' ps = Inr r" ..
  have su: "cl_setupScreen (cl_act a s) = Ret ((cl_act a s)\<lparr>cl_ready := False, cl_server := True, h_screen := True\<rparr>)" for a
    using st assms(3) by (simp add: cl_setupScreen_def cl_act_def)
  show ?thesis
    unfolding cl_handle_hello_def r using st inv su by (auto simp: Let_def split: option.splits list.splits rval.splits)
qed

lemma cl_sendClipboard_inv:
  assumes "cl_inv s" "cl_server s" "\<forall>i c. \<not> m_open c \<longrightarrow> \<not> m_open (get i c)"
  shows "\<exists>s'. cl_sendClipboard get i s = Ret s' \<and> cl_inv s' \<and> cl_server s'"
proof -
  let ?c0 = "cb_new\<lparr>m_time := cl_timeClipboard s i\<rparr>"
  have c0: "Option.bind (cb_open (cl_timeClipboard s i) cb_new) (\<lambda>(opened, c). if opened then cb_close c else Some c) = Some ?c0"
    by (simp add: cb_open_def cb_close_def cb_new_def)
  have "\<not> m_open (get i ?c0)" using assms(3) by (simp add: cb_new_def)
  from cb.marshall_encodes [OF _ this] obtain c' where
    "cb_marshall (get i ?c0) = Some (encode (cb_view (get i ?c0)), c')" by (auto simp: cb_marshall_def cb_ops_def)
  then show ?thesis using c0 assms(1,2) by (auto simp: cl_sendClipboard_def Let_def)
qed

lemma cl_send_owned_inv:
  assumes "\<forall>i c. \<not> m_open c \<longrightarrow> \<not> m_open (get i c)"
  shows "cl_inv s \<Longrightarrow> cl_server s \<Longrightarrow> inv_result (cl_send_owned get is s)"
proof (induction "is" arbitrary: s)
  case (Cons i "is")
  with cl_sendClipboard_inv [OF Cons.prems assms, of i] show ?case by auto
qed (simp add: inv_result_def)

text \<open>
  The events that the client does not survive: a list of options whose last element is the identifier
  of one of the two clipboard options, where the loop may run past the end, and a chunk of a file
  when there is no proxy.
\<close>

fun cl_fatal :: "cl_event \<Rightarrow> client \<Rightarrow> bool" where
  "cl_fatal (E_call (C_setOptions opts)) s \<longleftrightarrow> opts \<noteq> [] \<and> last opts \<in> {kOptionClipboardSharing, kOptionClipboardSharingSize}"
| "cl_fatal (E_file_chunk_sending chunk) s \<longleftrightarrow> \<not> cl_server s"
| "cl_fatal _ s \<longleftrightarrow> False"

lemma cl_scan_inv:
  "opts = [] \<or> last opts \<notin> {kOptionClipboardSharing, kOptionClipboardSharingSize} \<Longrightarrow> cl_inv s \<Longrightarrow>
   \<exists>s'. cl_scan_options opts s = Ret s' \<and> cl_inv s'"
proof (induction opts s rule: cl_scan_options.induct)
  case (2 i rest s)
  show ?case
  proof (cases rest)
    case Nil
    then show ?thesis using 2 by auto
  next
    case (Cons v rest')
    then have "rest' = [] \<or> last rest' \<notin> {kOptionClipboardSharing, kOptionClipboardSharingSize}"
      "rest = [] \<or> last rest \<notin> {kOptionClipboardSharing, kOptionClipboardSharingSize}" using 2(3) by auto
    then show ?thesis using 2 Cons by (cases "i = kOptionClipboardSharing"; cases "i = kOptionClipboardSharingSize") simp_all
  qed
qed simp

lemma cl_scan_outcome: "cl_inv s \<Longrightarrow> cl_scan_options opts s = Ret s' \<Longrightarrow> cl_inv s'"
proof (induction opts s rule: cl_scan_options.induct)
  case (2 i rest s)
  show ?case
  proof (cases rest)
    case (Cons v rest')
    consider "i = kOptionClipboardSharing" | "i \<noteq> kOptionClipboardSharing" "i = kOptionClipboardSharingSize"
      | "i \<noteq> kOptionClipboardSharing" "i \<noteq> kOptionClipboardSharingSize" by blast
    then show ?thesis
    proof cases
      case 1
      then show ?thesis using 2(3,4) Cons by auto
    next
      case b: 2
      then show ?thesis using 2(1) [OF b Cons] 2(3,4) Cons by simp
    next
      case 3
      then show ?thesis using 2(2) [OF 3] 2(3,4) by simp
    qed
  qed (use 2(3,4) in \<open>simp split: if_splits\<close>)
qed simp

lemma cl_perform_inv:
  assumes "cl_inv s" "cl_server s" "\<not> cl_fatal (E_call c) s" "\<forall>i c. \<not> m_open c \<longrightarrow> \<not> m_open (get i c)"
  shows "inv_result (cl_perform get c s)"
proof (cases c)
  case C_leave
  from assms(1,2) cl_send_owned_inv [OF assms(4), of "cl_act Scr_leave (s\<lparr>cl_active := False\<rparr>)"] C_leave show ?thesis
    by (auto simp: cl_leave_def Let_def inv_result_def)
next
  case (C_setOptions opts)
  with assms(3) have "opts = [] \<or> last opts \<notin> {kOptionClipboardSharing, kOptionClipboardSharingSize}" by simp
  from cl_scan_inv [OF this assms(1)] assms(1) C_setOptions show ?thesis by (auto simp: cl_setOptions_def inv_result_def)
next
  case C_handshakeComplete
  have "cl_inv (s\<lparr>cl_ready := True\<rparr>)" using assms(1,2) C_handshakeComplete by (auto simp: cl_inv_def)
  then show ?thesis using C_handshakeComplete by (simp add: cl_handshakeComplete_def inv_result_def)
qed (use assms(1) cl_handlers_inv(1) in \<open>auto simp: inv_result_def cl_enter_def cl_setClipboard_def cl_grabClipboard_def\<close>)


lemma cl_react_inv:
  assumes "cl_inv s" "cl_enabled e s" "\<not> cl_fatal e s" "\<forall>i c. \<not> m_open c \<longrightarrow> \<not> m_open (get i c)"
  shows "inv_result (cl_react get e s)"
proof (cases e)
  case (E_hello ps)
  then have "h_connection s" "\<not> cl_server s" "[] \<notin> set ps" using assms(2) by simp_all
  moreover have "\<not> h_connectionFailed s" using assms(1) \<open>h_connection s\<close> by (auto simp: cl_inv_def)
  ultimately show ?thesis using cl_hello_inv [OF assms(1), of ps] E_hello by (auto simp: inv_result_def)
next
  case (E_clipboard_grabbed i)
  then have sv: "cl_server s" using assms(1,2) by (simp add: cl_inv_def)
  let ?s1 = "(cl_act (Srv_onGrabClipboard i) s)\<lparr>cl_ownClipboard := (cl_ownClipboard s)(i := True),
    cl_sentClipboard := (cl_sentClipboard s)(i := False), cl_timeClipboard := (cl_timeClipboard s)(i := 0)\<rparr>"
  have "cl_inv ?s1" "cl_server ?s1" using assms(1) sv by simp_all
  from cl_sendClipboard_inv [OF this assms(4), of i] E_clipboard_grabbed assms(1) sv \<open>cl_inv ?s1\<close> show ?thesis
    by (auto simp: cl_handle_clipboard_grabbed_def Let_def inv_result_def)
next
  case (E_call c)
  then have "cl_server s" using assms(2) by (cases c) simp_all
  with E_call show ?thesis using cl_perform_inv [OF assms(1) _ _ assms(4)] assms(3) by simp
next
  case (E_file_chunk_sending chunk)
  then show ?thesis using assms(1,3) by (auto simp: cl_handle_file_chunk_sending_def cl_send_file_chunk_def inv_result_def)
next
  case E_shape_changed
  then show ?thesis using assms(1,2) by (auto simp: cl_handle_shape_changed_def inv_result_def cl_inv_def [of s])
qed (use assms(1,2) cl_handlers_inv [OF assms(1)] cl_connect_inv [OF assms(1)] cl_resume_inv [OF assms(1)] cl_connected_inv [OF assms(1)]
  in \<open>auto simp: inv_result_def cl_handle_stop_retry_def\<close>)

lemma cl_fatal_outcome:
  assumes "cl_inv s" "cl_fatal e s" "cl_react get e s = Ret s'"
  shows "cl_inv s'"
  using assms(2)
proof (cases rule: cl_fatal.elims(2))
  case (1 opts)
  then obtain s1 where "cl_setOptions opts s = Ret s'" using assms(3) by simp
  moreover have "cl_inv s1" if "cl_scan_options opts s = Ret s1" for s1 by (rule cl_scan_outcome [OF assms(1) that])
  ultimately show ?thesis using assms(1) by (cases "cl_scan_options opts s") (auto simp: cl_setOptions_def split: if_splits)
qed (use assms(3) in \<open>simp add: cl_handle_file_chunk_sending_def cl_send_file_chunk_def\<close>)

lemma cl_reachable_inv:
  assumes "\<forall>i c. \<not> m_open c \<longrightarrow> \<not> m_open (get i c)"
  shows "cl_reachable get s \<Longrightarrow> cl_inv s"
proof (induction rule: cl_reachable.induct)
  case (event s e s')
  from cl_react_inv [OF event.IH event.hyps(2) _ assms] cl_fatal_outcome [OF event.IH _ event.hyps(3)] event.hyps(3)
  show ?case by (auto simp: inv_result_def)
qed (simp add: cl_inv_def cl_new_def)

text \<open>
  C6. The client's connection is always in one of three states. In every state a client reaches by
  connecting, disconnecting, being suspended and resumed, network events, chunks of files to send and
  calls of its proxy: there is a stream exactly if there is a connection timer or a proxy, and never
  both of these; so a client that waits for the server always has the timeout running, and one that
  does not wait has none. The screen's handlers are there exactly with the proxy, no handler is left on
  the stream without a stream, a suspended client has no stream. Every event that can happen in such a
  state is handled without a failed assertion or a null pointer, with two exceptions: a list of options
  that ends with the identifier of one of the two clipboard options, where the loop over it may run past
  the end, and a chunk of a file to send that is handled when the proxy is gone, which always fails.
\<close>

theorem client_connection_consistent:
  assumes "\<forall>i c. \<not> m_open c \<longrightarrow> \<not> m_open (get i c)" "cl_reachable get s"
  shows "(cl_stream s \<longleftrightarrow> cl_timer s \<or> cl_server s) \<and> \<not> (cl_timer s \<and> cl_server s) \<and> (h_screen s \<longleftrightarrow> cl_server s) \<and>
    (h_connected s \<or> h_connectionFailed s \<or> h_connection s \<longrightarrow> cl_stream s) \<and> (cl_suspended s \<longrightarrow> \<not> cl_stream s) \<and>
    (\<forall>e. cl_enabled e s \<longrightarrow> (\<exists>s'. cl_react get e s = Ret s') \<or>
      (\<exists>opts. e = E_call (C_setOptions opts) \<and> opts \<noteq> [] \<and> last opts \<in> {kOptionClipboardSharing, kOptionClipboardSharingSize}) \<or>
      (\<exists>chunk. e = E_file_chunk_sending chunk \<and> \<not> cl_server s \<and> cl_react get e s = Undefined))"
proof -
  have inv: "cl_inv s" by (rule cl_reachable_inv [OF assms])
  have "cl_fatal e s \<Longrightarrow> (\<exists>opts. e = E_call (C_setOptions opts) \<and> opts \<noteq> [] \<and> last opts \<in> {kOptionClipboardSharing, kOptionClipboardSharingSize}) \<or>
      (\<exists>chunk. e = E_file_chunk_sending chunk \<and> \<not> cl_server s \<and> cl_react get e s = Undefined)" for e
    by (cases rule: cl_fatal.cases [of "(e, s)"]) (auto simp: cl_handle_file_chunk_sending_def cl_send_file_chunk_def)
  with cl_react_inv [OF inv _ _ assms(1)] have "\<forall>e. cl_enabled e s \<longrightarrow> (\<exists>s'. cl_react get e s = Ret s') \<or>
      (\<exists>opts. e = E_call (C_setOptions opts) \<and> opts \<noteq> [] \<and> last opts \<in> {kOptionClipboardSharing, kOptionClipboardSharingSize}) \<or>
      (\<exists>chunk. e = E_file_chunk_sending chunk \<and> \<not> cl_server s \<and> cl_react get e s = Undefined)"
    unfolding inv_result_def by blast
  with inv show ?thesis by (auto simp: cl_inv_def)
qed

section \<open>Sending clipboards\<close>

text \<open>
  A clipboard the user fills on a screen that is not in use goes to the server at once, and once.
  The grab is announced and then the contents follow, marshalled, if they are below the size limit; if
  the screen reports the same time for its clipboard afterwards, leaving the screen does not send it
  again.
\<close>

theorem grabbed_clipboard_sent_once:
  assumes "cl_server s" "cl_enableClipboard s" "\<not> cl_active s" "i < kClipboardEnd"
    and "\<forall>j c. \<not> m_open c \<longrightarrow> \<not> m_open (get j c) \<and> cb_view (get j c) = content \<and> cb_getTime (get j c) = t" "t \<noteq> 0"
    and "length (encode content) < cl_maximumClipboardSize s" "\<forall>j. j \<noteq> i \<longrightarrow> \<not> cl_ownClipboard s j"
  shows "\<exists>s'. cl_handle_clipboard_grabbed get i s = Ret s' \<and>
    cl_done s' = cl_done s @ [Srv_onGrabClipboard i, Srv_onClipboardChanged i (encode content)] \<and>
    cl_leave get (cl_enter x y mods s') = Ret (cl_act Scr_leave ((cl_enter x y mods s')\<lparr>cl_active := False\<rparr>))"
proof -
  have get: "\<exists>c'. cb_marshall (get j (cb_new\<lparr>m_time := u\<rparr>)) = Some (encode content, c')" "cb_getTime (get j (cb_new\<lparr>m_time := u\<rparr>)) = t" for j u
  proof -
    have o: "\<not> m_open (get j (cb_new\<lparr>m_time := u\<rparr>))" "cb_view (get j (cb_new\<lparr>m_time := u\<rparr>)) = content"
      "cb_getTime (get j (cb_new\<lparr>m_time := u\<rparr>)) = t" using assms(5) by (simp_all add: cb_new_def)
    from cb.marshall_encodes [OF _ o(1)] o show "\<exists>c'. cb_marshall (get j (cb_new\<lparr>m_time := u\<rparr>)) = Some (encode content, c')"
      "cb_getTime (get j (cb_new\<lparr>m_time := u\<rparr>)) = t" by (auto simp: cb_marshall_def cb_ops_def)
  qed
  have c0: "Option.bind (cb_open u cb_new) (\<lambda>(opened, c). if opened then cb_close c else Some c) = Some (cb_new\<lparr>m_time := u\<rparr>)" for u
    by (simp add: cb_open_def cb_close_def cb_new_def)
  let ?g = "(cl_act (Srv_onGrabClipboard i) s)\<lparr>cl_ownClipboard := (cl_ownClipboard s)(i := True),
    cl_sentClipboard := (cl_sentClipboard s)(i := False), cl_timeClipboard := (cl_timeClipboard s)(i := 0)\<rparr>"
  obtain s' where s': "cl_sendClipboard get i ?g = Ret s'" "cl_done s' = cl_done s @ [Srv_onGrabClipboard i, Srv_onClipboardChanged i (encode content)]"
    "cl_timeClipboard s' i = t" "cl_server s'" "cl_enableClipboard s'" "cl_ownClipboard s' = (cl_ownClipboard s)(i := True)"
    using get [of i 0] assms(1,2,7) c0 by (auto simp: cl_sendClipboard_def Let_def cl_act_def)
  have g: "cl_handle_clipboard_grabbed get i s = Ret s'"
    using s'(1) assms(1-3,7) by (simp add: cl_handle_clipboard_grabbed_def Let_def cl_act_def)
  have quiet: "cl_sendClipboard get i u = Ret u" if "cl_server u" "cl_timeClipboard u i = t" for u
    using that get [of i t] assms(6) c0 by (auto simp: cl_sendClipboard_def Let_def)
  let ?u = "cl_act Scr_leave ((cl_enter x y mods s')\<lparr>cl_active := False\<rparr>)"
  have "cl_send_owned get is ?u = Ret ?u" for "is"
  proof (induction "is")
    case (Cons j "is")
    have "cl_ownClipboard ?u j \<Longrightarrow> j = i" using assms(8) s'(6) by (auto simp: cl_act_def cl_enter_def split: if_splits)
    moreover have "cl_sendClipboard get i ?u = Ret ?u" using s'(3,4) by (intro quiet) (simp_all add: cl_act_def cl_enter_def)
    ultimately show ?case using Cons by auto
  qed simp
  then have "cl_leave get (cl_enter x y mods s') = Ret ?u" using s'(5) by (simp add: cl_leave_def Let_def cl_act_def cl_enter_def)
  with g s'(2) show ?thesis by blast
qed


fun cl_run :: "(u8 \<Rightarrow> clipboard \<Rightarrow> clipboard) \<Rightarrow> cl_event list \<Rightarrow> client \<Rightarrow> client outcome" where
  "cl_run get [] s = Ret s"
| "cl_run get (e # es) s = (if cl_enabled e s then then_do (cl_react get e s) (cl_run get es) else Undefined)"

definition greeting :: packets where
  "greeting = [message_bytes (''Barrier%2i%2i'', [WInt 1, WInt 6])]"

lemma greeting_read: "readf pk_reader ''Barrier%2i%2i'' greeting = Inr (Some ([RInt16 1, RInt16 6], []))" "[] \<notin> set greeting"
  unfolding greeting_def by code_simp+

definition reconnect :: "u8 \<Rightarrow> cl_event list" where
  "reconnect i = [E_disconnected, E_connect None None, E_connected, E_hello greeting, E_call C_handshakeComplete, E_clipboard_grabbed i]"

text \<open>
  C40. A client that was in use when its connection broke holds back its clipboard after the next
  connection. Nothing resets the flag that tells whether the cursor is on the screen: the client
  reconnects, the cursor is elsewhere, the user fills the clipboard at the client's own keyboard. The
  grab is announced to the server, which then takes the client for the owner of the clipboard, but the
  contents are kept until the cursor has been there and left.
\<close>

theorem reconnected_client_keeps_clipboard:
  assumes "cl_inv s" "cl_server s" "cl_active s" "cl_enableClipboard s" "cl_maximumClipboardSize s \<noteq> 0"
  shows "\<exists>s' as. cl_run get (reconnect i) s = Ret s' \<and> cl_done s' = cl_done s @ as \<and> cl_ready s' \<and>
    Srv_onGrabClipboard i \<in> set as \<and> (\<forall>d. Srv_onClipboardChanged i d \<notin> set as) \<and> (\<forall>m. Scr_enter m \<notin> set as) \<and> cl_active s'"
proof -
  have st: "cl_stream s" "h_connection s" "\<not> cl_timer s" "\<not> cl_suspended s" using assms(1,2) by (auto simp: cl_inv_def)
  show ?thesis
    using assms(2-5) st greeting_read(2)
    by (simp add: reconnect_def cl_handle_disconnected_def cl_connect_def cl_setupConnecting_def cl_setupTimer_def cl_handle_connected_def
        cl_setupConnection_def cl_handle_hello_def greeting_read(1) cl_setupScreen_def cl_handshakeComplete_def
        cl_handle_clipboard_grabbed_def cl_teardown Let_def)
qed

section \<open>Witnesses\<close>

definition demo_get :: "u8 \<Rightarrow> clipboard \<Rightarrow> clipboard" where
  "demo_get i c = demo_clip"

lemma demo_get_closed: "\<forall>i c. \<not> m_open c \<longrightarrow> \<not> m_open (demo_get i c)"
  by (simp add: demo_get_def demo_clip_def cb_new_def)

definition demo_client :: client where
  "demo_client = (cl_new [97] False False)\<lparr>cl_stream := True, cl_server := True, h_screen := True, h_connection := True, cl_ready := True\<rparr>"

theorem client_connection_consistent_witness:
  "cl_stream (cl_act Str_connect ((cl_new [97] True True)\<lparr>cl_stream := True, h_connected := True, h_connectionFailed := True, cl_timer := True\<rparr>)) \<and>
   (\<exists>s'. cl_react demo_get E_timeout
     (cl_act Str_connect ((cl_new [97] True True)\<lparr>cl_stream := True, h_connected := True, h_connectionFailed := True, cl_timer := True\<rparr>)) = Ret s')"
proof -
  let ?s = "cl_act Str_connect ((cl_new [97] True True)\<lparr>cl_stream := True, h_connected := True, h_connectionFailed := True, cl_timer := True\<rparr>)"
  have "cl_react demo_get (E_connect None None) (cl_new [97] True True) = Ret ?s"
    by (simp add: cl_connect_def cl_new_def cl_setupConnecting_def cl_setupTimer_def)
  then have "cl_reachable demo_get ?s" by (rule cl_reachable.event [OF cl_reachable.start, rotated]) simp
  moreover have "cl_enabled E_timeout ?s" by (simp add: cl_act_def)
  ultimately show ?thesis using client_connection_consistent [OF demo_get_closed, of ?s] by (simp add: cl_act_def)
qed

theorem grabbed_clipboard_sent_once_witness:
  "\<exists>s'. cl_handle_clipboard_grabbed demo_get 1 demo_client = Ret s' \<and>
     cl_done s' = [Srv_onGrabClipboard 1, Srv_onClipboardChanged 1 (encode (cb_view demo_clip))]"
proof -
  have c: "cb_getTime demo_clip = 3" "length (encode (cb_view demo_clip)) < 2147483647" "\<not> m_open demo_clip" "(1 :: u8) < kClipboardEnd"
    by (simp_all add: demo_clip_def cb_new_def cb_getTime_def encode_def encode_entry_def present_def cb_view_def all_formats_def kClipboardEnd_def)
  have "\<forall>j c. \<not> m_open c \<longrightarrow> \<not> m_open (demo_get j c) \<and> cb_view (demo_get j c) = cb_view demo_clip \<and> cb_getTime (demo_get j c) = 3"
    using c by (simp add: demo_get_def)
  from grabbed_clipboard_sent_once [OF _ _ _ c(4) this, of demo_client 0 0 0] c(2) show ?thesis
    by (auto simp: demo_client_def cl_new_def)
qed

theorem reconnected_client_keeps_clipboard_witness:
  "\<exists>s' as. cl_run demo_get (reconnect 0) (demo_client\<lparr>cl_active := True\<rparr>) = Ret s' \<and> cl_done s' = as \<and>
     Srv_onGrabClipboard 0 \<in> set as \<and> (\<forall>d. Srv_onClipboardChanged 0 d \<notin> set as)"
  using reconnected_client_keeps_clipboard [of "demo_client\<lparr>cl_active := True\<rparr>" demo_get 0]
  by (auto simp: demo_client_def cl_new_def cl_inv_def)

end
