(* ===== verification/InputFilter.thy ===== *)
theory InputFilter
  imports ServerClients
begin

text \<open>
  The input filter of the server (\<^verbatim>\<open>src/lib/server/InputFilter.cpp\<close>): rules that turn hot keys, mouse
  buttons and connections into actions. Events are delivered at once, in the order in which they are
  added, so the outcome of an event is the list of events that reach the server. The rules are kept in
  a vector, and a vector that grows copies its elements: a copy of a hot key condition starts without
  the identifier of its hot key. The platform that registers hot keys is a parameter; the locale
  \<open>hot_keys\<close> says what the filter relies on, and the tables of \<^verbatim>\<open>src/lib/platform/XWindowsScreen.cpp\<close>
  provide it.
\<close>

section \<open>Conditions and actions\<close>

type_synonym hot_key_id = nat

record key_info =
  ki_key :: u32
  ki_mask :: u32
  ki_button :: u16
  ki_count :: int
  ki_screens :: string

record button_info =
  bi_button :: u8
  bi_mask :: u32

datatype filter_condition =
    KeystrokeCondition hot_key_id u32 u32
  | MouseButtonCondition u8 u32
  | ScreenConnectedCondition string

datatype filter_action =
    LockCursorToScreenAction toggle
  | SwitchToScreenAction string
  | ToggleScreenAction
  | SwitchInDirectionAction EDirection
  | KeyboardBroadcastAction toggle string
  | KeystrokeAction key_info bool
  | MouseButtonAction button_info bool

datatype filter_event =
    KEY_STATE_KEY_DOWN key_info
  | KEY_STATE_KEY_UP key_info
  | KEY_STATE_KEY_REPEAT key_info
  | PRIMARY_SCREEN_BUTTON_DOWN button_info
  | PRIMARY_SCREEN_BUTTON_UP button_info
  | PRIMARY_SCREEN_HOTKEY_DOWN hot_key_id
  | PRIMARY_SCREEN_HOTKEY_UP hot_key_id
  | SERVER_CONNECTED string
  | SERVER_LOCK_CURSOR_TO_SCREEN toggle
  | SERVER_SWITCH_TO_SCREEN string
  | SERVER_TOGGLE_SCREEN
  | SERVER_SWITCH_INDIRECTION EDirection
  | SERVER_KEYBOARD_BROADCAST toggle string
  | PRIMARY_SCREEN_FAKE_INPUT_BEGIN
  | PRIMARY_SCREEN_FAKE_INPUT_END

datatype EFilterStatus = kNoMatch | kActivate | kDeactivate

text \<open>AltGr and the three locks cannot be combined with a mouse button.\<close>

definition s_ignoreMask :: u32 where
  "s_ignoreMask = 0x20 OR 0x1000 OR 0x2000 OR 0x4000"

fun condition_match :: "filter_condition \<Rightarrow> filter_event \<Rightarrow> EFilterStatus" where
  "condition_match (KeystrokeCondition i key mods) (PRIMARY_SCREEN_HOTKEY_DOWN h) = (if h \<noteq> i then kNoMatch else kActivate)"
| "condition_match (KeystrokeCondition i key mods) (PRIMARY_SCREEN_HOTKEY_UP h) = (if h \<noteq> i then kNoMatch else kDeactivate)"
| "condition_match (MouseButtonCondition b mods) (PRIMARY_SCREEN_BUTTON_DOWN info) =
     (if bi_button info \<noteq> b \<or> bi_mask info AND NOT s_ignoreMask \<noteq> mods then kNoMatch else kActivate)"
| "condition_match (MouseButtonCondition b mods) (PRIMARY_SCREEN_BUTTON_UP info) =
     (if bi_button info \<noteq> b \<or> bi_mask info AND NOT s_ignoreMask \<noteq> mods then kNoMatch else kDeactivate)"
| "condition_match (ScreenConnectedCondition screen) (SERVER_CONNECTED name) =
     (if screen = name \<or> screen = [] then kActivate else kNoMatch)"
| "condition_match _ _ = kNoMatch"

definition kKeySetModifiers :: u32 where "kKeySetModifiers = 0xEE06"
definition kKeyClearModifiers :: u32 where "kKeyClearModifiers = 0xEE07"

fun action_perform :: "filter_action \<Rightarrow> filter_event \<Rightarrow> filter_event list" where
  "action_perform (LockCursorToScreenAction mode) ev = [SERVER_LOCK_CURSOR_TO_SCREEN mode]"
| "action_perform (SwitchToScreenAction screen) ev =
     [SERVER_SWITCH_TO_SCREEN (case ev of SERVER_CONNECTED name \<Rightarrow> if screen = [] then name else screen | _ \<Rightarrow> screen)]"
| "action_perform ToggleScreenAction ev = [SERVER_TOGGLE_SCREEN]"
| "action_perform (SwitchInDirectionAction dir) ev = [SERVER_SWITCH_INDIRECTION dir]"
| "action_perform (KeyboardBroadcastAction mode screens) ev = [SERVER_KEYBOARD_BROADCAST mode screens]"
| "action_perform (KeystrokeAction info press) ev =
     [PRIMARY_SCREEN_FAKE_INPUT_BEGIN, if press then KEY_STATE_KEY_DOWN info else KEY_STATE_KEY_UP info, PRIMARY_SCREEN_FAKE_INPUT_END]"
| "action_perform (MouseButtonAction info press) ev =
     (if bi_mask info \<noteq> 0
      then [KEY_STATE_KEY_DOWN \<lparr>ki_key = if press then kKeySetModifiers else kKeyClearModifiers, ki_mask = bi_mask info,
              ki_button = 0, ki_count = 1, ki_screens = []\<rparr>]
      else []) @
     [if press then PRIMARY_SCREEN_BUTTON_DOWN info else PRIMARY_SCREEN_BUTTON_UP info]"

section \<open>Rules\<close>

record rule =
  r_condition :: "filter_condition option"
  r_activate :: "filter_action list"
  r_deactivate :: "filter_action list"

definition rule_new :: "filter_condition option \<Rightarrow> rule" where
  "rule_new c = \<lparr>r_condition = c, r_activate = [], r_deactivate = []\<rparr>"

fun condition_clone :: "filter_condition \<Rightarrow> filter_condition" where
  "condition_clone (KeystrokeCondition i key mods) = KeystrokeCondition 0 key mods"
| "condition_clone c = c"

definition rule_copy :: "rule \<Rightarrow> rule" where
  "rule_copy r = r\<lparr>r_condition := map_option condition_clone (r_condition r)\<rparr>"

definition adoptAction :: "filter_action \<Rightarrow> bool \<Rightarrow> rule \<Rightarrow> rule" where
  "adoptAction a onActivation r =
     (if onActivation then r\<lparr>r_activate := r_activate r @ [a]\<rparr> else r\<lparr>r_deactivate := r_deactivate r @ [a]\<rparr>)"

definition remove_at :: "nat \<Rightarrow> 'x list \<Rightarrow> 'x list option" where
  "remove_at i xs = (if i < length xs then Some (take i xs @ drop (Suc i) xs) else None)"

text \<open>An index past the end is undefined.\<close>

definition removeAction :: "bool \<Rightarrow> nat \<Rightarrow> rule \<Rightarrow> rule option" where
  "removeAction onActivation i r =
     (if onActivation then map_option (\<lambda>as. r\<lparr>r_activate := as\<rparr>) (remove_at i (r_activate r))
      else map_option (\<lambda>as. r\<lparr>r_deactivate := as\<rparr>) (remove_at i (r_deactivate r)))"

definition replaceAction :: "filter_action option \<Rightarrow> bool \<Rightarrow> nat \<Rightarrow> rule \<Rightarrow> rule option" where
  "replaceAction adopted onActivation i r =
     (case adopted of
        None \<Rightarrow> removeAction onActivation i r
      | Some a \<Rightarrow>
          if onActivation then if i < length (r_activate r) then Some (r\<lparr>r_activate := (r_activate r)[i := a]\<rparr>) else None
          else if i < length (r_deactivate r) then Some (r\<lparr>r_deactivate := (r_deactivate r)[i := a]\<rparr>) else None)"

text \<open>\<open>Some\<close> are the events of a rule that handled the event.\<close>

definition rule_handle_event :: "filter_event \<Rightarrow> rule \<Rightarrow> filter_event list option" where
  "rule_handle_event ev r =
     (case r_condition r of
        None \<Rightarrow> None
      | Some c \<Rightarrow>
          (case condition_match c ev of
             kNoMatch \<Rightarrow> None
           | kActivate \<Rightarrow> Some (concat (map (\<lambda>a. action_perform a ev) (r_activate r)))
           | kDeactivate \<Rightarrow> Some (concat (map (\<lambda>a. action_perform a ev) (r_deactivate r)))))"

fun first_handled :: "filter_event \<Rightarrow> rule list \<Rightarrow> filter_event list option" where
  "first_handled ev [] = None"
| "first_handled ev (r # rs) = (case rule_handle_event ev r of Some out \<Rightarrow> Some out | None \<Rightarrow> first_handled ev rs)"

section \<open>The filter\<close>

record input_filter =
  m_ruleList :: "rule list"
  rule_capacity :: nat
  m_primary :: "screen_id option"

definition input_filter_new :: input_filter where
  "input_filter_new = \<lparr>m_ruleList = [], rule_capacity = 0, m_primary = None\<rparr>"

text \<open>Events that no rule handles pass through; the filter is their new target.\<close>

definition filter_handle_event :: "filter_event \<Rightarrow> input_filter \<Rightarrow> filter_event list" where
  "filter_handle_event ev f = (case first_handled ev (m_ruleList f) of Some out \<Rightarrow> out | None \<Rightarrow> [ev])"

text \<open>
  Hot keys are registered with the primary client's screen: \<open>register\<close> and \<open>unregister\<close> work on the
  state of the platform. The identifier 0 is a failure.
\<close>

fun condition_enable ::
    "(u32 \<Rightarrow> u32 \<Rightarrow> 's \<Rightarrow> hot_key_id \<times> 's) \<Rightarrow> filter_condition \<Rightarrow> 's \<Rightarrow> filter_condition \<times> 's" where
  "condition_enable register (KeystrokeCondition i key mods) h =
     (case register key mods h of (i', h') \<Rightarrow> (KeystrokeCondition i' key mods, h'))"
| "condition_enable register c h = (c, h)"

fun condition_disable :: "(hot_key_id \<Rightarrow> 's \<Rightarrow> 's) \<Rightarrow> filter_condition \<Rightarrow> 's \<Rightarrow> filter_condition \<times> 's" where
  "condition_disable unregister (KeystrokeCondition i key mods) h = (KeystrokeCondition 0 key mods, unregister i h)"
| "condition_disable unregister c h = (c, h)"

definition rule_enable :: "(u32 \<Rightarrow> u32 \<Rightarrow> 's \<Rightarrow> hot_key_id \<times> 's) \<Rightarrow> rule \<Rightarrow> 's \<Rightarrow> rule \<times> 's" where
  "rule_enable register r h =
     (case r_condition r of
        None \<Rightarrow> (r, h)
      | Some c \<Rightarrow> (case condition_enable register c h of (c', h') \<Rightarrow> (r\<lparr>r_condition := Some c'\<rparr>, h')))"

definition rule_disable :: "(hot_key_id \<Rightarrow> 's \<Rightarrow> 's) \<Rightarrow> rule \<Rightarrow> 's \<Rightarrow> rule \<times> 's" where
  "rule_disable unregister r h =
     (case r_condition r of
        None \<Rightarrow> (r, h)
      | Some c \<Rightarrow> (case condition_disable unregister c h of (c', h') \<Rightarrow> (r\<lparr>r_condition := Some c'\<rparr>, h')))"

fun each_rule :: "(rule \<Rightarrow> 's \<Rightarrow> rule \<times> 's) \<Rightarrow> rule list \<Rightarrow> 's \<Rightarrow> rule list \<times> 's" where
  "each_rule f [] h = ([], h)"
| "each_rule f (r # rs) h = (case f r h of (r', h1) \<Rightarrow> case each_rule f rs h1 of (rs', h2) \<Rightarrow> (r' # rs', h2))"

definition setPrimaryClient ::
    "(u32 \<Rightarrow> u32 \<Rightarrow> 's \<Rightarrow> hot_key_id \<times> 's) \<Rightarrow> (hot_key_id \<Rightarrow> 's \<Rightarrow> 's) \<Rightarrow> screen_id option \<Rightarrow>
     input_filter \<Rightarrow> 's \<Rightarrow> input_filter \<times> 's" where
  "setPrimaryClient register unregister client f h =
     (if m_primary f = client then (f, h)
      else
        let (rs1, h1) = (if m_primary f \<noteq> None then each_rule (rule_disable unregister) (m_ruleList f) h else (m_ruleList f, h));
            (rs2, h2) = (if client \<noteq> None then each_rule (rule_enable register) rs1 h1 else (rs1, h1))
        in (f\<lparr>m_ruleList := rs2, m_primary := client\<rparr>, h2))"

text \<open>
  \<open>std::vector::push_back\<close>: a full vector moves its elements to new storage. A rule declares a copy
  constructor and no move constructor, so they are copied. \<open>grow\<close> is the next capacity.
\<close>

definition rules_push_back :: "(nat \<Rightarrow> nat) \<Rightarrow> rule \<Rightarrow> input_filter \<Rightarrow> input_filter" where
  "rules_push_back grow r f =
     (if length (m_ruleList f) < rule_capacity f then f\<lparr>m_ruleList := m_ruleList f @ [rule_copy r]\<rparr>
      else f\<lparr>m_ruleList := map rule_copy (m_ruleList f) @ [rule_copy r], rule_capacity := grow (length (m_ruleList f))\<rparr>)"

definition addFilterRule ::
    "(u32 \<Rightarrow> u32 \<Rightarrow> 's \<Rightarrow> hot_key_id \<times> 's) \<Rightarrow> (nat \<Rightarrow> nat) \<Rightarrow> rule \<Rightarrow> input_filter \<Rightarrow> 's \<Rightarrow> input_filter \<times> 's" where
  "addFilterRule register grow r f h =
     (let f1 = rules_push_back grow r f
      in if m_primary f1 \<noteq> None then
           case rule_enable register (last (m_ruleList f1)) h of
             (r', h') \<Rightarrow> (f1\<lparr>m_ruleList := butlast (m_ruleList f1) @ [r']\<rparr>, h')
         else (f1, h))"

fun add_rules ::
    "(u32 \<Rightarrow> u32 \<Rightarrow> 's \<Rightarrow> hot_key_id \<times> 's) \<Rightarrow> (nat \<Rightarrow> nat) \<Rightarrow> rule list \<Rightarrow> input_filter \<Rightarrow> 's \<Rightarrow> input_filter \<times> 's" where
  "add_rules register grow [] f h = (f, h)"
| "add_rules register grow (r # rs) f h =
     (case addFilterRule register grow r f h of (f', h') \<Rightarrow> add_rules register grow rs f' h')"

text \<open>Assignment from another filter.\<close>

definition filter_assign ::
    "(u32 \<Rightarrow> u32 \<Rightarrow> 's \<Rightarrow> hot_key_id \<times> 's) \<Rightarrow> (hot_key_id \<Rightarrow> 's \<Rightarrow> 's) \<Rightarrow> input_filter \<Rightarrow> input_filter \<Rightarrow> 's \<Rightarrow>
     input_filter \<times> 's" where
  "filter_assign register unregister x f h =
     (case setPrimaryClient register unregister None f h of (f1, h1) \<Rightarrow>
        setPrimaryClient register unregister (m_primary f)
          (f1\<lparr>m_ruleList := map rule_copy (m_ruleList x), rule_capacity := max (rule_capacity f1) (length (m_ruleList x))\<rparr>) h1)"

text \<open>
  The part of \<open>Server::setConfig\<close> that gives the cursor lock its default hot key, Scroll Lock, unless
  the configuration has a rule that locks the cursor.
\<close>

definition scroll_lock_rule :: rule where
  "scroll_lock_rule = adoptAction (LockCursorToScreenAction kToggle) True (rule_new (Some (KeystrokeCondition 0 0xEF14 0)))"

definition add_scroll_lock ::
    "(u32 \<Rightarrow> u32 \<Rightarrow> 's \<Rightarrow> hot_key_id \<times> 's) \<Rightarrow> (nat \<Rightarrow> nat) \<Rightarrow> bool \<Rightarrow> input_filter \<Rightarrow> 's \<Rightarrow> input_filter \<times> 's" where
  "add_scroll_lock register grow hasLockToScreenAction f h =
     (if \<not> hasLockToScreenAction then addFilterRule register grow scroll_lock_rule f h else (f, h))"


section \<open>Hot keys in use\<close>

text \<open>The hot keys that the rules believe to have: identifier, key and modifiers.\<close>

definition rule_hot_key :: "rule \<Rightarrow> (hot_key_id \<times> u32 \<times> u32) list" where
  "rule_hot_key r =
     (case r_condition r of Some (KeystrokeCondition i key mods) \<Rightarrow> if i \<noteq> 0 then [(i, key, mods)] else [] | _ \<Rightarrow> [])"

definition hot_key_list :: "rule list \<Rightarrow> (hot_key_id \<times> u32 \<times> u32) list" where
  "hot_key_list rs = concat (map rule_hot_key rs)"

lemma hot_key_list_simps [simp]:
  "hot_key_list [] = []" "hot_key_list (r # rs) = rule_hot_key r @ hot_key_list rs" "hot_key_list (rs @ ts) = hot_key_list rs @ hot_key_list ts"
  by (simp_all add: hot_key_list_def)

lemma rule_copy_hot_key [simp]: "rule_hot_key (rule_copy r) = []"
  by (cases "r_condition r"; cases "the (r_condition r)") (auto simp: rule_copy_def rule_hot_key_def)

lemma copies_hot_keys [simp]: "hot_key_list (map rule_copy rs) = []"
  by (induction rs) auto

lemma rule_copy_copy [simp]: "rule_copy (rule_copy r) = rule_copy r"
proof -
  have "condition_clone (condition_clone c) = condition_clone c" for c by (cases c) auto
  then show ?thesis by (simp add: rule_copy_def option.map_comp comp_def)
qed

lemma hot_key_member:
  assumes "(i, k, m) \<in> set (hot_key_list rs)"
  obtains n where "n < length rs" "r_condition (rs ! n) = Some (KeystrokeCondition i k m)" "i \<noteq> 0"
proof -
  from assms obtain r where r: "r \<in> set rs" "(i, k, m) \<in> set (rule_hot_key r)" by (auto simp: hot_key_list_def)
  then obtain n where "n < length rs" "rs ! n = r" by (auto simp: in_set_conv_nth)
  moreover have "r_condition r = Some (KeystrokeCondition i k m)" "i \<noteq> 0"
    using r(2) by (auto simp: rule_hot_key_def split: option.splits filter_condition.splits if_splits)
  ultimately show thesis using that by blast
qed

text \<open>A hot key is handled by the rule that has its identifier.\<close>

lemma rule_handle_hot_key:
  "rule_handle_event (PRIMARY_SCREEN_HOTKEY_DOWN i) r =
     (case r_condition r of
        Some (KeystrokeCondition j k m) \<Rightarrow>
          if i = j then Some (concat (map (\<lambda>a. action_perform a (PRIMARY_SCREEN_HOTKEY_DOWN i)) (r_activate r))) else None
      | _ \<Rightarrow> None)"
  "rule_handle_event (PRIMARY_SCREEN_HOTKEY_UP i) r =
     (case r_condition r of
        Some (KeystrokeCondition j k m) \<Rightarrow>
          if i = j then Some (concat (map (\<lambda>a. action_perform a (PRIMARY_SCREEN_HOTKEY_UP i)) (r_deactivate r))) else None
      | _ \<Rightarrow> None)"
  by (simp_all add: rule_handle_event_def split: option.splits filter_condition.splits)

lemma first_handled_hot_key:
  assumes "distinct (map fst (hot_key_list rs))" "n < length rs" "r_condition (rs ! n) = Some (KeystrokeCondition i k m)" "i \<noteq> 0"
  shows "first_handled (PRIMARY_SCREEN_HOTKEY_DOWN i) rs = rule_handle_event (PRIMARY_SCREEN_HOTKEY_DOWN i) (rs ! n)"
    "first_handled (PRIMARY_SCREEN_HOTKEY_UP i) rs = rule_handle_event (PRIMARY_SCREEN_HOTKEY_UP i) (rs ! n)"
proof -
  have "first_handled (PRIMARY_SCREEN_HOTKEY_DOWN i) rs = rule_handle_event (PRIMARY_SCREEN_HOTKEY_DOWN i) (rs ! n) \<and>
      first_handled (PRIMARY_SCREEN_HOTKEY_UP i) rs = rule_handle_event (PRIMARY_SCREEN_HOTKEY_UP i) (rs ! n)"
    using assms
  proof (induction rs arbitrary: n)
    case (Cons r rs)
    show ?case
    proof (cases n)
      case 0
      then show ?thesis using Cons.prems by (simp add: rule_handle_hot_key)
    next
      case (Suc n')
      then have n': "n' < length rs" "r_condition (rs ! n') = Some (KeystrokeCondition i k m)" using Cons.prems by simp_all
      then have "rule_hot_key (rs ! n') = [(i, k, m)]" using Cons.prems(4) by (simp add: rule_hot_key_def)
      then have "(i, k, m) \<in> set (hot_key_list rs)" using n'(1) by (force simp: hot_key_list_def in_set_conv_nth)
      then have "i \<notin> fst ` set (rule_hot_key r)" using Cons.prems(1) by (force simp: image_iff)
      then have "rule_handle_event (PRIMARY_SCREEN_HOTKEY_DOWN i) r = None" "rule_handle_event (PRIMARY_SCREEN_HOTKEY_UP i) r = None"
        using Cons.prems(4) by (auto simp: rule_handle_hot_key rule_hot_key_def split: option.splits filter_condition.splits if_splits)
      then show ?thesis using Cons.IH [OF _ n' Cons.prems(4)] Cons.prems(1) Suc by simp
    qed
  qed simp
  then show "first_handled (PRIMARY_SCREEN_HOTKEY_DOWN i) rs = rule_handle_event (PRIMARY_SCREEN_HOTKEY_DOWN i) (rs ! n)"
    "first_handled (PRIMARY_SCREEN_HOTKEY_UP i) rs = rule_handle_event (PRIMARY_SCREEN_HOTKEY_UP i) (rs ! n)" by blast+
qed

text \<open>
  What the filter relies on: a new hot key has an identifier that is not in use, and removing one
  removes that one only.
\<close>

locale hot_keys =
  fixes register :: "u32 \<Rightarrow> u32 \<Rightarrow> 's \<Rightarrow> hot_key_id \<times> 's"
    and unregister :: "hot_key_id \<Rightarrow> 's \<Rightarrow> 's"
    and registered :: "'s \<Rightarrow> (hot_key_id \<times> u32 \<times> u32) set"
    and sound :: "'s \<Rightarrow> bool"
  assumes register_sound: "sound h \<Longrightarrow> register k m h = (i, h') \<Longrightarrow> sound h'"
    and register_failed: "sound h \<Longrightarrow> register k m h = (0, h') \<Longrightarrow> registered h' = registered h"
    and register_new: "sound h \<Longrightarrow> register k m h = (i, h') \<Longrightarrow> i \<noteq> 0 \<Longrightarrow>
      i \<notin> fst ` registered h \<and> registered h' = insert (i, k, m) (registered h)"
    and unregister_sound: "sound h \<Longrightarrow> sound (unregister i h)"
    and unregister_removes: "sound h \<Longrightarrow> registered (unregister i h) = {e \<in> registered h. fst e \<noteq> i}"
    and no_zero: "sound h \<Longrightarrow> 0 \<notin> fst ` registered h"
begin

definition in_step :: "input_filter \<Rightarrow> 's \<Rightarrow> bool" where
  "in_step f h \<longleftrightarrow> sound h \<and> registered h = set (hot_key_list (m_ruleList f)) \<and>
     distinct (map fst (hot_key_list (m_ruleList f))) \<and> (m_primary f = None \<longrightarrow> hot_key_list (m_ruleList f) = [])"

lemma enable_rule:
  assumes "sound h" "rule_enable register r h = (r', h')"
  shows "sound h' \<and> registered h' = registered h \<union> set (rule_hot_key r') \<and> distinct (map fst (rule_hot_key r')) \<and>
    fst ` registered h \<inter> fst ` set (rule_hot_key r') = {} \<and> rule_copy r' = rule_copy r"
proof (cases "r_condition r")
  case (Some c)
  show ?thesis
  proof (cases c)
    case (KeystrokeCondition i k m)
    obtain j h1 where j: "register k m h = (j, h1)" by fastforce
    then have "r' = r\<lparr>r_condition := Some (KeystrokeCondition j k m)\<rparr>" "h' = h1"
      using assms(2) Some KeystrokeCondition by (auto simp: rule_enable_def)
    then show ?thesis
      using Some KeystrokeCondition j register_sound [OF assms(1) j] register_new [OF assms(1) j] register_failed [OF assms(1), of k m h1]
      by (cases "j = 0") (auto simp: rule_hot_key_def rule_copy_def)
  qed (use assms Some in \<open>auto simp: rule_enable_def rule_hot_key_def rule_copy_def\<close>)
qed (use assms in \<open>auto simp: rule_enable_def rule_hot_key_def\<close>)

lemma disable_rule:
  assumes "sound h" "rule_disable unregister r h = (r', h')"
  shows "sound h' \<and> registered h' = {e \<in> registered h. fst e \<notin> fst ` set (rule_hot_key r)} \<and> r' = rule_copy r"
proof (cases "r_condition r")
  case (Some c)
  show ?thesis
  proof (cases c)
    case (KeystrokeCondition i k m)
    then show ?thesis
      using assms Some unregister_sound [OF assms(1), of i] unregister_removes [OF assms(1), of i] no_zero [OF assms(1)]
      by (auto simp: rule_disable_def rule_hot_key_def rule_copy_def image_iff)
  qed (use assms Some in \<open>auto simp: rule_disable_def rule_hot_key_def rule_copy_def\<close>)
qed (use assms in \<open>auto simp: rule_disable_def rule_hot_key_def rule_copy_def\<close>)

lemma enable_rules:
  assumes "sound h" "each_rule (rule_enable register) rs h = (rs', h')"
  shows "sound h' \<and> registered h' = registered h \<union> set (hot_key_list rs') \<and> distinct (map fst (hot_key_list rs')) \<and>
    fst ` registered h \<inter> fst ` set (hot_key_list rs') = {} \<and> map rule_copy rs' = map rule_copy rs"
  using assms
proof (induction rs arbitrary: h rs' h')
  case (Cons r rs)
  obtain r1 h1 where r1: "rule_enable register r h = (r1, h1)" by fastforce
  obtain rs2 h2 where rs2: "each_rule (rule_enable register) rs h1 = (rs2, h2)" by fastforce
  have "rs' = r1 # rs2" "h' = h2" using Cons.prems(2) r1 rs2 by auto
  with enable_rule [OF Cons.prems(1) r1] Cons.IH [OF _ rs2] show ?case by (auto simp: image_Un)
qed auto

lemma disable_rules:
  assumes "sound h" "each_rule (rule_disable unregister) rs h = (rs', h')"
  shows "sound h' \<and> registered h' = {e \<in> registered h. fst e \<notin> fst ` set (hot_key_list rs)} \<and> rs' = map rule_copy rs"
  using assms
proof (induction rs arbitrary: h rs' h')
  case (Cons r rs)
  obtain r1 h1 where r1: "rule_disable unregister r h = (r1, h1)" by fastforce
  obtain rs2 h2 where rs2: "each_rule (rule_disable unregister) rs h1 = (rs2, h2)" by fastforce
  have "rs' = r1 # rs2" "h' = h2" using Cons.prems(2) r1 rs2 by auto
  with disable_rule [OF Cons.prems(1) r1] Cons.IH [OF _ rs2] show ?case by (auto simp: image_Un)
qed auto

lemma in_step_primary:
  assumes "in_step f h" "setPrimaryClient register unregister client f h = (f', h')"
  shows "in_step f' h' \<and> m_primary f' = client \<and> map rule_copy (m_ruleList f') = map rule_copy (m_ruleList f) \<and> rule_capacity f' = rule_capacity f"
proof (cases "m_primary f = client")
  case False
  obtain rs1 h1 where 1: "(if m_primary f \<noteq> None then each_rule (rule_disable unregister) (m_ruleList f) h else (m_ruleList f, h)) = (rs1, h1)" by fastforce
  obtain rs2 h2 where 2: "(if client \<noteq> None then each_rule (rule_enable register) rs1 h1 else (rs1, h1)) = (rs2, h2)" by fastforce
  have f': "f' = f\<lparr>m_ruleList := rs2, m_primary := client\<rparr>" "h' = h2" using assms(2) False 1 2 by (auto simp: setPrimaryClient_def)
  have off: "sound h1 \<and> registered h1 = {} \<and> hot_key_list rs1 = [] \<and> map rule_copy rs1 = map rule_copy (m_ruleList f)"
    using 1 assms(1) disable_rules [of h "m_ruleList f" rs1 h1] by (auto simp: in_step_def comp_def split: if_splits)
  have "sound h2 \<and> registered h2 = set (hot_key_list rs2) \<and> distinct (map fst (hot_key_list rs2)) \<and> map rule_copy rs2 = map rule_copy (m_ruleList f) \<and>
      (client = None \<longrightarrow> hot_key_list rs2 = [])"
    using 2 off enable_rules [of h1 rs1 rs2 h2] by (auto split: if_splits)
  then show ?thesis using f' by (simp add: in_step_def)
qed (use assms in \<open>simp add: setPrimaryClient_def\<close>)

text \<open>A vector that does not grow, or one without registered hot keys, takes another rule.\<close>

lemma in_step_add:
  assumes "in_step f h" "addFilterRule register grow r f h = (f', h')"
    "m_primary f = None \<or> length (m_ruleList f) < rule_capacity f"
  shows "in_step f' h' \<and> m_primary f' = m_primary f \<and> map rule_copy (m_ruleList f') = map rule_copy (m_ruleList f) @ [rule_copy r]"
proof (cases "m_primary f = None")
  case True
  then show ?thesis using assms by (auto simp: addFilterRule_def rules_push_back_def in_step_def Let_def split: if_splits)
next
  case False
  obtain r1 h1 where r1: "rule_enable register (rule_copy r) h = (r1, h1)" by fastforce
  have "f' = f\<lparr>m_ruleList := m_ruleList f @ [r1]\<rparr>" "h' = h1"
    using assms(2,3) False r1 by (auto simp: addFilterRule_def rules_push_back_def Let_def)
  then show ?thesis using enable_rule [OF _ r1] assms(1) False by (auto simp: in_step_def)
qed

lemma in_step_assign:
  assumes "in_step f h" "filter_assign register unregister x f h = (f', h')"
  shows "in_step f' h' \<and> m_primary f' = m_primary f \<and> map rule_copy (m_ruleList f') = map rule_copy (m_ruleList x)"
proof -
  obtain f1 h1 where 1: "setPrimaryClient register unregister None f h = (f1, h1)" by fastforce
  let ?f2 = "f1\<lparr>m_ruleList := map rule_copy (m_ruleList x), rule_capacity := max (rule_capacity f1) (length (m_ruleList x))\<rparr>"
  have "in_step ?f2 h1" using in_step_primary [OF assms(1) 1] by (auto simp: in_step_def)
  with assms(2) 1 in_step_primary [of ?f2 h1 "m_primary f" f' h'] show ?thesis by (auto simp: filter_assign_def comp_def)
qed

lemma hot_key_runs_rule:
  assumes "in_step f h" "(i, k, m) \<in> registered h"
  shows "\<exists>r\<in>set (m_ruleList f). r_condition r = Some (KeystrokeCondition i k m) \<and>
    filter_handle_event (PRIMARY_SCREEN_HOTKEY_DOWN i) f = concat (map (\<lambda>a. action_perform a (PRIMARY_SCREEN_HOTKEY_DOWN i)) (r_activate r)) \<and>
    filter_handle_event (PRIMARY_SCREEN_HOTKEY_UP i) f = concat (map (\<lambda>a. action_perform a (PRIMARY_SCREEN_HOTKEY_UP i)) (r_deactivate r))"
proof -
  from assms obtain n where n: "n < length (m_ruleList f)" "r_condition (m_ruleList f ! n) = Some (KeystrokeCondition i k m)" "i \<noteq> 0"
    using hot_key_member by (metis in_step_def)
  have "distinct (map fst (hot_key_list (m_ruleList f)))" using assms(1) by (simp add: in_step_def)
  note h = first_handled_hot_key [OF this n]
  show ?thesis
    by (rule bexI [of _ "m_ruleList f ! n"]) (use n in \<open>simp_all add: filter_handle_event_def h rule_handle_hot_key\<close>)
qed

end

end
