(* ===== verification/HotKeys.thy ===== *)
theory HotKeys
  imports InputFilter
begin

text \<open>
  Hot keys on two platforms: the identifiers that \<^verbatim>\<open>src/lib/platform/XWindowsScreen.cpp\<close> gives out and
  takes back, which meet the contract of the filter, with the table in which it looks up the keys that are
  pressed, and those of \<^verbatim>\<open>src/lib/platform/EiScreen.cpp\<close>, which do not meet it. Which key codes the X server
  has for a key and whether it lets them be grabbed are parameters.
\<close>

section \<open>X11\<close>

text \<open>A key code with the modifiers that are held down, as the X server reports it.\<close>

type_synonym hot_key_item = "int \<times> u32"

text \<open>
  Each identifier comes with the key and the modifiers it was asked for, which the code does not keep, and
  with the items that are grabbed for it.
\<close>

record x11_hot_keys =
  m_hotKeys :: "(hot_key_id, (u32 \<times> u32) \<times> hot_key_item list) smap"
  m_oldHotKeyIDs :: "hot_key_id list"
  m_hotKeyToIDMap :: "hot_key_item \<rightharpoonup> hot_key_id"

definition grab_items :: "hot_key_id \<Rightarrow> hot_key_item list \<Rightarrow> (hot_key_item \<rightharpoonup> hot_key_id) \<Rightarrow> hot_key_item \<rightharpoonup> hot_key_id" where
  "grab_items i items m = fold (\<lambda>x m. m(x \<mapsto> i)) items m"

definition ungrab_items :: "hot_key_item list \<Rightarrow> (hot_key_item \<rightharpoonup> hot_key_id) \<Rightarrow> hot_key_item \<rightharpoonup> hot_key_id" where
  "ungrab_items items m = fold (\<lambda>x m. m(x := None)) items m"

text \<open>
  \<open>maps\<close>: the items to grab for a key with its modifiers, in order, unless one of them does not exist on the
  keyboard; \<open>grabs\<close>: nothing, or how many of them are entered when the code sees an X error. Shift, Control, Alt
  and Super are allowed.
\<close>

definition x11_registerHotKey ::
    "(u32 \<Rightarrow> u32 \<Rightarrow> hot_key_item list option) \<Rightarrow> (u32 \<Rightarrow> u32 \<Rightarrow> x11_hot_keys \<Rightarrow> nat option) \<Rightarrow> u32 \<Rightarrow> u32 \<Rightarrow>
     x11_hot_keys \<Rightarrow> hot_key_id \<times> x11_hot_keys" where
  "x11_registerHotKey maps grabs key mods h =
     (if mods AND NOT (0x01 OR 0x02 OR 0x04 OR 0x10) \<noteq> 0 \<or> key = 0 \<and> mods = 0 then (0, h)
      else case maps key mods of
        None \<Rightarrow> (0, h)
      | Some items \<Rightarrow>
          let (i, old) = (if m_oldHotKeyIDs h \<noteq> [] then (last (m_oldHotKeyIDs h), butlast (m_oldHotKeyIDs h))
                          else (length (m_hotKeys h) + 1, []))
          in case grabs key mods h of
               None \<Rightarrow> (i, h\<lparr>m_hotKeys := smap_insert (<) i ((key, mods), items) (m_hotKeys h), m_oldHotKeyIDs := old,
                              m_hotKeyToIDMap := grab_items i items (m_hotKeyToIDMap h)\<rparr>)
             | Some n \<Rightarrow> (0, h\<lparr>m_oldHotKeyIDs := old @ [i],
                                m_hotKeyToIDMap := ungrab_items (take n items) (grab_items i (take n items) (m_hotKeyToIDMap h))\<rparr>))"

definition x11_unregisterHotKey :: "hot_key_id \<Rightarrow> x11_hot_keys \<Rightarrow> x11_hot_keys" where
  "x11_unregisterHotKey i h =
     (case smap_find (<) i (m_hotKeys h) of
        None \<Rightarrow> h
      | Some (_, _, items) \<Rightarrow>
          h\<lparr>m_hotKeyToIDMap := ungrab_items items (m_hotKeyToIDMap h), m_hotKeys := smap_erase (<) i (m_hotKeys h),
            m_oldHotKeyIDs := m_oldHotKeyIDs h @ [i]\<rparr>)"

text \<open>A key event: whether it belongs to a hot key, and the event for the server.\<close>

datatype x_key_type = KeyPress | KeyRelease | OtherKey

definition x11_onHotKey :: "x_key_type \<Rightarrow> int \<Rightarrow> u32 \<Rightarrow> bool \<Rightarrow> x11_hot_keys \<Rightarrow> bool \<times> filter_event list" where
  "x11_onHotKey type keycode state isRepeat h =
     (case m_hotKeyToIDMap h (keycode, state AND 0xDFFF) of
        None \<Rightarrow> (False, [])
      | Some i \<Rightarrow>
          case type of
            KeyPress \<Rightarrow> (True, if \<not> isRepeat then [PRIMARY_SCREEN_HOTKEY_DOWN i] else [])
          | KeyRelease \<Rightarrow> (True, if \<not> isRepeat then [PRIMARY_SCREEN_HOTKEY_UP i] else [])
          | OtherKey \<Rightarrow> (False, []))"

definition x11_none :: x11_hot_keys where
  "x11_none = \<lparr>m_hotKeys = [], m_oldHotKeyIDs = [], m_hotKeyToIDMap = (\<lambda>_. None)\<rparr>"

lemma grab_items_apply [simp]: "grab_items i items m x = (if x \<in> set items then Some i else m x)"
  unfolding grab_items_def by (induction items arbitrary: m) auto

lemma ungrab_items_apply [simp]: "ungrab_items items m x = (if x \<in> set items then None else m x)"
  unfolding ungrab_items_def by (induction items arbitrary: m) auto

interpretation numbered: keyed_map "(<) :: nat \<Rightarrow> nat \<Rightarrow> bool" "\<lambda>i. i"
  by unfold_locales simp

definition x11_registered :: "x11_hot_keys \<Rightarrow> (hot_key_id \<times> u32 \<times> u32) set" where
  "x11_registered h = (\<lambda>(i, km, items). (i, km)) ` set (m_hotKeys h)"

lemma registered_iff: "(i, km) \<in> x11_registered h \<longleftrightarrow> (\<exists>items. (i, km, items) \<in> set (m_hotKeys h))"
  unfolding x11_registered_def by force

lemma registered_ids: "fst ` x11_registered h = fst ` set (m_hotKeys h)"
  by (force simp: x11_registered_def)

text \<open>
  The identifiers in use and those put by are the numbers from 1, each once; the items of a hot key are
  those of its key, and an item leads to a hot key that has it.
\<close>

definition x11_sound :: "(u32 \<Rightarrow> u32 \<Rightarrow> hot_key_item list option) \<Rightarrow> x11_hot_keys \<Rightarrow> bool" where
  "x11_sound maps h \<longleftrightarrow> numbered.ordered (m_hotKeys h) \<and> distinct (map fst (m_hotKeys h) @ m_oldHotKeyIDs h) \<and>
     set (map fst (m_hotKeys h) @ m_oldHotKeyIDs h) = {1 .. length (m_hotKeys h) + length (m_oldHotKeyIDs h)} \<and>
     (\<forall>(i, (k, m), items)\<in>set (m_hotKeys h). maps k m = Some items) \<and>
     (\<forall>x i. m_hotKeyToIDMap h x = Some i \<longrightarrow> (\<exists>km items. (i, km, items) \<in> set (m_hotKeys h) \<and> x \<in> set items))"

lemma insert_new:
  assumes "numbered.ordered m" "i \<notin> fst ` set m"
  shows "set (smap_insert (<) i v m) = insert (i, v) (set m)" "length (smap_insert (<) i v m) = Suc (length m)"
proof -
  have n: "\<forall>e\<in>set m. fst e \<noteq> i" using assms(2) by force
  then have "smap_find (<) i m = None" using numbered.find_None [OF assms(1)] by simp
  then show "set (smap_insert (<) i v m) = insert (i, v) (set m)" using numbered.set_insert [OF assms(1)] by simp
  show "length (smap_insert (<) i v m) = Suc (length m)" by (rule numbered.length_insert_new [OF assms(1) n])
qed

lemma erase_old:
  assumes "numbered.ordered m" "i \<in> fst ` set m"
  shows "set (smap_erase (<) i m) = {e \<in> set m. fst e \<noteq> i}" "Suc (length (smap_erase (<) i m)) = length m"
proof -
  show "set (smap_erase (<) i m) = {e \<in> set m. fst e \<noteq> i}" by (rule numbered.set_erase [OF assms(1)])
  have "smap_find (<) i m \<noteq> None" using assms(2) numbered.find_None [OF assms(1), of i] by force
  then show "Suc (length (smap_erase (<) i m)) = length m" by (rule numbered.length_erase [OF assms(1)])
qed

text \<open>The identifier that is chosen: one that was put by, or the next number.\<close>

lemma x11_chosen:
  assumes "x11_sound maps h" "(if m_oldHotKeyIDs h \<noteq> [] then (last (m_oldHotKeyIDs h), butlast (m_oldHotKeyIDs h)) else (length (m_hotKeys h) + 1, [])) = (i, old)"
  shows "i \<noteq> 0" "i \<notin> fst ` set (m_hotKeys h)" "distinct (map fst (m_hotKeys h) @ old)" "i \<notin> set old"
    "insert i (fst ` set (m_hotKeys h) \<union> set old) = {1 .. length (m_hotKeys h) + length old + 1}"
proof -
  have all: "i \<noteq> 0 \<and> i \<notin> fst ` set (m_hotKeys h) \<and> distinct (map fst (m_hotKeys h) @ old) \<and> i \<notin> set old \<and>
    insert i (fst ` set (m_hotKeys h) \<union> set old) = {1 .. length (m_hotKeys h) + length old + 1}"
  proof (cases "m_oldHotKeyIDs h = []")
    case True
    then show ?thesis using assms by (auto simp: x11_sound_def)
  next
    case False
    then have o: "m_oldHotKeyIDs h = old @ [i]" using assms(2) append_butlast_last_id [of "m_oldHotKeyIDs h"] by auto
    have "i \<in> {1 .. length (m_hotKeys h) + length (m_oldHotKeyIDs h)}" using assms(1) o by (auto simp: x11_sound_def)
    then show ?thesis using assms(1) o by (auto simp: x11_sound_def)
  qed
  then show "i \<noteq> 0" "i \<notin> fst ` set (m_hotKeys h)" "distinct (map fst (m_hotKeys h) @ old)" "i \<notin> set old"
    "insert i (fst ` set (m_hotKeys h) \<union> set old) = {1 .. length (m_hotKeys h) + length old + 1}" by blast+
qed

lemma x11_register_result:
  assumes "x11_sound maps h" "x11_registerHotKey maps grabs k m h = (i, h')"
  shows "x11_sound maps h' \<and> (i = 0 \<longrightarrow> x11_registered h' = x11_registered h) \<and>
    (i \<noteq> 0 \<longrightarrow> i \<notin> fst ` x11_registered h \<and> x11_registered h' = insert (i, k, m) (x11_registered h))"
proof (cases "m AND NOT (0x01 OR 0x02 OR 0x04 OR 0x10) \<noteq> 0 \<or> k = 0 \<and> m = 0 \<or> maps k m = None")
  case True
  then have "(i, h') = (0, h)" using assms(2) unfolding x11_registerHotKey_def by (auto split: if_splits)
  then show ?thesis using assms(1) by simp
next
  case False
  then obtain items where items: "maps k m = Some items" by auto
  obtain j old where c: "(if m_oldHotKeyIDs h \<noteq> [] then (last (m_oldHotKeyIDs h), butlast (m_oldHotKeyIDs h)) else (length (m_hotKeys h) + 1, [])) = (j, old)"
    by fastforce
  let ?ok = "h\<lparr>m_hotKeys := smap_insert (<) j ((k, m), items) (m_hotKeys h), m_oldHotKeyIDs := old,
    m_hotKeyToIDMap := grab_items j items (m_hotKeyToIDMap h)\<rparr>"
  let ?err = "\<lambda>n. h\<lparr>m_oldHotKeyIDs := old @ [j], m_hotKeyToIDMap := ungrab_items (take n items) (grab_items j (take n items) (m_hotKeyToIDMap h))\<rparr>"
  have r: "x11_registerHotKey maps grabs k m h = (case grabs k m h of None \<Rightarrow> (j, ?ok) | Some n \<Rightarrow> (0, ?err n))"
    unfolding x11_registerHotKey_def Let_def c using False items by (auto split: option.splits)
  note n = x11_chosen [OF assms(1) c]
  have o: "numbered.ordered (m_hotKeys h)" and it: "\<forall>(i, (k, m), items)\<in>set (m_hotKeys h). maps k m = Some items"
    and ids: "\<forall>x i. m_hotKeyToIDMap h x = Some i \<longrightarrow> (\<exists>km items. (i, km, items) \<in> set (m_hotKeys h) \<and> x \<in> set items)"
    using assms(1) unfolding x11_sound_def by blast+
  note ins = insert_new [OF o n(2), of "((k, m), items)"]
  show ?thesis
  proof (cases "grabs k m h")
    case None
    have "distinct (map fst (smap_insert (<) j ((k, m), items) (m_hotKeys h)))"
      by (rule numbered.distinct_keys) (simp add: o)
    moreover have "\<exists>km its. (i, km, its) \<in> insert (j, (k, m), items) (set (m_hotKeys h)) \<and> x \<in> set its"
      if "grab_items j items (m_hotKeyToIDMap h) x = Some i" for x i
    proof (cases "x \<in> set items")
      case False
      then have "m_hotKeyToIDMap h x = Some i" using that by simp
      with ids show ?thesis by blast
    qed (use that in auto)
    ultimately have "x11_sound maps ?ok"
      using o n(3-5) it items unfolding x11_sound_def by (simp add: ins)
    moreover have "x11_registered ?ok = insert (j, k, m) (x11_registered h)" by (simp add: x11_registered_def ins)
    moreover have "j \<notin> fst ` x11_registered h" using n(2) by (simp add: registered_ids)
    ultimately show ?thesis using r None assms(2) n(1) by auto
  next
    case (Some e)
    have "\<exists>km its. (i, km, its) \<in> set (m_hotKeys h) \<and> x \<in> set its" if "m_hotKeyToIDMap (?err e) x = Some i" for x i
    proof -
      have "m_hotKeyToIDMap h x = Some i" using that by (simp split: if_splits)
      with ids show ?thesis by blast
    qed
    then have "x11_sound maps (?err e)" using o n it by (auto simp: x11_sound_def)
    then show ?thesis using r Some assms(2) by (auto simp: x11_registered_def)
  qed
qed

lemma x11_unregister_result:
  assumes "x11_sound maps h"
  shows "x11_sound maps (x11_unregisterHotKey i h) \<and> x11_registered (x11_unregisterHotKey i h) = {e \<in> x11_registered h. fst e \<noteq> i}"
proof -
  have o: "numbered.ordered (m_hotKeys h)" using assms by (simp add: x11_sound_def)
  show ?thesis
  proof (cases "smap_find (<) i (m_hotKeys h)")
    case None
    then have "x11_unregisterHotKey i h = h" "i \<notin> fst ` x11_registered h"
      using numbered.find_None [OF o, of i] by (auto simp: x11_unregisterHotKey_def registered_ids)
    then show ?thesis using assms by force
  next
    case (Some e)
    then obtain km items where e': "e = (i, km, items)" "(i, km, items) \<in> set (m_hotKeys h)"
      using numbered.find_Some [OF o, of i "fst e" "snd e"] by (cases e) force
    then have i: "i \<in> fst ` set (m_hotKeys h)" by force
    note e = erase_old [OF o i]
    let ?m = "smap_erase (<) i (m_hotKeys h)"
    have a: "distinct (map fst (m_hotKeys h))" "distinct (m_oldHotKeyIDs h)" "fst ` set (m_hotKeys h) \<inter> set (m_oldHotKeyIDs h) = {}"
      "fst ` set (m_hotKeys h) \<union> set (m_oldHotKeyIDs h) = {1 .. length (m_hotKeys h) + length (m_oldHotKeyIDs h)}"
      and it: "\<forall>(i, (k, m), items)\<in>set (m_hotKeys h). maps k m = Some items"
      using assms by (simp_all add: x11_sound_def)
    have ids: "\<And>x i. m_hotKeyToIDMap h x = Some i \<Longrightarrow> \<exists>km items. (i, km, items) \<in> set (m_hotKeys h) \<and> x \<in> set items"
      using assms unfolding x11_sound_def by blast
    have d: "fst ` set ?m = fst ` set (m_hotKeys h) - {i}" by (auto simp: e(1))
    have l: "length ?m + length (m_oldHotKeyIDs h @ [i]) = length (m_hotKeys h) + length (m_oldHotKeyIDs h)" using e(2) by simp
    have n: "numbered.ordered ?m" by (simp add: o)
    have "distinct (map fst ?m @ m_oldHotKeyIDs h @ [i])" using a(2,3) d i numbered.distinct_keys [OF n] by auto
    moreover have "set (map fst ?m @ m_oldHotKeyIDs h @ [i]) = {1 .. length ?m + length (m_oldHotKeyIDs h @ [i])}"
      unfolding l a(4) [symmetric] using d i by auto
    moreover have "\<exists>km its. (j, km, its) \<in> set ?m \<and> x \<in> set its" if x: "ungrab_items items (m_hotKeyToIDMap h) x = Some j" for x j
    proof -
      from x have "x \<notin> set items" "m_hotKeyToIDMap h x = Some j" by (auto split: if_splits)
      with ids obtain km' its where "(j, km', its) \<in> set (m_hotKeys h)" "x \<in> set its" by blast
      moreover from this have "j \<noteq> i" using numbered.unique [OF o e'(2), of j "(km', its)"] \<open>x \<notin> set items\<close> by auto
      ultimately have "(j, km', its) \<in> set ?m \<and> x \<in> set its" using e(1) by simp
      then show ?thesis by blast
    qed
    ultimately have "x11_sound maps (h\<lparr>m_hotKeyToIDMap := ungrab_items items (m_hotKeyToIDMap h), m_hotKeys := ?m, m_oldHotKeyIDs := m_oldHotKeyIDs h @ [i]\<rparr>)"
      unfolding x11_sound_def using n it e(1) by simp
    then have "x11_sound maps (x11_unregisterHotKey i h)" using Some e'(1) by (simp add: x11_unregisterHotKey_def)
    moreover have "x11_registered (x11_unregisterHotKey i h) = {e \<in> x11_registered h. fst e \<noteq> i}"
      using Some e'(1) e(1) by (auto simp: x11_unregisterHotKey_def registered_iff)
    ultimately show ?thesis ..
  qed
qed

text \<open>What a key leads to is a hot key with that key.\<close>

lemma x11_onHotKey_registered:
  assumes "x11_sound maps h" "x11_onHotKey type code state rep h = (True, evs)"
  shows "\<exists>i k m items. (i, k, m) \<in> x11_registered h \<and> maps k m = Some items \<and> (code, state AND 0xDFFF) \<in> set items \<and>
    evs = (if rep then [] else if type = KeyPress then [PRIMARY_SCREEN_HOTKEY_DOWN i] else [PRIMARY_SCREEN_HOTKEY_UP i])"
proof -
  from assms(2) obtain i where i: "m_hotKeyToIDMap h (code, state AND 0xDFFF) = Some i"
    "evs = (if rep then [] else if type = KeyPress then [PRIMARY_SCREEN_HOTKEY_DOWN i] else [PRIMARY_SCREEN_HOTKEY_UP i])"
    by (auto simp: x11_onHotKey_def split: option.splits x_key_type.splits)
  from assms(1) i(1) obtain k m items where e: "(i, (k, m), items) \<in> set (m_hotKeys h)" "(code, state AND 0xDFFF) \<in> set items"
    unfolding x11_sound_def by (metis surj_pair)
  moreover from this(1) have "(i, k, m) \<in> x11_registered h" unfolding x11_registered_def by force
  moreover from e(1) assms(1) have "maps k m = Some items" unfolding x11_sound_def by blast
  ultimately show ?thesis using i(2) by blast
qed

interpretation x11: hot_keys "x11_registerHotKey maps grabs" x11_unregisterHotKey x11_registered "x11_sound maps" for maps grabs
proof (unfold_locales)
  show "0 \<notin> fst ` x11_registered h" if "x11_sound maps h" for h
  proof
    assume "0 \<in> fst ` x11_registered h"
    then have "0 \<in> set (map fst (m_hotKeys h) @ m_oldHotKeyIDs h)" by (simp add: registered_ids)
    with that show False by (simp add: x11_sound_def)
  qed
qed (use x11_register_result x11_unregister_result in \<open>blast+\<close>)


section \<open>Runs of the filter\<close>

datatype filter_op = Sets_primary "screen_id option" | Adds rule | Assigns input_filter

fun filter_do ::
    "(u32 \<Rightarrow> u32 \<Rightarrow> 's \<Rightarrow> hot_key_id \<times> 's) \<Rightarrow> (hot_key_id \<Rightarrow> 's \<Rightarrow> 's) \<Rightarrow> (nat \<Rightarrow> nat) \<Rightarrow> filter_op \<Rightarrow>
     input_filter \<times> 's \<Rightarrow> input_filter \<times> 's" where
  "filter_do register unregister grow (Sets_primary client) (f, h) = setPrimaryClient register unregister client f h"
| "filter_do register unregister grow (Adds r) (f, h) = addFilterRule register grow r f h"
| "filter_do register unregister grow (Assigns x) (f, h) = filter_assign register unregister x f h"

text \<open>A rule is added in place when no hot keys are registered or when the vector has room.\<close>

fun in_place :: "filter_op \<Rightarrow> input_filter \<Rightarrow> bool" where
  "in_place (Adds r) f \<longleftrightarrow> m_primary f = None \<or> length (m_ruleList f) < rule_capacity f"
| "in_place _ f \<longleftrightarrow> True"

fun filter_run ::
    "(u32 \<Rightarrow> u32 \<Rightarrow> 's \<Rightarrow> hot_key_id \<times> 's) \<Rightarrow> (hot_key_id \<Rightarrow> 's \<Rightarrow> 's) \<Rightarrow> (nat \<Rightarrow> nat) \<Rightarrow> filter_op list \<Rightarrow>
     input_filter \<times> 's \<Rightarrow> (input_filter \<times> 's) option" where
  "filter_run register unregister grow [] st = Some st"
| "filter_run register unregister grow (a # as) st =
     (if in_place a (fst st) then filter_run register unregister grow as (filter_do register unregister grow a st) else None)"

text \<open>The rules a sequence of operations leaves, without identifiers.\<close>

fun rules_after :: "filter_op list \<Rightarrow> rule list \<Rightarrow> rule list" where
  "rules_after [] rs = rs"
| "rules_after (Sets_primary client # as) rs = rules_after as rs"
| "rules_after (Adds r # as) rs = rules_after as (rs @ [rule_copy r])"
| "rules_after (Assigns x # as) rs = rules_after as (map rule_copy (m_ruleList x))"

lemma x11_run:
  assumes "filter_run (x11_registerHotKey maps grabs) x11_unregisterHotKey grow as (f, h) = Some (f', h')" "x11.in_step maps f h"
  shows "x11.in_step maps f' h' \<and> map rule_copy (m_ruleList f') = rules_after as (map rule_copy (m_ruleList f))"
  using assms
proof (induction as arbitrary: f h)
  case (Cons a as)
  obtain f1 h1 where 1: "filter_do (x11_registerHotKey maps grabs) x11_unregisterHotKey grow a (f, h) = (f1, h1)" by fastforce
  with Cons.prems(1) have p: "in_place a f" "filter_run (x11_registerHotKey maps grabs) x11_unregisterHotKey grow as (f1, h1) = Some (f', h')"
    by (auto split: if_splits)
  have "x11.in_step maps f1 h1 \<and> rules_after as (map rule_copy (m_ruleList f1)) = rules_after (a # as) (map rule_copy (m_ruleList f))"
  proof (cases a)
    case (Sets_primary c)
    then show ?thesis using 1 x11.in_step_primary [OF Cons.prems(2), of grabs c f1 h1] by auto
  next
    case (Adds r)
    then show ?thesis using 1 p(1) x11.in_step_add [OF Cons.prems(2), of grabs grow r f1 h1] by auto
  next
    case (Assigns x)
    then show ?thesis using 1 x11.in_step_assign [OF Cons.prems(2), of grabs x f1 h1] by auto
  qed
  then show ?case using Cons.IH [OF p(2)] by simp
qed simp

lemma x11_start: "x11.in_step maps input_filter_new x11_none"
  by (simp add: x11.in_step_def x11_sound_def x11_none_def input_filter_new_def x11_registered_def)

text \<open>
  C23. Hot keys follow the rules. After any sequence of operations on the filter in which no rule is added
  to a full vector while hot keys are registered, the filter has the rules it was given; without a
  primary client nothing is registered; every hot key that the X server knows belongs to a rule whose
  condition has that key and those modifiers, pressing it performs the rule's actions for activation
  and releasing it those for deactivation, and nothing else reaches the server; every rule that has
  an identifier is registered under it; and a key event that is taken for a hot key is that of a registered
  one for whose key and modifiers the code grabbed this key code with these modifiers. The converse does not
  hold for two rules on the same key, which share one entry of the table (below).
\<close>

theorem hot_keys_follow_rules:
  assumes "filter_run (x11_registerHotKey maps grabs) x11_unregisterHotKey grow as (input_filter_new, x11_none) = Some (f, h)"
  shows "map rule_copy (m_ruleList f) = rules_after as [] \<and> (m_primary f = None \<longrightarrow> x11_registered h = {}) \<and>
    (\<forall>(i, k, m)\<in>x11_registered h. \<exists>r\<in>set (m_ruleList f). r_condition r = Some (KeystrokeCondition i k m) \<and>
      filter_handle_event (PRIMARY_SCREEN_HOTKEY_DOWN i) f = concat (map (\<lambda>a. action_perform a (PRIMARY_SCREEN_HOTKEY_DOWN i)) (r_activate r)) \<and>
      filter_handle_event (PRIMARY_SCREEN_HOTKEY_UP i) f = concat (map (\<lambda>a. action_perform a (PRIMARY_SCREEN_HOTKEY_UP i)) (r_deactivate r))) \<and>
    (\<forall>r\<in>set (m_ruleList f). \<forall>i k m. r_condition r = Some (KeystrokeCondition i k m) \<and> i \<noteq> 0 \<longrightarrow> (i, k, m) \<in> x11_registered h) \<and>
    (\<forall>type code state rep evs. x11_onHotKey type code state rep h = (True, evs) \<longrightarrow>
      (\<exists>i k m items. (i, k, m) \<in> x11_registered h \<and> maps k m = Some items \<and> (code, state AND 0xDFFF) \<in> set items \<and>
        evs = (if rep then [] else if type = KeyPress then [PRIMARY_SCREEN_HOTKEY_DOWN i] else [PRIMARY_SCREEN_HOTKEY_UP i])))"
proof -
  from x11_run [OF assms x11_start] have s: "x11.in_step maps f h" "map rule_copy (m_ruleList f) = rules_after as []"
    by (auto simp: input_filter_new_def)
  have r: "x11_registered h = set (hot_key_list (m_ruleList f))" using s(1) by (simp add: x11.in_step_def)
  have "(i, k, m) \<in> x11_registered h" if "r \<in> set (m_ruleList f)" "r_condition r = Some (KeystrokeCondition i k m)" "i \<noteq> 0" for r i k m
    using that unfolding r by (force simp: hot_key_list_def rule_hot_key_def)
  then have 1: "\<forall>r\<in>set (m_ruleList f). \<forall>i k m. r_condition r = Some (KeystrokeCondition i k m) \<and> i \<noteq> 0 \<longrightarrow> (i, k, m) \<in> x11_registered h"
    by blast
  have "x11_sound maps h" using s(1) by (simp add: x11.in_step_def)
  note 2 = x11_onHotKey_registered [OF this]
  have "m_primary f = None \<longrightarrow> x11_registered h = {}" using s(1) by (simp add: x11.in_step_def)
  with s(2) x11.hot_key_runs_rule [OF s(1)] 1 2 show ?thesis by blast
qed

text \<open>
  Two rules on one key. The table has one entry for a key code, so the second hot key on the same key takes
  it over and the first is never reported again; and releasing either of them takes the entry away, after which
  the other one, still registered, is not reported any more.
\<close>

theorem second_hot_key_takes_key:
  assumes "x11_sound maps h" "x11_registerHotKey maps grabs k m h = (i, h1)" "x11_registerHotKey maps grabs k m h1 = (j, h2)"
    "i \<noteq> 0" "j \<noteq> 0" "maps k m = Some items" "(code, state AND 0xDFFF) \<in> set items"
  shows "x11_onHotKey KeyPress code state False h2 = (True, [PRIMARY_SCREEN_HOTKEY_DOWN j]) \<and> i \<noteq> j \<and>
    (i, k, m) \<in> x11_registered h2 \<and> (j, k, m) \<in> x11_registered (x11_unregisterHotKey i h2) \<and>
    x11_onHotKey KeyPress code state False (x11_unregisterHotKey i h2) = (False, [])"
proof -
  note l1 = x11_register_result [OF assms(1,2)]
  then have s1: "x11_sound maps h1" and r1: "(i, k, m) \<in> x11_registered h1" using assms(4) by auto
  note l2 = x11_register_result [OF s1 assms(3)]
  then have s2: "x11_sound maps h2" and r2: "(i, k, m) \<in> x11_registered h2" "(j, k, m) \<in> x11_registered h2" using r1 assms(5) by auto
  have ij: "i \<noteq> j" using l2 r1 assms(5) by force
  have "m_hotKeyToIDMap h2 x = Some j" if "x \<in> set items" for x
    using assms(3,5,6) that unfolding x11_registerHotKey_def Let_def
    by (auto split: if_splits option.splits prod.splits)
  then have e: "m_hotKeyToIDMap h2 (code, state AND 0xDFFF) = Some j" using assms(7) .
  have o: "numbered.ordered (m_hotKeys h2)" using s2 by (simp add: x11_sound_def)
  from r2(1) obtain its where its: "(i, (k, m), its) \<in> set (m_hotKeys h2)" by (auto simp: x11_registered_def)
  then have "its = items" using s2 assms(6) unfolding x11_sound_def by fastforce
  then have "smap_find (<) i (m_hotKeys h2) = Some (i, (k, m), items)" using numbered.find_Some [OF o, of i i "((k, m), items)"] its by simp
  then have "m_hotKeyToIDMap (x11_unregisterHotKey i h2) (code, state AND 0xDFFF) = None"
    using assms(7) by (simp add: x11_unregisterHotKey_def)
  moreover have "(j, k, m) \<in> x11_registered (x11_unregisterHotKey i h2)" using x11_unregister_result [OF s2, of i] r2(2) ij by auto
  ultimately show ?thesis using e ij r2(1) by (simp add: x11_onHotKey_def)
qed

text \<open>
  A reload loses the hot keys. Reading the configuration again adds the rule for Scroll Lock once more,
  while the hot keys are registered; if the vector is full, its rules are copied and the copies have no
  identifiers. Every hot key that was registered stays registered, but pressing it does nothing any
  more, and it is not released even when the filter is taken down.
\<close>

theorem reload_loses_hot_keys:
  assumes "filter_run (x11_registerHotKey maps grabs) x11_unregisterHotKey grow as (input_filter_new, x11_none) = Some (f, h)"
    "m_primary f \<noteq> None" "length (m_ruleList f) = rule_capacity f" "(i, k, m) \<in> x11_registered h"
    "add_scroll_lock (x11_registerHotKey maps grabs) grow False f h = (f', h')"
    "setPrimaryClient (x11_registerHotKey maps grabs) x11_unregisterHotKey None f' h' = (f'', h'')"
  shows "(i, k, m) \<in> x11_registered h' \<and> filter_handle_event (PRIMARY_SCREEN_HOTKEY_DOWN i) f' = [PRIMARY_SCREEN_HOTKEY_DOWN i] \<and>
    (i, k, m) \<in> x11_registered h''"
proof -
  have s: "x11.in_step maps f h" using x11_run [OF assms(1) x11_start] by blast
  then have so: "x11_sound maps h" by (simp add: x11.in_step_def)
  obtain j h1 where j: "x11_registerHotKey maps grabs 0xEF14 0 h = (j, h1)" by fastforce
  note law = x11_register_result [OF so j]
  let ?r = "rule_copy scroll_lock_rule\<lparr>r_condition := Some (KeystrokeCondition j 0xEF14 0)\<rparr>"
  have "rule_enable (x11_registerHotKey maps grabs) (rule_copy scroll_lock_rule) h = (?r, h1)"
    using j by (simp add: rule_enable_def scroll_lock_rule_def rule_copy_def adoptAction_def rule_new_def)
  then have f': "f' = f\<lparr>m_ruleList := map rule_copy (m_ruleList f) @ [?r], rule_capacity := grow (length (m_ruleList f))\<rparr>" "h' = h1"
    using assms(2,3,5) by (auto simp: add_scroll_lock_def addFilterRule_def rules_push_back_def Let_def)
  have i: "i \<in> fst ` x11_registered h" using assms(4) by (metis fst_conv imageI)
  have ij: "i \<noteq> 0" "i \<noteq> j" "(i, k, m) \<in> x11_registered h1"
    using i x11.no_zero [OF so] law assms(4) by (metis, metis, cases "j = 0", simp_all)
  have "first_handled (PRIMARY_SCREEN_HOTKEY_DOWN i) (map rule_copy rs @ [?r]) = None" for rs
  proof (induction rs)
    case (Cons r rs)
    have "rule_handle_event (PRIMARY_SCREEN_HOTKEY_DOWN i) (rule_copy r) = None"
      using ij(1) by (cases "r_condition r"; cases "the (r_condition r)") (auto simp: rule_handle_hot_key rule_copy_def)
    then show ?case using Cons by simp
  qed (use ij in \<open>simp add: rule_handle_hot_key\<close>)
  then have "filter_handle_event (PRIMARY_SCREEN_HOTKEY_DOWN i) f' = [PRIMARY_SCREEN_HOTKEY_DOWN i]"
    by (simp add: filter_handle_event_def f')
  moreover have "(i, k, m) \<in> x11_registered h''"
  proof -
    obtain rs1 h2 where d: "each_rule (rule_disable x11_unregisterHotKey) (m_ruleList f') h1 = (rs1, h2)" by fastforce
    then have "h'' = h2" using assms(2,6) f' by (auto simp: setPrimaryClient_def split: if_splits)
    moreover have "hot_key_list (m_ruleList f') = rule_hot_key ?r" by (simp add: f')
    ultimately show ?thesis using x11.disable_rules [OF _ d] law ij by (auto simp: rule_hot_key_def split: if_splits)
  qed
  ultimately show ?thesis using f' ij(3) by simp
qed

section \<open>Wayland\<close>

record ei_hot_keys =
  next_id :: nat
  ei_hotkeys :: "(u32, (u32 \<times> hot_key_id) list) smap"

definition ei_registerHotKey :: "u32 \<Rightarrow> u32 \<Rightarrow> ei_hot_keys \<Rightarrow> hot_key_id \<times> ei_hot_keys" where
  "ei_registerHotKey key mods h =
     (let n = next_id h + 1;
          i = min n 1;
          sets = (if smap_find (<) key (ei_hotkeys h) = None then smap_insert (<) key [] (ei_hotkeys h) else ei_hotkeys h)
      in (i, h\<lparr>next_id := n, ei_hotkeys := smap_modify (<) key (\<lambda>items. items @ [(mods, i)]) sets\<rparr>))"

fun remove_by_id :: "hot_key_id \<Rightarrow> (u32 \<times> hot_key_id) list \<Rightarrow> (u32 \<times> hot_key_id) list option" where
  "remove_by_id i [] = None"
| "remove_by_id i ((mods, j) # items) = (if j = i then Some items else map_option (Cons (mods, j)) (remove_by_id i items))"

fun ei_remove :: "hot_key_id \<Rightarrow> (u32, (u32 \<times> hot_key_id) list) smap \<Rightarrow> (u32, (u32 \<times> hot_key_id) list) smap" where
  "ei_remove i [] = []"
| "ei_remove i ((key, items) # sets) =
     (case remove_by_id i items of Some items' \<Rightarrow> (key, items') # sets | None \<Rightarrow> (key, items) # ei_remove i sets)"

definition ei_unregisterHotKey :: "hot_key_id \<Rightarrow> ei_hot_keys \<Rightarrow> ei_hot_keys" where
  "ei_unregisterHotKey i h = h\<lparr>ei_hotkeys := ei_remove i (ei_hotkeys h)\<rparr>"

definition find_by_mask :: "u32 \<Rightarrow> (u32 \<times> hot_key_id) list \<Rightarrow> hot_key_id" where
  "find_by_mask mods items = (case find (\<lambda>(b, _). b = mods) items of Some (_, i) \<Rightarrow> i | None \<Rightarrow> 0)"

definition on_hotkey :: "u32 \<Rightarrow> bool \<Rightarrow> u32 \<Rightarrow> ei_hot_keys \<Rightarrow> filter_event option" where
  "on_hotkey key pressed mods h =
     (case smap_find (<) key (ei_hotkeys h) of
        None \<Rightarrow> None
      | Some (_, items) \<Rightarrow>
          let i = find_by_mask mods items
          in if i \<noteq> 0 then Some (if pressed then PRIMARY_SCREEN_HOTKEY_DOWN i else PRIMARY_SCREEN_HOTKEY_UP i) else None)"

definition ei_none :: ei_hot_keys where
  "ei_none = \<lparr>next_id = 0, ei_hotkeys = []\<rparr>"

interpretation words: keyed_map "(<) :: u32 \<Rightarrow> u32 \<Rightarrow> bool" "\<lambda>w. w"
  by unfold_locales simp

definition all_first :: "ei_hot_keys \<Rightarrow> bool" where
  "all_first h \<longleftrightarrow> words.ordered (ei_hotkeys h) \<and> (\<forall>k items m i. (k, items) \<in> set (ei_hotkeys h) \<and> (m, i) \<in> set items \<longrightarrow> i = 1)"

lemma ei_register_first: "all_first h \<Longrightarrow> fst (ei_registerHotKey k m h) = 1 \<and> all_first (snd (ei_registerHotKey k m h))"
proof -
  assume a: "all_first h"
  define sets where "sets = (if smap_find (<) k (ei_hotkeys h) = None then smap_insert (<) k [] (ei_hotkeys h) else ei_hotkeys h)"
  have o: "words.ordered sets" using a by (simp add: all_first_def sets_def)
  have s: "i = 1" if "(k', items) \<in> set sets" "(m', i) \<in> set items" for k' items m' i
    using that a words.set_insert [of "ei_hotkeys h" k "[]"] by (auto simp: all_first_def sets_def split: if_splits)
  have "i = 1" if "(k', items) \<in> set (smap_modify (<) k (\<lambda>items. items @ [(m, 1)]) sets)" "(m', i) \<in> set items" for k' items m' i
    using that s unfolding words.set_modify [OF o] by (auto split: if_splits)
  moreover have "ei_registerHotKey k m h = (1, h\<lparr>next_id := next_id h + 1, ei_hotkeys := smap_modify (<) k (\<lambda>items. items @ [(m, 1)]) sets\<rparr>)"
    unfolding ei_registerHotKey_def Let_def sets_def [symmetric] by (simp add: min_def)
  ultimately show ?thesis using o by (auto simp: all_first_def)
qed

text \<open>A rule as enabling leaves it.\<close>

definition enabled_first :: "rule \<Rightarrow> rule" where
  "enabled_first r = r\<lparr>r_condition := map_option (\<lambda>c. case c of KeystrokeCondition _ k m \<Rightarrow> KeystrokeCondition 1 k m | _ \<Rightarrow> c) (r_condition r)\<rparr>"

lemma ei_enable_rule:
  assumes "all_first h" "rule_enable ei_registerHotKey r h = (r', h')"
  shows "all_first h' \<and> r' = enabled_first r"
proof (cases "r_condition r")
  case (Some c)
  show ?thesis
  proof (cases c)
    case (KeystrokeCondition i k m)
    have "ei_registerHotKey k m h = (1, snd (ei_registerHotKey k m h))" "all_first (snd (ei_registerHotKey k m h))"
      using ei_register_first [OF assms(1), of k m] by (simp_all add: prod_eq_iff)
    then show ?thesis using assms(2) Some KeystrokeCondition by (auto simp: rule_enable_def enabled_first_def split: prod.splits)
  qed (use assms Some in \<open>auto simp: rule_enable_def enabled_first_def\<close>)
qed (use assms in \<open>auto simp: rule_enable_def enabled_first_def\<close>)

lemma ei_enable_first:
  "all_first h \<Longrightarrow> each_rule (rule_enable ei_registerHotKey) rs h = (rs', h') \<Longrightarrow> all_first h' \<and> rs' = map enabled_first rs"
proof (induction rs arbitrary: h rs' h')
  case (Cons r rs)
  obtain r1 h1 where r1: "rule_enable ei_registerHotKey r h = (r1, h1)" by fastforce
  obtain rs2 h2 where rs2: "each_rule (rule_enable ei_registerHotKey) rs h1 = (rs2, h2)" by fastforce
  have "rs' = r1 # rs2" "h' = h2" using Cons.prems(2) r1 rs2 by auto
  with ei_enable_rule [OF Cons.prems(1) r1] Cons.IH [OF _ rs2] show ?case by simp
qed simp

text \<open>
  C29. On Wayland every hot key is the first. The identifier of a new hot key is the minimum of a counter
  and 1, so all hot keys have the identifier 1: whichever is pressed, the filter performs the actions of
  the first rule for a hot key.
\<close>

theorem ei_hot_keys_confused:
  assumes "setPrimaryClient ei_registerHotKey ei_unregisterHotKey (Some c) \<lparr>m_ruleList = rs @ r # ts, rule_capacity = n, m_primary = None\<rparr> ei_none = (f, h)"
    "r_condition r = Some (KeystrokeCondition 0 k m)" "\<forall>q\<in>set rs. \<forall>i k' m'. r_condition q \<noteq> Some (KeystrokeCondition i k' m')"
    "on_hotkey key pressed mods h = Some ev"
  shows "filter_handle_event ev f = concat (map (\<lambda>a. action_perform a ev) (if pressed then r_activate r else r_deactivate r))"
proof -
  obtain rs' h1 where e: "each_rule (rule_enable ei_registerHotKey) (rs @ r # ts) ei_none = (rs', h1)" by fastforce
  then have f: "m_ruleList f = rs'" "h = h1" using assms(1) by (auto simp: setPrimaryClient_def)
  have "all_first ei_none" by (simp add: all_first_def ei_none_def)
  from ei_enable_first [OF this e] have a: "all_first h" and rs': "rs' = map enabled_first (rs @ r # ts)" using f by auto
  from assms(4) obtain k' items where fd: "smap_find (<) key (ei_hotkeys h) = Some (k', items)" "find_by_mask mods items \<noteq> 0"
    "ev = (if pressed then PRIMARY_SCREEN_HOTKEY_DOWN (find_by_mask mods items) else PRIMARY_SCREEN_HOTKEY_UP (find_by_mask mods items))"
    unfolding on_hotkey_def Let_def by (auto split: option.splits if_splits)
  have "words.ordered (ei_hotkeys h)" using a by (simp add: all_first_def)
  from words.find_Some [OF this, of key k' items] fd(1) have m: "(k', items) \<in> set (ei_hotkeys h)" by blast
  from fd(2) obtain b i where "find (\<lambda>(b, _). b = mods) items = Some (b, i)" "find_by_mask mods items = i"
    by (auto simp: find_by_mask_def split: option.splits)
  then have "find_by_mask mods items = 1" using a m by (auto simp: all_first_def find_Some_iff) (metis nth_mem)
  then have ev: "ev = (if pressed then PRIMARY_SCREEN_HOTKEY_DOWN 1 else PRIMARY_SCREEN_HOTKEY_UP 1)" using fd(3) by simp
  have none: "rule_handle_event ev (enabled_first q) = None" if "q \<in> set rs" for q
    using assms(3) that ev by (cases "r_condition q"; cases "the (r_condition q)") (auto simp: rule_handle_hot_key enabled_first_def)
  have "first_handled ev (map enabled_first qs @ ps) = first_handled ev ps" if "set qs \<subseteq> set rs" for qs ps
    using that none by (induction qs) auto
  then have "first_handled ev (map enabled_first (rs @ r # ts)) = rule_handle_event ev (enabled_first r)"
    using assms(2) ev by (simp add: rule_handle_hot_key enabled_first_def)
  then show ?thesis using assms(2) ev f rs' by (simp add: filter_handle_event_def rule_handle_hot_key enabled_first_def)
qed

section \<open>Witnesses\<close>

definition demo_rule :: rule where
  "demo_rule = adoptAction (SwitchInDirectionAction kRight) True (rule_new (Some (KeystrokeCondition 0 0xEFC0 2)))"

definition demo_ops :: "filter_op list" where
  "demo_ops = [Adds demo_rule, Adds scroll_lock_rule, Sets_primary (Some 0)]"

text \<open>A keyboard on which a key has its own number as its code.\<close>

definition one_item :: "u32 \<Rightarrow> u32 \<Rightarrow> hot_key_item list option" where
  "one_item k m = Some [(uint k, m)]"

definition demo_run :: "(input_filter \<times> x11_hot_keys) option" where
  "demo_run = filter_run (x11_registerHotKey one_item (\<lambda>_ _ _. None)) x11_unregisterHotKey (\<lambda>n. if n = 0 then 1 else 2 * n) demo_ops
     (input_filter_new, x11_none)"

lemma demo_run_result:
  "demo_run = Some
     (\<lparr>m_ruleList = [demo_rule\<lparr>r_condition := Some (KeystrokeCondition 1 0xEFC0 2)\<rparr>, scroll_lock_rule\<lparr>r_condition := Some (KeystrokeCondition 2 0xEF14 0)\<rparr>],
       rule_capacity = 2, m_primary = Some 0\<rparr>, \<lparr>m_hotKeys = [(1, (0xEFC0, 2), [(0xEFC0, 2)]), (2, (0xEF14, 0), [(0xEF14, 0)])], m_oldHotKeyIDs = [],
         m_hotKeyToIDMap = [(0xEFC0, 2) \<mapsto> 1, (0xEF14, 0) \<mapsto> 2]\<rparr>)"
  by (simp add: one_item_def grab_items_def demo_run_def demo_ops_def addFilterRule_def rules_push_back_def input_filter_new_def demo_rule_def scroll_lock_rule_def
      adoptAction_def rule_new_def rule_copy_def setPrimaryClient_def rule_enable_def x11_registerHotKey_def x11_none_def smap_ops)
    (simp add: numeral_2_eq_2)

theorem hot_keys_follow_rules_witness:
  "\<exists>f h. demo_run = Some (f, h) \<and> (1, 0xEFC0, 2) \<in> x11_registered h \<and>
     filter_handle_event (PRIMARY_SCREEN_HOTKEY_DOWN 1) f = [SERVER_SWITCH_INDIRECTION kRight] \<and>
     filter_handle_event (PRIMARY_SCREEN_HOTKEY_UP 1) f = [] \<and>
     x11_onHotKey KeyPress 0xEFC0 0x2002 False h = (True, [PRIMARY_SCREEN_HOTKEY_DOWN 1])"
proof -
  obtain f h where d: "demo_run = Some (f, h)" using demo_run_result by blast
  note fh = trans [OF d [symmetric] demo_run_result]
  have r: "(1, 0xEFC0, 2) \<in> x11_registered h" using fh by (simp add: x11_registered_def)
  from hot_keys_follow_rules [OF d [unfolded demo_run_def]] r obtain q where q: "q \<in> set (m_ruleList f)"
      "r_condition q = Some (KeystrokeCondition 1 0xEFC0 2)"
      "filter_handle_event (PRIMARY_SCREEN_HOTKEY_DOWN 1) f = concat (map (\<lambda>a. action_perform a (PRIMARY_SCREEN_HOTKEY_DOWN 1)) (r_activate q))"
      "filter_handle_event (PRIMARY_SCREEN_HOTKEY_UP 1) f = concat (map (\<lambda>a. action_perform a (PRIMARY_SCREEN_HOTKEY_UP 1)) (r_deactivate q))"
    by blast
  have "q = demo_rule\<lparr>r_condition := Some (KeystrokeCondition 1 0xEFC0 2)\<rparr>" using fh q(1,2) by (auto simp: scroll_lock_rule_def)
  then have "r_activate q = [SwitchInDirectionAction kRight]" "r_deactivate q = []"
    by (simp_all add: demo_rule_def adoptAction_def rule_new_def)
  moreover have "x11_onHotKey KeyPress 0xEFC0 0x2002 False h = (True, [PRIMARY_SCREEN_HOTKEY_DOWN 1])"
    using fh by (simp add: x11_onHotKey_def)
  ultimately show ?thesis using d r q(3,4) by auto
qed

theorem second_hot_key_takes_key_witness:
  "\<exists>h1 h2. x11_registerHotKey one_item (\<lambda>_ _ _. None) 0xEFC0 2 x11_none = (1, h1) \<and> x11_registerHotKey one_item (\<lambda>_ _ _. None) 0xEFC0 2 h1 = (2, h2) \<and>
     x11_onHotKey KeyPress 0xEFC0 2 False h2 = (True, [PRIMARY_SCREEN_HOTKEY_DOWN 2]) \<and>
     x11_onHotKey KeyPress 0xEFC0 2 False (x11_unregisterHotKey 1 h2) = (False, [])"
proof -
  have "\<exists>h1 h2. x11_registerHotKey one_item (\<lambda>_ _ _. None) 0xEFC0 2 x11_none = (1, h1) \<and> x11_registerHotKey one_item (\<lambda>_ _ _. None) 0xEFC0 2 h1 = (2, h2)"
    by (simp add: x11_registerHotKey_def x11_none_def one_item_def smap_ops)
  then obtain h1 h2 where h: "x11_registerHotKey one_item (\<lambda>_ _ _. None) 0xEFC0 2 x11_none = (1, h1)"
    "x11_registerHotKey one_item (\<lambda>_ _ _. None) 0xEFC0 2 h1 = (2, h2)" by blast
  have "x11_sound one_item x11_none" by (simp add: x11_sound_def x11_none_def)
  from second_hot_key_takes_key [OF this h, of "[(0xEFC0, 2)]" "0xEFC0" 2] h show ?thesis by (auto simp: one_item_def)
qed

theorem reload_loses_hot_keys_witness:
  "\<exists>f h f' h'. demo_run = Some (f, h) \<and> add_scroll_lock (x11_registerHotKey one_item (\<lambda>_ _ _. None)) (\<lambda>n. if n = 0 then 1 else 2 * n) False f h = (f', h') \<and>
     filter_handle_event (PRIMARY_SCREEN_HOTKEY_DOWN 1) f' = [PRIMARY_SCREEN_HOTKEY_DOWN 1]"
proof -
  obtain f h where d: "demo_run = Some (f, h)" using demo_run_result by blast
  obtain f' h' where a: "add_scroll_lock (x11_registerHotKey one_item (\<lambda>_ _ _. None)) (\<lambda>n. if n = 0 then 1 else 2 * n) False f h = (f', h')" by fastforce
  obtain f'' h'' where p: "setPrimaryClient (x11_registerHotKey one_item (\<lambda>_ _ _. None)) x11_unregisterHotKey None f' h' = (f'', h'')" by fastforce
  have "m_primary f \<noteq> None" "length (m_ruleList f) = rule_capacity f" "(1, 0xEFC0, 2) \<in> x11_registered h"
    using trans [OF d [symmetric] demo_run_result] by (auto simp: x11_registered_def)
  from reload_loses_hot_keys [OF d [unfolded demo_run_def] this a p] d a show ?thesis by blast
qed

theorem ei_hot_keys_confused_witness:
  "\<exists>f h. setPrimaryClient ei_registerHotKey ei_unregisterHotKey (Some 0)
       \<lparr>m_ruleList = [] @ demo_rule # [scroll_lock_rule], rule_capacity = 2, m_primary = None\<rparr> ei_none = (f, h) \<and>
     on_hotkey 0xEF14 True 0 h = Some (PRIMARY_SCREEN_HOTKEY_DOWN 1) \<and>
     filter_handle_event (PRIMARY_SCREEN_HOTKEY_DOWN 1) f = [SERVER_SWITCH_INDIRECTION kRight]"
proof -
  obtain f h where p: "setPrimaryClient ei_registerHotKey ei_unregisterHotKey (Some 0)
       \<lparr>m_ruleList = [] @ demo_rule # [scroll_lock_rule], rule_capacity = 2, m_primary = None\<rparr> ei_none = (f, h)" by fastforce
  have o: "on_hotkey 0xEF14 True 0 h = Some (PRIMARY_SCREEN_HOTKEY_DOWN 1)"
    using p by (auto simp: setPrimaryClient_def rule_enable_def demo_rule_def scroll_lock_rule_def adoptAction_def rule_new_def
        ei_registerHotKey_def ei_none_def smap_ops on_hotkey_def find_by_mask_def)
  have c: "r_condition demo_rule = Some (KeystrokeCondition 0 0xEFC0 2)" "r_activate demo_rule = [SwitchInDirectionAction kRight]"
    by (simp_all add: demo_rule_def adoptAction_def rule_new_def)
  from ei_hot_keys_confused [OF p c(1) _ o] p o c(2) show ?thesis by auto
qed

end
