(* ===== verification/KeyNames.thy ===== *)
theory KeyNames
  imports ConfigFile
begin

text \<open>
  The names of keys: \<^verbatim>\<open>src/lib/inputleap/key_types.cpp\<close>, the functions \<open>formatKey\<close>, \<open>parseKey\<close> and
  \<open>parseModifiers\<close> of \<^verbatim>\<open>src/lib/inputleap/KeyMap.cpp\<close>, and the keystrokes of the configuration file.
  A function that returns false is \<open>None\<close>.
\<close>

section \<open>Tables\<close>

definition kKeyNameMap :: "(string \<times> u32) list" where
  "kKeyNameMap =
     [(''AltGr'', 0xEF7E), (''Alt_L'', 0xEFE9), (''Alt_R'', 0xEFEA), (''AppMail'', 0xE0B4), (''AppMedia'', 0xE0B5),
      (''AppUser1'', 0xE0B6), (''AppUser2'', 0xE0B7), (''AudioDown'', 0xE0AE), (''AudioMute'', 0xE0AD), (''AudioNext'', 0xE0B0),
      (''AudioPlay'', 0xE0B3), (''AudioPrev'', 0xE0B1), (''AudioStop'', 0xE0B2), (''AudioUp'', 0xE0AF), (''BackSpace'', 0xEF08),
      (''Begin'', 0xEF58), (''Break'', 0xEF6B), (''Cancel'', 0xEF69), (''CapsLock'', 0xEFE5), (''Clear'', 0xEF0B),
      (''Control_L'', 0xEFE3), (''Control_R'', 0xEFE4), (''Delete'', 0xEFFF), (''Down'', 0xEF54), (''EisuToggle'', 0xEF30),
      (''Eject'', 0xE001), (''End'', 0xEF57), (''Escape'', 0xEF1B), (''Execute'', 0xEF62), (''F1'', 0xEFBE), (''F2'', 0xEFBF),
      (''F3'', 0xEFC0), (''F4'', 0xEFC1), (''F5'', 0xEFC2), (''F6'', 0xEFC3), (''F7'', 0xEFC4), (''F8'', 0xEFC5), (''F9'', 0xEFC6),
      (''F10'', 0xEFC7), (''F11'', 0xEFC8), (''F12'', 0xEFC9), (''F13'', 0xEFCA), (''F14'', 0xEFCB), (''F15'', 0xEFCC),
      (''F16'', 0xEFCD), (''F17'', 0xEFCE), (''F18'', 0xEFCF), (''F19'', 0xEFD0), (''F20'', 0xEFD1), (''F21'', 0xEFD2),
      (''F22'', 0xEFD3), (''F23'', 0xEFD4), (''F24'', 0xEFD5), (''F25'', 0xEFD6), (''F26'', 0xEFD7), (''F27'', 0xEFD8),
      (''F28'', 0xEFD9), (''F29'', 0xEFDA), (''F30'', 0xEFDB), (''F31'', 0xEFDC), (''F32'', 0xEFDD), (''F33'', 0xEFDE),
      (''F34'', 0xEFDF), (''F35'', 0xEFE0), (''Find'', 0xEF68), (''Help'', 0xEF6A), (''Henkan'', 0xEF23), (''Home'', 0xEF50),
      (''Hyper_L'', 0xEFED), (''Hyper_R'', 0xEFEE), (''Insert'', 0xEF63), (''Kana'', 0xEF26), (''KP_0'', 0xEFB0), (''KP_1'', 0xEFB1),
      (''KP_2'', 0xEFB2), (''KP_3'', 0xEFB3), (''KP_4'', 0xEFB4), (''KP_5'', 0xEFB5), (''KP_6'', 0xEFB6), (''KP_7'', 0xEFB7),
      (''KP_8'', 0xEFB8), (''KP_9'', 0xEFB9), (''KP_Add'', 0xEFAB), (''KP_Begin'', 0xEF9D), (''KP_Decimal'', 0xEFAE),
      (''KP_Delete'', 0xEF9F), (''KP_Divide'', 0xEFAF), (''KP_Down'', 0xEF99), (''KP_End'', 0xEF9C), (''KP_Enter'', 0xEF8D),
      (''KP_Equal'', 0xEFBD), (''KP_F1'', 0xEF91), (''KP_F2'', 0xEF92), (''KP_F3'', 0xEF93), (''KP_F4'', 0xEF94),
      (''KP_Home'', 0xEF95), (''KP_Insert'', 0xEF9E), (''KP_Left'', 0xEF96), (''KP_Multiply'', 0xEFAA), (''KP_PageDown'', 0xEF9B),
      (''KP_PageUp'', 0xEF9A), (''KP_Right'', 0xEF98), (''KP_Separator'', 0xEFAC), (''KP_Space'', 0xEF80), (''KP_Subtract'', 0xEFAD),
      (''KP_Tab'', 0xEF89), (''KP_Up'', 0xEF97), (''Left'', 0xEF51), (''LeftTab'', 0xEE20), (''Linefeed'', 0xEF0A), (''Menu'', 0xEF67),
      (''Meta_L'', 0xEFE7), (''Meta_R'', 0xEFE8), (''Muhenkan'', 0xEF22), (''NumLock'', 0xEF7F), (''PageDown'', 0xEF56),
      (''PageUp'', 0xEF55), (''Pause'', 0xEF13), (''Print'', 0xEF61), (''Redo'', 0xEF66), (''Return'', 0xEF0D), (''Right'', 0xEF53),
      (''ScrollLock'', 0xEF14), (''Select'', 0xEF60), (''ShiftLock'', 0xEFE6), (''Shift_L'', 0xEFE1), (''Shift_R'', 0xEFE2),
      (''Sleep'', 0xE05F), (''Super_L'', 0xEFEB), (''Super_R'', 0xEFEC), (''SysReq'', 0xEF15), (''Tab'', 0xEF09), (''Undo'', 0xEF65),
      (''Up'', 0xEF52), (''WWWBack'', 0xE0A6), (''WWWFavorites'', 0xE0AB), (''WWWForward'', 0xE0A7), (''WWWHome'', 0xE0AC),
      (''WWWRefresh'', 0xE0A8), (''WWWSearch'', 0xE0AA), (''WWWStop'', 0xE0A9), (''Zenkaku'', 0xEF2A), (''Space'', 0x20),
      (''Exclaim'', 0x21), (''DoubleQuote'', 0x22), (''Number'', 0x23), (''Dollar'', 0x24), (''Percent'', 0x25), (''Ampersand'', 0x26),
      (''Apostrophe'', 0x27), (''ParenthesisL'', 0x28), (''ParenthesisR'', 0x29), (''Asterisk'', 0x2A), (''Plus'', 0x2B),
      (''Comma'', 0x2C), (''Minus'', 0x2D), (''Period'', 0x2E), (''Slash'', 0x2F), (''Colon'', 0x3A), (''Semicolon'', 0x3B),
      (''Less'', 0x3C), (''Equal'', 0x3D), (''Greater'', 0x3E), (''Question'', 0x3F), (''At'', 0x40), (''BracketL'', 0x5B),
      (''Backslash'', 0x5C), (''BracketR'', 0x5D), (''Circumflex'', 0x5E), (''Underscore'', 0x5F), (''Grave'', 0x60),
      (''BraceL'', 0x7B), (''Bar'', 0x7C), (''BraceR'', 0x7D), (''Tilde'', 0x7E), (''Copy'', 0x1008EF57), (''Cut'', 0x1008EF58),
      (''Open'', 0x1008EF6B), (''Paste'', 0x1008EF6D), (''Props'', 0x1005EF70), (''Front'', 0x1005EF71)]"

definition kModifierNameMap :: "(string \<times> u32) list" where
  "kModifierNameMap =
     [(''Alt'', 0x04), (''AltGr'', 0x20), (''Control'', 0x02), (''Meta'', 0x08), (''Shift'', 0x01), (''Super'', 0x10)]"

text \<open>\<open>initKeyNameMaps\<close>: assignments \<open>m[k] = v\<close>, in the order of the tables.\<close>

definition s_nameToKeyMap :: "(string, u32) smap" where
  "s_nameToKeyMap = fold (\<lambda>(name, i). smap_assign caseless_less name i) kKeyNameMap []"

definition s_keyToNameMap :: "(u32, string) smap" where
  "s_keyToNameMap = fold (\<lambda>(name, i). smap_assign (<) i name) kKeyNameMap []"

definition s_nameToModifierMap :: "(string, u32) smap" where
  "s_nameToModifierMap = fold (\<lambda>(name, i). smap_assign caseless_less name i) kModifierNameMap []"

definition s_modifierToNameMap :: "(u32, string) smap" where
  "s_modifierToNameMap = fold (\<lambda>(name, i). smap_assign (<) i name) kModifierNameMap []"

section \<open>Writing a keystroke\<close>

text \<open>\<open>sprintf\<close> with the conversion \<open>%04x\<close>.\<close>

definition hex_digit :: "nat \<Rightarrow> char" where
  "hex_digit d = char_of (if d < 10 then 48 + d else 87 + d)"

fun show_hex :: "nat \<Rightarrow> string" where
  "show_hex n = (if n < 16 then [hex_digit n] else show_hex (n div 16) @ [hex_digit (n mod 16)])"

declare show_hex.simps [simp del]

definition show_hex4 :: "nat \<Rightarrow> string" where
  "show_hex4 n = replicate (4 - length (show_hex n)) CHR ''0'' @ show_hex n"

definition kKeyModifierNumBits :: nat where "kKeyModifierNumBits = 16"

definition formatModifiers :: "u32 \<Rightarrow> string" where
  "formatModifiers mods =
     concat (map (\<lambda>i. let m = push_bit i 1 in
               if mods AND m \<noteq> 0
               then (case smap_find (<) m s_modifierToNameMap of Some (_, name) \<Rightarrow> name @ ''+'' | None \<Rightarrow> [])
               else [])
            [0..<kKeyModifierNumBits])"

definition formatKey :: "u32 \<Rightarrow> u32 \<Rightarrow> string" where
  "formatKey key mods =
     (let x = formatModifiers mods
      in if key \<noteq> 0
         then x @ (case smap_find (<) key s_keyToNameMap of
                     Some (_, name) \<Rightarrow> name
                   | None \<Rightarrow> if 33 \<le> key \<and> key < 127 then [char_of (unat key)] else CHR 0x5C # CHR ''u'' # show_hex4 (unat key))
         else butlast x)"

section \<open>Reading a keystroke\<close>

text \<open>\<open>strtol\<close> in base 16, with an optional \<open>0x\<close>.\<close>

definition isxdigit :: "char \<Rightarrow> bool" where
  "isxdigit c \<longleftrightarrow> isdigit c \<or> (let b = of_char c :: nat in 65 \<le> b \<and> b \<le> 70 \<or> 97 \<le> b \<and> b \<le> 102)"

definition xdigit_of :: "char \<Rightarrow> int" where
  "xdigit_of c = (if isdigit c then digit_of c else tolower c - 87)"

definition xdigits_value :: "string \<Rightarrow> int" where
  "xdigits_value ds = fold (\<lambda>c v. 16 * v + xdigit_of c) ds 0"

definition skip_0x :: "string \<Rightarrow> string" where
  "skip_0x u =
     (case u of z # x # d # r \<Rightarrow> if z = CHR ''0'' \<and> (x = CHR ''x'' \<or> x = CHR ''X'') \<and> isxdigit d then d # r else u
              | _ \<Rightarrow> u)"

definition strtol16 :: "string \<Rightarrow> int \<times> string" where
  "strtol16 s =
     (let t = dropWhile isspace s;
          (neg, u) = (case t of c # r \<Rightarrow> if c = CHR ''-'' then (True, r) else if c = CHR ''+'' then (False, r) else (False, t)
                              | [] \<Rightarrow> (False, t));
          v = skip_0x u;
          ds = takeWhile isxdigit v
      in if ds = [] then (0, s)
         else (let n = (if neg then - xdigits_value ds else xdigits_value ds)
               in max (- (2 ^ 63)) (min (2 ^ 63 - 1) n), dropWhile isxdigit v))"

definition parseKey :: "string \<Rightarrow> u32 option" where
  "parseKey x =
     (case smap_find caseless_less x s_nameToKeyMap of
        Some (_, i) \<Rightarrow> Some i
      | None \<Rightarrow>
          if length x = 1 then if \<not> isgraph (x ! 0) then None else Some (of_nat (of_char (x ! 0)))
          else if length x = 6 \<and> x ! 0 = CHR 0x5C \<and> x ! 1 = CHR ''u'' then
            let (v, rest) = strtol16 (c_str (drop 2 x))
            in if rest \<noteq> [] then None else Some (word_of_int v)
          else if x \<noteq> [] then None
          else Some 0)"

text \<open>The loop of \<open>parseModifiers\<close>: the text that is left and the modifiers.\<close>

function modifiers_loop :: "string \<Rightarrow> nat option \<Rightarrow> u32 \<Rightarrow> (string \<times> u32) option" where
  "modifiers_loop x tb mods =
     (case tb of
        None \<Rightarrow> Some ([], mods)
      | Some b \<Rightarrow>
          let te = end_at x (find_first_of (blanks @ ''+)'') x b);
              c = substr x b te
          in if c = [] then None
             else
               case smap_find caseless_less c s_nameToModifierMap of
                 Some (_, m) \<Rightarrow>
                   if mods AND m \<noteq> 0 then None
                   else
                     (case find_first_not_of blanks x te of
                        None \<Rightarrow> modifiers_loop x None (mods OR m)
                      | Some p \<Rightarrow>
                          if x ! p \<noteq> CHR ''+'' then None
                          else modifiers_loop x (find_first_not_of blanks x (p + 1)) (mods OR m))
               | None \<Rightarrow>
                   let y = drop b x
                   in Some (case (find_first_not_of blanks y 0, find_last_not_of blanks y) of
                              (Some i, Some j) \<Rightarrow> substr y i (j + 1) | _ \<Rightarrow> [], mods))"
  by auto

lemma loop_shorter:
  assumes "substr x b (end_at x (find_first_of cs x b)) \<noteq> []" "find_first_not_of blanks x (end_at x (find_first_of cs x b)) = Some p"
    "find_first_not_of blanks x (p + 1) = Some q"
  shows "b < q \<and> q < length x"
proof -
  let ?e = "end_at x (find_first_of cs x b)"
  have "b < ?e" using assms(1) by (simp add: substr_def)
  moreover have "?e \<le> p" "p < q" "q < length x"
    using assms(2,3) by (auto simp: find_first_not_of_def dest!: find_from_Some)
  ultimately show ?thesis by simp
qed

termination modifiers_loop
proof (relation "measure (\<lambda>(x, tb, mods). case tb of None \<Rightarrow> 0 | Some b \<Rightarrow> Suc (length x - b))", goal_cases)
  case (3 x tb mods b te c e k m p)
  then show ?case using loop_shorter [of x b "blanks @ ''+)''" p]
    by (cases "find_first_not_of blanks x (p + 1)") (fastforce intro: diff_less_mono2)+
qed auto

declare modifiers_loop.simps [simp del]

definition parseModifiers :: "string \<Rightarrow> (string \<times> u32) option" where
  "parseModifiers x = modifiers_loop x (find_first_not_of blanks x 0) 0"

text \<open>\<open>ConfigReadContext::parseKeystroke\<close>, the key and its modifiers.\<close>

definition parseKeystroke :: "read_context \<Rightarrow> string \<Rightarrow> read_error + (u32 \<times> u32)" where
  "parseKeystroke s keystroke =
     (case parseModifiers keystroke of
        None \<Rightarrow> throw_read s ''unable to parse key modifiers'' []
      | Some (x, mods) \<Rightarrow>
          case parseKey x of
            None \<Rightarrow> throw_read s ''unable to parse key'' []
          | Some key \<Rightarrow>
              if key = 0 \<and> mods = 0 then throw_read s ''missing key and/or modifiers in keystroke'' []
              else Inr (key, mods))"


section \<open>What the tables hold\<close>

interpretation key_ids: keyed_map "(<) :: u32 \<Rightarrow> u32 \<Rightarrow> bool" "\<lambda>w. w"
  by unfold_locales simp

lemma key_names_distinct: "distinct (map (fold_name \<circ> fst) kKeyNameMap)"
  unfolding kKeyNameMap_def by (simp add: fold_name_def tolower_def)

lemma key_ids_distinct: "distinct (map (\<lambda>x. snd x) kKeyNameMap)"
proof -
  have "distinct (map (unat \<circ> snd) kKeyNameMap)" unfolding kKeyNameMap_def by simp
  then have "distinct (map unat (map snd kKeyNameMap))" by simp
  then show ?thesis using distinct_map by blast
qed

lemma name_shape: "(name, i) \<in> set kKeyNameMap \<Longrightarrow> 2 \<le> length name \<and> list_all wordchar name \<and> i \<noteq> 0"
proof -
  have "list_all (\<lambda>(name, i). 2 \<le> length name \<and> list_all wordchar name \<and> i \<noteq> 0) kKeyNameMap"
    unfolding kKeyNameMap_def by (simp add: wordchar_def isalnum_def)
  then show "(name, i) \<in> set kKeyNameMap \<Longrightarrow> 2 \<le> length name \<and> list_all wordchar name \<and> i \<noteq> 0"
    unfolding list_all_iff by blast
qed

lemma name_to_key:
  "smap_find caseless_less x s_nameToKeyMap = Some (n, i) \<longleftrightarrow> (n, i) \<in> set kKeyNameMap \<and> fold_name n = fold_name x"
proof -
  note a = names.assigned [OF _ key_names_distinct, of "[]" snd]
  then show ?thesis by (simp add: s_nameToKeyMap_def case_prod_beta' names.find_Some)
qed

lemma name_unknown:
  "smap_find caseless_less x s_nameToKeyMap = None \<longleftrightarrow> (\<forall>(n, i)\<in>set kKeyNameMap. fold_name n \<noteq> fold_name x)"
proof -
  note a = names.assigned [OF _ key_names_distinct, of "[]" snd]
  then show ?thesis by (simp add: s_nameToKeyMap_def case_prod_beta' names.find_None)
qed

lemma key_to_name: "smap_find (<) i s_keyToNameMap = Some (k, n) \<longleftrightarrow> (n, i) \<in> set kKeyNameMap \<and> k = i"
proof -
  have "distinct (map ((\<lambda>w. w) \<circ> snd) kKeyNameMap)" using key_ids_distinct by (simp add: comp_def)
  note a = key_ids.assigned [OF _ this, of "[]" fst]
  then show ?thesis by (force simp: s_keyToNameMap_def case_prod_beta' key_ids.find_Some)
qed

lemma modifier_maps:
  "s_nameToModifierMap = [(''Alt'', 0x04), (''AltGr'', 0x20), (''Control'', 0x02), (''Meta'', 0x08), (''Shift'', 0x01), (''Super'', 0x10)]"
  "s_modifierToNameMap = [(0x01, ''Shift''), (0x02, ''Control''), (0x04, ''Alt''), (0x08, ''Meta''), (0x10, ''Super''), (0x20, ''AltGr'')]"
  by code_simp+

lemma is_modifier:
  "smap_find caseless_less x s_nameToModifierMap = None \<longleftrightarrow> fold_name x \<notin> set (map (fold_name \<circ> fst) kModifierNameMap)"
proof -
  have "names.ordered s_nameToModifierMap"
    unfolding modifier_maps by (simp add: fold_name_def tolower_def)
  then show ?thesis
    unfolding names.find_None [OF \<open>names.ordered s_nameToModifierMap\<close>] unfolding modifier_maps kModifierNameMap_def by auto
qed

lemma key_not_modifier:
  assumes "(name, i) \<in> set kKeyNameMap" "i \<noteq> 0xEF7E"
  shows "smap_find caseless_less name s_nameToModifierMap = None"
proof -
  have "list_all (\<lambda>(name, i). fold_name name \<notin> set (map (fold_name \<circ> fst) kModifierNameMap) \<or> i = 0xEF7E) kKeyNameMap"
    unfolding kKeyNameMap_def kModifierNameMap_def by (simp add: fold_name_def tolower_def)
  then show ?thesis using assms unfolding is_modifier list_all_iff by blast
qed

section \<open>Numbers in base 16\<close>

lemma hex_digit_back: "d < 16 \<Longrightarrow> isxdigit (hex_digit d) \<and> xdigit_of (hex_digit d) = int d"
proof -
  assume "d < 16"
  then have "(of_char (hex_digit d) :: nat) = (if d < 10 then 48 + d else 87 + d)" by (simp add: hex_digit_def)
  then show ?thesis using \<open>d < 16\<close>
    by (simp add: isxdigit_def xdigit_of_def isdigit_def digit_of_def tolower_def Let_def)
qed

lemma xdigits_value_snoc: "xdigits_value (ds @ [c]) = 16 * xdigits_value ds + xdigit_of c"
  by (simp add: xdigits_value_def)

lemma show_hex_value: "xdigits_value (show_hex n) = int n \<and> list_all isxdigit (show_hex n) \<and> show_hex n \<noteq> []"
proof (induction n rule: show_hex.induct)
  case (1 n)
  note e = show_hex.simps [of n]
  show ?case
  proof (cases "n < 16")
    case True
    then show ?thesis using hex_digit_back [of n] by (simp add: e xdigits_value_def)
  next
    case False
    then show ?thesis using 1 hex_digit_back [of "n mod 16"]
      by (simp add: e xdigits_value_snoc zdiv_int zmod_int)
  qed
qed

lemma show_hex_length: "n < 16 ^ k \<Longrightarrow> 0 < k \<Longrightarrow> length (show_hex n) \<le> k"
proof (induction k arbitrary: n)
  case (Suc k)
  show ?case
  proof (cases "n < 16")
    case False
    then have "n div 16 < 16 ^ k" "0 < k" using Suc.prems by (cases k; auto)+
    from Suc.IH [OF this] False show ?thesis by (subst show_hex.simps) simp
  qed (subst show_hex.simps, simp)
qed simp

lemma show_hex4_text:
  "length (show_hex n) \<le> 4 \<Longrightarrow> length (show_hex4 n) = 4" "list_all isxdigit (show_hex4 n)" "xdigits_value (show_hex4 n) = int n"
  "show_hex4 n \<noteq> []"
proof -
  have "isxdigit CHR ''0''" "xdigit_of CHR ''0'' = 0" by code_simp+
  moreover from this have "xdigits_value (replicate k CHR ''0'' @ ds) = xdigits_value ds" for k ds
    by (induction k) (simp_all add: xdigits_value_def)
  ultimately show "list_all isxdigit (show_hex4 n)" "xdigits_value (show_hex4 n) = int n" "show_hex4 n \<noteq> []"
    using show_hex_value [of n] by (auto simp: show_hex4_def list_all_iff)
qed (simp add: show_hex4_def)

lemma isxdigit_chars: "isxdigit c \<Longrightarrow> \<not> isspace c \<and> c \<notin> {CHR ''-'', CHR ''+'', CHR ''x'', CHR ''X'', CHR 0x00} \<and> isalnum c"
  by (auto simp: isxdigit_def isdigit_def isspace_def isalnum_def Let_def)

lemma strtol16_digits:
  assumes "ds \<noteq> []" "list_all isxdigit ds" "0 \<le> xdigits_value ds" "xdigits_value ds < 2 ^ 63"
  shows "strtol16 ds = (xdigits_value ds, [])"
proof -
  obtain c r where ds: "ds = c # r" using assms(1) by (cases ds) auto
  have tw: "takeWhile isxdigit ds = ds" "dropWhile isxdigit ds = []"
    using assms(2) by (auto simp: list_all_iff takeWhile_eq_all_conv dropWhile_eq_Nil_conv)
  have c: "\<not> isspace c" "c \<noteq> CHR ''-''" "c \<noteq> CHR ''+''" using isxdigit_chars [of c] assms(2) ds by auto
  have "skip_0x ds = ds"
    using assms(2) isxdigit_chars [of "CHR ''x''"] isxdigit_chars [of "CHR ''X''"] by (auto simp: skip_0x_def split: list.splits)
  then show ?thesis
    unfolding strtol16_def Let_def using c tw assms(1,3,4) by (simp add: ds)
qed

section \<open>The search for the parts of a keystroke\<close>

lemma find_from_at:
  "drop b s = n @ c # r \<Longrightarrow> \<forall>d\<in>set n. \<not> P d \<Longrightarrow> P c \<Longrightarrow> find_from P s b = Some (b + length n)"
proof (induction n arbitrary: b)
  case Nil
  then have "b < length s" "s ! b = c" using nth_via_drop [of b s c r] by (auto simp flip: linorder_not_le)
  then show ?case using Nil by (subst find_from.simps) simp
next
  case (Cons d n)
  have l: "b < length s" using Cons.prems(1) by (cases "b < length s") simp_all
  have b: "s ! b = d" "drop (Suc b) s = n @ c # r"
    using Cons.prems(1) Cons_nth_drop_Suc [OF l] by simp_all
  then show ?case using l Cons.IH [OF b(2)] Cons.prems(2,3) find_from_step [of b s P] by simp
qed

lemma find_from_end: "\<forall>d\<in>set (drop b s). \<not> P d \<Longrightarrow> find_from P s b = None"
proof -
  assume a: "\<forall>d\<in>set (drop b s). \<not> P d"
  have "s ! k \<in> set (drop b s)" if "b \<le> k" "k < length s" for k
    using nth_mem [of "k - b" "drop b s"] that by simp
  then show ?thesis using a by (auto simp: find_from_None)
qed

definition part_text :: "string \<Rightarrow> bool" where
  "part_text t \<longleftrightarrow> t \<noteq> [] \<and> (\<forall>c\<in>set t. c \<notin> set (blanks @ ''+)''))"

text \<open>A part ends at a plus sign or at the end.\<close>

lemma part_ends:
  assumes "drop b x = n @ r" "part_text n" "r = [] \<or> hd r = CHR ''+''"
  shows "end_at x (find_first_of (blanks @ ''+)'') x b) = b + length n"
    "substr x b (b + length n) = n"
proof -
  have l: "length x = b + length n" if "r = []"
  proof -
    have "length x - b = length n" using arg_cong [OF assms(1), of length] that by simp
    moreover have "length n \<noteq> 0" using assms(2) by (simp add: part_text_def)
    ultimately show ?thesis by linarith
  qed
  show "end_at x (find_first_of (blanks @ ''+)'') x b) = b + length n"
  proof (cases r)
    case Nil
    then have "find_first_of (blanks @ ''+)'') x b = None"
      unfolding find_first_of_def using assms(1,2) by (intro find_from_end) (auto simp: part_text_def)
    then show ?thesis using l Nil by (simp add: end_at_def)
  next
    case (Cons c r')
    then have "find_first_of (blanks @ ''+)'') x b = Some (b + length n)"
      unfolding find_first_of_def using assms by (intro find_from_at [of b x n c r']) (auto simp: part_text_def)
    then show ?thesis by (simp add: end_at_def)
  qed
  show "substr x b (b + length n) = n" using assms(1) by (simp add: substr_def)
qed

lemma loop_modifier_last:
  assumes "drop b x = n" "part_text n" "smap_find caseless_less n s_nameToModifierMap = Some (k, m)" "mods AND m = 0"
  shows "modifiers_loop x (Some b) mods = Some ([], mods OR m)"
proof -
  note p = part_ends [of b x n "[]"]
  have "drop (b + length n) x = []" using assms(1) by (metis add.commute drop_all drop_drop order_refl)
  then have "find_first_not_of blanks x (b + length n) = None"
    unfolding find_first_not_of_def by (intro find_from_end) simp
  then show ?thesis
    using assms p by (subst modifiers_loop.simps) (simp add: part_text_def modifiers_loop.simps [of x None])
qed

lemma loop_modifier:
  assumes "drop b x = n @ CHR ''+'' # c # r" "part_text n" "c \<notin> set blanks"
    "smap_find caseless_less n s_nameToModifierMap = Some (k, m)" "mods AND m = 0"
  shows "modifiers_loop x (Some b) mods = modifiers_loop x (Some (b + length n + 1)) (mods OR m)"
proof -
  note p = part_ends [OF assms(1,2)]
  have d: "drop (b + length n) x = CHR ''+'' # c # r" using assms(1) by (metis add.commute append_eq_conv_conj drop_drop)
  then have d2: "drop (Suc (b + length n)) x = c # r" by (metis drop_Suc drop_drop list.sel(3) plus_1_eq_Suc tl_drop)
  have "find_first_not_of blanks x (b + length n) = Some (b + length n)"
    unfolding find_first_not_of_def using find_from_at [of _ x "[]" "CHR ''+''" "c # r" "\<lambda>c. c \<notin> set blanks"] d by (simp add: blanks_def)
  moreover have "find_first_not_of blanks x (b + length n + 1) = Some (b + length n + 1)"
    unfolding find_first_not_of_def using find_from_at [of _ x "[]" c r "\<lambda>c. c \<notin> set blanks"] d2 assms(3) by simp
  moreover have "x ! (b + length n) = CHR ''+''" using nth_via_drop [OF d] .
  ultimately show ?thesis
    using assms(2,4,5) p by (subst modifiers_loop.simps) (simp add: part_text_def)
qed

lemma loop_key:
  assumes "drop b x = t" "part_text t" "smap_find caseless_less t s_nameToModifierMap = None"
  shows "modifiers_loop x (Some b) mods = Some (t, mods)"
proof -
  note p = part_ends [of b x t "[]"]
  obtain c r where t: "t = c # r" using assms(2) by (cases t) (auto simp: part_text_def)
  have nb: "\<forall>d\<in>set t. d \<notin> set blanks" using assms(2) by (auto simp: part_text_def)
  have "find_first_not_of blanks t 0 = Some 0"
    unfolding find_first_not_of_def using find_from_at [of 0 t "[]" c r "\<lambda>c. c \<notin> set blanks"] nb t by simp
  moreover have "dropWhile (\<lambda>c. c \<in> set blanks) (rev t) = rev t" using nb t by (auto simp: dropWhile_eq_self_iff hd_rev simp del: rev.simps)
  then have "find_last_not_of blanks t = Some (length t - 1)" using t by (simp add: find_last_not_of_def)
  ultimately show ?thesis
    using assms p t by (subst modifiers_loop.simps) (simp add: part_text_def substr_def)
qed

section \<open>A keystroke survives writing and reading\<close>

text \<open>The modifiers of a mask, in the order in which they are written.\<close>

definition mods_of :: "u32 \<Rightarrow> (string \<times> u32) list" where
  "mods_of mods = filter (\<lambda>(name, m). mods AND m \<noteq> 0)
     [(''Shift'', 0x01), (''Control'', 0x02), (''Alt'', 0x04), (''Meta'', 0x08), (''Super'', 0x10), (''AltGr'', 0x20)]"

definition mods_text :: "(string \<times> u32) list \<Rightarrow> string" where
  "mods_text es = concat (map (\<lambda>(name, m). name @ ''+'') es)"

text \<open>Reading them one after the other, none twice.\<close>

fun mods_read :: "u32 \<Rightarrow> (string \<times> u32) list \<Rightarrow> u32 option" where
  "mods_read mods [] = Some mods"
| "mods_read mods ((name, m) # es) = (if mods AND m \<noteq> 0 then None else mods_read (mods OR m) es)"

lemma modifier_bits:
  "smap_find (<) (push_bit i 1) s_modifierToNameMap =
     (if i = 0 then Some (0x01, ''Shift'') else if i = 1 then Some (0x02, ''Control'') else if i = 2 then Some (0x04, ''Alt'')
      else if i = 3 then Some (0x08, ''Meta'') else if i = 4 then Some (0x10, ''Super'') else if i = 5 then Some (0x20, ''AltGr'') else None)"
  if "i < 16"
proof -
  have "list_all (\<lambda>i. smap_find (<) (push_bit i 1) s_modifierToNameMap =
     (if i = 0 then Some (0x01, ''Shift'') else if i = 1 then Some (0x02, ''Control'') else if i = 2 then Some (0x04, ''Alt'')
      else if i = 3 then Some (0x08, ''Meta'') else if i = 4 then Some (0x10, ''Super'') else if i = 5 then Some (0x20, ''AltGr'') else None)) [0..<16]"
    unfolding modifier_maps by code_simp
  then show ?thesis using that unfolding list_all_iff by simp
qed

lemma mods_text_filter: "mods_text (filter P ((name, m) # es)) = (if P (name, m) then name @ ''+'' else []) @ mods_text (filter P es)"
  by (simp add: mods_text_def)

lemma formatModifiers_text: "formatModifiers mods = mods_text (mods_of mods)"
proof -
  let ?g = "\<lambda>i :: nat. if i = 0 then if mods AND 1 \<noteq> 0 then ''Shift+'' else [] else if i = 1 then if mods AND 2 \<noteq> 0 then ''Control+'' else []
    else if i = 2 then if mods AND 4 \<noteq> 0 then ''Alt+'' else [] else if i = 3 then if mods AND 8 \<noteq> 0 then ''Meta+'' else []
    else if i = 4 then if mods AND 16 \<noteq> 0 then ''Super+'' else [] else if i = 5 then if mods AND 32 \<noteq> 0 then ''AltGr+'' else [] else []"
  have "(if mods AND push_bit i 1 \<noteq> 0 then case smap_find (<) (push_bit i 1) s_modifierToNameMap of Some (_, name) \<Rightarrow> name @ ''+'' | None \<Rightarrow> []
      else []) = ?g i" if "i \<in> set [0..<16]" for i
  proof -
    have "i < 16" using that by simp
    show ?thesis unfolding modifier_bits [OF \<open>i < 16\<close>] by auto
  qed
  then have "formatModifiers mods = concat (map ?g [0..<16])"
    unfolding formatModifiers_def kKeyModifierNumBits_def Let_def by (intro arg_cong [where f = concat] map_cong refl)
  also have "[0..<16] = [0, 1, 2, 3, 4, 5 :: nat] @ [6..<16]" by (simp add: upt_rec)
  also have "concat (map ?g ([0, 1, 2, 3, 4, 5] @ [6..<16])) = concat (map ?g [0, 1, 2, 3, 4, 5]) @ []"
    unfolding map_append concat_append by (rule arg_cong [where f = "(@) _"]) auto
  finally show ?thesis unfolding mods_of_def mods_text_filter by (simp add: mods_text_def)
qed

lemma mods_read_back: "mods AND NOT 0x3F = 0 \<Longrightarrow> mods_read 0 (mods_of mods) = Some mods"
proof -
  assume a: "mods AND NOT 0x3F = 0"
  have "a AND k OR a AND NOT k = a" for a k :: u32 by (rule bit_word_eqI) (auto simp: bit_simps)
  from this [of mods "0x3F"] have "mods = mods AND 0x3F" using a by simp
  moreover have "(0x3F :: u32) = mask 6" by (simp add: mask_eq_exp_minus_1)
  ultimately have "mods = take_bit 6 mods" by (simp only: take_bit_eq_mask)
  then have "unat mods = take_bit 6 (unat mods)" by (metis unsigned_take_bit_eq)
  then have "unat mods < 64" using take_bit_nat_less_exp [of 6 "unat mods"] by simp
  then have "unat mods \<in> set [0..<64]" by simp
  moreover have "mods = of_nat (unat mods)" by simp
  ultimately have "mods \<in> set (map of_nat [0..<64])" unfolding set_map by (rule image_eqI [rotated])
  moreover have "list_all (\<lambda>m. mods_read 0 (mods_of m) = Some m) (map of_nat [0..<64])" by code_simp
  ultimately show ?thesis by (simp only: list_all_iff)
qed

text \<open>The names of modifiers are read as such.\<close>

lemma mods_of_known:
  assumes "(name, m) \<in> set (mods_of mods)"
  shows "part_text name" "smap_find caseless_less name s_nameToModifierMap = Some (name, m)"
proof -
  let ?all = "[(''Shift'', 0x01), (''Control'', 0x02), (''Alt'', 0x04), (''Meta'', 0x08), (''Super'', 0x10), (''AltGr'', 0x20)]"
  have "list_all (\<lambda>(name, m). part_text name \<and> smap_find caseless_less name s_nameToModifierMap = Some (name, m)) ?all"
    unfolding modifier_maps by code_simp
  moreover have "(name, m) \<in> set ?all" using assms unfolding mods_of_def set_filter by simp
  ultimately show "part_text name" "smap_find caseless_less name s_nameToModifierMap = Some (name, m)"
    unfolding list_all_iff by blast+
qed

lemma part_text_head: "part_text t \<Longrightarrow> \<exists>c r. t = c # r \<and> c \<notin> set blanks"
  by (cases t) (auto simp: part_text_def)

lemma text_head:
  assumes "set es \<subseteq> set (mods_of mods)" "part_text t"
  shows "\<exists>c r. mods_text es @ t = c # r \<and> c \<notin> set blanks"
proof (cases es)
  case Nil
  then show ?thesis using part_text_head [OF assms(2)] by (simp add: mods_text_def)
next
  case (Cons e es')
  then show ?thesis using assms(1) part_text_head [OF mods_of_known(1) [of "fst e" "snd e" mods]] by (cases e) (auto simp: mods_text_def)
qed

lemma text_head_only:
  assumes "set es \<subseteq> set (mods_of mods)" "es \<noteq> []"
  shows "\<exists>c r. butlast (mods_text es) = c # r \<and> c \<notin> set blanks"
proof -
  obtain n m es' where es: "es = (n, m) # es'" using assms(2) by (cases es) auto
  then have "part_text n" using assms(1) mods_of_known(1) [of n m mods] by simp
  then show ?thesis using part_text_head [of n] es by (auto simp: mods_text_def butlast_append)
qed

lemma drop_past: "drop b x = n @ c # r \<Longrightarrow> drop (b + length n + 1) x = r"
  by (metis add.assoc add.commute append_eq_conv_conj drop_drop drop_Suc_Cons drop0 One_nat_def append.assoc append_Cons append_Nil)

lemma loop_mods:
  assumes "set es \<subseteq> set (mods_of mods)" "mods_read m0 es = Some m1" "drop b x = mods_text es @ t" "part_text t"
    "smap_find caseless_less t s_nameToModifierMap = None"
  shows "modifiers_loop x (Some b) m0 = Some (t, m1)"
  using assms(1-3)
proof (induction es arbitrary: b m0)
  case Nil
  then show ?case using loop_key [OF _ assms(4,5), of b x m0] by (simp add: mods_text_def)
next
  case (Cons e es)
  obtain n m where e: "e = (n, m)" by (cases e)
  have k: "part_text n" "smap_find caseless_less n s_nameToModifierMap = Some (n, m)"
    using Cons.prems(1) e mods_of_known [of n m mods] by auto
  obtain c r where h: "mods_text es @ t = c # r" "c \<notin> set blanks" using text_head [of es mods t] Cons.prems(1) assms(4) by auto
  have d: "drop b x = n @ CHR ''+'' # c # r" using Cons.prems(3) e h(1) by (simp add: mods_text_def)
  have m: "m0 AND m = 0" "mods_read (m0 OR m) es = Some m1" using Cons.prems(2) e by (auto split: if_splits)
  show ?case
    unfolding loop_modifier [OF d k(1) h(2) k(2) m(1)]
    using Cons.IH [OF _ m(2)] Cons.prems(1) drop_past [OF d] h(1) by simp
qed

lemma loop_mods_only:
  assumes "set es \<subseteq> set (mods_of mods)" "es \<noteq> []" "mods_read m0 es = Some m1" "drop b x = butlast (mods_text es)"
  shows "modifiers_loop x (Some b) m0 = Some ([], m1)"
  using assms
proof (induction es arbitrary: b m0)
  case (Cons e es)
  obtain n m where e: "e = (n, m)" by (cases e)
  have k: "part_text n" "smap_find caseless_less n s_nameToModifierMap = Some (n, m)"
    using Cons.prems(1) e mods_of_known [of n m mods] by auto
  have m: "m0 AND m = 0" "mods_read (m0 OR m) es = Some m1" using Cons.prems(3) e by (auto split: if_splits)
  show ?case
  proof (cases "es = []")
    case True
    then have "drop b x = n" using Cons.prems(4) e by (simp add: mods_text_def butlast_append)
    then show ?thesis using loop_modifier_last [OF _ k m(1)] m(2) True by simp
  next
    case False
    then obtain c r where h: "butlast (mods_text es) = c # r" "c \<notin> set blanks" using text_head_only [of es mods] Cons.prems(1) by auto
    then have "mods_text es \<noteq> []" by auto
    then have d: "drop b x = n @ CHR ''+'' # c # r" using Cons.prems(4) e h(1) by (simp add: mods_text_def butlast_append)
    show ?thesis
      unfolding loop_modifier [OF d k(1) h(2) k(2) m(1)]
      using Cons.IH [OF _ False m(2)] Cons.prems(1) drop_past [OF d] h(1) by simp
  qed
qed simp

lemma starts_at_0: "x = c # r \<Longrightarrow> c \<notin> set blanks \<Longrightarrow> find_first_not_of blanks x 0 = Some 0"
  unfolding find_first_not_of_def using find_from_at [of 0 x "[]" c r "\<lambda>c. c \<notin> set blanks"] by simp

lemma parseModifiers_back:
  assumes "mods AND NOT 0x3F = 0" "part_text t" "smap_find caseless_less t s_nameToModifierMap = None"
  shows "parseModifiers (formatModifiers mods @ t) = Some (t, mods)"
proof -
  obtain c r where h: "mods_text (mods_of mods) @ t = c # r" "c \<notin> set blanks" using text_head [OF order_refl assms(2)] by blast
  show ?thesis
    unfolding parseModifiers_def formatModifiers_text starts_at_0 [OF h]
    using loop_mods [OF order_refl mods_read_back [OF assms(1)] _ assms(2,3), of 0] by simp
qed

lemma parseModifiers_only:
  assumes "mods AND NOT 0x3F = 0" "mods \<noteq> 0"
  shows "parseModifiers (butlast (formatModifiers mods)) = Some ([], mods)"
proof -
  have n: "mods_of mods \<noteq> []" using mods_read_back [OF assms(1)] assms(2) by auto
  obtain c r where h: "butlast (mods_text (mods_of mods)) = c # r" "c \<notin> set blanks" using text_head_only [OF order_refl n] by blast
  show ?thesis
    unfolding parseModifiers_def formatModifiers_text starts_at_0 [OF h]
    using loop_mods_only [OF order_refl n mods_read_back [OF assms(1)], of 0] by simp
qed

text \<open>The text of a key, and what reads it.\<close>

definition key_text :: "u32 \<Rightarrow> string" where
  "key_text key =
     (case smap_find (<) key s_keyToNameMap of
        Some (_, name) \<Rightarrow> name
      | None \<Rightarrow> if 33 \<le> key \<and> key < 127 then [char_of (unat key)] else CHR 0x5C # CHR ''u'' # show_hex4 (unat key))"

lemma fold_name_length: "fold_name a = fold_name b \<Longrightarrow> length a = length b"
  unfolding fold_name_def by (metis length_map)

lemma unknown_short: "length x = 1 \<Longrightarrow> smap_find caseless_less x s_nameToKeyMap = None"
  using name_shape by (fastforce simp: name_unknown dest: fold_name_length)

lemma unknown_escape: "smap_find caseless_less (CHR 0x5C # x) s_nameToKeyMap = None"
proof -
  have "fold_name n \<noteq> fold_name (CHR 0x5C # x)" if "(n, i) \<in> set kKeyNameMap" for n i
  proof
    assume f: "fold_name n = fold_name (CHR 0x5C # x)"
    then obtain c r where n: "n = c # r" by (cases n) (auto simp: fold_name_def)
    with f have "tolower c = tolower CHR 0x5C" by (simp add: fold_name_def)
    moreover have "wordchar c" using name_shape [OF that] n by simp
    ultimately show False by (auto simp: wordchar_def isalnum_def tolower_def Let_def split: if_splits)
  qed
  then show ?thesis by (auto simp: name_unknown)
qed

lemma wordchar_part: "wordchar c \<Longrightarrow> c \<notin> set (blanks @ ''+)'')"
  by (auto simp: wordchar_def isalnum_def blanks_def Let_def)

text \<open>A key of the table.\<close>

lemma key_text_named:
  assumes "(name, key) \<in> set kKeyNameMap"
  shows "key_text key = name" "parseKey name = Some key" "part_text name"
proof -
  have "smap_find (<) key s_keyToNameMap = Some (key, name)" using key_to_name [of key key name] assms by simp
  then show "key_text key = name" by (simp add: key_text_def)
  have "smap_find caseless_less name s_nameToKeyMap = Some (name, key)" using name_to_key [of name name key] assms by simp
  then show "parseKey name = Some key" by (simp add: parseKey_def)
  show "part_text name" using name_shape [OF assms] wordchar_part by (auto simp: part_text_def list_all_iff)
qed

text \<open>Another key, of at most 16 bits.\<close>

lemma key_text_other:
  assumes "smap_find (<) key s_keyToNameMap = None" "key \<noteq> 0" "key \<le> 0xFFFF"
  shows "parseKey (key_text key) = Some key \<and> part_text (key_text key) \<and>
    smap_find caseless_less (key_text key) s_nameToModifierMap = None"
proof (cases "33 \<le> key \<and> key < 127")
  case True
  then have u: "33 \<le> unat key" "unat key < 127" by (auto simp: word_le_nat_alt word_less_nat_alt)
  let ?c = "char_of (unat key) :: char"
  have t: "key_text key = [?c]" using True assms(1) by (simp add: key_text_def)
  have oc: "(of_char ?c :: nat) = unat key" using u by simp
  have "isgraph ?c" using u oc by (simp add: isgraph_def)
  then have "parseKey [?c] = Some key" using unknown_short [of "[?c]"] oc by (simp add: parseKey_def)
  moreover have "?c \<notin> set (blanks @ ''+)'')"
  proof -
    have "smap_find (<) 0x2B s_keyToNameMap = Some (0x2B, ''Plus'')" "smap_find (<) 0x29 s_keyToNameMap = Some (0x29, ''ParenthesisR'')"
      by (simp_all add: key_to_name kKeyNameMap_def)
    then have "key \<noteq> 0x2B" "key \<noteq> 0x29" using assms(1) by auto
    then have "unat key \<noteq> 0x2B" "unat key \<noteq> 0x29" by (simp_all add: word_unat_eq_iff)
    moreover have "(of_char d :: nat) \<in> {32, 9, 43, 41}" if "d \<in> set (blanks @ ''+)'')" for d
      using that by (auto simp: blanks_def)
    ultimately show ?thesis using u oc by fastforce
  qed
  moreover have "smap_find caseless_less [?c] s_nameToModifierMap = None"
    unfolding is_modifier kModifierNameMap_def by (simp add: fold_name_def)
  ultimately show ?thesis using t by (simp add: part_text_def)
next
  case False
  let ?h = "show_hex4 (unat key)"
  have t: "key_text key = CHR 0x5C # CHR ''u'' # ?h" using False assms(1) by (auto simp: key_text_def)
  have "unat key < 16 ^ 4" using assms(3) by (simp add: word_le_nat_alt)
  note h = show_hex4_text [of "unat key"] show_hex_length [OF this]
  have no0: "CHR 0x00 \<notin> set ?h" using h(2) isxdigit_chars by (auto simp: list_all_iff)
  then have "c_str ?h = ?h" by (auto simp: c_str_def takeWhile_eq_all_conv)
  moreover have "strtol16 ?h = (int (unat key), [])" using strtol16_digits [OF h(4,2)] h(3) uint_bounded [of key] by simp
  moreover have "length ?h = 4" using h by simp
  ultimately have "parseKey (key_text key) = Some key" using unknown_escape by (simp add: parseKey_def t)
  moreover have "part_text (key_text key)"
    using h(2) isxdigit_chars wordchar_part by (auto simp: t part_text_def list_all_iff wordchar_def blanks_def)
  moreover have "smap_find caseless_less (key_text key) s_nameToModifierMap = None"
    unfolding is_modifier kModifierNameMap_def by (simp add: fold_name_def tolower_def t)
  ultimately show ?thesis by blast
qed

lemma formatKey_text: "formatKey key mods = (if key \<noteq> 0 then formatModifiers mods @ key_text key else butlast (formatModifiers mods))"
  by (simp add: formatKey_def key_text_def Let_def)

lemma parseKey_nothing: "parseKey [] = Some 0"
proof -
  have "smap_find caseless_less [] s_nameToKeyMap = None" using name_shape by (fastforce simp: name_unknown fold_name_def)
  then show ?thesis by (simp add: parseKey_def)
qed

lemma key_text_ok:
  assumes "key \<in> snd ` set kKeyNameMap \<or> key \<le> 0xFFFF" "key \<noteq> 0" "key \<noteq> 0xEF7E"
  shows "parseKey (key_text key) = Some key \<and> part_text (key_text key) \<and>
    smap_find caseless_less (key_text key) s_nameToModifierMap = None"
proof (cases "smap_find (<) key s_keyToNameMap")
  case None
  then have "key \<notin> snd ` set kKeyNameMap" using key_to_name [of key key] by force
  then show ?thesis using key_text_other [OF None] assms by blast
next
  case (Some e)
  then have "(snd e, key) \<in> set kKeyNameMap" using key_to_name [of key "fst e" "snd e"] by simp
  then show ?thesis using key_text_named key_not_modifier assms(3) by metis
qed

text \<open>
  A keystroke is read as it was written: for every key that has a name or is a character of 16
  bits, with any of the six modifiers that have names, the text that describes it is read back as that
  key with those modifiers. The one key this leaves out is the key AltGr.
\<close>

theorem keystroke_roundtrip:
  assumes "key \<in> snd ` set kKeyNameMap \<or> key \<le> 0xFFFF" "key \<noteq> 0xEF7E" "mods AND NOT 0x3F = 0" "key \<noteq> 0 \<or> mods \<noteq> 0"
  shows "parseKeystroke s (formatKey key mods) = Inr (key, mods)"
proof (cases "key = 0")
  case True
  then show ?thesis using parseModifiers_only [OF assms(3)] assms(4) by (simp add: parseKey_nothing parseKeystroke_def formatKey_text)
next
  case False
  then show ?thesis
    using key_text_ok [OF assms(1) False assms(2)] parseModifiers_back [OF assms(3)] by (simp add: parseKeystroke_def formatKey_text)
qed

text \<open>
  The key AltGr has the name of a modifier: alone it is read as the modifier without a key, and
  together with the modifier it is not read at all.
\<close>

theorem altgr_key_lost:
  "parseKeystroke s (formatKey 0xEF7E 0) = Inr (0, 0x20) \<and> (\<exists>e. parseKeystroke s (formatKey 0xEF7E 0x20) = Inl e)"
proof -
  have n: "(''AltGr'', 0xEF7E) \<in> set kKeyNameMap" by (simp add: kKeyNameMap_def)
  have k: "smap_find caseless_less ''AltGr'' s_nameToModifierMap = Some (''AltGr'', 0x20)"
    unfolding modifier_maps by code_simp
  have p: "part_text ''AltGr''" by (rule key_text_named(3) [OF n])
  have f: "formatModifiers 0 = []" "formatModifiers 0x20 = ''AltGr+''"
    by (simp_all add: formatModifiers_text mods_of_def mods_text_def)
  have alone: "parseModifiers ''AltGr'' = Some ([], 0x20)"
    unfolding parseModifiers_def using loop_modifier_last [OF _ p k, of 0 "''AltGr''" 0] starts_at_0 [of "''AltGr''"] by (simp add: blanks_def)
  have "drop 6 ''AltGr+AltGr'' = ''AltGr'' @ []" by simp
  note q = part_ends [OF this p]
  have "modifiers_loop ''AltGr+AltGr'' (Some 6) 0x20 = None"
    using q k by (subst modifiers_loop.simps) simp
  moreover have "0 + length ''AltGr'' + 1 = 6" by simp
  ultimately have "modifiers_loop ''AltGr+AltGr'' (Some 0) 0 = None"
    using loop_modifier [of 0 "''AltGr+AltGr''" "''AltGr''" "CHR ''A''" "''ltGr''", OF _ p _ k, of 0]
    by (simp add: blanks_def numeral_eq_Suc)
  then have "parseModifiers ''AltGr+AltGr'' = None"
    unfolding parseModifiers_def using starts_at_0 [of "''AltGr+AltGr''"] by (simp add: blanks_def)
  then show ?thesis
    using alone key_text_named(1) [OF n] f by (simp add: parseKey_nothing parseKeystroke_def formatKey_text throw_read_def)
qed

section \<open>Witness\<close>

theorem keystroke_roundtrip_witness:
  "formatKey 0xEFC0 0x03 = ''Shift+Control+F3'' \<and> parseKeystroke \<lparr>m_stream = [], m_line = 1\<rparr> ''Shift+Control+F3'' = Inr (0xEFC0, 0x03)"
proof -
  have n: "(''F3'', 0xEFC0) \<in> set kKeyNameMap" by (simp add: kKeyNameMap_def)
  then have f: "formatKey 0xEFC0 0x03 = ''Shift+Control+F3''"
    by (simp add: formatKey_text formatModifiers_text mods_of_def mods_text_def key_text_named(1))
  have "0xEFC0 \<in> snd ` set kKeyNameMap" using n by force
  then show ?thesis
    using keystroke_roundtrip [of "0xEFC0" "0x03" "\<lparr>m_stream = [], m_line = 1\<rparr>"] f by simp
qed

end
