(* ===== verification/OptionsSection.thy ===== *)
theory OptionsSection
  imports KeyNames InputFilter
begin

text \<open>
  The options section of the configuration file: how \<^verbatim>\<open>src/lib/server/Config.cpp\<close> reads and writes the
  options of the server, the address it listens on (\<^verbatim>\<open>src/lib/net/NetworkAddress.cpp\<close>) and the rules of
  the input filter, with their text from \<^verbatim>\<open>src/lib/server/InputFilter.cpp\<close>. Looking up the name of a host
  is a parameter. A rule that has an action is read back as it was written; a port, a rule without
  actions and the corners of the screen are not.
\<close>

section \<open>Addresses\<close>

datatype socket_error = kUnknown | kNotFound | kNoAddress | kUnsupported | kBadPort

fun getWhat :: "socket_error \<Rightarrow> string \<Rightarrow> int \<Rightarrow> string" where
  "getWhat kUnknown host port = ''unknown error for: '' @ host @ '':'' @ show_int port"
| "getWhat kNotFound host port = ''address not found for: '' @ host"
| "getWhat kNoAddress host port = ''no address for: '' @ host"
| "getWhat kUnsupported host port = ''unsupported address for: '' @ host"
| "getWhat kBadPort host port = ''invalid port''"

record network_address =
  na_valid :: bool
  na_hostname :: string
  na_port :: int

definition network_address_new :: network_address where
  "network_address_new = \<lparr>na_valid = False, na_hostname = [], na_port = 0\<rparr>"

text \<open>A number at the end of an address, as an \<open>int\<close>.\<close>

definition port_number :: "string \<Rightarrow> int" where
  "port_number text = sint (word_of_int (fst (strtol (c_str text))) :: 32 word)"

definition parse_address :: "string \<Rightarrow> string \<times> int \<Rightarrow> bool \<times> string \<times> int" where
  "parse_address address hp =
     (let (host, port) = hp
      in if address \<noteq> [] \<and> address ! 0 = CHR ''['' then
           (case find_first_of '']'' address 1 of
              None \<Rightarrow> (False, host, port)
            | Some e \<Rightarrow>
                let host = substr address 1 e
                in if e + 1 < length address then
                     if address ! (e + 1) \<noteq> CHR '':'' then (False, host, port)
                     else (True, host, port_number (drop (e + 2) address))
                   else (True, host, port))
         else
           (case find_first_of '':'' address 0 of
              None \<Rightarrow> (True, address, port)
            | Some colon \<Rightarrow>
                if find_first_of '':'' address (colon + 1) = None
                then (True, substr address 0 colon, port_number (drop (colon + 1) address))
                else (True, address, port)))"

definition make_network_address :: "string \<Rightarrow> int \<Rightarrow> (socket_error \<times> string \<times> int) + network_address" where
  "make_network_address hostname port =
     (let (ok, host, port) = parse_address hostname (hostname, port)
      in if \<not> ok then Inl (kUnknown, host, port)
         else if port \<le> 0 \<or> port > 65535 then Inl (kBadPort, host, port)
         else Inr \<lparr>na_valid = False, na_hostname = host, na_port = port\<rparr>)"

text \<open>\<open>lookup\<close>: what is wrong with the name of a host, if anything.\<close>

definition resolve :: "(string \<Rightarrow> socket_error option) \<Rightarrow> network_address \<Rightarrow> (socket_error \<times> string \<times> int) + network_address" where
  "resolve lookup a =
     (if na_hostname a = [] then Inr (a\<lparr>na_valid := True\<rparr>)
      else case lookup (na_hostname a) of
             Some e \<Rightarrow> Inl (e, na_hostname a, na_port a)
           | None \<Rightarrow> Inr (a\<lparr>na_valid := True\<rparr>))"

definition kDefaultPort :: int where "kDefaultPort = 24800"

definition read_address :: "(string \<Rightarrow> socket_error option) \<Rightarrow> read_context \<Rightarrow> string \<Rightarrow> read_error + network_address" where
  "read_address lookup s v =
     (case make_network_address v kDefaultPort of
        Inl (e, host, port) \<Rightarrow> throw_read s (''invalid address argument '' @ getWhat e host port) []
      | Inr a \<Rightarrow>
          case resolve lookup a of
            Inl (e, host, port) \<Rightarrow> throw_read s (''invalid address argument '' @ getWhat e host port) []
          | Inr a' \<Rightarrow> Inr a')"

section \<open>Sets of screens\<close>

type_synonym screen_names = "(string, unit) smap"

fun join_loop :: "string list \<Rightarrow> string \<Rightarrow> string" where
  "join_loop [] screens = screens"
| "join_loop (n # ns) screens = (if n = ''*'' then ''*'' else join_loop ns ((if screens = [] then '':'' else screens) @ n @ '':''))"

definition join :: "screen_names \<Rightarrow> string" where
  "join destinations = join_loop (map fst destinations) []"

function screens_loop :: "read_context \<Rightarrow> string \<Rightarrow> nat \<Rightarrow> config \<Rightarrow> screen_names \<Rightarrow> read_error + screen_names" where
  "screens_loop ctx s i c screens =
     (if i < length s then
        let j = end_at s (find_first_of '':'' s i);
            rawName = (case find_first_not_of blanks s i of
                         Some k \<Rightarrow> if k < j then strip_right blanks (substr s k j) else []
                       | None \<Rightarrow> [])
        in if rawName = ''*'' then screens_loop ctx s (j + 1) c (smap_insert str_less ''*'' () screens)
           else if rawName \<noteq> [] then
             let name = getCanonicalName rawName c
             in if name = [] then throw_read ctx ''unknown screen name \"%{1}\"'' rawName
                else screens_loop ctx s (j + 1) c (smap_insert str_less name () screens)
           else screens_loop ctx s (j + 1) c screens
      else Inr screens)"
  by pat_completeness auto

lemma end_at_after: "i < length s \<Longrightarrow> i \<le> end_at s (find_first_of cs s i)"
  by (auto simp: end_at_def find_first_of_def dest!: find_from_Some split: option.splits)

termination screens_loop
  by (relation "measure (\<lambda>(ctx, s, i, c, screens). length s - i)")
     (use end_at_after in \<open>auto intro!: diff_less_mono2 simp: le_imp_less_Suc\<close>)

declare screens_loop.simps [simp del]

definition parseScreens :: "read_context \<Rightarrow> string \<Rightarrow> config \<Rightarrow> read_error + screen_names" where
  "parseScreens ctx s c = screens_loop ctx s 0 c []"

section \<open>Reading rules\<close>

definition keystroke_info :: "read_context \<Rightarrow> string \<Rightarrow> screen_names \<Rightarrow> read_error + key_info" where
  "keystroke_info s keystroke screens =
     (case parseKeystroke s keystroke of
        Inl e \<Rightarrow> Inl e
      | Inr (key, mods) \<Rightarrow> Inr \<lparr>ki_key = key, ki_mask = mods, ki_button = 0, ki_count = 0, ki_screens = join screens\<rparr>)"

definition parseMouse :: "read_context \<Rightarrow> string \<Rightarrow> read_error + button_info" where
  "parseMouse s mouse =
     (case parseModifiers mouse of
        None \<Rightarrow> throw_read s ''unable to parse button modifiers'' []
      | Some (x, mods) \<Rightarrow>
          let (v, rest) = strtol (c_str x); button = word_of_int v :: u8
          in if rest \<noteq> [] then throw_read s ''unable to parse button'' []
             else if x = [] \<or> button = 0 then throw_read s ''invalid button'' []
             else Inr \<lparr>bi_button = button, bi_mask = mods\<rparr>)"

definition parseCondition :: "read_context \<Rightarrow> string \<Rightarrow> string list \<Rightarrow> config \<Rightarrow> read_error + filter_condition" where
  "parseCondition s name args c =
     (if name = ''keystroke'' then
        if length args \<noteq> 1 then throw_read s ''syntax for condition: keystroke(modifiers+key)'' []
        else map_sum id (\<lambda>info. KeystrokeCondition 0 (ki_key info) (ki_mask info)) (keystroke_info s (args ! 0) [])
      else if name = ''mousebutton'' then
        if length args \<noteq> 1 then throw_read s ''syntax for condition: mousebutton(modifiers+button)'' []
        else map_sum id (\<lambda>info. MouseButtonCondition (bi_button info) (bi_mask info)) (parseMouse s (args ! 0))
      else if name = ''connect'' then
        if length args \<noteq> 1 then throw_read s ''syntax for condition: connect([screen])'' []
        else
          let screen = args ! 0
          in if isScreen screen c then Inr (ScreenConnectedCondition (getCanonicalName screen c))
             else if screen \<noteq> [] then throw_read s ''unknown screen name \"%{1}\" in connect'' screen
             else Inr (ScreenConnectedCondition screen)
      else throw_read s ''unknown argument \"%{1}\"'' name)"

text \<open>The modes of the actions that lock the cursor and broadcast the keyboard.\<close>

definition parse_mode :: "string \<Rightarrow> toggle option" where
  "parse_mode arg =
     (if arg = ''off'' then Some kOff else if arg = ''on'' then Some kOn else if arg = ''toggle'' then Some kToggle else None)"

definition action_direction :: "string \<Rightarrow> EDirection option" where
  "action_direction arg =
     (if arg = ''left'' then Some kLeft else if arg = ''right'' then Some kRight
      else if arg = ''up'' then Some kTop else if arg = ''down'' then Some kBottom else None)"

definition key_action :: "read_context \<Rightarrow> string \<Rightarrow> string list \<Rightarrow> config \<Rightarrow> read_error + key_info" where
  "key_action s name args c =
     (if length args < 1 \<or> length args > 2 then throw_read s ''syntax for action: keystroke(modifiers+key[,screens])'' []
      else if length args = 1 then keystroke_info s (args ! 0) []
      else case parseScreens s (args ! 1) c of
             Inl e \<Rightarrow> Inl e
           | Inr screens \<Rightarrow> keystroke_info s (args ! 0) screens)"

definition parseAction ::
    "read_context \<Rightarrow> string \<Rightarrow> string list \<Rightarrow> rule \<Rightarrow> bool \<Rightarrow> config \<Rightarrow> read_error + (rule \<times> config)" where
  "parseAction s name args r activate c =
     (if name = ''keystroke'' \<or> name = ''keyDown'' \<or> name = ''keyUp'' then
        (case key_action s name args c of
           Inl e \<Rightarrow> Inl e
         | Inr info \<Rightarrow>
             if name = ''keystroke'' then Inr (adoptAction (KeystrokeAction info False) False (adoptAction (KeystrokeAction info True) True r), c)
             else Inr (adoptAction (KeystrokeAction info (name = ''keyDown'')) activate r, c))
      else if name = ''mousebutton'' \<or> name = ''mouseDown'' \<or> name = ''mouseUp'' then
        if length args \<noteq> 1 then throw_read s ''syntax for action: mousebutton(modifiers+button)'' []
        else
          (case parseMouse s (args ! 0) of
             Inl e \<Rightarrow> Inl e
           | Inr info \<Rightarrow>
               if name = ''mousebutton'' then Inr (adoptAction (MouseButtonAction info False) False (adoptAction (MouseButtonAction info True) True r), c)
               else Inr (adoptAction (MouseButtonAction info (name = ''mouseDown'')) activate r, c))
      else if name = ''switchToScreen'' then
        if length args \<noteq> 1 then throw_read s ''syntax for action: switchToScreen(name)'' []
        else
          let screen = args ! 0
          in if isScreen screen c then Inr (adoptAction (SwitchToScreenAction (getCanonicalName screen c)) activate r, c)
             else if screen \<noteq> [] then throw_read s ''unknown screen name in switchToScreen'' []
             else Inr (adoptAction (SwitchToScreenAction screen) activate r, c)
      else if name = ''toggleScreen'' then Inr (adoptAction ToggleScreenAction activate r, c)
      else if name = ''switchInDirection'' then
        if length args \<noteq> 1 then throw_read s ''syntax for action: switchInDirection(<left|right|up|down>)'' []
        else
          (case action_direction (args ! 0) of
             None \<Rightarrow> throw_read s ''unknown direction \"%{1}\" in switchToScreen'' (args ! 0)
           | Some dir \<Rightarrow> Inr (adoptAction (SwitchInDirectionAction dir) activate r, c))
      else if name = ''lockCursorToScreen'' then
        if length args > 1 then throw_read s ''syntax for action: lockCursorToScreen([{off|on|toggle}])'' []
        else
          (case if length args = 1 then parse_mode (args ! 0) else Some kToggle of
             None \<Rightarrow> throw_read s ''syntax for action: lockCursorToScreen([{off|on|toggle}])'' []
           | Some mode \<Rightarrow>
               Inr (adoptAction (LockCursorToScreenAction mode) activate r,
                    if mode \<noteq> kOff then c\<lparr>m_hasLockToScreenAction := True\<rparr> else c))
      else if name = ''keyboardBroadcast'' then
        if length args > 2 then throw_read s ''syntax for action: keyboardBroadcast([{off|on|toggle}[,screens]])'' []
        else
          (case if length args \<ge> 1 then parse_mode (args ! 0) else Some kToggle of
             None \<Rightarrow> throw_read s ''syntax for action: keyboardBroadcast([{off|on|toggle}[,screens]])'' []
           | Some mode \<Rightarrow>
               case if length args \<ge> 2 then parseScreens s (args ! 1) c else Inr [] of
                 Inl e \<Rightarrow> Inl e
               | Inr screens \<Rightarrow> Inr (adoptAction (KeyboardBroadcastAction mode (join screens)) activate r, c))
      else throw_read s ''unknown action argument \"%{1}\"'' name)"

text \<open>The position after a name and its arguments.\<close>

lemma blank_found: "find_first_not_of cs line k = Some i \<Longrightarrow> k \<le> i \<and> i < length line"
  by (auto simp: find_first_not_of_def dest!: find_from_Some)

lemma parse_args_index: "parse_args line k = Some (args, j) \<Longrightarrow> k \<le> j \<and> j < length line"
proof (induction line k arbitrary: args j rule: parse_args.induct)
  case (1 line k)
  from "1.prems" obtain m where m: "find_first_of '',)'' line k = Some m" by (auto simp: parse_args.simps [of line k] split: option.splits)
  then have km: "k \<le> m" "m < length line" by (auto simp: find_first_of_def dest!: find_from_Some)
  show ?case
  proof (cases "line ! m = CHR '')''")
    case False
    with "1.prems" m obtain as where "parse_args line (m + 1) = Some (as, j)"
      by (auto simp: parse_args.simps [of line k])
    from "1.IH" [OF m refl False this] km show ?thesis by simp
  qed (use "1.prems" m km in \<open>auto simp: parse_args.simps [of line k]\<close>)
qed

lemma parseNameWithArgs_index:
  assumes "parseNameWithArgs s type line delim index = Inr (name, args, i)"
  shows "index \<le> i \<and> i \<le> length line"
proof -
  obtain i0 where i0: "find_first_not_of blanks line index = Some i0"
    using assms by (auto simp: parseNameWithArgs_def throw_read_def split: option.splits)
  define j where "j = end_at line (find_first_of (blanks @ CHR ''('' # delim) line i0)"
  have a: "index \<le> i0" "i0 < length line" using blank_found [OF i0] by auto
  then have "i0 \<le> j" unfolding j_def by (intro end_at_after)
  show ?thesis
  proof (cases "find_first_not_of blanks line j")
    case None
    then show ?thesis using assms i0 a
      by (auto simp: parseNameWithArgs_def Let_def j_def [symmetric] throw_read_def split: if_splits)
  next
    case (Some i1)
    note b = blank_found [OF Some]
    show ?thesis
    proof (cases "line ! i1 = CHR ''(''")
      case False
      then have "i = i1" using assms i0 Some by (simp add: parseNameWithArgs_def Let_def j_def [symmetric])
      then show ?thesis using a \<open>i0 \<le> j\<close> b by simp
    next
      case True
      obtain as k where k: "parse_args line (i1 + 1) = Some (as, k)"
        using assms i0 Some True by (auto simp: parseNameWithArgs_def Let_def j_def [symmetric] throw_read_def split: option.splits)
      have "i = (case find_first_not_of blanks line (Suc k) of None \<Rightarrow> length line | Some m \<Rightarrow> m)"
        using assms i0 Some True k
        by (cases "find_first_not_of blanks line (Suc k)")
           (auto simp: parseNameWithArgs_def Let_def j_def [symmetric] throw_read_def split: if_splits)
      then show ?thesis
        using a \<open>i0 \<le> j\<close> b parse_args_index [OF k] blank_found [of blanks line "Suc k"] by (auto split: option.splits)
    qed
  qed
qed

text \<open>What the section fills in.\<close>

record options_state =
  os_config :: config
  input_filter_rules :: "rule list"
  listen_address :: network_address

function activate_loop :: "read_context \<Rightarrow> string \<Rightarrow> nat \<Rightarrow> rule \<Rightarrow> config \<Rightarrow> read_error + (rule \<times> config \<times> nat)" where
  "activate_loop s line i r c =
     (if i < length line \<and> line ! i \<noteq> CHR '';'' then
        case parseNameWithArgs s ''value'' line [CHR '','', CHR '';'', CHR 0x0A] (i + 1) of
          Inl e \<Rightarrow> Inl e
        | Inr (v, args, j) \<Rightarrow>
            case parseAction s v args r True c of
              Inl e \<Rightarrow> Inl e
            | Inr (r', c') \<Rightarrow> activate_loop s line j r' c'
      else Inr (r, c, i))"
  by pat_completeness auto
termination
  by (relation "measure (\<lambda>(s, line, i, r, c). length line - i)") (auto dest!: parseNameWithArgs_index)

function deactivate_loop :: "read_context \<Rightarrow> string \<Rightarrow> nat \<Rightarrow> rule \<Rightarrow> config \<Rightarrow> read_error + (rule \<times> config)" where
  "deactivate_loop s line i r c =
     (if i < length line then
        case parseNameWithArgs s ''value'' line [CHR '','', CHR 0x0A] (i + 1) of
          Inl e \<Rightarrow> Inl e
        | Inr (v, args, j) \<Rightarrow>
            case parseAction s v args r False c of
              Inl e \<Rightarrow> Inl e
            | Inr (r', c') \<Rightarrow> deactivate_loop s line j r' c'
      else Inr (r, c))"
  by pat_completeness auto
termination
  by (relation "measure (\<lambda>(s, line, i, r, c). length line - i)") (auto dest!: parseNameWithArgs_index)

declare activate_loop.simps [simp del] deactivate_loop.simps [simp del]

text \<open>
  The rest of a line that is a rule, from the position \<open>i\<close> after its first value. A position at the
  end of the line reads the null character there.
\<close>

definition rule_line ::
    "read_context \<Rightarrow> string \<Rightarrow> string \<Rightarrow> string list \<Rightarrow> string \<Rightarrow> string list \<Rightarrow> nat \<Rightarrow> config \<Rightarrow> read_error + (rule \<times> config)" where
  "rule_line s line name nameArgs v valueArgs i c =
     (case parseCondition s name nameArgs c of
        Inl e \<Rightarrow> Inl e
      | Inr cond \<Rightarrow>
          case if v \<noteq> [] \<or> \<not> (i < length line \<and> line ! i = CHR '';'')
               then parseAction s v valueArgs (rule_new (Some cond)) True c else Inr (rule_new (Some cond), c) of
            Inl e \<Rightarrow> Inl e
          | Inr (r1, c1) \<Rightarrow>
              case activate_loop s line i r1 c1 of
                Inl e \<Rightarrow> Inl e
              | Inr (r2, c2, k) \<Rightarrow>
                  if k < length line \<and> line ! k = CHR '';''
                  then deactivate_loop s line (case find_first_not_of blanks line (k + 1) of None \<Rightarrow> length line | Some m \<Rightarrow> m - 1) r2 c2
                  else Inr (r2, c2))"

definition options_line ::
    "(string \<Rightarrow> socket_error option) \<Rightarrow> read_context \<Rightarrow> string \<Rightarrow> options_state \<Rightarrow> read_error + options_state" where
  "options_line lookup s line st =
     (case parseNameWithArgs s ''name'' line ''='' 0 of
        Inl e \<Rightarrow> Inl e
      | Inr (name, nameArgs, i0) \<Rightarrow>
          case parseNameWithArgs s ''value'' line [CHR '','', CHR '';'', CHR 0x0A] (i0 + 1) of
            Inl e \<Rightarrow> Inl e
          | Inr (v, valueArgs, i) \<Rightarrow>
              let handled = (if i < length line \<and> (line ! i = CHR '','' \<or> line ! i = CHR '';'')
                             then (\<lambda>_. throw_read s ''to many arguments to %s'' name) else Inr)
              in if name = ''address'' then
                   (case read_address lookup s v of
                      Inl e \<Rightarrow> Inl e
                    | Inr a \<Rightarrow> handled (st\<lparr>listen_address := a\<rparr>))
                 else
                   case server_option s name v of
                     Some opt \<Rightarrow>
                       (case add_option [] opt (os_config st) of
                          Inl e \<Rightarrow> Inl e
                        | Inr c \<Rightarrow> handled (st\<lparr>os_config := c\<rparr>))
                   | None \<Rightarrow>
                       (case rule_line s line name nameArgs v valueArgs i (os_config st) of
                          Inl e \<Rightarrow> Inl e
                        | Inr (r, c) \<Rightarrow> Inr (st\<lparr>os_config := c, input_filter_rules := input_filter_rules st @ [rule_copy r]\<rparr>)))"

function options_loop ::
    "(string \<Rightarrow> socket_error option) \<Rightarrow> read_context \<Rightarrow> options_state \<Rightarrow> read_error + (options_state \<times> read_context)" where
  "options_loop lookup s st =
     (case readLine s of
        Inl e \<Rightarrow> Inl e
      | Inr None \<Rightarrow> throw_read (s\<lparr>m_line := m_line s + 1\<rparr>) ''unexpected end of options section'' []
      | Inr (Some (line, s')) \<Rightarrow>
          if line = ''end'' then Inr (st, s')
          else case options_line lookup s' line st of
                 Inl e \<Rightarrow> Inl e
               | Inr st' \<Rightarrow> options_loop lookup s' st')"
  by auto
termination
  by (relation "measure (\<lambda>(lookup, s, st). length (m_stream s))") (auto dest: readLine_shorter)

declare options_loop.simps [simp del]

definition readSectionOptions ::
    "(string \<Rightarrow> socket_error option) \<Rightarrow> read_context \<Rightarrow> options_state \<Rightarrow> read_error + (options_state \<times> read_context)" where
  "readSectionOptions lookup s st = options_loop lookup s st"

section \<open>Writing the section\<close>

definition mouse_condition_format :: "u8 \<Rightarrow> u32 \<Rightarrow> string" where
  "mouse_condition_format button mods =
     (let key = formatKey 0 mods
      in ''mousebutton('' @ (if key \<noteq> [] then key @ ''+'' else key) @ show_int (uint button) @ '')'')"

fun condition_format :: "filter_condition \<Rightarrow> string" where
  "condition_format (KeystrokeCondition i key mods) = ''keystroke('' @ formatKey key mods @ '')''"
| "condition_format (MouseButtonCondition button mods) = mouse_condition_format button mods"
| "condition_format (ScreenConnectedCondition screen) = ''connect('' @ c_str screen @ '')''"

fun mode_name :: "toggle \<Rightarrow> string" where
  "mode_name kOff = ''off''"
| "mode_name kOn = ''on''"
| "mode_name kToggle = ''toggle''"

fun direction_name :: "EDirection \<Rightarrow> string" where
  "direction_name kNoDirection = []"
| "direction_name kLeft = ''left''"
| "direction_name kRight = ''right''"
| "direction_name kTop = ''up''"
| "direction_name kBottom = ''down''"

definition broadcast_format :: "toggle \<Rightarrow> string \<Rightarrow> string" where
  "broadcast_format mode screens =
     (if screens = [] \<or> screens ! 0 = CHR ''*'' then ''keyboardBroadcast('' @ mode_name mode @ '')''
      else ''keyboardBroadcast('' @ mode_name mode @ '','' @ c_str (take (length screens - 2) (drop 1 screens)) @ '')'')"

definition keystroke_format :: "key_info \<Rightarrow> bool \<Rightarrow> string" where
  "keystroke_format info press =
     (if press then ''keyDown'' else ''keyUp'') @ ''('' @ formatKey (ki_key info) (ki_mask info) @
     (if ki_screens info = [] then [] else if ki_screens info = ''*'' then '',*'' else '','' @ c_str (ki_screens info)) @ '')''"

definition mouse_format :: "button_info \<Rightarrow> bool \<Rightarrow> string" where
  "mouse_format info press =
     (let key = formatKey 0 (bi_mask info)
      in (if press then ''mouseDown'' else ''mouseUp'') @ ''('' @ key @ (if key = [] then [] else ''+'') @ show_int (uint (bi_button info)) @ '')'')"

fun action_format :: "filter_action \<Rightarrow> string" where
  "action_format (LockCursorToScreenAction mode) = ''lockCursorToScreen('' @ mode_name mode @ '')''"
| "action_format (SwitchToScreenAction screen) = ''switchToScreen('' @ c_str screen @ '')''"
| "action_format ToggleScreenAction = ''toggleScreen''"
| "action_format (SwitchInDirectionAction dir) = ''switchInDirection('' @ direction_name dir @ '')''"
| "action_format (KeyboardBroadcastAction mode screens) = broadcast_format mode screens"
| "action_format (KeystrokeAction info press) = keystroke_format info press"
| "action_format (MouseButtonAction info press) = mouse_format info press"

lemmas format_defs = mouse_condition_format_def broadcast_format_def keystroke_format_def mouse_format_def

fun actions_format :: "filter_action list \<Rightarrow> string" where
  "actions_format [] = []"
| "actions_format (a # as) = action_format a @ concat (map (\<lambda>a. '', '' @ action_format a) as)"

definition rule_format :: "rule \<Rightarrow> string" where
  "rule_format r =
     (case r_condition r of
        None \<Rightarrow> []
      | Some cond \<Rightarrow>
          condition_format cond @ '' = '' @ actions_format (r_activate r) @
          (if r_deactivate r \<noteq> [] then ''; '' @ actions_format (r_deactivate r) else []))"

definition format_rules :: "rule list \<Rightarrow> string \<Rightarrow> string" where
  "format_rules rules line_prefix = concat (map (\<lambda>r. line_prefix @ rule_format r @ [CHR 0x0A]) rules)"

definition are_rules_equal :: "rule list \<Rightarrow> rule list \<Rightarrow> bool" where
  "are_rules_equal rules1 rules2 \<longleftrightarrow>
     length rules1 = length rules2 \<and>
     sort_key str_key (map rule_format rules1) = sort_key str_key (map rule_format rules2)"

text \<open>The lines of the options, the address and the rules, from the output of a configuration.\<close>

definition write_option :: "OptionID \<times> OptionValue \<Rightarrow> string" where
  "write_option opt =
     (case getOptionName (fst opt) of
        None \<Rightarrow> []
      | Some name \<Rightarrow>
          let v = getOptionValue (fst opt) (snd opt)
          in if v \<noteq> [] then [CHR 0x09] @ name @ '' = '' @ v @ [CHR 0x0A] else [])"

definition write_address :: "network_address \<Rightarrow> string" where
  "write_address a = (if na_valid a then [CHR 0x09] @ ''address = '' @ c_str (na_hostname a) @ [CHR 0x0A] else [])"

definition write_options :: "options_state \<Rightarrow> string" where
  "write_options st =
     concat (map write_option (m_globalOptions (os_config st))) @ write_address (listen_address st) @
     format_rules (input_filter_rules st) [CHR 0x09] @ ''end'' @ [CHR 0x0A]"

end
