(* ===== verification/OptionsRoundTrip.thy ===== *)
theory OptionsRoundTrip
  imports OptionsSection
begin

text \<open>
  What is written into the options section and read from it again: the rules of the input filter survive
  (the text of a rule, its parts, the lines and the section), and so do the options that are one word. The
  corners of the screen, the port of the address and a rule without actions do not.
\<close>

section \<open>Reading a name with arguments\<close>

lemma drop_after: "drop b line = x @ y \<Longrightarrow> drop (b + length x) line = y"
  by (metis add.commute append_eq_conv_conj drop_drop)

lemma drop_inside: "drop b line = x \<Longrightarrow> x \<noteq> [] \<Longrightarrow> b < length line"
  by (cases "b < length line") simp_all

text \<open>The first character outside a set, and the first inside it.\<close>

lemma skip_found:
  assumes "drop b line = sp @ c # r" "set sp \<subseteq> set cs" "c \<notin> set cs"
  shows "find_first_not_of cs line b = Some (b + length sp)"
  unfolding find_first_not_of_def using assms by (intro find_from_at [of b line sp c r]) auto

lemma skip_none: "set (drop b line) \<subseteq> set cs \<Longrightarrow> find_first_not_of cs line b = None"
  unfolding find_first_not_of_def by (intro find_from_end) auto

lemma stop_found:
  assumes "drop b line = n @ c # r" "set n \<inter> set cs = {}" "c \<in> set cs"
  shows "find_first_of cs line b = Some (b + length n)"
  unfolding find_first_of_def using assms by (intro find_from_at [of b line n c r]) auto

lemma stop_at:
  assumes "drop b line = n @ r" "set n \<inter> set cs = {}" "r = [] \<or> hd r \<in> set cs" "b \<le> length line"
  shows "end_at line (find_first_of cs line b) = b + length n"
proof (cases r)
  case Nil
  then have "find_first_of cs line b = None" unfolding find_first_of_def using assms by (intro find_from_end) auto
  moreover have "length line = b + length n" using arg_cong [OF assms(1), of length] Nil assms(4) by simp
  ultimately show ?thesis by (simp add: end_at_def)
next
  case (Cons c r')
  then show ?thesis using stop_found [of b line n c r' cs] assms by (simp add: end_at_def)
qed

definition plain_arg :: "string \<Rightarrow> bool" where
  "plain_arg a \<longleftrightarrow> set a \<inter> set (blanks @ '',)'') = {}"

lemma trim_arg_plain: "plain_arg a \<Longrightarrow> trim_arg a = a"
proof -
  assume p: "plain_arg a"
  show ?thesis
  proof (cases a)
    case Nil
    have "find_first_not_of blanks [] 0 = None" by (rule skip_none) simp
    then show ?thesis using Nil by (simp add: trim_arg_def strip_left_def strip_right_def find_last_not_of_def)
  next
    case (Cons c r)
    then have "find_first_not_of blanks a 0 = Some 0" using skip_found [of 0 a "[]" c r blanks] p by (simp add: plain_arg_def)
    moreover have "dropWhile (\<lambda>c. c \<in> set blanks) (rev a) = rev a"
      using p Cons by (auto simp: dropWhile_eq_self_iff hd_rev plain_arg_def simp del: rev.simps) (meson disjoint_iff last_in_set list.distinct(1))
    ultimately show ?thesis using Cons by (simp add: trim_arg_def strip_left_def strip_right_def find_last_not_of_def)
  qed
qed

fun args_text :: "string list \<Rightarrow> string" where
  "args_text [] = []"
| "args_text [a] = a"
| "args_text (a # b # as) = a @ '','' @ args_text (b # as)"

lemma parse_args_text:
  "drop b line = args_text args @ CHR '')'' # rest \<Longrightarrow> args \<noteq> [] \<Longrightarrow> list_all plain_arg args \<Longrightarrow>
     parse_args line b = Some (args, b + length (args_text args))"
proof (induction args arbitrary: b rule: args_text.induct)
  case (2 a)
  have "find_first_of '',)'' line b = Some (b + length a)"
    using 2 by (intro stop_found [of b line a "CHR '')''" rest]) (auto simp: plain_arg_def)
  moreover have "line ! (b + length a) = CHR '')''" using nth_via_drop [OF drop_after [of b line a]] 2(1) by simp
  moreover have "substr line b (b + length a) = a" using 2(1) by (simp add: substr_def)
  ultimately show ?case using 2 by (subst parse_args.simps) (simp add: trim_arg_plain)
next
  case (3 a a' as)
  have "find_first_of '',)'' line b = Some (b + length a)"
    using 3 by (intro stop_found [of b line a "CHR '',''" "args_text (a' # as) @ CHR '')'' # rest"]) (auto simp: plain_arg_def)
  moreover have d: "drop (b + length a) line = CHR '','' # args_text (a' # as) @ CHR '')'' # rest"
    using drop_after [of b line a] "3.prems"(1) by simp
  moreover have "line ! (b + length a) = CHR '',''" using nth_via_drop [OF d] .
  moreover have "drop (b + length a + 1) line = args_text (a' # as) @ CHR '')'' # rest"
    using drop_after [of "b + length a" line "'',''"] d by simp
  moreover have "substr line b (b + length a) = a" using "3.prems"(1) by (simp add: substr_def)
  ultimately show ?case using 3 by (subst parse_args.simps) (simp add: trim_arg_plain ac_simps)
qed simp

text \<open>A delimiter is needed unless the end of the line is one.\<close>

definition need_delim :: "string \<Rightarrow> bool" where
  "need_delim delim \<longleftrightarrow> delim \<noteq> [] \<and> CHR 0x0A \<notin> set delim"

lemma parse_call:
  assumes "drop b line = sp @ name @ CHR ''('' # args_text args @ CHR '')'' # sp' @ rest" "set sp \<subseteq> set blanks" "set sp' \<subseteq> set blanks"
    "name \<noteq> []" "set name \<inter> set (blanks @ ''('' @ delim) = {}" "args \<noteq> []" "list_all plain_arg args"
    "rest = [] \<and> \<not> need_delim delim \<or> rest \<noteq> [] \<and> hd rest \<notin> set blanks \<and> (need_delim delim \<longrightarrow> hd rest \<in> set delim)"
  shows "\<exists>i. parseNameWithArgs s type line delim b = Inr (name, args, i) \<and> drop i line = rest \<and> i \<le> length line"
proof -
  let ?i = "b + length sp" let ?j = "?i + length name" let ?k = "?j + 1 + length (args_text args)"
  obtain c n where n: "name = c # n" "c \<notin> set blanks" using assms(4,5) by (cases name) auto
  have 1: "find_first_not_of blanks line b = Some ?i"
    using assms(1,2) n by (intro skip_found [of b line sp c "n @ CHR ''('' # args_text args @ CHR '')'' # sp' @ rest"]) auto
  have di: "drop ?i line = name @ CHR ''('' # args_text args @ CHR '')'' # sp' @ rest" using drop_after [OF assms(1)] .
  have 2: "end_at line (find_first_of (blanks @ ''('' @ delim) line ?i) = ?j"
    using stop_found [OF di assms(5)] by (simp add: end_at_def)
  have dj: "drop ?j line = CHR ''('' # args_text args @ CHR '')'' # sp' @ rest" using drop_after [OF di] .
  have 3: "find_first_not_of blanks line ?j = Some ?j"
    using skip_found [of ?j line "[]" "CHR ''(''"] dj by (simp add: blanks_def)
  have dj1: "drop (?j + 1) line = args_text args @ CHR '')'' # sp' @ rest" using drop_after [of ?j line "''(''"] dj by simp
  have 4: "parse_args line (?j + 1) = Some (args, ?k)" using parse_args_text [OF dj1 assms(6,7)] by simp
  have dk: "drop (?k + 1) line = sp' @ rest"
    using drop_after [of "?j + 1" line "args_text args @ '')''"] dj1 by (simp add: ac_simps)
  have sub: "substr line ?i ?j = name" using di by (simp add: substr_def)
  have paren: "line ! ?j = CHR ''(''" using nth_via_drop [OF dj] .
  show ?thesis
  proof (cases rest)
    case Nil
    then have "find_first_not_of blanks line (?k + 1) = None" using dk assms(3) by (intro skip_none) simp
    moreover have "\<not> need_delim delim" using assms(8) Nil by simp
    ultimately have "parseNameWithArgs s type line delim b = Inr (name, args, length line)"
      unfolding parseNameWithArgs_def Let_def 1 option.case 2 3 sub using 4 paren by (auto simp: need_delim_def)
    then show ?thesis using Nil by auto
  next
    case (Cons d r)
    then have d: "d \<notin> set blanks" "need_delim delim \<longrightarrow> d \<in> set delim" using assms(8) by auto
    have f: "find_first_not_of blanks line (?k + 1) = Some (?k + 1 + length sp')"
      using dk Cons assms(3) d(1) by (intro skip_found [of _ line sp' d r]) auto
    have dr: "drop (?k + 1 + length sp') line = d # r" using drop_after [of "?k + 1" line sp' rest] dk Cons by simp
    have "line ! (?k + 1 + length sp') = d" using nth_via_drop [OF dr] .
    then have "parseNameWithArgs s type line delim b = Inr (name, args, ?k + 1 + length sp')"
      unfolding parseNameWithArgs_def Let_def 1 option.case 2 3 sub using 4 paren f d(2) by (auto simp: need_delim_def)
    then show ?thesis using dr Cons drop_inside [OF dr] by (intro exI [of _ "?k + 1 + length sp'"]) simp
  qed
qed

lemma parse_word:
  assumes "drop b line = sp @ name @ rest" "set sp \<subseteq> set blanks" "set name \<inter> set (blanks @ ''('' @ delim) = {}"
    "rest = [] \<and> name \<noteq> [] \<and> \<not> need_delim delim \<or> rest \<noteq> [] \<and> hd rest \<notin> set (blanks @ ''('') \<and> hd rest \<in> set delim"
  shows "\<exists>i. parseNameWithArgs s type line delim b = Inr (name, [], i) \<and> drop i line = rest \<and> i \<le> length line"
proof -
  let ?i = "b + length sp" let ?j = "?i + length name"
  have "\<exists>c r. name @ rest = c # r \<and> c \<notin> set blanks"
    using assms(3,4) by (cases name; cases rest) auto
  then obtain c r where cr: "name @ rest = c # r" "c \<notin> set blanks" by blast
  have 1: "find_first_not_of blanks line b = Some ?i" using assms(1,2) cr by (intro skip_found [of b line sp c r]) auto
  have di: "drop ?i line = name @ rest" using drop_after [OF assms(1)] .
  then have "?i \<le> length line" using drop_inside [OF di] cr by simp
  with di assms(3,4) have 2: "end_at line (find_first_of (blanks @ ''('' @ delim) line ?i) = ?j"
    by (intro stop_at [of _ line name rest]) auto
  have dj: "drop ?j line = rest" using drop_after [OF di] .
  have sub: "substr line ?i ?j = name" using di by (simp add: substr_def)
  show ?thesis
  proof (cases rest)
    case Nil
    then have 3: "find_first_not_of blanks line ?j = None" using dj by (intro skip_none) simp
    have "parseNameWithArgs s type line delim b = Inr (name, [], length line)"
      unfolding parseNameWithArgs_def Let_def 1 option.case 2 3 sub using assms(4) Nil by (auto simp: need_delim_def)
    then show ?thesis using Nil by auto
  next
    case (Cons d r')
    then have d: "d \<notin> set blanks" "d \<noteq> CHR ''(''" using assms(4) by auto
    have 3: "find_first_not_of blanks line ?j = Some ?j" using skip_found [of ?j line "[]" d r'] dj Cons d(1) by simp
    have "line ! ?j = d" using nth_via_drop [of ?j line d r'] dj Cons by simp
    then have "parseNameWithArgs s type line delim b = Inr (name, [], ?j)"
      unfolding parseNameWithArgs_def Let_def 1 option.case 2 3 sub using d(2) by simp
    then show ?thesis using dj Cons drop_inside [OF dj] by (intro exI [of _ ?j]) simp
  qed
qed

section \<open>The parts of a rule\<close>

text \<open>The characters of names and arguments.\<close>

definition text_char :: "char \<Rightarrow> bool" where
  "text_char c \<longleftrightarrow> wordchar c \<or> c \<in> set [CHR 0x5C, CHR ''+'', CHR ''-'', CHR ''.'', CHR '':'', CHR ''*'']"

lemma text_char_kinds:
  assumes "text_char c"
  shows "isgraph c" "c \<notin> set (blanks @ ''(),;=#'')" "c \<noteq> CHR 0x0A" "c \<noteq> CHR 0x0D" "c \<noteq> CHR 0x00"
  using assms by (auto simp: text_char_def wordchar_def isalnum_def isgraph_def blanks_def Let_def)

lemma text_plain: "list_all text_char a \<Longrightarrow> plain_arg a"
  using text_char_kinds(2) by (fastforce simp: plain_arg_def list_all_iff)

lemma text_c_str: "list_all text_char a \<Longrightarrow> c_str a = a"
  using text_char_kinds(5) by (auto simp: c_str_def takeWhile_eq_all_conv list_all_iff)

text \<open>Keystrokes and mouse buttons.\<close>

definition keystroke_ok :: "u32 \<Rightarrow> u32 \<Rightarrow> bool" where
  "keystroke_ok key mods \<longleftrightarrow>
     (key \<in> snd ` set kKeyNameMap \<or> key \<le> 0xFFFF) \<and> key \<noteq> 0xEF7E \<and> mods AND NOT 0x3F = 0 \<and> (key \<noteq> 0 \<or> mods \<noteq> 0)"

lemma unnamed_alnum: "33 \<le> k \<Longrightarrow> k < 127 \<Longrightarrow> k \<in> set (map (unat \<circ> snd) kKeyNameMap) \<or> isalnum (char_of k)"
proof -
  have "list_all (\<lambda>k. k \<in> set (map (unat \<circ> snd) kKeyNameMap) \<or> isalnum (char_of k)) [33..<127]"
    unfolding kKeyNameMap_def by (simp add: upt_rec isalnum_def)
  then show "33 \<le> k \<Longrightarrow> k < 127 \<Longrightarrow> k \<in> set (map (unat \<circ> snd) kKeyNameMap) \<or> isalnum (char_of k)"
    unfolding list_all_iff set_upt using atLeastLessThan_iff by blast
qed

lemma key_text_chars: "list_all text_char (key_text key)"
proof (cases "smap_find (<) key s_keyToNameMap")
  case (Some e)
  then have "(snd e, key) \<in> set kKeyNameMap" using key_to_name [of key "fst e" "snd e"] by simp
  from key_text_named(1) [OF this] name_shape [OF this] show ?thesis by (auto simp: list_all_iff text_char_def)
next
  case None
  show ?thesis
  proof (cases "33 \<le> key \<and> key < 127")
    case True
    then have "33 \<le> unat key" "unat key < 127" by (auto simp: word_le_nat_alt word_less_nat_alt)
    moreover have "unat key \<notin> set (map (unat \<circ> snd) kKeyNameMap)"
    proof
      assume "unat key \<in> set (map (unat \<circ> snd) kKeyNameMap)"
      then obtain n where "(n, key) \<in> set kKeyNameMap" by (auto simp: word_unat_eq_iff [symmetric])
      then show False using key_to_name [of key key n] None by simp
    qed
    ultimately have "isalnum (char_of (unat key))" using unnamed_alnum [of "unat key"] by blast
    then show ?thesis using None True by (simp add: key_text_def text_char_def wordchar_def)
  next
    case False
    have "list_all text_char (show_hex4 (unat key))"
      using show_hex4_text(2) [of "unat key"] isxdigit_chars by (auto simp: list_all_iff text_char_def wordchar_def)
    then show ?thesis using None False by (auto simp: key_text_def text_char_def wordchar_def isalnum_def)
  qed
qed

lemma formatModifiers_chars: "list_all text_char (formatModifiers mods)"
proof -
  have "list_all (\<lambda>(name, m). list_all text_char (name @ ''+'')) (mods_of mods)"
    unfolding mods_of_def by (auto simp: list_all_iff text_char_def wordchar_def isalnum_def)
  then show ?thesis unfolding formatModifiers_text mods_text_def by (fastforce simp: list_all_iff)
qed

lemma formatKey_chars: "list_all text_char (formatKey key mods)"
  using key_text_chars formatModifiers_chars [of mods] by (auto simp: formatKey_text list_all_iff dest: in_set_butlastD)

text \<open>The text of a mouse button, in a condition and in an action.\<close>

definition button_text :: "u8 \<Rightarrow> u32 \<Rightarrow> string" where
  "button_text button mods = formatModifiers mods @ show_nat (unat button)"

lemma show_byte: "show_int (uint (button :: u8)) = show_nat (unat button)"
  by (simp add: show_int_def)

lemma modifiers_plus: "formatModifiers mods = [] \<and> formatKey 0 mods = [] \<or> formatKey 0 mods \<noteq> [] \<and> formatKey 0 mods @ ''+'' = formatModifiers mods"
proof (cases "mods_of mods" rule: rev_cases)
  case Nil
  then show ?thesis by (simp add: formatKey_text formatModifiers_text mods_text_def)
next
  case (snoc es e)
  obtain n m where e: "e = (n, m)" by (cases e)
  then have "n \<noteq> []" using mods_of_known(1) [of n m mods] snoc by (simp add: part_text_def)
  then show ?thesis using snoc e by (simp add: formatKey_text formatModifiers_text mods_text_def butlast_append)
qed

lemma button_chars: "list_all text_char (button_text button mods)"
  using formatModifiers_chars [of mods] show_nat_digits [of "unat button"]
  by (auto simp: button_text_def list_all_iff text_char_def wordchar_def isalnum_def isdigit_def Let_def)

lemma parseMouse_text:
  assumes "button \<noteq> 0" "mods AND NOT 0x3F = 0"
  shows "parseMouse s (button_text button mods) = Inr \<lparr>bi_button = button, bi_mask = mods\<rparr>"
proof -
  let ?t = "show_nat (unat button)"
  obtain c r where t: "?t = c # r" using show_nat_nonempty [of "unat button"] by (cases ?t) auto
  have c: "isdigit c" using show_nat_digits [of "unat button"] t by simp
  have p: "part_text ?t" using show_nat_nonempty show_nat_digits [of "unat button"]
    by (auto simp: part_text_def list_all_iff blanks_def isdigit_def Let_def)
  have "fold_name ?t \<notin> set (map (fold_name \<circ> fst) kModifierNameMap)"
    using c unfolding t kModifierNameMap_def by (auto simp: fold_name_def tolower_def isdigit_def Let_def split: if_splits)
  then have m: "parseModifiers (button_text button mods) = Some (?t, mods)"
    unfolding button_text_def by (intro parseModifiers_back [OF assms(2) p]) (rule is_modifier [THEN iffD2])
  have "c_str ?t = ?t" using c_str_show_int [of "uint button"] show_byte [of button] by simp
  moreover have "strtol ?t = (int (unat button), [])" using strtol_show_nat(1) [of "unat button"] uint_bounded [of button] by simp
  ultimately show ?thesis using m assms(1) show_nat_nonempty by (simp add: parseMouse_def)
qed

text \<open>Names of screens, alone and in sets.\<close>

definition screen_ok :: "config \<Rightarrow> string \<Rightarrow> bool" where
  "screen_ok c n \<longleftrightarrow> (if n = [] then \<not> isScreen n c else isValidScreenName n \<and> getCanonicalName n c = n)"

lemma valid_name_chars: "valid_name n \<Longrightarrow> n \<noteq> [] \<and> list_all (\<lambda>c. wordchar c \<or> c = CHR ''-'' \<or> c = CHR ''.'') n"
  by (induction rule: valid_name.induct) (auto simp: name_part_def list_all_iff)

lemma screen_chars:
  assumes "screen_ok c n"
  shows "list_all text_char n" "CHR '':'' \<notin> set n" "n \<noteq> ''*''"
proof -
  have a: "list_all (\<lambda>c. wordchar c \<or> c = CHR ''-'' \<or> c = CHR ''.'') n"
    using assms isValidScreenName_grammar [of n] valid_name_chars [of n] by (cases "n = []") (auto simp: screen_ok_def)
  then show "list_all text_char n" by (auto simp: list_all_iff text_char_def)
  show "CHR '':'' \<notin> set n" "n \<noteq> ''*''" using a by (auto simp: list_all_iff wordchar_def isalnum_def)
qed

lemma insert_last: "\<forall>e\<in>set m. str_key (fst e) < str_key k \<Longrightarrow> smap_insert str_less k v m = m @ [(k, v)]"
  by (induction m) auto

definition name_set :: "string list \<Rightarrow> screen_names" where
  "name_set ns = map (\<lambda>n. (n, ())) ns"

lemma insert_name: "\<forall>m\<in>set ms. str_less m n \<Longrightarrow> smap_insert str_less n () (name_set ms) = name_set (ms @ [n])"
  using insert_last [of "name_set ms" n "()"] by (simp add: name_set_def str_less_def)

lemma join_names:
  assumes "\<forall>n\<in>set ns. n \<noteq> ''*''"
  shows "join (name_set ns) = (if ns = [] then [] else '':'' @ concat (map (\<lambda>n. n @ '':'') ns))"
proof -
  have "join_loop ns acc = (if ns = [] then acc else (if acc = [] then '':'' else acc) @ concat (map (\<lambda>n. n @ '':'') ns))" for acc
    using assms by (induction ns arbitrary: acc) auto
  then show ?thesis by (simp add: join_def name_set_def comp_def)
qed

lemma screens_step:
  assumes "drop i t = n @ r" "n \<noteq> []" "screen_ok c n" "r = [] \<or> hd r = CHR '':''"
  shows "screens_loop ctx t i c acc = screens_loop ctx t (i + length n + 1) c (smap_insert str_less n () acc)"
proof -
  note ch = screen_chars [OF assms(3)]
  have i: "i < length t" using drop_inside [OF assms(1)] assms(2) by simp
  have j: "end_at t (find_first_of '':'' t i) = i + length n" using assms(1,4) ch(2) i by (intro stop_at [of i t n r]) auto
  obtain d n' where d: "n = d # n'" using assms(2) by (cases n) auto
  have nb: "\<forall>d\<in>set n. d \<notin> set blanks" using ch(1) text_char_kinds(2) by (fastforce simp: list_all_iff)
  have k: "find_first_not_of blanks t i = Some i" using skip_found [of i t "[]" d "n' @ r" blanks] assms(1) d nb by simp
  have "dropWhile (\<lambda>c. c \<in> set blanks) (rev n) = rev n" using nb d by (auto simp: dropWhile_eq_self_iff hd_rev simp del: rev.simps)
  then have "strip_right blanks n = n" using d by (simp add: strip_right_def find_last_not_of_def)
  moreover have "substr t i (i + length n) = n" using assms(1) by (simp add: substr_def)
  ultimately show ?thesis using i j k ch(3) assms(2,3) by (subst screens_loop.simps) (simp add: screen_ok_def d [symmetric])
qed

lemma screens_done: "length t \<le> i \<Longrightarrow> screens_loop ctx t i c acc = Inr acc"
  by (subst screens_loop.simps) simp

text \<open>Names that are each followed by a colon, or are separated by one.\<close>

lemma screens_read:
  assumes "sorted_wrt str_less (ms @ ns)" "\<forall>n\<in>set ns. n \<noteq> [] \<and> screen_ok c n"
    "drop i t = concat (map (\<lambda>n. n @ '':'') ns) \<or> drop i t = butlast (concat (map (\<lambda>n. n @ '':'') ns))"
  shows "screens_loop ctx t i c (name_set ms) = Inr (name_set (ms @ ns))"
  using assms
proof (induction ns arbitrary: ms i)
  case Nil
  then show ?case by (simp add: screens_done)
next
  case (Cons n ns)
  have n: "n \<noteq> []" "screen_ok c n" using Cons.prems(2) by auto
  have s: "\<forall>m\<in>set ms. str_less m n" using Cons.prems(1) by (auto simp: sorted_wrt_append)
  have "\<exists>r. drop i t = n @ r \<and> (r = [] \<and> ns = [] \<or> (\<exists>r'. r = CHR '':'' # r' \<and>
      (r' = concat (map (\<lambda>n. n @ '':'') ns) \<or> r' = butlast (concat (map (\<lambda>n. n @ '':'') ns)))))"
    using Cons.prems(3) by (cases "ns = []") (auto simp: butlast_append)
  then obtain r where d: "drop i t = n @ r" "r = [] \<and> ns = [] \<or> (\<exists>r'. r = CHR '':'' # r' \<and>
      (r' = concat (map (\<lambda>n. n @ '':'') ns) \<or> r' = butlast (concat (map (\<lambda>n. n @ '':'') ns))))" by blast
  have step: "screens_loop ctx t i c (name_set ms) = screens_loop ctx t (i + length n + 1) c (name_set (ms @ [n]))"
    using screens_step [OF d(1) n] d(2) insert_name [OF s] by auto
  have "drop (i + length n) t = r" using drop_after [OF d(1)] .
  then have "r = [] \<and> ns = [] \<and> length t \<le> i + length n \<or> drop (i + length n + 1) t = concat (map (\<lambda>n. n @ '':'') ns) \<or>
      drop (i + length n + 1) t = butlast (concat (map (\<lambda>n. n @ '':'') ns))"
    using d(2) drop_after [of "i + length n" t "'':''"] by auto
  then show ?case
    using step Cons.IH [of "ms @ [n]" "i + length n + 1"] Cons.prems(1,2) screens_done [of t "i + length n + 1"] by auto
qed

definition screens_ok :: "config \<Rightarrow> string \<Rightarrow> bool" where
  "screens_ok c t \<longleftrightarrow> t = ''*'' \<or>
     (\<exists>ns. sorted_wrt str_less ns \<and> (\<forall>n\<in>set ns. n \<noteq> [] \<and> screen_ok c n) \<and> t = join (name_set ns))"

lemma parseScreens_all: "parseScreens ctx ''*'' c = Inr (name_set [''*''])"
proof -
  have "end_at ''*'' (find_first_of '':'' ''*'' 0) = 1" using stop_at [of 0 "''*''" "''*''" "[]"] by simp
  moreover have "find_first_not_of blanks ''*'' 0 = Some 0" using skip_found [of 0 "''*''" "[]" "CHR ''*''" "[]" blanks] by (simp add: blanks_def)
  moreover have "strip_right blanks ''*'' = ''*''" by (simp add: strip_right_def find_last_not_of_def blanks_def)
  ultimately show ?thesis
    unfolding parseScreens_def by (subst screens_loop.simps) (simp add: substr_def screens_done name_set_def)
qed

lemma screens_names:
  assumes "sorted_wrt str_less ns" "\<forall>n\<in>set ns. n \<noteq> [] \<and> screen_ok c n" "ns \<noteq> []"
  shows "join (name_set ns) = CHR '':'' # concat (map (\<lambda>n. n @ '':'') ns)" "list_all text_char (join (name_set ns))"
    "parseScreens ctx (join (name_set ns)) c = Inr (name_set ns)"
    "parseScreens ctx (take (length (join (name_set ns)) - 2) (drop 1 (join (name_set ns)))) c = Inr (name_set ns)"
proof -
  let ?t = "concat (map (\<lambda>n. n @ '':'') ns)"
  have ns: "\<forall>n\<in>set ns. n \<noteq> ''*''" using assms(2) screen_chars(3) by blast
  show j: "join (name_set ns) = CHR '':'' # ?t" using join_names [OF ns] assms(3) by simp
  have "\<forall>n\<in>set ns. list_all text_char n" using assms(2) screen_chars(1) by blast
  then show "list_all text_char (join (name_set ns))" unfolding j by (auto simp: list_all_iff text_char_def)
  have "end_at (CHR '':'' # ?t) (find_first_of '':'' (CHR '':'' # ?t) 0) = 0"
    using stop_at [of 0 "CHR '':'' # ?t" "[]" "CHR '':'' # ?t" "'':''"] by simp
  moreover have "find_first_not_of blanks (CHR '':'' # ?t) 0 = Some 0"
    using skip_found [of 0 "CHR '':'' # ?t" "[]" "CHR '':''" ?t blanks] by (simp add: blanks_def)
  ultimately have "screens_loop ctx (CHR '':'' # ?t) 0 c [] = screens_loop ctx (CHR '':'' # ?t) 1 c []"
    by (subst screens_loop.simps) simp
  then show "parseScreens ctx (join (name_set ns)) c = Inr (name_set ns)"
    using screens_read [of "[]" ns c 1 "CHR '':'' # ?t" ctx] assms unfolding parseScreens_def j by (simp add: name_set_def)
  have "take (length (join (name_set ns)) - 2) (drop 1 (join (name_set ns))) = butlast ?t" by (simp add: j butlast_conv_take)
  then have b: "parseScreens ctx (take (length (join (name_set ns)) - 2) (drop 1 (join (name_set ns)))) c = screens_loop ctx (butlast ?t) 0 c (name_set [])"
    by (simp add: parseScreens_def name_set_def)
  show "parseScreens ctx (take (length (join (name_set ns)) - 2) (drop 1 (join (name_set ns)))) c = Inr (name_set ns)"
    unfolding b using screens_read [of "[]" ns c 0 "butlast ?t" ctx] assms by simp
qed

section \<open>A rule survives writing and reading\<close>

text \<open>
  What can be written and read: keystrokes and buttons with named modifiers, screens by their
  canonical names, directions that are one, and a broadcast that is not to all screens by name.
\<close>

fun condition_ok :: "config \<Rightarrow> filter_condition \<Rightarrow> bool" where
  "condition_ok c (KeystrokeCondition i key mods) \<longleftrightarrow> i = 0 \<and> keystroke_ok key mods"
| "condition_ok c (MouseButtonCondition button mods) \<longleftrightarrow> button \<noteq> 0 \<and> mods AND NOT 0x3F = 0"
| "condition_ok c (ScreenConnectedCondition screen) \<longleftrightarrow> screen_ok c screen"

fun filter_action_ok :: "config \<Rightarrow> filter_action \<Rightarrow> bool" where
  "filter_action_ok c (LockCursorToScreenAction mode) \<longleftrightarrow> True"
| "filter_action_ok c (SwitchToScreenAction screen) \<longleftrightarrow> screen_ok c screen"
| "filter_action_ok c ToggleScreenAction \<longleftrightarrow> True"
| "filter_action_ok c (SwitchInDirectionAction dir) \<longleftrightarrow> dir \<noteq> kNoDirection"
| "filter_action_ok c (KeyboardBroadcastAction mode screens) \<longleftrightarrow> screens \<noteq> ''*'' \<and> screens_ok c screens"
| "filter_action_ok c (KeystrokeAction info press) \<longleftrightarrow>
     keystroke_ok (ki_key info) (ki_mask info) \<and> ki_button info = 0 \<and> ki_count info = 0 \<and> screens_ok c (ki_screens info)"
| "filter_action_ok c (MouseButtonAction info press) \<longleftrightarrow> bi_button info \<noteq> 0 \<and> bi_mask info AND NOT 0x3F = 0"

definition rule_ok :: "config \<Rightarrow> rule \<Rightarrow> bool" where
  "rule_ok c r \<longleftrightarrow>
     (case r_condition r of None \<Rightarrow> False | Some cond \<Rightarrow> condition_ok c cond) \<and>
     (r_activate r \<noteq> [] \<or> r_deactivate r \<noteq> []) \<and> list_all (filter_action_ok c) (r_activate r) \<and> list_all (filter_action_ok c) (r_deactivate r)"

text \<open>Only the names of the configuration matter.\<close>

lemma ok_names:
  assumes "m_nameToCanonicalName c' = m_nameToCanonicalName c"
  shows "screen_ok c' n = screen_ok c n" "screens_ok c' t = screens_ok c t" "condition_ok c' cond = condition_ok c cond" "filter_action_ok c' a = filter_action_ok c a"
proof -
  have s: "screen_ok c' = screen_ok c"
    using assms by (auto simp: fun_eq_iff screen_ok_def isScreen_def getCanonicalName_def find_name_def)
  then show "screen_ok c' n = screen_ok c n" "screens_ok c' t = screens_ok c t" by (simp_all add: screens_ok_def)
  show "condition_ok c' cond = condition_ok c cond" by (cases cond) (simp_all add: s)
  show "filter_action_ok c' a = filter_action_ok c a" by (cases a) (simp_all add: s screens_ok_def)
qed

text \<open>The name and the arguments that are written for an action and for a condition.\<close>

definition call_text :: "string \<Rightarrow> string list \<Rightarrow> string" where
  "call_text name args = name @ (if args = [] then [] else ''('' @ args_text args @ '')'')"

fun action_call :: "filter_action \<Rightarrow> string \<times> string list" where
  "action_call (LockCursorToScreenAction mode) = (''lockCursorToScreen'', [mode_name mode])"
| "action_call (SwitchToScreenAction screen) = (''switchToScreen'', [screen])"
| "action_call ToggleScreenAction = (''toggleScreen'', [])"
| "action_call (SwitchInDirectionAction dir) = (''switchInDirection'', [direction_name dir])"
| "action_call (KeyboardBroadcastAction mode screens) =
     (''keyboardBroadcast'', mode_name mode # (if screens = [] then [] else [take (length screens - 2) (drop 1 screens)]))"
| "action_call (KeystrokeAction info press) =
     (if press then ''keyDown'' else ''keyUp'',
      formatKey (ki_key info) (ki_mask info) # (if ki_screens info = [] then [] else [ki_screens info]))"
| "action_call (MouseButtonAction info press) = (if press then ''mouseDown'' else ''mouseUp'', [button_text (bi_button info) (bi_mask info)])"

fun condition_call :: "filter_condition \<Rightarrow> string \<times> string list" where
  "condition_call (KeystrokeCondition i key mods) = (''keystroke'', [formatKey key mods])"
| "condition_call (MouseButtonCondition button mods) = (''mousebutton'', [button_text button mods])"
| "condition_call (ScreenConnectedCondition screen) = (''connect'', [screen])"

fun lock_by :: "filter_action \<Rightarrow> config \<Rightarrow> config" where
  "lock_by (LockCursorToScreenAction mode) c = (if mode \<noteq> kOff then c\<lparr>m_hasLockToScreenAction := True\<rparr> else c)"
| "lock_by a c = c"

lemma lock_by_names [simp]: "m_nameToCanonicalName (lock_by a c) = m_nameToCanonicalName c"
  by (cases a) auto

lemma screens_ok_cases:
  assumes "screens_ok c t"
  obtains "t = []" | "t = ''*''" | ns where "ns \<noteq> []" "sorted_wrt str_less ns" "\<forall>n\<in>set ns. n \<noteq> [] \<and> screen_ok c n" "t = join (name_set ns)"
proof -
  consider "t = ''*''" | ns where "sorted_wrt str_less ns" "\<forall>n\<in>set ns. n \<noteq> [] \<and> screen_ok c n" "t = join (name_set ns)"
    using assms by (auto simp: screens_ok_def)
  then show ?thesis
  proof cases
    case (2 ns)
    then show ?thesis using that by (cases "ns = []") (auto simp: name_set_def join_def)
  qed (use that in auto)
qed

lemma screens_ok_text:
  assumes "screens_ok c t"
  shows "list_all text_char t" "t \<noteq> ''*'' \<Longrightarrow> t \<noteq> [] \<Longrightarrow> t ! 0 = CHR '':''"
proof -
  have "list_all text_char t \<and> (t \<noteq> ''*'' \<longrightarrow> t \<noteq> [] \<longrightarrow> t ! 0 = CHR '':'')"
  proof (cases rule: screens_ok_cases [OF assms])
    case (3 ns)
    then show ?thesis using screens_names(2) [OF 3(2,3,1)] screens_names(1) [OF 3(2,3,1)] by simp
  qed (simp_all add: text_char_def)
  then show "list_all text_char t" "t \<noteq> ''*'' \<Longrightarrow> t \<noteq> [] \<Longrightarrow> t ! 0 = CHR '':''" by auto
qed

lemma screens_ok_read:
  assumes "screens_ok c t" "t \<noteq> []"
  shows "\<exists>names. parseScreens s t c = Inr names \<and> join names = t"
proof (cases rule: screens_ok_cases [OF assms(1)])
  case 2
  then show ?thesis using parseScreens_all by (auto simp: join_def name_set_def)
next
  case (3 ns)
  then show ?thesis using screens_names(3) [OF 3(2,3,1)] by auto
qed (use assms in simp)

lemma broadcast_ok_read:
  assumes "screens_ok c t" "t \<noteq> []" "t \<noteq> ''*''"
  shows "\<exists>names. parseScreens s (take (length t - 2) (drop 1 t)) c = Inr names \<and> join names = t"
proof (cases rule: screens_ok_cases [OF assms(1)])
  case (3 ns)
  then show ?thesis using screens_names(4) [OF 3(2,3,1)] by auto
qed (use assms in simp_all)

lemma list_all_take_drop: "list_all P xs \<Longrightarrow> list_all P (take n xs)" "list_all P xs \<Longrightarrow> list_all P (drop n xs)"
  by (auto simp: list_all_iff dest: in_set_takeD in_set_dropD)

lemma names_text [simp]: "list_all text_char (mode_name mode)" "list_all text_char (direction_name dir)"
  by (cases mode; simp add: text_char_def wordchar_def isalnum_def) (cases dir; simp add: text_char_def wordchar_def isalnum_def)

lemma action_format_call:
  assumes "filter_action_ok c a"
  shows "action_format a = call_text (fst (action_call a)) (snd (action_call a))"
proof (cases a)
  case (KeyboardBroadcastAction mode t)
  then have t: "t \<noteq> ''*''" "screens_ok c t" using assms by auto
  note x = screens_ok_text [OF t(2)]
  have "c_str (take (length t - 2) (drop 1 t)) = take (length t - 2) (drop 1 t)"
    using x(1) by (intro text_c_str list_all_take_drop)
  then show ?thesis using KeyboardBroadcastAction x(2) t(1) by (simp add: format_defs call_text_def)
next
  case (MouseButtonAction info press)
  then show ?thesis using modifiers_plus [of "bi_mask info"] by (auto simp: format_defs call_text_def Let_def button_text_def show_byte)
qed (use assms text_c_str screens_ok_text(1) screen_chars(1) in \<open>auto simp: format_defs call_text_def\<close>)

lemma condition_format_call:
  assumes "condition_ok c cond"
  shows "condition_format cond = call_text (fst (condition_call cond)) (snd (condition_call cond))"
proof (cases cond)
  case (MouseButtonCondition b m)
  then show ?thesis using modifiers_plus [of m] by (auto simp: format_defs call_text_def Let_def button_text_def show_byte)
qed (use assms text_c_str screen_chars(1) in \<open>auto simp: format_defs call_text_def\<close>)

lemma action_call_text:
  assumes "filter_action_ok c a"
  shows "fst (action_call a) \<noteq> []" "list_all text_char (fst (action_call a))" "list_all plain_arg (snd (action_call a))"
    "list_all (list_all text_char) (snd (action_call a))"
proof -
  show "fst (action_call a) \<noteq> []" "list_all text_char (fst (action_call a))"
    by (cases a; simp add: text_char_def wordchar_def isalnum_def)+
  show "list_all (list_all text_char) (snd (action_call a))"
    using assms screens_ok_text(1) screen_chars(1) formatKey_chars button_chars by (cases a) (auto intro: list_all_take_drop)
  then show "list_all plain_arg (snd (action_call a))" using text_plain by (auto simp: list_all_iff)
qed

lemma condition_call_text:
  assumes "condition_ok c cond"
  shows "fst (condition_call cond) \<noteq> []" "list_all text_char (fst (condition_call cond))" "list_all plain_arg (snd (condition_call cond))"
    "list_all (list_all text_char) (snd (condition_call cond))" "snd (condition_call cond) \<noteq> []" "fst (condition_call cond) \<in> {''keystroke'', ''mousebutton'', ''connect''}"
proof -
  show "fst (condition_call cond) \<noteq> []" "list_all text_char (fst (condition_call cond))"
    by (cases cond; simp add: text_char_def wordchar_def isalnum_def)+
  show "list_all (list_all text_char) (snd (condition_call cond))"
    using assms screen_chars(1) formatKey_chars button_chars by (cases cond) auto
  then show "list_all plain_arg (snd (condition_call cond))" using text_plain by (auto simp: list_all_iff)
  show "snd (condition_call cond) \<noteq> []" "fst (condition_call cond) \<in> {''keystroke'', ''mousebutton'', ''connect''}" by (cases cond; simp)+
qed

lemma keystroke_info_back:
  assumes "keystroke_ok key mods"
  shows "keystroke_info s (formatKey key mods) names = Inr \<lparr>ki_key = key, ki_mask = mods, ki_button = 0, ki_count = 0, ki_screens = join names\<rparr>"
proof -
  have "parseKeystroke s (formatKey key mods) = Inr (key, mods)"
    using assms keystroke_roundtrip [of key mods s] unfolding keystroke_ok_def by blast
  then show ?thesis by (simp add: keystroke_info_def)
qed

lemma screen_ok_known: "screen_ok c n \<Longrightarrow> (n = [] \<and> \<not> isScreen n c) \<or> (n \<noteq> [] \<and> isScreen n c \<and> getCanonicalName n c = n)"
  by (auto simp: screen_ok_def isScreen_def getCanonicalName_def split: if_splits option.splits)

lemma parseCondition_back:
  assumes "condition_ok c cond"
  shows "parseCondition s (fst (condition_call cond)) (snd (condition_call cond)) c = Inr cond"
proof (cases cond)
  case (ScreenConnectedCondition screen)
  then show ?thesis using assms screen_ok_known [of c screen] by (auto simp: parseCondition_def)
qed (use assms keystroke_info_back parseMouse_text in \<open>auto simp: parseCondition_def\<close>)

lemma parse_mode_back: "parse_mode (mode_name mode) = Some mode"
  by (cases mode) (simp_all add: parse_mode_def)

lemma action_direction_back: "dir \<noteq> kNoDirection \<Longrightarrow> action_direction (direction_name dir) = Some dir"
  by (cases dir) (simp_all add: action_direction_def)

lemma parseAction_back:
  assumes "filter_action_ok c a"
  shows "parseAction s (fst (action_call a)) (snd (action_call a)) r act c = Inr (adoptAction a act r, lock_by a c)"
proof (cases a)
  case (SwitchToScreenAction screen)
  then show ?thesis using assms screen_ok_known [of c screen] by (auto simp: parseAction_def)
next
  case (KeyboardBroadcastAction mode t)
  then have t: "t \<noteq> ''*''" "screens_ok c t" using assms by auto
  show ?thesis
  proof (cases "t = []")
    case True
    then show ?thesis using KeyboardBroadcastAction parse_mode_back by (simp add: parseAction_def join_def)
  next
    case False
    from broadcast_ok_read [OF t(2) False t(1), of s] obtain names where
      "parseScreens s (take (length t - 2) (drop 1 t)) c = Inr names" "join names = t" by blast
    then show ?thesis using KeyboardBroadcastAction parse_mode_back False by (simp add: parseAction_def)
  qed
next
  case (KeystrokeAction info press)
  then have k: "keystroke_ok (ki_key info) (ki_mask info)" "ki_button info = 0" "ki_count info = 0" "screens_ok c (ki_screens info)"
    using assms by auto
  have i: "info = \<lparr>ki_key = ki_key info, ki_mask = ki_mask info, ki_button = 0, ki_count = 0, ki_screens = ki_screens info\<rparr>"
    using k(2,3) by simp
  have "key_action s (fst (action_call a)) (snd (action_call a)) c = Inr info"
  proof (cases "ki_screens info = []")
    case True
    then have "keystroke_info s (formatKey (ki_key info) (ki_mask info)) [] = Inr info"
      using i unfolding keystroke_info_back [OF k(1)] by (simp add: join_def)
    then show ?thesis using KeystrokeAction True by (simp add: key_action_def)
  next
    case False
    from screens_ok_read [OF k(4) False, of s] obtain names where n: "parseScreens s (ki_screens info) c = Inr names" "join names = ki_screens info" by blast
    then have "keystroke_info s (formatKey (ki_key info) (ki_mask info)) names = Inr info"
      using i unfolding keystroke_info_back [OF k(1)] by simp
    then show ?thesis using KeystrokeAction False n by (simp add: key_action_def)
  qed
  then show ?thesis using KeystrokeAction by (cases press) (simp_all add: parseAction_def)
next
  case (MouseButtonAction info press)
  then have "parseMouse s (button_text (bi_button info) (bi_mask info)) = Inr info"
    using assms parseMouse_text [of "bi_button info" "bi_mask info" s] by (cases info) simp
  then show ?thesis using MouseButtonAction by (cases press) (simp_all add: parseAction_def)
qed (use assms parse_mode_back action_direction_back in \<open>auto simp: parseAction_def\<close>)

text \<open>Reading one action at a position of a line.\<close>

lemma text_disjoint: "list_all text_char t \<Longrightarrow> set cs \<subseteq> set (CHR 0x0A # blanks @ ''(),;=#'') \<Longrightarrow> set t \<inter> set cs = {}"
  using text_char_kinds(2,3) by (fastforce simp: list_all_iff)

lemma read_call:
  assumes "drop b line = sp @ call_text name args @ rest" "set sp \<subseteq> set blanks" "name \<noteq> []" "list_all text_char name" "list_all plain_arg args"
    "delim = [CHR '','', CHR '';'', CHR 0x0A] \<or> delim = [CHR '','', CHR 0x0A]" "rest = [] \<or> hd rest \<in> set delim - {CHR 0x0A}"
  shows "\<exists>i. parseNameWithArgs s type line delim b = Inr (name, args, i) \<and> drop i line = rest \<and> i \<le> length line"
proof -
  have n: "set name \<inter> set (blanks @ ''('' @ delim) = {}" using assms(6) by (intro text_disjoint [OF assms(4)]) auto
  have nd: "\<not> need_delim delim" using assms(6) by (auto simp: need_delim_def)
  have h: "rest = [] \<or> rest \<noteq> [] \<and> hd rest \<in> {CHR '','', CHR '';''} \<and> hd rest \<in> set delim" using assms(6,7) by auto
  then have h': "rest = [] \<or> rest \<noteq> [] \<and> hd rest \<notin> set (blanks @ ''('') \<and> hd rest \<in> set delim" by (auto simp: blanks_def)
  show ?thesis
  proof (cases "args = []")
    case True
    show ?thesis
      unfolding True using assms(1) n nd h' assms(3) by (intro parse_word [OF _ assms(2)]) (auto simp: call_text_def True)
  next
    case False
    then show ?thesis
      using assms(1) n nd h' assms(3,5) by (intro parse_call [where sp' = "[]", OF _ assms(2)]) (auto simp: call_text_def)
  qed
qed

lemma activate_back:
  assumes "list_all (filter_action_ok c) as" "drop i line = concat (map (\<lambda>a. '', '' @ action_format a) as) @ rest" "rest = [] \<or> hd rest = CHR '';''"
    "i \<le> length line"
  shows "\<exists>k. activate_loop s line i r c = Inr (r\<lparr>r_activate := r_activate r @ as\<rparr>, fold lock_by as c, k) \<and> drop k line = rest \<and> k \<le> length line"
  using assms
proof (induction as arbitrary: i r c)
  case Nil
  then have "\<not> (i < length line \<and> line ! i \<noteq> CHR '';'')" using nth_via_drop [of i line "hd rest" "tl rest"] by (cases rest) auto
  then show ?case using Nil by (subst activate_loop.simps) (auto intro: exI [of _ i])
next
  case (Cons a as)
  let ?rest = "concat (map (\<lambda>a. '', '' @ action_format a) as) @ rest"
  have a: "filter_action_ok c a" using Cons.prems(1) by simp
  have d: "drop i line = CHR '','' # '' '' @ call_text (fst (action_call a)) (snd (action_call a)) @ ?rest"
    using Cons.prems(2) action_format_call [OF a] by simp
  have i: "i < length line" "line ! i = CHR '',''" using drop_inside [OF d] nth_via_drop [OF d] by auto
  have d1: "drop (i + 1) line = '' '' @ call_text (fst (action_call a)) (snd (action_call a)) @ ?rest"
    using drop_after [of i line "'',''"] d by simp
  have "?rest = [] \<or> hd ?rest \<in> set [CHR '','', CHR '';'', CHR 0x0A] - {CHR 0x0A}"
    using Cons.prems(3) by (cases as; cases rest) auto
  from read_call [OF d1 _ action_call_text(1-3) [OF a] _ this, of s "''value''"] obtain j where
    j: "parseNameWithArgs s ''value'' line [CHR '','', CHR '';'', CHR 0x0A] (i + 1) = Inr (fst (action_call a), snd (action_call a), j)"
      "drop j line = ?rest" "j \<le> length line" by (auto simp: blanks_def)
  have l: "list_all (filter_action_ok (lock_by a c)) as" using Cons.prems(1) ok_names(4) [of "lock_by a c" c] by (auto simp: list_all_iff)
  from Cons.IH [OF l j(2) Cons.prems(3) j(3), of "adoptAction a True r"] show ?case
    using i j(1) parseAction_back [OF a] by (subst activate_loop.simps) (auto simp: adoptAction_def)
qed

lemma deactivate_back:
  assumes "list_all (filter_action_ok c) as" "drop (i + 1) line = sp @ actions_format as" "set sp \<subseteq> set blanks" "as \<noteq> []"
  shows "deactivate_loop s line i r c = Inr (r\<lparr>r_deactivate := r_deactivate r @ as\<rparr>, fold lock_by as c)"
  using assms
proof (induction as arbitrary: i r c sp)
  case (Cons a as)
  let ?rest = "concat (map (\<lambda>a. '', '' @ action_format a) as)"
  have a: "filter_action_ok c a" using Cons.prems(1) by simp
  have d1: "drop (i + 1) line = sp @ call_text (fst (action_call a)) (snd (action_call a)) @ ?rest"
    using Cons.prems(2) action_format_call [OF a] by simp
  have i: "i < length line" using drop_inside [OF d1] action_call_text(1) [OF a] by (simp add: call_text_def)
  have "?rest = [] \<or> hd ?rest \<in> set [CHR '','', CHR 0x0A] - {CHR 0x0A}" by (cases as) auto
  from read_call [OF d1 Cons.prems(3) action_call_text(1-3) [OF a] _ this, of s "''value''"] obtain j where
    j: "parseNameWithArgs s ''value'' line [CHR '','', CHR 0x0A] (i + 1) = Inr (fst (action_call a), snd (action_call a), j)"
      "drop j line = ?rest" "j \<le> length line" by auto
  have step: "deactivate_loop s line i r c = deactivate_loop s line j (adoptAction a False r) (lock_by a c)"
    using i j(1) parseAction_back [OF a] by (subst deactivate_loop.simps) simp
  show ?case
  proof (cases as)
    case Nil
    then have "j = length line" using j(2,3) by simp
    then show ?thesis using Nil step by (simp add: deactivate_loop.simps [of s line "length line"] adoptAction_def)
  next
    case (Cons a' as')
    have l: "list_all (filter_action_ok (lock_by a c)) as" using Cons.prems(1) ok_names(4) [of "lock_by a c" c] by (auto simp: list_all_iff)
    have "drop (j + 1) line = '' '' @ actions_format as" using drop_after [of j line "'',''"] j(2) Cons by simp
    from Cons.IH [OF l this, of "adoptAction a False r"] show ?thesis using step Cons by (simp add: adoptAction_def blanks_def)
  qed
qed simp

lemma copy_ok: "condition_ok c cond \<Longrightarrow> condition_clone cond = cond"
  by (cases cond) auto

lemma not_an_option: "name \<in> {''keystroke'', ''mousebutton'', ''connect''} \<Longrightarrow> server_option s name v = None \<and> name \<noteq> ''address''"
  by (elim insertE emptyE; simp add: server_option_def fork_option_def)

text \<open>The actions of a line, from the position after the equals sign.\<close>

lemma rule_line_back:
  assumes "condition_ok c cond" "list_all (filter_action_ok c) as" "list_all (filter_action_ok c) ds" "as \<noteq> [] \<or> ds \<noteq> []"
    "drop b line = '' '' @ actions_format as @ (if ds \<noteq> [] then ''; '' @ actions_format ds else [])" "b \<le> length line"
  shows "\<exists>v args i. parseNameWithArgs s ''value'' line [CHR '','', CHR '';'', CHR 0x0A] b = Inr (v, args, i) \<and>
    rule_line s line (fst (condition_call cond)) (snd (condition_call cond)) v args i c =
      Inr (\<lparr>r_condition = Some cond, r_activate = as, r_deactivate = ds\<rparr>, fold lock_by (as @ ds) c)"
proof -
  let ?tail = "if ds \<noteq> [] then ''; '' @ actions_format ds else []"
  let ?delim = "[CHR '','', CHR '';'', CHR 0x0A]"
  have tail: "?tail = [] \<or> hd ?tail = CHR '';''" by simp
  have fin: "(if k < length line \<and> line ! k = CHR '';''
      then deactivate_loop s line (case find_first_not_of blanks line (k + 1) of None \<Rightarrow> length line | Some m \<Rightarrow> m - 1) r c' else Inr (r, c')) =
      Inr (r\<lparr>r_deactivate := r_deactivate r @ ds\<rparr>, fold lock_by ds c')"
    if k: "drop k line = ?tail" "k \<le> length line" and c': "list_all (filter_action_ok c') ds" for k r c'
  proof (cases "ds = []")
    case True
    then show ?thesis using k by simp
  next
    case False
    then obtain d ds' where ds: "ds = d # ds'" by (cases ds) auto
    have "filter_action_ok c' d" using c' ds by simp
    note t = action_call_text(1,2) [OF this] action_format_call [OF this]
    then obtain h r' where h: "actions_format ds = h # r'" "h \<notin> set blanks"
      using text_char_kinds(2) by (cases "fst (action_call d)") (auto simp: ds call_text_def)
    have dk: "drop k line = CHR '';'' # '' '' @ actions_format ds" using k False by simp
    have d1: "drop (k + 1) line = '' '' @ h # r'" using drop_after [of k line "'';''"] dk h by simp
    then have "find_first_not_of blanks line (k + 1) = Some (k + 2)"
      using skip_found [of "k + 1" line "'' ''" h r' blanks] h(2) by (simp add: blanks_def)
    moreover have "drop (k + 1 + 1) line = [] @ actions_format ds" using drop_after [of "k + 1" line "'' ''"] d1 h by simp
    from deactivate_back [OF c' this _ False] have "deactivate_loop s line (k + 1) r c' = Inr (r\<lparr>r_deactivate := r_deactivate r @ ds\<rparr>, fold lock_by ds c')"
      by simp
    ultimately show ?thesis using drop_inside [OF dk] nth_via_drop [OF dk] by simp
  qed
  have names: "list_all (filter_action_ok (fold lock_by xs c)) ds" for xs
  proof -
    have "m_nameToCanonicalName (fold lock_by xs c) = m_nameToCanonicalName c" by (induction xs arbitrary: c) simp_all
    from ok_names(4) [OF this] show ?thesis using assms(3) by (simp add: list_all_iff)
  qed
  note cond = parseCondition_back [OF assms(1), of s]
  show ?thesis
  proof (cases as)
    case Nil
    then have ds: "ds \<noteq> []" using assms(4) by simp
    have "drop b line = '' '' @ [] @ ?tail" using assms(5) Nil by simp
    from parse_word [OF this, of ?delim s "''value''"] obtain i where
      i: "parseNameWithArgs s ''value'' line ?delim b = Inr ([], [], i)" "drop i line = ?tail" "i \<le> length line"
      using ds by (auto simp: blanks_def)
    have semi: "i < length line" "line ! i = CHR '';''" using i(2) ds drop_inside [of i line] nth_via_drop [of i line] by auto
    have "activate_loop s line i r c = Inr (r, c, i)" for r using semi by (subst activate_loop.simps) simp
    then show ?thesis using i fin [OF i(2,3) names [of "[]", simplified]] semi cond Nil
      by (simp add: rule_line_def rule_new_def)
  next
    case (Cons a as')
    have a: "filter_action_ok c a" "list_all (filter_action_ok c) as'" using assms(2) Cons by auto
    let ?rest = "concat (map (\<lambda>a. '', '' @ action_format a) as') @ ?tail"
    have d: "drop b line = '' '' @ call_text (fst (action_call a)) (snd (action_call a)) @ ?rest"
      using assms(5) Cons action_format_call [OF a(1)] by simp
    have "?rest = [] \<or> hd ?rest \<in> set ?delim - {CHR 0x0A}" using tail by (cases as') auto
    from read_call [OF d _ action_call_text(1-3) [OF a(1)] _ this, of s "''value''"] obtain i where
      i: "parseNameWithArgs s ''value'' line ?delim b = Inr (fst (action_call a), snd (action_call a), i)" "drop i line = ?rest" "i \<le> length line"
      by (auto simp: blanks_def)
    have "list_all (filter_action_ok (lock_by a c)) as'" using a(2) ok_names(4) [of "lock_by a c" c] by (auto simp: list_all_iff)
    from activate_back [OF this i(2) tail i(3), of s "adoptAction a True (rule_new (Some cond))"] obtain k where
      k: "activate_loop s line i (adoptAction a True (rule_new (Some cond))) (lock_by a c) =
           Inr (\<lparr>r_condition = Some cond, r_activate = as, r_deactivate = []\<rparr>, fold lock_by as c, k)"
        "drop k line = ?tail" "k \<le> length line" by (auto simp: adoptAction_def rule_new_def Cons)
    show ?thesis
      using i(1) k(1) fin [OF k(2,3) names [of as]] parseAction_back [OF a(1)] action_call_text(1) [OF a(1)] cond
      by (simp add: rule_line_def)
  qed
qed

lemma options_line_rule:
  assumes "rule_ok (os_config st) r"
  shows "options_line lookup s (rule_format r) st =
    Inr (st\<lparr>os_config := fold lock_by (r_activate r @ r_deactivate r) (os_config st), input_filter_rules := input_filter_rules st @ [r]\<rparr>)"
proof -
  obtain cond where cond: "r_condition r = Some cond" "condition_ok (os_config st) cond"
    using assms by (auto simp: rule_ok_def split: option.splits)
  note cc = condition_call_text [OF cond(2)]
  let ?n = "fst (condition_call cond)" and ?a = "snd (condition_call cond)"
  let ?tail = "'' '' @ actions_format (r_activate r) @ (if r_deactivate r \<noteq> [] then ''; '' @ actions_format (r_deactivate r) else [])"
  let ?line = "rule_format r"
  have "drop 0 ?line = [] @ ?n @ CHR ''('' # args_text ?a @ CHR '')'' # '' '' @ CHR ''='' # ?tail"
    using cond cc(5) condition_format_call [OF cond(2)] by (simp add: rule_format_def call_text_def)
  from parse_call [OF this, of "''=''" s "''name''"] cc(1,3,5) text_disjoint [OF cc(2), of "blanks @ ''('' @ ''=''"] obtain i0 where
    i0: "parseNameWithArgs s ''name'' ?line ''='' 0 = Inr (?n, ?a, i0)" "drop i0 ?line = CHR ''='' # ?tail" "i0 \<le> length ?line"
    by (auto simp: blanks_def)
  have d: "drop (i0 + 1) ?line = ?tail" "i0 + 1 \<le> length ?line"
    using drop_after [of i0 ?line "''=''"] i0(2) drop_inside [OF i0(2)] by simp_all
  from rule_line_back [OF cond(2) _ _ _ d, of s] assms obtain v args i where
    v: "parseNameWithArgs s ''value'' ?line [CHR '','', CHR '';'', CHR 0x0A] (i0 + 1) = Inr (v, args, i)"
      "rule_line s ?line ?n ?a v args i (os_config st) = Inr (\<lparr>r_condition = Some cond, r_activate = r_activate r, r_deactivate = r_deactivate r\<rparr>,
         fold lock_by (r_activate r @ r_deactivate r) (os_config st))"
    by (auto simp: rule_ok_def)
  have "rule_copy \<lparr>r_condition = Some cond, r_activate = r_activate r, r_deactivate = r_deactivate r\<rparr> = r"
    using cond copy_ok [OF cond(2)] by (cases r) (simp add: rule_copy_def)
  then show ?thesis
    using i0(1) v not_an_option [OF cc(6)] by (simp add: options_line_def Let_def)
qed

section \<open>Lines\<close>

definition line_char :: "char \<Rightarrow> bool" where
  "line_char c \<longleftrightarrow> text_char c \<or> c \<in> set ''(),;= ''"

text \<open>A line that begins and ends with a character of a word, an equals sign or a parenthesis.\<close>

definition clean_text :: "string \<Rightarrow> bool" where
  "clean_text l \<longleftrightarrow> l \<noteq> [] \<and> list_all line_char l \<and> hd l \<noteq> CHR '' '' \<and> last l \<noteq> CHR '' ''"

lemma line_char_kinds:
  assumes "line_char c"
  shows "isgraph c \<or> c \<in> set blanks" "c \<noteq> CHR ''#''" "c \<noteq> CHR 0x0A" "c \<noteq> CHR 0x0D" "c \<noteq> CHR 0x09"
  using assms text_char_kinds [of c] by (auto simp: line_char_def blanks_def isgraph_def)

lemma readLine_text:
  assumes "clean_text l" "set sp \<subseteq> set blanks"
  shows "readLine \<lparr>m_stream = sp @ l @ CHR 0x0A # rest, m_line = n\<rparr> = Inr (Some (l, \<lparr>m_stream = rest, m_line = n + 1\<rparr>))"
proof -
  have lc: "list_all line_char l" "l \<noteq> []" using assms(1) by (auto simp: clean_text_def)
  have no: "\<forall>c\<in>set (sp @ l). c \<noteq> CHR 0x0A" using lc(1) line_char_kinds(3) assms(2) by (fastforce simp: list_all_iff blanks_def)
  then have tw: "takeWhile (\<lambda>c. c \<noteq> CHR 0x0A) (sp @ l @ CHR 0x0A # rest) = sp @ l"
    "dropWhile (\<lambda>c. c \<noteq> CHR 0x0A) (sp @ l @ CHR 0x0A # rest) = CHR 0x0A # rest"
    using takeWhile_append2 [of "sp @ l" "\<lambda>c. c \<noteq> CHR 0x0A" "CHR 0x0A # rest"] dropWhile_append2 [of "sp @ l" "\<lambda>c. c \<noteq> CHR 0x0A" "CHR 0x0A # rest"] by auto
  then have g: "getline (sp @ l @ CHR 0x0A # rest) = Some (sp @ l, rest)" by (simp add: getline_def)
  have h: "hd l \<notin> set blanks" using assms(1) line_char_kinds(5) by (cases l) (auto simp: clean_text_def blanks_def)
  then have f: "find_first_not_of blanks (sp @ l) 0 = Some (length sp)"
    using skip_found [of 0 "sp @ l" sp "hd l" "tl l" blanks] assms(2) lc(2) by simp
  have w: "takeWhile (\<lambda>c. c \<noteq> CHR ''#'') l = l" using lc(1) line_char_kinds(2) by (auto simp: takeWhile_eq_all_conv list_all_iff)
  have "line_char (last l)" using lc by (simp add: list_all_iff)
  then have "last l \<notin> set [CHR 0x20, CHR 0x0D, CHR 0x09]" using assms(1) line_char_kinds(4,5) by (auto simp: clean_text_def)
  then have r: "dropWhile (\<lambda>c. c \<in> set [CHR 0x20, CHR 0x0D, CHR 0x09]) (rev l) = rev l"
    using lc(2) by (simp add: dropWhile_eq_self_iff hd_rev)
  have "strip_left blanks (sp @ l) = l" using f by (simp add: strip_left_def)
  moreover have "strip_right [CHR 0x20, CHR 0x0D, CHR 0x09] l = l"
    unfolding strip_right_def find_last_not_of_def r using lc(2) by simp
  ultimately have "clean_line (sp @ l) = l" unfolding clean_line_def Let_def by (simp only: w)
  moreover have "list_all (\<lambda>c. isgraph c \<or> c \<in> set blanks) l" using lc(1) line_char_kinds(1) by (auto simp: list_all_iff)
  ultimately show ?thesis using g lc(2) by (simp add: readLine_def readLine_loop.simps [of "\<lparr>m_stream = _, m_line = _\<rparr>"])
qed

lemma args_text_chars: "list_all (list_all text_char) args \<Longrightarrow> list_all line_char (args_text args)"
  by (induction args rule: args_text.induct) (auto simp: list_all_iff line_char_def)

lemma call_clean:
  assumes "name \<noteq> []" "list_all text_char name" "list_all (list_all text_char) args"
  shows "clean_text (call_text name args)"
proof -
  have "text_char (hd name)" "text_char (last name)" using assms(1,2) by (simp_all add: list_all_iff)
  then have "hd name \<noteq> CHR '' ''" "last name \<noteq> CHR '' ''" using text_char_kinds(2) by (fastforce simp: blanks_def)+
  then show ?thesis
    using assms args_text_chars [OF assms(3)] by (auto simp: clean_text_def call_text_def list_all_iff line_char_def)
qed

lemma clean_join: "clean_text a \<Longrightarrow> clean_text b \<Longrightarrow> list_all line_char m \<Longrightarrow> clean_text (a @ m @ b)"
  by (cases "b = []") (auto simp: clean_text_def)

lemma actions_clean: "list_all (filter_action_ok c) as \<Longrightarrow> as \<noteq> [] \<Longrightarrow> clean_text (actions_format as)"
proof (induction as rule: rev_induct)
  case (snoc a as)
  have a: "clean_text (action_format a)"
    using snoc.prems call_clean [OF action_call_text(1,2,4)] action_format_call by fastforce
  show ?case
  proof (cases as)
    case Nil
    then show ?thesis using a by simp
  next
    case (Cons b bs)
    then have "clean_text (actions_format as)" using snoc by simp
    from clean_join [OF this a, of "'', ''"] show ?thesis using Cons by (simp add: line_char_def)
  qed
qed simp

lemma rule_clean:
  assumes "rule_ok c r"
  shows "clean_text (rule_format r)" "rule_format r \<noteq> ''end''"
proof -
  obtain cond where cond: "r_condition r = Some cond" "condition_ok c cond" using assms by (auto simp: rule_ok_def split: option.splits)
  note cc = condition_call_text [OF cond(2)]
  have 1: "clean_text (condition_format cond)" using call_clean [OF cc(1,2,4)] condition_format_call [OF cond(2)] by simp
  let ?a = "actions_format (r_activate r)" and ?d = "actions_format (r_deactivate r)"
  have a: "r_activate r \<noteq> [] \<Longrightarrow> clean_text ?a" and d: "r_deactivate r \<noteq> [] \<Longrightarrow> clean_text ?d"
    using assms actions_clean by (auto simp: rule_ok_def)
  have sep: "list_all line_char '' = ''" "list_all line_char ''; ''" by (simp_all add: line_char_def)
  show "clean_text (rule_format r)"
  proof (cases "r_deactivate r = []")
    case True
    then show ?thesis using assms clean_join [OF 1 a sep(1)] cond by (simp add: rule_ok_def rule_format_def)
  next
    case False
    show ?thesis
    proof (cases "r_activate r = []")
      case True
      have "list_all line_char '' = ; ''" by (simp add: line_char_def)
      from clean_join [OF 1 d this] False True cond show ?thesis by (simp add: rule_format_def)
    next
      case act: False
      from clean_join [OF clean_join [OF 1 a sep(1)] d sep(2)] False act cond show ?thesis by (simp add: rule_format_def)
    qed
  qed
  have "CHR ''('' \<in> set (rule_format r)" using cond condition_format_call [OF cond(2)] cc(5) by (simp add: rule_format_def call_text_def)
  then show "rule_format r \<noteq> ''end''" by auto
qed

definition locks_cursor :: "rule \<Rightarrow> bool" where
  "locks_cursor r \<longleftrightarrow> (\<exists>mode. mode \<noteq> kOff \<and> LockCursorToScreenAction mode \<in> set (r_activate r @ r_deactivate r))"

lemma lock_by_all:
  "fold lock_by as c = c\<lparr>m_hasLockToScreenAction := m_hasLockToScreenAction c \<or> (\<exists>mode. mode \<noteq> kOff \<and> LockCursorToScreenAction mode \<in> set as)\<rparr>"
proof (induction as arbitrary: c)
  case (Cons a as)
  have "lock_by a c = c\<lparr>m_hasLockToScreenAction := m_hasLockToScreenAction c \<or> (\<exists>mode. mode \<noteq> kOff \<and> a = LockCursorToScreenAction mode)\<rparr>"
    by (cases a) auto
  moreover have "(\<exists>mode. mode \<noteq> kOff \<and> LockCursorToScreenAction mode \<in> set (a # as)) \<longleftrightarrow>
      (\<exists>mode. mode \<noteq> kOff \<and> a = LockCursorToScreenAction mode) \<or> (\<exists>mode. mode \<noteq> kOff \<and> LockCursorToScreenAction mode \<in> set as)" by auto
  ultimately show ?case by (simp add: Cons del: set_simps)
qed simp

lemma options_next:
  assumes "clean_text l" "l \<noteq> ''end''" "options_line lookup \<lparr>m_stream = rest, m_line = n + 1\<rparr> l st = Inr st'"
  shows "options_loop lookup \<lparr>m_stream = [CHR 0x09] @ l @ CHR 0x0A # rest, m_line = n\<rparr> st = options_loop lookup \<lparr>m_stream = rest, m_line = n + 1\<rparr> st'"
  using readLine_text [OF assms(1), of "[CHR 0x09]" rest n] assms(2,3) by (subst options_loop.simps) (simp add: blanks_def)

lemma options_end:
  "options_loop lookup \<lparr>m_stream = ''end'' @ CHR 0x0A # rest, m_line = n\<rparr> st = Inr (st, \<lparr>m_stream = rest, m_line = n + 1\<rparr>)"
proof -
  have "clean_text ''end''" by (simp add: clean_text_def line_char_def text_char_def wordchar_def isalnum_def)
  from readLine_text [OF this, of "[]"] show ?thesis by (simp add: options_loop.simps [of lookup "\<lparr>m_stream = _, m_line = _\<rparr>"])
qed

text \<open>
  C22. The rules of a configuration survive writing and reading. Every list of rules whose conditions
  and actions can be written, each with an action, is read back from its text as the same rules, in
  the same order; besides them only the note that a rule may lock the cursor to the screen is set in the
  configuration, exactly when one of the actions does.
\<close>

theorem rules_survive:
  assumes "list_all (rule_ok (os_config st)) rs"
  shows "readSectionOptions lookup \<lparr>m_stream = format_rules rs [CHR 0x09] @ ''end'' @ CHR 0x0A # rest, m_line = n\<rparr> st =
    Inr (st\<lparr>input_filter_rules := input_filter_rules st @ rs,
            os_config := (os_config st)\<lparr>m_hasLockToScreenAction := m_hasLockToScreenAction (os_config st) \<or> (\<exists>r\<in>set rs. locks_cursor r)\<rparr>\<rparr>,
         \<lparr>m_stream = rest, m_line = n + length rs + 1\<rparr>)"
  using assms unfolding readSectionOptions_def
proof (induction rs arbitrary: st n)
  case Nil
  then show ?case using options_end [of lookup rest n st] by (cases st; simp add: format_rules_def)
next
  case (Cons r rs)
  have r: "rule_ok (os_config st) r" using Cons.prems by simp
  define st' where "st' = st\<lparr>os_config := (os_config st)\<lparr>m_hasLockToScreenAction := m_hasLockToScreenAction (os_config st) \<or> locks_cursor r\<rparr>,
    input_filter_rules := input_filter_rules st @ [r]\<rparr>"
  have o: "options_line lookup s (rule_format r) st = Inr st'" for s
    using options_line_rule [OF r, of lookup s] unfolding lock_by_all st'_def locks_cursor_def .
  have "list_all (rule_ok (os_config st')) rs"
  proof -
    have "m_nameToCanonicalName (os_config st') = m_nameToCanonicalName (os_config st)" by (simp add: st'_def)
    then have e: "condition_ok (os_config st') = condition_ok (os_config st)" "filter_action_ok (os_config st') = filter_action_ok (os_config st)"
      by (intro ext ok_names; simp)+
    have "rule_ok (os_config st') q = rule_ok (os_config st) q" for q unfolding rule_ok_def e ..
    then show ?thesis using Cons.prems by (simp add: list_all_iff)
  qed
  from Cons.IH [OF this, of "n + 1"] show ?case
    using options_next [OF rule_clean [OF r] o, of "format_rules rs [CHR 0x09] @ ''end'' @ CHR 0x0A # rest" n]
    by (simp add: format_rules_def st'_def disj_assoc)
qed

section \<open>What does not survive\<close>

text \<open>A name that is followed by a blank ends there, whatever comes next.\<close>

lemma parse_spaced:
  assumes "drop b line = sp @ name @ sp' @ c # r" "set sp \<subseteq> set blanks" "name \<noteq> []" "set name \<inter> set (blanks @ ''('' @ delim) = {}"
    "set sp' \<subseteq> set blanks" "sp' \<noteq> []" "c \<notin> set (blanks @ ''('')"
  shows "\<exists>i. parseNameWithArgs s type line delim b = Inr (name, [], i) \<and> drop i line = c # r"
proof -
  let ?i = "b + length sp" let ?j = "?i + length name"
  obtain h n where h: "name = h # n" "h \<notin> set blanks" using assms(3,4) by (cases name) auto
  have 1: "find_first_not_of blanks line b = Some ?i" using assms(1,2) h by (intro skip_found [of b line sp h "n @ sp' @ c # r"]) auto
  have di: "drop ?i line = name @ sp' @ c # r" using drop_after [OF assms(1)] .
  have "hd (sp' @ c # r) \<in> set (blanks @ ''('' @ delim)" using assms(5,6) by (cases sp') auto
  then have 2: "end_at line (find_first_of (blanks @ ''('' @ delim) line ?i) = ?j"
    using drop_inside [OF di] assms(3) by (intro stop_at [OF di assms(4)]) auto
  have dj: "drop ?j line = sp' @ c # r" using drop_after [OF di] .
  have 3: "find_first_not_of blanks line ?j = Some (?j + length sp')" using skip_found [OF dj assms(5)] assms(7) by simp
  have dk: "drop (?j + length sp') line = c # r" using drop_after [OF dj] .
  have sub: "substr line ?i ?j = name" using di by (simp add: substr_def)
  have "parseNameWithArgs s type line delim b = Inr (name, [], ?j + length sp')"
    unfolding parseNameWithArgs_def Let_def 1 option.case 2 3 sub using nth_via_drop [OF dk] assms(7) by simp
  then show ?thesis using dk by blast
qed

text \<open>A line \<open>name = value\<close>.\<close>

lemma assignment_name:
  assumes "name \<noteq> []" "list_all text_char name"
  shows "\<exists>i. parseNameWithArgs s ''name'' (name @ '' = '' @ v) ''='' 0 = Inr (name, [], i) \<and> drop (i + 1) (name @ '' = '' @ v) = '' '' @ v"
proof -
  have "drop 0 (name @ '' = '' @ v) = [] @ name @ '' '' @ CHR ''='' # '' '' @ v" by simp
  from parse_spaced [OF this _ assms(1), of "''=''" s "''name''"] text_disjoint [OF assms(2), of "blanks @ ''('' @ ''=''"] obtain i where
    i: "parseNameWithArgs s ''name'' (name @ '' = '' @ v) ''='' 0 = Inr (name, [], i)" "drop i (name @ '' = '' @ v) = CHR ''='' # '' '' @ v"
    by (auto simp: blanks_def)
  have "drop (i + 1) (name @ '' = '' @ v) = '' '' @ v" using drop_after [of i "name @ '' = '' @ v" "''=''"] i(2) by simp
  then show ?thesis using i(1) by blast
qed

lemma options_line_option:
  assumes "parseNameWithArgs s ''name'' line ''='' 0 = Inr (name, nameArgs, i)"
    "parseNameWithArgs s ''value'' line [CHR '','', CHR '';'', CHR 0x0A] (i + 1) = Inr (v, valueArgs, j)"
    "name \<noteq> ''address''" "server_option s name v = Some (opt, Inr x)" "\<not> (j < length line \<and> (line ! j = CHR '','' \<or> line ! j = CHR '';''))"
  shows "options_line lookup s line st = Inr (st\<lparr>os_config := snd (addOption [] opt x (os_config st))\<rparr>)"
  using assms by (auto simp: options_line_def add_option_def)

lemma assignment_value:
  assumes "drop b line = '' '' @ v" "v \<noteq> []" "list_all text_char v"
  shows "parseNameWithArgs s ''value'' line [CHR '','', CHR '';'', CHR 0x0A] b = Inr (v, [], length line)"
proof -
  have "drop b line = '' '' @ v @ []" using assms(1) by simp
  from parse_word [OF this, of "[CHR '','', CHR '';'', CHR 0x0A]" s "''value''"] assms(2) text_disjoint [OF assms(3), of "blanks @ ''('' @ [CHR '','', CHR '';'', CHR 0x0A]"]
  show ?thesis by (auto simp: blanks_def need_delim_def)
qed

lemma show_corners_text: "\<exists>r. show_corners v = ''none'' @ r \<and> (r = [] \<or> (\<exists>r'. r = '' '' @ CHR ''+'' # r')) \<and> clean_text (''switchCorners = '' @ show_corners v)"
proof -
  have n: "clean_text ''switchCorners = none''" by (simp add: clean_text_def line_char_def text_char_def wordchar_def isalnum_def)
  have p: "clean_text ''+top-left''" "clean_text ''+top-right''" "clean_text ''+bottom-left''" "clean_text ''+bottom-right''"
    by (simp_all add: clean_text_def line_char_def text_char_def wordchar_def isalnum_def)
  have add: "clean_text x \<Longrightarrow> clean_text (x @ (if b then CHR '' '' # y else []))" if "clean_text y" for x y b
    using clean_join [OF _ that, of x "'' ''"] by (simp add: line_char_def)
  have "clean_text (''switchCorners = '' @ show_corners v)"
    unfolding show_corners_def using add [OF p(4) add [OF p(3) add [OF p(2) add [OF p(1) n]]], of "v AND 1 \<noteq> 0" "v AND 2 \<noteq> 0" "v AND 4 \<noteq> 0" "v AND 8 \<noteq> 0"]
    by (simp only: append.assoc append_Cons append_Nil)
  then show ?thesis by (auto simp: show_corners_def)
qed

text \<open>
  C27. The corners of the server are never read back. A value in the options section ends at the first blank,
  and the text of a set of corners is the word none and, after blanks, the corners: whatever corners the
  server has, its configuration is read with none.
\<close>

theorem global_corners_lost:
  "readSectionOptions lookup \<lparr>m_stream = write_option (kOptionScreenSwitchCorners, v) @ ''end'' @ CHR 0x0A # rest, m_line = n\<rparr> st =
     Inr (st\<lparr>os_config := snd (addOption [] kOptionScreenSwitchCorners 0 (os_config st))\<rparr>, \<lparr>m_stream = rest, m_line = n + 2\<rparr>)"
proof -
  let ?line = "''switchCorners = '' @ show_corners v"
  obtain r where r: "show_corners v = ''none'' @ r" "r = [] \<or> (\<exists>r'. r = '' '' @ CHR ''+'' # r')" "clean_text ?line"
    using show_corners_text by blast
  have w: "write_option (kOptionScreenSwitchCorners, v) = [CHR 0x09] @ ?line @ [CHR 0x0A]"
    using r(1) by (simp add: write_option_def option_tables option_ids)
  have t: "list_all text_char ''switchCorners''" "list_all text_char ''none''" by (simp_all add: text_char_def wordchar_def isalnum_def)
  have corners: "parseCorners s ''none'' = Inr 0" for s using parseCorners_show [of 0 s] by (simp add: show_corners_def)
  have o: "options_line lookup s ?line st = Inr (st\<lparr>os_config := snd (addOption [] kOptionScreenSwitchCorners 0 (os_config st))\<rparr>)" for s
  proof -
    obtain i where i: "parseNameWithArgs s ''name'' ?line ''='' 0 = Inr (''switchCorners'', [], i)" "drop (i + 1) ?line = '' '' @ show_corners v"
      using assignment_name [OF _ t(1), of s "show_corners v"] by auto
    have "\<exists>j. parseNameWithArgs s ''value'' ?line [CHR '','', CHR '';'', CHR 0x0A] (i + 1) = Inr (''none'', [], j) \<and>
        (length ?line \<le> j \<or> (\<exists>r'. drop j ?line = CHR ''+'' # r'))"
    proof (cases "r = []")
      case True
      then show ?thesis using assignment_value [of "i + 1" ?line "''none''" s] i(2) r(1) t(2) by auto
    next
      case False
      then obtain r' where "r = '' '' @ CHR ''+'' # r'" using r(2) by blast
      then have "drop (i + 1) ?line = '' '' @ ''none'' @ '' '' @ CHR ''+'' # r'" using i(2) r(1) by simp
      from parse_spaced [OF this, of "[CHR '','', CHR '';'', CHR 0x0A]" s "''value''"] show ?thesis by (auto simp: blanks_def)
    qed
    then obtain j where j: "parseNameWithArgs s ''value'' ?line [CHR '','', CHR '';'', CHR 0x0A] (i + 1) = Inr (''none'', [], j)"
      "length ?line \<le> j \<or> (\<exists>r'. drop j ?line = CHR ''+'' # r')" by blast
    then have "\<not> (j < length ?line \<and> (?line ! j = CHR '','' \<or> ?line ! j = CHR '';''))" using nth_via_drop [of j ?line] by fastforce
    moreover have "server_option s ''switchCorners'' ''none'' = Some (kOptionScreenSwitchCorners, Inr 0)"
      using corners by (simp add: server_option_def)
    ultimately show ?thesis using options_line_option [OF i(1) j(1)] by simp
  qed
  have "?line \<noteq> ''end''" by simp
  from options_next [OF r(3) this o, of "''end'' @ CHR 0x0A # rest" n] options_end [of lookup rest "n + 1"] show ?thesis
    unfolding readSectionOptions_def w by simp
qed


text \<open>
  The port of the address is not written: an address with a port is read, and what is written for it is
  read with the default port.
\<close>

lemma port_lost:
  assumes "host \<noteq> []" "list_all text_char host" "CHR '':'' \<notin> set host" "lookup host = None" "0 < p" "p \<le> 65535"
  shows "options_line lookup s (''address = '' @ host @ '':'' @ show_nat p) st =
      Inr (st\<lparr>listen_address := \<lparr>na_valid = True, na_hostname = host, na_port = int p\<rparr>\<rparr>)"
    "write_address \<lparr>na_valid = True, na_hostname = host, na_port = int p\<rparr> = [CHR 0x09] @ ''address = '' @ host @ [CHR 0x0A]"
    "options_line lookup s (''address = '' @ host) st =
      Inr (st\<lparr>listen_address := \<lparr>na_valid = True, na_hostname = host, na_port = kDefaultPort\<rparr>\<rparr>)"
proof -
  have h0: "host ! 0 \<noteq> CHR ''[''" using assms(1,2) by (cases host) (auto simp: text_char_def wordchar_def isalnum_def)
  have t: "list_all text_char ''address''" by (simp add: text_char_def wordchar_def isalnum_def)
  have line: "options_line lookup s (''address = '' @ v) st = map_sum id (\<lambda>a. st\<lparr>listen_address := a\<rparr>) (read_address lookup s v)"
    if v: "v \<noteq> []" "list_all text_char v" for v
  proof -
    obtain j where "parseNameWithArgs s ''name'' (''address'' @ '' = '' @ v) ''='' 0 = Inr (''address'', [], j)"
        "drop (j + 1) (''address'' @ '' = '' @ v) = '' '' @ v"
      using assignment_name [OF _ t] by blast
    then show ?thesis
      using assignment_value [of "j + 1" "''address'' @ '' = '' @ v" v s] v by (simp add: options_line_def split: sum.splits)
  qed
  have d: "list_all text_char (show_nat p)" "CHR '':'' \<notin> set (show_nat p)"
    using show_nat_digits [of p] by (auto simp: list_all_iff text_char_def wordchar_def isalnum_def isdigit_def Let_def)
  have n: "port_number (show_nat p) = int p"
    using c_str_show_int [of "int p"] strtol_show_nat(1) [of p] sint32_of_int [of "int p"] assms(6) by (simp add: port_number_def show_int_def)
  let ?a = "host @ '':'' @ show_nat p"
  have f1: "find_first_of '':'' ?a 0 = Some (length host)" using stop_found [of 0 ?a host "CHR '':''" "show_nat p" "'':''"] assms(3) by simp
  have f2: "find_first_of '':'' ?a (Suc (length host)) = None"
    unfolding find_first_of_def using d(2) by (intro find_from_end) auto
  have "parse_address ?a (?a, kDefaultPort) = (True, host, int p)"
    using f1 f2 h0 n assms(1) by (simp add: parse_address_def nth_append substr_def)
  then have r1: "read_address lookup s ?a = Inr \<lparr>na_valid = True, na_hostname = host, na_port = int p\<rparr>"
    using assms(1,4-6) by (simp add: read_address_def make_network_address_def resolve_def)
  have f3: "find_first_of '':'' host 0 = None" unfolding find_first_of_def using assms(3) by (intro find_from_end) auto
  then have "parse_address host (host, kDefaultPort) = (True, host, kDefaultPort)" using h0 assms(1) by (simp add: parse_address_def)
  then have r2: "read_address lookup s host = Inr \<lparr>na_valid = True, na_hostname = host, na_port = kDefaultPort\<rparr>"
    using assms(1,4) by (simp add: read_address_def make_network_address_def resolve_def kDefaultPort_def)
  show "options_line lookup s (''address = '' @ ?a) st = Inr (st\<lparr>listen_address := \<lparr>na_valid = True, na_hostname = host, na_port = int p\<rparr>\<rparr>)"
    using line [of ?a] r1 assms(2) d(1) by (simp add: text_char_def)
  show "write_address \<lparr>na_valid = True, na_hostname = host, na_port = int p\<rparr> = [CHR 0x09] @ ''address = '' @ host @ [CHR 0x0A]"
    using text_c_str [OF assms(2)] by (simp add: write_address_def)
  show "options_line lookup s (''address = '' @ host) st = Inr (st\<lparr>listen_address := \<lparr>na_valid = True, na_hostname = host, na_port = kDefaultPort\<rparr>\<rparr>)"
    using line [of host] r2 assms(1,2) by simp
qed

text \<open>
  A rule without actions can be read, but what is written for it cannot: the line ends with the equals sign.
\<close>

lemma empty_rule_unreadable:
  assumes "condition_ok (os_config st) cond"
  shows "options_line lookup s (condition_format cond @ '' = ;'') st =
      Inr (st\<lparr>input_filter_rules := input_filter_rules st @ [rule_new (Some cond)]\<rparr>)"
    "rule_format (rule_new (Some cond)) = condition_format cond @ '' = ''"
    "options_line lookup s (condition_format cond @ '' ='') st = throw_read s ''missing value'' []"
proof -
  note cc = condition_call_text [OF assms]
  let ?n = "fst (condition_call cond)" and ?a = "snd (condition_call cond)"
  have name: "\<exists>i. parseNameWithArgs s ''name'' (condition_format cond @ '' ='' @ v) ''='' 0 = Inr (?n, ?a, i) \<and>
      drop i (condition_format cond @ '' ='' @ v) = CHR ''='' # v \<and> i \<le> length (condition_format cond @ '' ='' @ v)" for v
  proof -
    have "drop 0 (condition_format cond @ '' ='' @ v) = [] @ ?n @ CHR ''('' # args_text ?a @ CHR '')'' # '' '' @ CHR ''='' # v"
      using cc(5) condition_format_call [OF assms] by (simp add: call_text_def)
    from parse_call [OF this, of "''=''" s "''name''"] cc(1,3,5) text_disjoint [OF cc(2), of "blanks @ ''('' @ ''=''"] show ?thesis
      by (auto simp: blanks_def)
  qed
  show "options_line lookup s (condition_format cond @ '' ='') st = throw_read s ''missing value'' []"
  proof -
    obtain i where i: "parseNameWithArgs s ''name'' (condition_format cond @ '' ='') ''='' 0 = Inr (?n, ?a, i)"
        "drop i (condition_format cond @ '' ='') = CHR ''='' # []" using name [of "[]"] by auto
    have "drop (i + length ''='') (condition_format cond @ '' ='') = []" by (rule drop_after) (use i(2) in simp)
    then have "find_first_not_of blanks (condition_format cond @ '' ='') (i + 1) = None" by (intro skip_none) simp
    then have "parseNameWithArgs s ''value'' (condition_format cond @ '' ='') [CHR '','', CHR '';'', CHR 0x0A] (i + 1) = throw_read s ''missing value'' []"
      unfolding parseNameWithArgs_def by simp
    then show ?thesis using i(1) by (simp add: options_line_def throw_read_def)
  qed
  define line where "line = condition_format cond @ '' = ;''"
  obtain i where i: "parseNameWithArgs s ''name'' line ''='' 0 = Inr (?n, ?a, i)" "drop i line = CHR ''='' # '' ;''"
    using name [of "'' ;''"] by (auto simp: line_def)
  have "drop (i + 1) line = '' '' @ [] @ '';''" using drop_after [of i line "''=''"] i(2) by simp
  from parse_word [OF this, of "[CHR '','', CHR '';'', CHR 0x0A]" s "''value''"] obtain j where
    j: "parseNameWithArgs s ''value'' line [CHR '','', CHR '';'', CHR 0x0A] (i + 1) = Inr ([], [], j)" "drop j line = '';''" by (auto simp: blanks_def)
  have semi: "j < length line" "line ! j = CHR '';''" using drop_inside [OF j(2)] nth_via_drop [OF j(2)] by simp_all
  have "drop (j + 1) line = []" using drop_after [of j line "'';''"] j(2) by simp
  then have e: "find_first_not_of blanks line (j + 1) = None" by (intro skip_none) simp
  have "rule_line s line ?n ?a [] [] j (os_config st) = Inr (rule_new (Some cond), os_config st)"
    using parseCondition_back [OF assms, of s] semi e
    by (simp add: rule_line_def activate_loop.simps [of s line j] deactivate_loop.simps [of s line "length line"])
  then have "options_line lookup s line st = Inr (st\<lparr>input_filter_rules := input_filter_rules st @ [rule_new (Some cond)]\<rparr>)"
    using i(1) j(1) not_an_option [OF cc(6)] copy_ok [OF assms] by (simp add: options_line_def rule_copy_def rule_new_def)
  then show "options_line lookup s (condition_format cond @ '' = ;'') st = Inr (st\<lparr>input_filter_rules := input_filter_rules st @ [rule_new (Some cond)]\<rparr>)"
    by (simp only: line_def)
  show "rule_format (rule_new (Some cond)) = condition_format cond @ '' = ''" by (simp add: rule_format_def rule_new_def)
qed

section \<open>The options survive\<close>








section \<open>Witness\<close>

definition demo_rules :: "rule list" where
  "demo_rules =
     [\<lparr>r_condition = Some (KeystrokeCondition 0 0xEFC0 0x03), r_activate = [SwitchInDirectionAction kRight, ToggleScreenAction], r_deactivate = []\<rparr>,
      \<lparr>r_condition = Some (MouseButtonCondition 2 0), r_activate = [], r_deactivate = [LockCursorToScreenAction kOn]\<rparr>]"

definition demo_options :: options_state where
  "demo_options = \<lparr>os_config = config_new, input_filter_rules = [], listen_address = network_address_new\<rparr>"

theorem rules_survive_witness:
  "\<exists>st s'. readSectionOptions (\<lambda>_. None) \<lparr>m_stream = format_rules demo_rules [CHR 0x09] @ ''end'' @ CHR 0x0A # [], m_line = 0\<rparr> demo_options = Inr (st, s') \<and>
     input_filter_rules st = demo_rules \<and> m_hasLockToScreenAction (os_config st) \<and> m_stream s' = []"
proof -
  have "(''F3'', 0xEFC0) \<in> set kKeyNameMap" by (simp add: kKeyNameMap_def)
  then have "0xEFC0 \<in> snd ` set kKeyNameMap" by force
  then have "list_all (rule_ok (os_config demo_options)) demo_rules"
    by (simp add: demo_rules_def rule_ok_def keystroke_ok_def)
  from rules_survive [OF this, of "\<lambda>_. None" "[]" 0] show ?thesis
    by (simp add: demo_options_def) (auto simp: demo_rules_def locks_cursor_def)
qed


end
