(* ===== verification/EventQueue.thy ===== *)
theory EventQueue
  imports Complex_Main StdMap "HOL-Library.Multiset"
begin

text \<open>
  The event queue: \<^verbatim>\<open>src/lib/base/EventQueue.cpp\<close> with \<^verbatim>\<open>SimpleEventQueueBuffer.cpp\<close>, \<^verbatim>\<open>PriorityQueue.h\<close>
  and its stopwatch. Events are saved under numbers and the numbers pass through a buffer, which is the
  simple one or one of the platform: the locale \<open>event_buffer\<close> says what the queue needs of it. Timers
  count down in a heap; times are exact, the time of the clock is an argument, the same where the code reads
  the clock twice in a row, and how the library arranges a heap is a parameter of which only the front
  matters. Numbers are unbounded, since the 32 bits of the code would take as many events that wait at once.
  A handler is called outside of the model: what it does to the queue are further operations. Locks are not
  modelled.
\<close>

section \<open>Events\<close>

type_synonym target_id = nat
type_synonym timer_id = nat

text \<open>The types of events the queue treats on their own, and the others.\<close>

datatype EventType = UNKNOWN | QUIT | SYSTEM | TIMER | OTHER nat

fun type_num :: "EventType \<Rightarrow> nat" where
  "type_num UNKNOWN = 0"
| "type_num QUIT = 1"
| "type_num SYSTEM = 2"
| "type_num TIMER = 3"
| "type_num (OTHER n) = 4 + n"

definition type_less :: "EventType \<Rightarrow> EventType \<Rightarrow> bool" where
  "type_less a b \<longleftrightarrow> type_num a < type_num b"

datatype event_data = No_data | Data nat | TimerEvent timer_id nat

record eq_event =
  ev_type :: EventType
  ev_target :: "target_id option"
  ev_data :: event_data
  ev_immediate :: bool

definition event_new :: eq_event where
  "event_new = \<lparr>ev_type = UNKNOWN, ev_target = None, ev_data = No_data, ev_immediate = False\<rparr>"

section \<open>Buffers\<close>

datatype buffer_event = kNone | kSystem eq_event | kUser nat

record 'b buffer_ops =
  b_addEvent :: "nat \<Rightarrow> 'b \<Rightarrow> bool \<times> 'b"
  b_getEvent :: "'b \<Rightarrow> buffer_event \<times> 'b"
  b_isEmpty :: "'b \<Rightarrow> bool"

record simple_buffer =
  sq_queue :: "nat list"
  m_queueReady :: bool

definition simple_new :: simple_buffer where
  "simple_new = \<lparr>sq_queue = [], m_queueReady = False\<rparr>"

definition simple_getEvent :: "simple_buffer \<Rightarrow> buffer_event \<times> simple_buffer" where
  "simple_getEvent b =
     (if \<not> m_queueReady b then (kNone, b)
      else (kUser (last (sq_queue b)), b\<lparr>sq_queue := butlast (sq_queue b), m_queueReady := butlast (sq_queue b) \<noteq> []\<rparr>))"

definition simple_addEvent :: "nat \<Rightarrow> simple_buffer \<Rightarrow> bool \<times> simple_buffer" where
  "simple_addEvent i b = (True, b\<lparr>sq_queue := i # sq_queue b, m_queueReady := True\<rparr>)"

definition simple_isEmpty :: "simple_buffer \<Rightarrow> bool" where
  "simple_isEmpty b \<longleftrightarrow> \<not> m_queueReady b"

definition simple_ops :: "simple_buffer buffer_ops" where
  "simple_ops = \<lparr>b_addEvent = simple_addEvent, b_getEvent = simple_getEvent, b_isEmpty = simple_isEmpty\<rparr>"

section \<open>Timers\<close>

record timer =
  t_timer :: timer_id
  t_timeout :: rat
  t_target :: target_id
  t_oneShot :: bool
  t_time :: rat

definition timer_reset :: "timer \<Rightarrow> timer" where
  "timer_reset t = t\<lparr>t_time := t_timeout t\<rparr>"

text \<open>\<open>Timer::fillEvent\<close>: the number of periods that have passed.\<close>

definition timer_count :: "timer \<Rightarrow> nat" where
  "timer_count t = (if t_time t \<le> 0 then nat \<lfloor>(t_timeout t - t_time t) / t_timeout t\<rfloor> else 0)"

text \<open>
  \<open>PriorityQueue\<close>: a vector that the heap functions of the library arrange after each change, so that
  an element with the least time is in front.
\<close>

definition pq_push :: "(timer list \<Rightarrow> timer list) \<Rightarrow> timer \<Rightarrow> timer list \<Rightarrow> timer list" where
  "pq_push arrange t c = arrange (c @ [t])"

definition pq_pop :: "(timer list \<Rightarrow> timer list) \<Rightarrow> timer list \<Rightarrow> timer list" where
  "pq_pop arrange c = arrange (tl c)"

fun pq_erase_timer :: "timer_id \<Rightarrow> timer list \<Rightarrow> timer list option" where
  "pq_erase_timer i [] = None"
| "pq_erase_timer i (t # c) = (if t_timer t = i then Some c else map_option (Cons t) (pq_erase_timer i c))"

section \<open>The queue\<close>

text \<open>
  \<open>eq_mark\<close> is the time at which the stopwatch was reset; \<open>eq_owner\<close> the queue each target belongs to,
  of all queues of the program.
\<close>

record ('b, 'h) event_queue =
  eq_buffer :: 'b
  eq_events :: "(nat, eq_event) smap"
  eq_oldEventIDs :: "nat list"
  eq_mark :: rat
  eq_timers :: "timer_id set"
  eq_timerQueue :: "timer list"
  eq_handlers :: "(target_id, (EventType, 'h) smap) smap"
  eq_owner :: "target_id \<Rightarrow> nat option"
  eq_ready :: bool
  eq_pending :: "eq_event list"

definition event_queue_new :: "'b \<Rightarrow> rat \<Rightarrow> (target_id \<Rightarrow> nat option) \<Rightarrow> ('b, 'h) event_queue" where
  "event_queue_new b now owner =
     \<lparr>eq_buffer = b, eq_events = [], eq_oldEventIDs = [], eq_mark = now, eq_timers = {}, eq_timerQueue = [],
      eq_handlers = [], eq_owner = owner, eq_ready = False, eq_pending = []\<rparr>"

definition save_event :: "eq_event \<Rightarrow> ('b, 'h) event_queue \<Rightarrow> nat \<times> ('b, 'h) event_queue" where
  "save_event ev q =
     (let (i, old) = (if eq_oldEventIDs q \<noteq> [] then (last (eq_oldEventIDs q), butlast (eq_oldEventIDs q))
                      else (length (eq_events q), []))
      in (i, q\<lparr>eq_events := smap_assign (<) i ev (eq_events q), eq_oldEventIDs := old\<rparr>))"

definition removeEvent :: "nat \<Rightarrow> ('b, 'h) event_queue \<Rightarrow> eq_event \<times> ('b, 'h) event_queue" where
  "removeEvent i q =
     (case smap_find (<) i (eq_events q) of
        None \<Rightarrow> (event_new, q)
      | Some (_, ev) \<Rightarrow> (ev, q\<lparr>eq_events := smap_erase (<) i (eq_events q), eq_oldEventIDs := eq_oldEventIDs q @ [i]\<rparr>))"

definition add_event_to_buffer :: "'b buffer_ops \<Rightarrow> eq_event \<Rightarrow> ('b, 'h) event_queue \<Rightarrow> ('b, 'h) event_queue" where
  "add_event_to_buffer ops ev q =
     (let (i, q1) = save_event ev q;
          (ok, b) = b_addEvent ops i (eq_buffer q1);
          q2 = q1\<lparr>eq_buffer := b\<rparr>
      in if \<not> ok then snd (removeEvent i q2) else q2)"

definition get_handler :: "EventType \<Rightarrow> target_id option \<Rightarrow> ('b, 'h) event_queue \<Rightarrow> 'h option" where
  "get_handler type target q =
     (case target of
        None \<Rightarrow> None
      | Some t \<Rightarrow>
          case smap_find (<) t (eq_handlers q) of
            None \<Rightarrow> None
          | Some (_, typeHandlers) \<Rightarrow> map_option snd (smap_find type_less type typeHandlers))"

text \<open>The handler that is called for an event, if there is one.\<close>

definition dispatchEvent :: "eq_event \<Rightarrow> ('b, 'h) event_queue \<Rightarrow> 'h option" where
  "dispatchEvent ev q =
     (case get_handler (ev_type ev) (ev_target ev) q of
        Some h \<Rightarrow> Some h
      | None \<Rightarrow> get_handler UNKNOWN (ev_target ev) q)"

definition add_event :: "'b buffer_ops \<Rightarrow> eq_event \<Rightarrow> ('b, 'h) event_queue \<Rightarrow> 'h option \<times> ('b, 'h) event_queue" where
  "add_event ops ev q =
     (if ev_type ev \<in> {UNKNOWN, SYSTEM, TIMER} then (None, q)
      else if ev_immediate ev then (dispatchEvent ev q, q)
      else if \<not> eq_ready q then (None, q\<lparr>eq_pending := eq_pending q @ [ev]\<rparr>)
      else (None, add_event_to_buffer ops ev q))"

text \<open>The start of \<open>loop\<close>: the queue is ready, and then the events that were kept back are moved one by one.\<close>

definition set_ready :: "('b, 'h) event_queue \<Rightarrow> ('b, 'h) event_queue" where
  "set_ready q = q\<lparr>eq_ready := True\<rparr>"

function move_pending :: "'b buffer_ops \<Rightarrow> ('b, 'h) event_queue \<Rightarrow> ('b, 'h) event_queue" where
  "move_pending ops q =
     (if eq_pending q \<noteq> [] then
        let q1 = add_event_to_buffer ops (hd (eq_pending q)) q
        in move_pending ops (q1\<lparr>eq_pending := tl (eq_pending q)\<rparr>)
      else q)"
  by auto
termination by (relation "measure (\<lambda>(ops, q). length (eq_pending q))") auto

declare move_pending.simps [simp del]

text \<open>Another buffer; the events that waited are dropped.\<close>

definition set_buffer :: "'b \<Rightarrow> ('b, 'h) event_queue \<Rightarrow> ('b, 'h) event_queue" where
  "set_buffer b q = q\<lparr>eq_events := [], eq_oldEventIDs := [], eq_buffer := b\<rparr>"

text \<open>
  \<open>newTimer\<close> and \<open>newOneShotTimer\<close>; a failed assertion is \<open>None\<close>. A timer without a target is its own.
\<close>

definition newTimer ::
    "(timer list \<Rightarrow> timer list) \<Rightarrow> bool \<Rightarrow> timer_id \<Rightarrow> rat \<Rightarrow> target_id option \<Rightarrow> rat \<Rightarrow> ('b, 'h) event_queue \<Rightarrow> ('b, 'h) event_queue option" where
  "newTimer arrange oneShot i duration target now q =
     (if duration > 0 then
        Some (q\<lparr>eq_timers := insert i (eq_timers q),
                eq_timerQueue := pq_push arrange
                  \<lparr>t_timer = i, t_timeout = duration, t_target = (case target of None \<Rightarrow> i | Some t \<Rightarrow> t), t_oneShot = oneShot,
                   t_time = duration + (now - eq_mark q)\<rparr> (eq_timerQueue q)\<rparr>)
      else None)"

definition deleteTimer :: "(timer list \<Rightarrow> timer list) \<Rightarrow> timer_id \<Rightarrow> ('b, 'h) event_queue \<Rightarrow> ('b, 'h) event_queue" where
  "deleteTimer arrange i q =
     q\<lparr>eq_timerQueue := (case pq_erase_timer i (eq_timerQueue q) of None \<Rightarrow> eq_timerQueue q | Some c \<Rightarrow> arrange c),
       eq_timers := eq_timers q - {i}\<rparr>"

definition hasTimerExpired :: "(timer list \<Rightarrow> timer list) \<Rightarrow> rat \<Rightarrow> ('b, 'h) event_queue \<Rightarrow> eq_event option \<times> ('b, 'h) event_queue" where
  "hasTimerExpired arrange now q =
     (if eq_timerQueue q = [] then (None, q)
      else
        let time = now - eq_mark q;
            c = map (\<lambda>t. t\<lparr>t_time := t_time t - time\<rparr>) (eq_timerQueue q);
            q1 = q\<lparr>eq_mark := now, eq_timerQueue := c\<rparr>
        in if t_time (hd c) > 0 then (None, q1)
           else
             let t = hd c;
                 c1 = pq_pop arrange c;
                 ev = \<lparr>ev_type = TIMER, ev_target = Some (t_target t), ev_data = TimerEvent (t_timer t) (timer_count t), ev_immediate = False\<rparr>
             in (Some ev, q1\<lparr>eq_timerQueue := (if \<not> t_oneShot t then pq_push arrange (timer_reset t) c1 else c1)\<rparr>))"

definition getNextTimerTimeout :: "('b, 'h) event_queue \<Rightarrow> rat" where
  "getNextTimerTimeout q =
     (if eq_timerQueue q = [] then - 1
      else if t_time (hd (eq_timerQueue q)) \<le> 0 then 0
      else t_time (hd (eq_timerQueue q)))"

text \<open>
  One turn of \<open>getEvent\<close>: it returns an event, gives up, or tries again, at once or after it has waited
  for the buffer. \<open>elapsed\<close> is the time since the call.
\<close>

datatype turn = Returns eq_event | Gives_up | Waits rat | Retries

definition getEvent_turn ::
    "'b buffer_ops \<Rightarrow> (timer list \<Rightarrow> timer list) \<Rightarrow> rat \<Rightarrow> rat \<Rightarrow> rat \<Rightarrow> ('b, 'h) event_queue \<Rightarrow> turn \<times> ('b, 'h) event_queue" where
  "getEvent_turn ops arrange timeout elapsed now q =
     (if b_isEmpty ops (eq_buffer q) then
        case hasTimerExpired arrange now q of
          (Some ev, q1) \<Rightarrow> (Returns ev, q1)
        | (None, q1) \<Rightarrow>
            let timeLeft = timeout - elapsed; timerTimeout = getNextTimerTimeout q1
            in if timeout \<ge> 0 \<and> timeLeft \<le> 0 then (Gives_up, q1)
               else (Waits (if timeout < 0 \<or> timerTimeout \<ge> 0 \<and> timerTimeout < timeLeft then timerTimeout else timeLeft), q1)
      else
        let (r, b) = b_getEvent ops (eq_buffer q); q1 = q\<lparr>eq_buffer := b\<rparr>
        in case r of
             kNone \<Rightarrow> (if timeout < 0 \<or> timeout \<le> elapsed then Retries else Gives_up, q1)
           | kSystem ev \<Rightarrow> (Returns ev, q1)
           | kUser i \<Rightarrow> let (ev, q2) = removeEvent i q1 in (Returns ev, q2))"

text \<open>Handlers; a target that belongs to another queue is an exception.\<close>

definition add_handler :: "nat \<Rightarrow> EventType \<Rightarrow> target_id \<Rightarrow> 'h \<Rightarrow> ('b, 'h) event_queue \<Rightarrow> string + ('b, 'h) event_queue" where
  "add_handler self type target h q =
     (if eq_owner q target \<noteq> None \<and> eq_owner q target \<noteq> Some self then Inl ''EventTarget added to wrong EventQueue''
      else
        let table = (case smap_find (<) target (eq_handlers q) of None \<Rightarrow> [] | Some (_, table) \<Rightarrow> table)
        in Inr (q\<lparr>eq_owner := (eq_owner q)(target := Some self),
                  eq_handlers := smap_assign (<) target (smap_assign type_less type h table) (eq_handlers q)\<rparr>))"

definition remove_handler :: "EventType \<Rightarrow> target_id \<Rightarrow> ('b, 'h) event_queue \<Rightarrow> ('b, 'h) event_queue" where
  "remove_handler type target q =
     (if eq_owner q target = None then q
      else
        case smap_find (<) target (eq_handlers q) of
          None \<Rightarrow> q
        | Some (_, table) \<Rightarrow>
            let table' = smap_erase type_less type table
            in if table' = [] then q\<lparr>eq_handlers := smap_erase (<) target (eq_handlers q), eq_owner := (eq_owner q)(target := None)\<rparr>
               else q\<lparr>eq_handlers := smap_modify (<) target (\<lambda>_. table') (eq_handlers q)\<rparr>)"

definition remove_handlers :: "nat \<Rightarrow> target_id \<Rightarrow> ('b, 'h) event_queue \<Rightarrow> string + ('b, 'h) event_queue" where
  "remove_handlers self target q =
     (if eq_owner q target = None then Inr q
      else if eq_owner q target \<noteq> Some self then Inl ''EventTarget sent to wrong EventQueue''
      else Inr (q\<lparr>eq_handlers := smap_erase (<) target (eq_handlers q), eq_owner := (eq_owner q)(target := None)\<rparr>))"


section \<open>Events come out in order\<close>

interpretation event_ids: keyed_map "(<) :: nat \<Rightarrow> nat \<Rightarrow> bool" "\<lambda>i. i"
  by unfold_locales simp

text \<open>The numbers in use and those that can be used again are the first ones, each once.\<close>

definition ids_ok :: "('b, 'h) event_queue \<Rightarrow> bool" where
  "ids_ok q \<longleftrightarrow> event_ids.ordered (eq_events q) \<and> distinct (map fst (eq_events q) @ eq_oldEventIDs q) \<and>
     set (map fst (eq_events q) @ eq_oldEventIDs q) = {..< length (eq_events q) + length (eq_oldEventIDs q)}"

lemma save_event_result:
  assumes "ids_ok q"
  shows "\<exists>i old evs. save_event ev q = (i, q\<lparr>eq_events := evs, eq_oldEventIDs := old\<rparr>) \<and> i \<notin> fst ` set (eq_events q) \<and>
    ids_ok (q\<lparr>eq_events := evs, eq_oldEventIDs := old\<rparr>) \<and> set evs = insert (i, ev) (set (eq_events q))"
proof -
  obtain i old where c: "(if eq_oldEventIDs q \<noteq> [] then (last (eq_oldEventIDs q), butlast (eq_oldEventIDs q)) else (length (eq_events q), [])) = (i, old)"
    by fastforce
  have o: "event_ids.ordered (eq_events q)" using assms by (simp add: ids_ok_def)
  have n: "i \<notin> fst ` set (eq_events q) \<and> i \<notin> set old \<and> distinct (map fst (eq_events q) @ old) \<and>
    insert i (fst ` set (eq_events q) \<union> set old) = {..< Suc (length (eq_events q) + length old)}"
  proof (cases "eq_oldEventIDs q = []")
    case True
    then have "i = length (eq_events q)" "old = []" using c by auto
    then show ?thesis using assms True by (auto simp: ids_ok_def lessThan_Suc)
  next
    case False
    then have "eq_oldEventIDs q = old @ [i]" using c append_butlast_last_id [of "eq_oldEventIDs q"] by auto
    then show ?thesis using assms by (auto simp: ids_ok_def)
  qed
  then have k: "\<forall>e\<in>set (eq_events q). fst e \<noteq> i" by force
  let ?evs = "smap_assign (<) i ev (eq_events q)"
  have s: "set ?evs = insert (i, ev) (set (eq_events q))" using event_ids.set_assign_new [OF o k] .
  have "distinct (map fst ?evs)" by (rule event_ids.distinct_keys) (simp add: o)
  then have "ids_ok (q\<lparr>eq_events := ?evs, eq_oldEventIDs := old\<rparr>)"
    using n o event_ids.length_assign_new [OF o k, of ev] by (auto simp: ids_ok_def s)
  moreover have "save_event ev q = (i, q\<lparr>eq_events := ?evs, eq_oldEventIDs := old\<rparr>)" unfolding save_event_def c by simp
  ultimately show ?thesis using n s by blast
qed

lemma removeEvent_result:
  assumes "ids_ok q" "(i, ev) \<in> set (eq_events q)"
  shows "\<exists>evs. removeEvent i q = (ev, q\<lparr>eq_events := evs, eq_oldEventIDs := eq_oldEventIDs q @ [i]\<rparr>) \<and>
    ids_ok (q\<lparr>eq_events := evs, eq_oldEventIDs := eq_oldEventIDs q @ [i]\<rparr>) \<and> set evs = {e \<in> set (eq_events q). fst e \<noteq> i}"
proof -
  have o: "event_ids.ordered (eq_events q)" using assms by (simp add: ids_ok_def)
  have f: "smap_find (<) i (eq_events q) = Some (i, ev)" using event_ids.find_Some [OF o, of i i ev] assms(2) by simp
  let ?evs = "smap_erase (<) i (eq_events q)"
  have s: "set ?evs = {e \<in> set (eq_events q). fst e \<noteq> i}" by (rule event_ids.set_erase [OF o])
  have l: "Suc (length ?evs) = length (eq_events q)" using event_ids.length_erase [OF o] f by simp
  have i: "i \<in> fst ` set (eq_events q)" using assms(2) by force
  have d: "distinct (map fst ?evs)" by (rule event_ids.distinct_keys) (simp add: o)
  have e: "fst ` set ?evs = fst ` set (eq_events q) - {i}" unfolding s by auto
  have u: "fst ` set (eq_events q) \<inter> set (eq_oldEventIDs q) = {}" "distinct (eq_oldEventIDs q)"
    "fst ` set (eq_events q) \<union> set (eq_oldEventIDs q) = {..< length (eq_events q) + length (eq_oldEventIDs q)}"
    using assms(1) by (simp_all add: ids_ok_def)
  have "distinct (map fst ?evs @ eq_oldEventIDs q @ [i])" using d u(1,2) e i by auto
  moreover have "set (map fst ?evs @ eq_oldEventIDs q @ [i]) = {..< length ?evs + length (eq_oldEventIDs q @ [i])}"
  proof -
    have m: "length ?evs + length (eq_oldEventIDs q @ [i]) = length (eq_events q) + length (eq_oldEventIDs q)" using l by simp
    show ?thesis unfolding m u(3) [symmetric] using e i by auto
  qed
  ultimately have "ids_ok (q\<lparr>eq_events := ?evs, eq_oldEventIDs := eq_oldEventIDs q @ [i]\<rparr>)"
    unfolding ids_ok_def using o by simp
  then show ?thesis using f s by (auto simp: removeEvent_def)
qed

text \<open>What the queue needs of a buffer: numbers come out in the order in which they were added.\<close>

locale event_buffer =
  fixes ops :: "'b buffer_ops"
    and contents :: "'b \<Rightarrow> nat list"
    and valid :: "'b \<Rightarrow> bool"
  assumes add_law: "valid b \<Longrightarrow> b_addEvent ops i b = (ok, b') \<Longrightarrow> valid b' \<and> contents b' = (if ok then contents b @ [i] else contents b)"
    and get_law: "valid b \<Longrightarrow> \<not> b_isEmpty ops b \<Longrightarrow> b_getEvent ops b = (r, b') \<Longrightarrow>
      valid b' \<and> (case r of kUser i \<Rightarrow> contents b = i # contents b' | _ \<Rightarrow> contents b' = contents b)"
begin

definition sound :: "('b, 'h) event_queue \<Rightarrow> bool" where
  "sound q \<longleftrightarrow> ids_ok q \<and> valid (eq_buffer q) \<and> distinct (contents (eq_buffer q)) \<and> set (contents (eq_buffer q)) = fst ` set (eq_events q)"

definition queued :: "('b, 'h) event_queue \<Rightarrow> eq_event list" where
  "queued q = map (\<lambda>i. snd (the (smap_find (<) i (eq_events q)))) (contents (eq_buffer q))"

lemma queued_eq:
  assumes "event_ids.ordered (eq_events q)" "list_all2 (\<lambda>i ev. (i, ev) \<in> set (eq_events q)) (contents (eq_buffer q)) evs"
  shows "queued q = evs"
proof -
  have "snd (the (smap_find (<) i (eq_events q))) = ev" if "(i, ev) \<in> set (eq_events q)" for i ev
    using event_ids.find_Some [OF assms(1), of i i ev] that by simp
  then have "list_all2 (\<lambda>i ev. snd (the (smap_find (<) i (eq_events q))) = ev) (contents (eq_buffer q)) evs"
    using assms(2) by (auto elim!: list_all2_mono)
  then show ?thesis unfolding queued_def by (induction rule: list_all2_induct) auto
qed

lemma queued_rel:
  assumes "sound q"
  shows "list_all2 (\<lambda>i ev. (i, ev) \<in> set (eq_events q)) (contents (eq_buffer q)) (queued q)"
proof -
  have o: "event_ids.ordered (eq_events q)" using assms by (simp add: sound_def ids_ok_def)
  have "(i, snd (the (smap_find (<) i (eq_events q)))) \<in> set (eq_events q)" if "i \<in> set (contents (eq_buffer q))" for i
  proof -
    have "i \<in> fst ` set (eq_events q)" using that assms by (simp add: sound_def)
    then obtain ev where "(i, ev) \<in> set (eq_events q)" by auto
    then show ?thesis using event_ids.find_Some [OF o, of i i ev] by simp
  qed
  then show ?thesis unfolding queued_def by (simp add: list_all2_conv_all_nth)
qed

lemma add_to_buffer_result:
  assumes "sound q"
  shows "sound (add_event_to_buffer ops ev q) \<and>
    queued (add_event_to_buffer ops ev q) \<in> {queued q, queued q @ [ev]} \<and>
    ((\<forall>i b. fst (b_addEvent ops i b)) \<longrightarrow> queued (add_event_to_buffer ops ev q) = queued q @ [ev]) \<and>
    eq_pending (add_event_to_buffer ops ev q) = eq_pending q \<and> eq_ready (add_event_to_buffer ops ev q) = eq_ready q"
proof -
  have ids: "ids_ok q" using assms by (simp add: sound_def)
  from save_event_result [OF ids, of ev] obtain i old evs where
    s: "save_event ev q = (i, q\<lparr>eq_events := evs, eq_oldEventIDs := old\<rparr>)" "i \<notin> fst ` set (eq_events q)"
      "ids_ok (q\<lparr>eq_events := evs, eq_oldEventIDs := old\<rparr>)" "set evs = insert (i, ev) (set (eq_events q))" by blast
  obtain ok b where b: "b_addEvent ops i (eq_buffer q) = (ok, b)" by fastforce
  have law: "valid b" "contents b = (if ok then contents (eq_buffer q) @ [i] else contents (eq_buffer q))"
    using add_law [OF _ b] assms by (auto simp: sound_def)
  let ?q1 = "q\<lparr>eq_events := evs, eq_oldEventIDs := old, eq_buffer := b\<rparr>"
  have ids1: "ids_ok ?q1" using s(3) by (simp add: ids_ok_def)
  note rel = queued_rel [OF assms]
  show ?thesis
  proof (cases ok)
    case True
    then have q': "add_event_to_buffer ops ev q = ?q1" using s(1) b by (simp add: add_event_to_buffer_def)
    have "sound ?q1" using assms ids1 law s(2,4) True by (auto simp: sound_def)
    moreover have "list_all2 (\<lambda>i ev. (i, ev) \<in> set evs) (contents b) (queued q @ [ev])"
      using rel law(2) True s(4) by (auto intro!: list_all2_appendI elim: list_all2_mono)
    then have "queued ?q1 = queued q @ [ev]" using ids1 by (intro queued_eq) (simp_all add: ids_ok_def)
    ultimately show ?thesis unfolding q' by simp
  next
    case False
    have "(i, ev) \<in> set (eq_events ?q1)" using s(4) by simp
    from removeEvent_result [OF ids1 this] obtain evs2 where
      r: "removeEvent i ?q1 = (ev, ?q1\<lparr>eq_events := evs2, eq_oldEventIDs := old @ [i]\<rparr>)"
        "ids_ok (?q1\<lparr>eq_events := evs2, eq_oldEventIDs := old @ [i]\<rparr>)" "set evs2 = {e \<in> set evs. fst e \<noteq> i}" by auto
    then have q': "add_event_to_buffer ops ev q = ?q1\<lparr>eq_events := evs2, eq_oldEventIDs := old @ [i]\<rparr>"
      using s(1) b False by (simp add: add_event_to_buffer_def)
    have e: "set evs2 = set (eq_events q)" using r(3) s(2,4) by force
    have "sound (?q1\<lparr>eq_events := evs2, eq_oldEventIDs := old @ [i]\<rparr>)" using assms r(2) law e False by (simp add: sound_def)
    moreover have "queued (?q1\<lparr>eq_events := evs2, eq_oldEventIDs := old @ [i]\<rparr>) = queued q"
      using r(2) rel law(2) False e by (intro queued_eq) (simp_all add: ids_ok_def)
    moreover have "\<not> (\<forall>i b. fst (b_addEvent ops i b))" using b False by (metis fst_conv)
    ultimately show ?thesis unfolding q' by simp
  qed
qed

text \<open>A turn takes the first event that is queued, or none of them.\<close>

lemma turn_result:
  assumes "sound q" "getEvent_turn ops arrange timeout elapsed now q = (r, q')"
  shows "sound q' \<and> eq_pending q' = eq_pending q \<and> eq_ready q' = eq_ready q \<and>
    (if b_isEmpty ops (eq_buffer q) then queued q' = queued q \<and> (\<forall>ev. r = Returns ev \<longrightarrow> ev_type ev = TIMER)
     else case fst (b_getEvent ops (eq_buffer q)) of
            kUser i \<Rightarrow> \<exists>ev. r = Returns ev \<and> queued q = ev # queued q' | _ \<Rightarrow> queued q' = queued q)"
proof (cases "b_isEmpty ops (eq_buffer q)")
  case True
  obtain x q1 where t: "hasTimerExpired arrange now q = (x, q1)" by fastforce
  then have q1: "q' = q1" and x: "\<forall>ev. r = Returns ev \<longrightarrow> x = Some ev"
    using assms(2) True by (auto simp: getEvent_turn_def Let_def split: option.splits if_splits)
  have f: "eq_buffer q1 = eq_buffer q" "eq_events q1 = eq_events q" "eq_oldEventIDs q1 = eq_oldEventIDs q" "eq_pending q1 = eq_pending q"
    "eq_ready q1 = eq_ready q" and tm: "\<forall>ev. x = Some ev \<longrightarrow> ev_type ev = TIMER"
    using t by (auto simp: hasTimerExpired_def Let_def split: if_splits)
  have "sound q1" "queued q1 = queued q" using assms(1) unfolding sound_def ids_ok_def queued_def f(1-3) by blast+
  moreover have "\<forall>ev. r = Returns ev \<longrightarrow> ev_type ev = TIMER" using x tm by blast
  ultimately show ?thesis unfolding q1 using True f(4,5) by simp
next
  case False
  obtain e b where g: "b_getEvent ops (eq_buffer q) = (e, b)" by fastforce
  note law = get_law [OF _ False g]
  let ?q1 = "q\<lparr>eq_buffer := b\<rparr>"
  have v: "valid (eq_buffer q)" using assms(1) by (simp add: sound_def)
  have same: "sound ?q1 \<and> queued ?q1 = queued q" if "contents b = contents (eq_buffer q)"
    using assms(1) law [OF v] that by (simp add: sound_def ids_ok_def queued_def)
  show ?thesis
  proof (cases e)
    case (kUser i)
    then have c: "contents (eq_buffer q) = i # contents b" "valid b" using law [OF v] by auto
    have "i \<in> fst ` set (eq_events q)" using assms(1) c(1) unfolding sound_def by (metis list.set_intros(1))
    then obtain ev where ev: "(i, ev) \<in> set (eq_events q)" by auto
    have ids: "ids_ok ?q1" using assms(1) by (simp add: sound_def ids_ok_def)
    from removeEvent_result [OF ids, of i ev] ev obtain evs where
      r: "removeEvent i ?q1 = (ev, ?q1\<lparr>eq_events := evs, eq_oldEventIDs := eq_oldEventIDs q @ [i]\<rparr>)"
        "ids_ok (?q1\<lparr>eq_events := evs, eq_oldEventIDs := eq_oldEventIDs q @ [i]\<rparr>)" "set evs = {e \<in> set (eq_events q). fst e \<noteq> i}" by auto
    then have q': "r = Returns ev" "q' = ?q1\<lparr>eq_events := evs, eq_oldEventIDs := eq_oldEventIDs q @ [i]\<rparr>"
      using assms(2) False g kUser by (auto simp: getEvent_turn_def)
    have i: "i \<notin> set (contents b)" using assms(1) c(1) by (simp add: sound_def)
    have "sound q'" using assms(1) r(2,3) c i by (auto simp: sound_def q'(2))
    moreover from queued_rel [OF assms(1)] obtain e' es where es: "queued q = e' # es" "(i, e') \<in> set (eq_events q)"
        "list_all2 (\<lambda>i ev. (i, ev) \<in> set (eq_events q)) (contents b) es" unfolding c(1) by (auto simp: list_all2_Cons1)
    have o: "event_ids.ordered (eq_events q)" using assms(1) by (simp add: sound_def ids_ok_def)
    have "e' = ev" using event_ids.unique [OF o ev es(2)] by simp
    moreover have "list_all2 (\<lambda>i ev. (i, ev) \<in> set evs) (contents b) es"
      using es(3) i unfolding r(3) by (auto simp: list_all2_conv_all_nth)
    then have "queued q' = es" using r(2) by (intro queued_eq) (simp_all add: q'(2) ids_ok_def)
    ultimately show ?thesis using False g kUser es(1) q' by simp
  qed (use assms(2) False g law [OF v] same in \<open>auto simp: getEvent_turn_def\<close>)
qed

end

interpretation simple: event_buffer simple_ops "\<lambda>b. rev (sq_queue b)" "\<lambda>b. m_queueReady b \<longleftrightarrow> sq_queue b \<noteq> []"
proof
  show "(m_queueReady b' \<longleftrightarrow> sq_queue b' \<noteq> []) \<and> rev (sq_queue b') = (if ok then rev (sq_queue b) @ [i] else rev (sq_queue b))"
    if "m_queueReady b \<longleftrightarrow> sq_queue b \<noteq> []" "b_addEvent simple_ops i b = (ok, b')" for b i ok b'
    using that by (auto simp: simple_ops_def simple_addEvent_def)
  show "(m_queueReady b' \<longleftrightarrow> sq_queue b' \<noteq> []) \<and> (case r of kUser i \<Rightarrow> rev (sq_queue b) = i # rev (sq_queue b') | _ \<Rightarrow> rev (sq_queue b') = rev (sq_queue b))"
    if "m_queueReady b \<longleftrightarrow> sq_queue b \<noteq> []" "\<not> b_isEmpty simple_ops b" "b_getEvent simple_ops b = (r, b')" for b r b'
    using that by (cases "sq_queue b" rule: rev_cases) (auto simp: simple_ops_def simple_getEvent_def simple_isEmpty_def)
qed

text \<open>
  Operations on a queue with the simple buffer, and the events that leave it: those it returns and those it
  discards when it gets a buffer anew, which is \<open>set_buffer(nullptr)\<close>. A run ends where an assertion fails.
\<close>

datatype queue_op =
    Adds_event eq_event
  | Starts
  | Gets rat rat rat
  | Makes_timer bool timer_id rat "target_id option" rat
  | Drops_timer timer_id
  | Resets_buffer

datatype removal = Returned (removed: eq_event) | Discarded (removed: eq_event)

definition loop_start :: "'b buffer_ops \<Rightarrow> ('b, 'h) event_queue \<Rightarrow> ('b, 'h) event_queue" where
  "loop_start ops q = move_pending ops (set_ready q)"

definition waiting :: "(simple_buffer, 'h) event_queue \<Rightarrow> eq_event list" where
  "waiting q = map (\<lambda>i. snd (the (smap_find (<) i (eq_events q)))) (rev (sq_queue (eq_buffer q)))"

fun queue_do ::
    "(timer list \<Rightarrow> timer list) \<Rightarrow> queue_op \<Rightarrow> (simple_buffer, 'h) event_queue \<Rightarrow> (removal list \<times> (simple_buffer, 'h) event_queue) option" where
  "queue_do arrange (Adds_event ev) q = Some ([], snd (add_event simple_ops ev q))"
| "queue_do arrange Starts q = Some ([], loop_start simple_ops q)"
| "queue_do arrange (Gets timeout elapsed now) q =
     (case getEvent_turn simple_ops arrange timeout elapsed now q of (Returns ev, q') \<Rightarrow> Some ([Returned ev], q') | (_, q') \<Rightarrow> Some ([], q'))"
| "queue_do arrange (Makes_timer oneShot i duration target now) q = map_option (Pair []) (newTimer arrange oneShot i duration target now q)"
| "queue_do arrange (Drops_timer i) q = Some ([], deleteTimer arrange i q)"
| "queue_do arrange Resets_buffer q = Some (map Discarded (waiting q), set_buffer simple_new q)"

fun queue_run ::
    "(timer list \<Rightarrow> timer list) \<Rightarrow> queue_op list \<Rightarrow> (simple_buffer, 'h) event_queue \<Rightarrow> (removal list \<times> (simple_buffer, 'h) event_queue) option" where
  "queue_run arrange [] q = Some ([], q)"
| "queue_run arrange (a # as) q =
     (case queue_do arrange a q of
        None \<Rightarrow> None
      | Some (out, q1) \<Rightarrow> map_option (\<lambda>(outs, q2). (out @ outs, q2)) (queue_run arrange as q1))"

text \<open>The events that are to be delivered later: no reserved type, not delivered at once.\<close>

definition kept :: "eq_event \<Rightarrow> bool" where
  "kept ev \<longleftrightarrow> ev_type ev \<notin> {UNKNOWN, SYSTEM, TIMER} \<and> \<not> ev_immediate ev"

fun events_added :: "queue_op list \<Rightarrow> eq_event list" where
  "events_added [] = []"
| "events_added (Adds_event ev # as) = (if kept ev then ev # events_added as else events_added as)"
| "events_added (_ # as) = events_added as"

text \<open>The events that left a queue, apart from those of timers.\<close>

definition events_out :: "removal list \<Rightarrow> eq_event list" where
  "events_out out = filter (\<lambda>ev. ev_type ev \<noteq> TIMER) (map removed out)"

lemma events_out_append [simp]: "events_out (a @ b) = events_out a @ events_out b"
  by (simp add: events_out_def)

lemma waiting_queued: "waiting q = simple.queued q"
  by (simp add: waiting_def simple.queued_def)

lemma simple_accepts: "\<forall>i b. fst (b_addEvent simple_ops i b)"
  by (simp add: simple_ops_def simple_addEvent_def)

lemma move_pending_result:
  "simple.sound q \<Longrightarrow> simple.sound (move_pending simple_ops q) \<and> simple.queued (move_pending simple_ops q) = simple.queued q @ eq_pending q \<and>
     eq_pending (move_pending simple_ops q) = [] \<and> eq_ready (move_pending simple_ops q) = eq_ready q"
proof (induction simple_ops q rule: move_pending.induct)
  case (1 q)
  show ?case
  proof (cases "eq_pending q")
    case Nil
    then show ?thesis using 1(2) by (simp add: move_pending.simps [of _ q])
  next
    case (Cons ev evs)
    let ?q1 = "add_event_to_buffer simple_ops ev q"
    have a: "simple.sound ?q1" "simple.queued ?q1 = simple.queued q @ [ev]" "eq_ready ?q1 = eq_ready q"
      using simple.add_to_buffer_result [OF 1(2), of ev] simple_accepts by auto
    have "simple.sound (?q1\<lparr>eq_pending := evs\<rparr>)" "simple.queued (?q1\<lparr>eq_pending := evs\<rparr>) = simple.queued ?q1"
      using a(1) by (simp_all add: simple.sound_def ids_ok_def simple.queued_def)
    then show ?thesis using 1(1) [of ?q1] Cons a by (simp add: move_pending.simps [of _ q])
  qed
qed

text \<open>Before the queue is ready nothing is in the buffer, and after that nothing is kept back.\<close>

definition queue_inv :: "(simple_buffer, 'h) event_queue \<Rightarrow> bool" where
  "queue_inv q \<longleftrightarrow> simple.sound q \<and> (if eq_ready q then eq_pending q = [] else simple.queued q = []) \<and>
     list_all kept (simple.queued q @ eq_pending q)"

lemma same_queue:
  assumes "queue_inv q" "eq_buffer q' = eq_buffer q" "eq_events q' = eq_events q" "eq_oldEventIDs q' = eq_oldEventIDs q"
    "eq_pending q' = eq_pending q" "eq_ready q' = eq_ready q"
  shows "queue_inv q' \<and> simple.queued q' = simple.queued q"
proof -
  have "simple.queued q' = simple.queued q" "simple.sound q' = simple.sound q"
    using assms(2-4) by (simp_all add: simple.queued_def simple.sound_def ids_ok_def)
  then show ?thesis using assms(1,5,6) by (simp add: queue_inv_def)
qed

lemma add_event_result:
  assumes "queue_inv q" "q' = snd (add_event simple_ops ev q)"
  shows "queue_inv q' \<and> simple.queued q' @ eq_pending q' = simple.queued q @ eq_pending q @ events_added [Adds_event ev]"
proof (cases "kept ev")
  case False
  then have "q' = q" using assms(2) by (auto simp: add_event_def kept_def)
  then show ?thesis using assms(1) False by simp
next
  case kept: True
  have s: "simple.sound q" using assms(1) by (simp add: queue_inv_def)
  show ?thesis
  proof (cases "eq_ready q")
    case False
    then have "q' = q\<lparr>eq_pending := eq_pending q @ [ev]\<rparr>" using kept assms(2) by (auto simp: add_event_def kept_def)
    moreover from this have "simple.sound q'" "simple.queued q' = simple.queued q"
      using s by (simp_all add: simple.sound_def ids_ok_def simple.queued_def)
    ultimately show ?thesis using assms(1) False kept by (simp add: queue_inv_def)
  next
    case True
    then have "q' = add_event_to_buffer simple_ops ev q" using kept assms(2) by (auto simp: add_event_def kept_def)
    then show ?thesis using simple.add_to_buffer_result [OF s, of ev] simple_accepts assms(1) kept True
      by (simp add: queue_inv_def)
  qed
qed

lemma get_event_result:
  assumes "queue_inv q" "getEvent_turn simple_ops arrange timeout elapsed now q = (r, q')"
  shows "queue_inv q' \<and>
    filter (\<lambda>ev. ev_type ev \<noteq> TIMER) (case r of Returns ev \<Rightarrow> [ev] | _ \<Rightarrow> []) @ simple.queued q' @ eq_pending q' = simple.queued q @ eq_pending q"
proof -
  have s: "simple.sound q" using assms(1) by (simp add: queue_inv_def)
  note res = simple.turn_result [OF s assms(2)]
  show ?thesis
  proof (cases "b_isEmpty simple_ops (eq_buffer q)")
    case True
    then have "filter (\<lambda>ev. ev_type ev \<noteq> TIMER) (case r of Returns ev \<Rightarrow> [ev] | _ \<Rightarrow> []) = []" using res by (auto split: turn.splits)
    then show ?thesis using res True assms(1) by (simp add: queue_inv_def)
  next
    case False
    then obtain i where "fst (b_getEvent simple_ops (eq_buffer q)) = kUser i" by (simp add: simple_ops_def simple_getEvent_def simple_isEmpty_def)
    then obtain ev where ev: "r = Returns ev" "simple.queued q = ev # simple.queued q'" using res False by auto
    then have "ev_type ev \<noteq> TIMER" using assms(1) by (auto simp: queue_inv_def kept_def)
    then show ?thesis using res assms(1) ev by (auto simp: queue_inv_def)
  qed
qed

lemma reset_buffer_result:
  assumes "queue_inv q" "q' = set_buffer simple_new q"
  shows "queue_inv q' \<and> simple.queued q' = [] \<and> eq_pending q' = eq_pending q \<and> events_out (map Discarded (waiting q)) = simple.queued q"
proof -
  have "list_all kept (simple.queued q)" using assms(1) by (simp add: queue_inv_def)
  then have "filter (\<lambda>ev. ev_type ev \<noteq> TIMER) (simple.queued q) = simple.queued q"
    by (auto simp: list_all_iff kept_def filter_id_conv)
  then have "events_out (map Discarded (waiting q)) = simple.queued q" by (simp add: events_out_def waiting_queued o_def)
  then show ?thesis using assms
    by (simp add: queue_inv_def set_buffer_def simple_new_def simple.sound_def simple.queued_def ids_ok_def)
qed

lemma queue_do_result:
  assumes "queue_inv q" "queue_do arrange a q = Some (out, q')"
  shows "queue_inv q' \<and> events_out out @ simple.queued q' @ eq_pending q' = simple.queued q @ eq_pending q @ events_added [a] \<and>
    (a \<noteq> Resets_buffer \<longrightarrow> (\<forall>x\<in>set out. \<exists>ev. x = Returned ev))"
proof (cases a)
  case (Adds_event ev)
  then show ?thesis using assms(2) add_event_result [OF assms(1), of q' ev] by (auto simp: events_out_def)
next
  case Starts
  have "simple.sound (set_ready q)" "simple.queued (set_ready q) = simple.queued q" "eq_pending (set_ready q) = eq_pending q"
    using assms(1) by (simp_all add: queue_inv_def set_ready_def simple.sound_def ids_ok_def simple.queued_def)
  then show ?thesis using move_pending_result [of "set_ready q"] assms Starts
    by (auto simp: loop_start_def queue_inv_def set_ready_def events_out_def)
next
  case (Gets timeout elapsed now)
  obtain r q1 where t: "getEvent_turn simple_ops arrange timeout elapsed now q = (r, q1)" by fastforce
  then have "q' = q1" "map removed out = (case r of Returns ev \<Rightarrow> [ev] | _ \<Rightarrow> [])" "\<forall>x\<in>set out. \<exists>ev. x = Returned ev"
    using assms(2) Gets by (auto split: turn.splits)
  then show ?thesis using get_event_result [OF assms(1) t] Gets by (simp add: events_out_def)
next
  case (Makes_timer oneShot i duration target now)
  then have "out = []" "newTimer arrange oneShot i duration target now q = Some q'" using assms(2) by auto
  then show ?thesis using same_queue [OF assms(1), of q'] Makes_timer by (auto simp: newTimer_def events_out_def split: if_splits)
next
  case (Drops_timer i)
  then show ?thesis using same_queue [OF assms(1), of q'] assms(2) by (auto simp: deleteTimer_def events_out_def)
next
  case Resets_buffer
  then show ?thesis using reset_buffer_result [OF assms(1), of q'] assms(2) by auto
qed

lemma queue_run_result:
  "queue_inv q0 \<Longrightarrow> queue_run arrange as q0 = Some (out, q) \<Longrightarrow>
     queue_inv q \<and> events_out out @ simple.queued q @ eq_pending q = simple.queued q0 @ eq_pending q0 @ events_added as \<and>
     (Resets_buffer \<notin> set as \<longrightarrow> (\<forall>x\<in>set out. \<exists>ev. x = Returned ev))"
proof (induction as arbitrary: q0 out)
  case (Cons a as)
  from Cons.prems(2) obtain o1 q1 o2 where
    1: "queue_do arrange a q0 = Some (o1, q1)" "queue_run arrange as q1 = Some (o2, q)" "out = o1 @ o2"
    by (auto split: option.splits)
  have "events_added (a # as) = events_added [a] @ events_added as" by (cases a) auto
  then show ?case using queue_do_result [OF Cons.prems(1) 1(1)] Cons.IH [OF _ 1(2)] 1(3) by auto
qed (simp add: events_out_def)

text \<open>
  C21. Events come out as they went in. Over every sequence of operations on a new queue with the simple
  buffer, timers that come and go and the buffer replaced by a new one included, the events that have left
  it, apart from those of timers, followed by those that wait in it are exactly the events that were added
  to be delivered later, in the order in which they were added: none is lost, repeated or moved before
  another, although their numbers are used again. They left because they were returned, unless the buffer
  was replaced, which discards those that wait in it. And a queue that is running returns the first event
  that waits whenever it is asked.
\<close>

theorem events_in_order:
  fixes q :: "(simple_buffer, 'h) event_queue"
  assumes "queue_run arrange as (event_queue_new simple_new now owner) = Some (out, q)"
  shows "events_out out @ simple.queued q @ eq_pending q = events_added as \<and>
    (Resets_buffer \<notin> set as \<longrightarrow> (\<forall>x\<in>set out. \<exists>ev. x = Returned ev)) \<and>
    (simple.queued q \<noteq> [] \<longrightarrow> fst (getEvent_turn simple_ops arrange timeout elapsed now' q) = Returns (hd (simple.queued q)))"
proof -
  let ?q0 = "event_queue_new simple_new now owner :: (simple_buffer, 'h) event_queue"
  have "simple.queued ?q0 = []" "eq_pending ?q0 = []" "queue_inv ?q0"
    by (simp_all add: queue_inv_def simple.sound_def ids_ok_def simple.queued_def event_queue_new_def simple_new_def)
  then have r: "queue_inv q" "events_out out @ simple.queued q @ eq_pending q = events_added as"
    "Resets_buffer \<notin> set as \<longrightarrow> (\<forall>x\<in>set out. \<exists>ev. x = Returned ev)"
    using queue_run_result [of ?q0, OF _ assms] by simp_all
  have "fst (getEvent_turn simple_ops arrange timeout elapsed now' q) = Returns (hd (simple.queued q))" if "simple.queued q \<noteq> []"
  proof -
    obtain x q1 where t: "getEvent_turn simple_ops arrange timeout elapsed now' q = (x, q1)" by fastforce
    have "m_queueReady (eq_buffer q)" using that r(1) by (simp add: queue_inv_def simple.sound_def simple.queued_def)
    then have n: "\<not> b_isEmpty simple_ops (eq_buffer q)" "\<exists>i. fst (b_getEvent simple_ops (eq_buffer q)) = kUser i"
      by (simp_all add: simple_ops_def simple_isEmpty_def simple_getEvent_def)
    have "simple.sound q" using r(1) by (simp add: queue_inv_def)
    from simple.turn_result [OF this t] n t show ?thesis by auto
  qed
  with r(2,3) show ?thesis by blast
qed

text \<open>
  A run that uses a number again: an event before the start, one that is refused, another after the first
  has come out, a timer, and one more that still waits at the end; and a run that loses an event with its buffer.
\<close>

definition other_event :: "nat \<Rightarrow> eq_event" where
  "other_event n = \<lparr>ev_type = OTHER n, ev_target = Some n, ev_data = Data n, ev_immediate = False\<rparr>"

definition queue_day :: "queue_op list" where
  "queue_day = [Adds_event (other_event 1), Adds_event event_new, Gets 0 1 0, Starts, Adds_event (other_event 2), Makes_timer True 7 5 None 0,
     Gets 0 1 0, Adds_event (other_event 3), Gets 0 1 0, Drops_timer 7, Adds_event (other_event 4), Gets 0 1 0]"

definition losing_day :: "queue_op list" where
  "losing_day = [Starts, Adds_event (other_event 1), Resets_buffer, Adds_event (other_event 2)]"

lemmas queue_eval = other_event_def event_new_def event_queue_new_def simple_new_def simple_ops_def simple_addEvent_def
  simple_getEvent_def simple_isEmpty_def add_event_def add_event_to_buffer_def save_event_def removeEvent_def getEvent_turn_def
  hasTimerExpired_def newTimer_def deleteTimer_def pq_push_def loop_start_def set_ready_def move_pending.simps simple.queued_def
  waiting_def set_buffer_def smap_assign_def Let_def

theorem events_in_order_witness:
  "(\<exists>q :: (simple_buffer, unit) event_queue.
      queue_run (sort_key t_time) queue_day (event_queue_new simple_new 0 (\<lambda>_. None)) =
        Some (map Returned [other_event 1, other_event 2, other_event 3], q) \<and>
      [other_event 1, other_event 2, other_event 3] @ simple.queued q @ eq_pending q = events_added queue_day \<and>
      fst (getEvent_turn simple_ops (sort_key t_time) 0 1 0 q) = Returns (other_event 4)) \<and>
   (\<exists>q :: (simple_buffer, unit) event_queue.
      queue_run (sort_key t_time) losing_day (event_queue_new simple_new 0 (\<lambda>_. None)) = Some ([Discarded (other_event 1)], q) \<and>
      [other_event 1] @ simple.queued q @ eq_pending q = events_added losing_day)"
proof -
  let ?q0 = "event_queue_new simple_new 0 (\<lambda>_. None) :: (simple_buffer, unit) event_queue"
  let ?evs = "[other_event 1, other_event 2, other_event 3]"
  have t: "events_out (map Returned ?evs) = ?evs" "events_out [Discarded (other_event 1)] = [other_event 1]"
    by (simp_all add: events_out_def other_event_def)
  have "\<exists>q. queue_run (sort_key t_time) queue_day ?q0 = Some (map Returned ?evs, q) \<and> simple.queued q = [other_event 4]"
    by (simp add: queue_day_def queue_eval)
  then obtain q where q: "queue_run (sort_key t_time) queue_day ?q0 = Some (map Returned ?evs, q)" "simple.queued q = [other_event 4]" by blast
  have "\<exists>q. queue_run (sort_key t_time) losing_day ?q0 = Some ([Discarded (other_event 1)], q)"
    by (simp add: losing_day_def queue_eval)
  then obtain q' where q': "queue_run (sort_key t_time) losing_day ?q0 = Some ([Discarded (other_event 1)], q')" by blast
  show ?thesis using events_in_order [OF q(1), of 0 1 0] events_in_order [OF q', of 0 1 0] q q' t by auto
qed

text \<open>
  The order depends on no event being added while those that were kept back are moved: one that another
  thread adds between the two steps of the start comes out before them.
\<close>

lemma event_overtakes:
  fixes q0 :: "(simple_buffer, 'h) event_queue"
  assumes "kept ev" "kept ev'" and q0: "q0 = event_queue_new simple_new now owner"
  shows "simple.queued (move_pending simple_ops (snd (add_event simple_ops ev' (set_ready (snd (add_event simple_ops ev q0)))))) = [ev', ev]"
proof -
  let ?q = "set_ready (snd (add_event simple_ops ev q0))"
  have s: "simple.sound ?q" "simple.queued ?q = []" "eq_pending ?q = [ev]" "eq_ready ?q"
    using assms(1) unfolding q0
    by (auto simp: add_event_def kept_def set_ready_def event_queue_new_def simple.sound_def ids_ok_def simple.queued_def simple_new_def)
  have "snd (add_event simple_ops ev' ?q) = add_event_to_buffer simple_ops ev' ?q" using assms(2) s(4) by (auto simp: add_event_def kept_def)
  then show ?thesis
    using simple.add_to_buffer_result [OF s(1), of ev'] simple_accepts s move_pending_result [of "add_event_to_buffer simple_ops ev' ?q"] by simp
qed

section \<open>Timers expire in time\<close>

text \<open>What the heap functions of the library do: the same elements, one of the least time in front.\<close>

definition arranges :: "(timer list \<Rightarrow> timer list) \<Rightarrow> bool" where
  "arranges arrange \<longleftrightarrow> (\<forall>c. mset (arrange c) = mset c \<and> (\<forall>t\<in>set c. t_time (hd (arrange c)) \<le> t_time t))"

datatype timer_op = Creates bool timer_id rat "target_id option" rat | Deletes timer_id | Checks rat

text \<open>A new object never has the address of one that lives.\<close>

fun timer_do :: "(timer list \<Rightarrow> timer list) \<Rightarrow> timer_op \<Rightarrow> ('b, 'h) event_queue \<Rightarrow> (eq_event option \<times> ('b, 'h) event_queue) option" where
  "timer_do arrange (Creates oneShot i duration target now) q =
     (if i \<in> eq_timers q then None else map_option (Pair None) (newTimer arrange oneShot i duration target now q))"
| "timer_do arrange (Deletes i) q = Some (None, deleteTimer arrange i q)"
| "timer_do arrange (Checks now) q = Some (hasTimerExpired arrange now q)"

fun timer_run :: "(timer list \<Rightarrow> timer list) \<Rightarrow> timer_op list \<Rightarrow> ('b, 'h) event_queue \<Rightarrow> (eq_event option list \<times> ('b, 'h) event_queue) option" where
  "timer_run arrange [] q = Some ([], q)"
| "timer_run arrange (a # as) q =
     (case timer_do arrange a q of
        None \<Rightarrow> None
      | Some (out, q1) \<Rightarrow> map_option (\<lambda>(outs, q2). (out # outs, q2)) (timer_run arrange as q1))"

text \<open>
  The specification: a collection of timers, each with the time at which it is due. A check reports
  one of those that are due longest, if any is, with the number of its periods that have passed; a periodic
  timer is then due a period later than the check, and a one-shot timer is gone.
\<close>

definition expiry :: "timer \<Rightarrow> nat \<Rightarrow> eq_event" where
  "expiry t n = \<lparr>ev_type = TIMER, ev_target = Some (t_target t), ev_data = TimerEvent (t_timer t) n, ev_immediate = False\<rparr>"

inductive timer_spec :: "timer multiset \<Rightarrow> timer_op \<Rightarrow> eq_event option \<Rightarrow> timer multiset \<Rightarrow> bool" where
  created: "d > 0 \<Longrightarrow> timer_spec D (Creates oneShot i d target now) None
     (add_mset \<lparr>t_timer = i, t_timeout = d, t_target = (case target of None \<Rightarrow> i | Some t \<Rightarrow> t), t_oneShot = oneShot, t_time = now + d\<rparr> D)"
| deleted: "timer_spec D (Deletes i) None {#t \<in># D. t_timer t \<noteq> i#}"
| quiet: "\<forall>t\<in>#D. now < t_time t \<Longrightarrow> timer_spec D (Checks now) None D"
| expired: "t \<in># D \<Longrightarrow> t_time t \<le> now \<Longrightarrow> \<forall>u\<in>#D. t_time t \<le> t_time u \<Longrightarrow>
     timer_spec D (Checks now) (Some (expiry t (Suc (nat \<lfloor>(now - t_time t) / t_timeout t\<rfloor>))))
       (D - {#t#} + (if t_oneShot t then {#} else {#t\<lparr>t_time := now + t_timeout t\<rparr>#}))"

inductive spec_run :: "timer multiset \<Rightarrow> timer_op list \<Rightarrow> eq_event option list \<Rightarrow> timer multiset \<Rightarrow> bool" where
  no_more: "spec_run D [] [] D"
| one_more: "timer_spec D a out D1 \<Longrightarrow> spec_run D1 as outs D2 \<Longrightarrow> spec_run D (a # as) (out # outs) D2"

text \<open>The times of the queue count from the mark of its stopwatch.\<close>

definition at_time :: "rat \<Rightarrow> timer \<Rightarrow> timer" where
  "at_time m t = t\<lparr>t_time := t_time t + m\<rparr>"

lemma at_time_simps [simp]:
  "t_timer (at_time m t) = t_timer t" "t_timeout (at_time m t) = t_timeout t" "t_target (at_time m t) = t_target t"
  "t_oneShot (at_time m t) = t_oneShot t" "t_time (at_time m t) = t_time t + m"
  "at_time m (at_time n t) = at_time (n + m) t"
  by (simp_all add: at_time_def add.assoc)

definition due :: "('b, 'h) event_queue \<Rightarrow> timer multiset" where
  "due q = image_mset (at_time (eq_mark q)) (mset (eq_timerQueue q))"

definition timers_inv :: "('b, 'h) event_queue \<Rightarrow> bool" where
  "timers_inv q \<longleftrightarrow> distinct (map t_timer (eq_timerQueue q)) \<and> t_timer ` set (eq_timerQueue q) \<subseteq> eq_timers q \<and>
     (\<forall>t\<in>set (eq_timerQueue q). t_timeout t > 0 \<and> t_time (hd (eq_timerQueue q)) \<le> t_time t)"

lemma arranged:
  assumes "arranges arrange"
  shows "mset (arrange c) = mset c" "set (arrange c) = set c" "distinct (map t_timer (arrange c)) \<longleftrightarrow> distinct (map t_timer c)"
    "t \<in> set c \<Longrightarrow> t_time (hd (arrange c)) \<le> t_time t"
proof -
  show m: "mset (arrange c) = mset c" and "t \<in> set c \<Longrightarrow> t_time (hd (arrange c)) \<le> t_time t"
    using assms by (simp_all add: arranges_def)
  show "set (arrange c) = set c" using m by (rule mset_eq_setD)
  have "mset (map t_timer (arrange c)) = mset (map t_timer c)" using m by simp
  then show "distinct (map t_timer (arrange c)) \<longleftrightarrow> distinct (map t_timer c)" by (rule mset_eq_imp_distinct_iff)
qed

lemma erased:
  assumes "distinct (map t_timer c)"
  shows "mset (case pq_erase_timer i c of None \<Rightarrow> c | Some c' \<Rightarrow> c') = {#t \<in># mset c. t_timer t \<noteq> i#}"
    "pq_erase_timer i c = None \<longleftrightarrow> i \<notin> t_timer ` set c"
  using assms
proof (induction c)
  case (Cons t c)
  { case 1
    show ?case
    proof (cases "t_timer t = i")
      case True
      then have "filter (\<lambda>u. t_timer u \<noteq> i) c = c" using 1 by (intro filter_True) (auto simp: image_iff)
      then have "{#u \<in># mset c. t_timer u \<noteq> i#} = mset c" by (metis mset_filter)
      then show ?thesis using True by simp
    next
      case False
      then show ?thesis using 1 Cons.IH(1) by (auto split: option.splits)
    qed }
  { case 2
    then show ?case using Cons.IH(2) by auto }
qed simp_all

lemma timer_count_periods:
  assumes "t_timeout t > 0" "t_time t \<le> 0"
  shows "timer_count t = Suc (nat \<lfloor>(- t_time t) / t_timeout t\<rfloor>)"
proof -
  have "(t_timeout t - t_time t) / t_timeout t = - t_time t / t_timeout t + 1" using assms(1) by (simp add: field_simps)
  then have f: "\<lfloor>(t_timeout t - t_time t) / t_timeout t\<rfloor> = \<lfloor>- t_time t / t_timeout t\<rfloor> + 1" by (metis floor_add_int of_int_1)
  have "\<lfloor>- t_time t / t_timeout t\<rfloor> \<ge> 0" using assms by (simp add: divide_nonpos_pos)
  then show ?thesis using assms(2) by (simp add: timer_count_def f nat_add_distrib)
qed

lemma rearmed:
  assumes a: "arranges arrange" and inv: "timers_inv q" and c: "eq_timerQueue q = t # c"
    and r: "r = (if \<not> t_oneShot t then pq_push arrange (timer_reset (at_time k t)) (pq_pop arrange (map (at_time k) (eq_timerQueue q)))
                 else pq_pop arrange (map (at_time k) (eq_timerQueue q)))"
  shows "mset r = mset (map (at_time k) c) + (if t_oneShot t then {#} else {#timer_reset (at_time k t)#})"
    "timers_inv (q\<lparr>eq_mark := now, eq_timerQueue := r\<rparr>)"
proof -
  show ms: "mset r = mset (map (at_time k) c) + (if t_oneShot t then {#} else {#timer_reset (at_time k t)#})"
    using arranged(1) [OF a] by (simp add: r pq_push_def pq_pop_def c)
  have least: "\<forall>t\<in>set r. t_time (hd r) \<le> t_time t"
    using arranged(2,4) [OF a] by (auto simp: r pq_push_def pq_pop_def c)
  have "set r = at_time k ` set c \<union> (if t_oneShot t then {} else {timer_reset (at_time k t)})"
    using arg_cong [OF ms, of set_mset] by auto
  then have s: "t_timer ` set r \<subseteq> t_timer ` set (eq_timerQueue q)" "\<forall>t\<in>set r. t_timeout t > 0"
    using inv c by (auto simp: timers_inv_def timer_reset_def)
  have "distinct (map t_timer r)"
    using inv c arranged(3) [OF a] arranged(2) [OF a]
    by (auto simp: r pq_push_def pq_pop_def timer_reset_def timers_inv_def comp_def)
  then show "timers_inv (q\<lparr>eq_mark := now, eq_timerQueue := r\<rparr>)"
    using inv least s(2) subset_trans [OF s(1)] by (simp add: timers_inv_def)
qed

lemma check_refines:
  assumes a: "arranges arrange" and inv: "timers_inv q" and h: "hasTimerExpired arrange now q = (out, q')"
  shows "timers_inv q' \<and> timer_spec (due q) (Checks now) out (due q')"
proof (cases "eq_timerQueue q")
  case Nil
  then show ?thesis using inv h quiet [of "due q" now] by (simp add: hasTimerExpired_def due_def)
next
  case (Cons t0 c0)
  define k where "k = now - eq_mark q"
  let ?c = "map (at_time (- k)) (eq_timerQueue q)"
  let ?t = "at_time (- k) t0"
  let ?u = "at_time (eq_mark q) t0"
  have c: "map (\<lambda>t. t\<lparr>t_time := t_time t - (now - eq_mark q)\<rparr>) (eq_timerQueue q) = ?c" by (simp add: at_time_def k_def)
  have hdc: "hd ?c = ?t" "tl ?c = map (at_time (- k)) c0" using Cons by simp_all
  have front: "\<forall>u\<in>set (eq_timerQueue q). t_time t0 \<le> t_time u" "t_timeout t0 > 0" using inv Cons by (auto simp: timers_inv_def)
  show ?thesis
  proof (cases "t_time ?t > 0")
    case True
    then have o: "out = None" "q' = q\<lparr>eq_mark := now, eq_timerQueue := ?c\<rparr>"
      using h Cons unfolding hasTimerExpired_def Let_def c hdc by simp_all
    have "due q' = due q" by (simp add: o(2) due_def multiset.map_comp comp_def k_def)
    moreover have "\<forall>u\<in>#due q. now < t_time u" using front(1) True by (force simp: due_def k_def)
    moreover have "timers_inv q'" using inv Cons by (auto simp: o(2) timers_inv_def comp_def)
    ultimately show ?thesis using quiet [of "due q" now] by (simp add: o(1))
  next
    case False
    define r where "r = (if \<not> t_oneShot t0 then pq_push arrange (timer_reset ?t) (pq_pop arrange (map (at_time (- k)) (eq_timerQueue q)))
                         else pq_pop arrange (map (at_time (- k)) (eq_timerQueue q)))"
    have o: "out = Some (expiry ?t (timer_count ?t))" "q' = q\<lparr>eq_mark := now, eq_timerQueue := r\<rparr>"
      using h Cons False unfolding hasTimerExpired_def Let_def c hdc r_def by (simp_all add: expiry_def)
    note ms = rearmed [OF a inv Cons r_def]
    have "due q' = image_mset (at_time now) (mset r)" by (simp add: o(2) due_def)
    also have "\<dots> = image_mset (at_time (eq_mark q)) (mset c0) + (if t_oneShot t0 then {#} else {#(at_time (eq_mark q) t0)\<lparr>t_time := now + t_timeout t0\<rparr>#})"
      unfolding ms(1) by (simp add: multiset.map_comp comp_def k_def timer_reset_def)
    finally have D': "due q' = due q - {#?u#} + (if t_oneShot ?u then {#} else {#?u\<lparr>t_time := now + t_timeout ?u\<rparr>#})"
      by (simp add: due_def Cons)
    have "timer_count ?t = Suc (nat \<lfloor>(now - t_time ?u) / t_timeout t0\<rfloor>)"
      using timer_count_periods [of ?t] front(2) False by (simp add: k_def algebra_simps)
    then have "out = Some (expiry ?u (Suc (nat \<lfloor>(now - t_time ?u) / t_timeout ?u\<rfloor>)))"
      by (simp add: o(1) expiry_def)
    moreover have "?u \<in># due q" "\<forall>u\<in>#due q. t_time ?u \<le> t_time u"
      using front(1) Cons by (auto simp: due_def)
    moreover have "t_time ?u \<le> now" using False by (simp add: k_def)
    ultimately have "timer_spec (due q) (Checks now) out (due q')"
      using expired [of ?u "due q" now] unfolding D' by blast
    then show ?thesis using ms(2) [of now] by (simp add: o(2))
  qed
qed

lemma timer_do_refines:
  assumes a: "arranges arrange" and inv: "timers_inv q" and d: "timer_do arrange op q = Some (out, q')"
  shows "timers_inv q' \<and> timer_spec (due q) op out (due q')"
proof (cases op)
  case (Creates oneShot i d target now)
  let ?t = "\<lparr>t_timer = i, t_timeout = d, t_target = (case target of None \<Rightarrow> i | Some t \<Rightarrow> t), t_oneShot = oneShot, t_time = d + (now - eq_mark q)\<rparr>"
  have n: "i \<notin> eq_timers q" "d > 0" "out = None"
    "q' = q\<lparr>eq_timers := insert i (eq_timers q), eq_timerQueue := arrange (eq_timerQueue q @ [?t])\<rparr>"
    using d Creates by (auto simp: newTimer_def pq_push_def split: if_splits)
  have "timers_inv q'"
    using inv n(1,2) arranged(2-4) [OF a] unfolding n(4) by (auto simp: timers_inv_def)
  moreover have "due q' = add_mset (at_time (eq_mark q) ?t) (due q)" by (simp add: n(4) due_def arranged(1) [OF a])
  ultimately show ?thesis using created [OF n(2), of "due q" oneShot i target now] Creates n(3) by (simp add: at_time_def add.commute)
next
  case (Deletes i)
  let ?c = "case pq_erase_timer i (eq_timerQueue q) of None \<Rightarrow> eq_timerQueue q | Some c \<Rightarrow> c"
  let ?r = "case pq_erase_timer i (eq_timerQueue q) of None \<Rightarrow> eq_timerQueue q | Some c \<Rightarrow> arrange c"
  have o: "out = None" "q' = q\<lparr>eq_timerQueue := ?r, eq_timers := eq_timers q - {i}\<rparr>" using d Deletes by (auto simp: deleteTimer_def)
  have dist: "distinct (map t_timer (eq_timerQueue q))" using inv by (simp add: timers_inv_def)
  have m: "mset ?r = {#t \<in># mset (eq_timerQueue q). t_timer t \<noteq> i#}"
    using erased(1) [OF dist, of i] arranged(1) [OF a] by (auto split: option.splits)
  then have s: "set ?r = {t \<in> set (eq_timerQueue q). t_timer t \<noteq> i}" by (metis set_mset_filter set_mset_mset)
  have "mset (map t_timer ?r) = {#j \<in># mset (map t_timer (eq_timerQueue q)). j \<noteq> i#}"
    unfolding mset_map m by (simp add: filter_mset_image_mset)
  then have "distinct (map t_timer ?r)" using dist by (metis distinct_filter mset_eq_imp_distinct_iff mset_filter)
  moreover have "\<forall>t\<in>set ?r. t_time (hd ?r) \<le> t_time t"
    using inv arranged(2,4) [OF a] by (auto simp: timers_inv_def split: option.splits)
  ultimately have "timers_inv q'" using inv s by (auto simp: timers_inv_def o(2))
  moreover have "due q' = {#t \<in># due q. t_timer t \<noteq> i#}" by (simp add: o(2) due_def m filter_mset_image_mset)
  ultimately show ?thesis using deleted [of "due q" i] Deletes o(1) by simp
next
  case (Checks now)
  then show ?thesis using check_refines [OF a inv] d by simp
qed

lemma next_timeout:
  assumes "arranges arrange" "timers_inv q" "hasTimerExpired arrange now q = (None, q')"
  shows "getNextTimerTimeout q' = (if due q = {#} then - 1 else Min (t_time ` set_mset (due q)) - now)"
proof (cases "eq_timerQueue q")
  case (Cons t c)
  let ?d = "t_time t + eq_mark q"
  have "t_time t - (now - eq_mark q) > 0" "q' = q\<lparr>eq_mark := now, eq_timerQueue := map (\<lambda>t. t\<lparr>t_time := t_time t - (now - eq_mark q)\<rparr>) (t # c)\<rparr>"
    using assms(3) Cons by (auto simp: hasTimerExpired_def Let_def split: if_splits)
  then have "getNextTimerTimeout q' = ?d - now" by (simp add: getNextTimerTimeout_def)
  moreover have "Min (t_time ` set_mset (due q)) = ?d"
    using assms(2) Cons by (intro Min_eqI) (auto simp: due_def timers_inv_def)
  ultimately show ?thesis using Cons by (simp add: due_def)
qed (use assms(3) in \<open>simp add: hasTimerExpired_def getNextTimerTimeout_def due_def\<close>)

text \<open>
  C30. Timers expire in time. Over every sequence of creations, deletions and checks on a new queue, which
  counts its timers down by the time since the last check, what the checks report is what the specification
  allows: no timer before it is due, first the one that is due longest, with the number of periods that have
  passed; a timer that was deleted never, a one-shot timer once, a periodic one again a period later. And
  after a check that found nothing the queue waits no longer than until the first timer is due.
\<close>

theorem timers_expire_in_time:
  fixes q :: "('b, 'h) event_queue"
  assumes "arranges arrange" "timer_run arrange ops (event_queue_new b start owner) = Some (outs, q)"
  shows "spec_run {#} ops outs (due q) \<and>
    (\<forall>now q'. hasTimerExpired arrange now q = (None, q') \<longrightarrow>
       getNextTimerTimeout q' = (if due q = {#} then - 1 else Min (t_time ` set_mset (due q)) - now))"
proof -
  have run: "timers_inv q0 \<Longrightarrow> timer_run arrange ops q0 = Some (outs, q) \<Longrightarrow> timers_inv q \<and> spec_run (due q0) ops outs (due q)" for q0 ops outs
  proof (induction ops arbitrary: q0 outs)
    case Nil
    then show ?case by (auto intro: no_more)
  next
    case (Cons a ops)
    from Cons.prems(2) obtain out q1 outs' where
      1: "timer_do arrange a q0 = Some (out, q1)" "timer_run arrange ops q1 = Some (outs', q)" "outs = out # outs'"
      by (auto split: option.splits)
    show ?case using timer_do_refines [OF assms(1) Cons.prems(1) 1(1)] Cons.IH [OF _ 1(2)] by (auto simp: 1(3) intro: one_more)
  qed
  have "timers_inv (event_queue_new b start owner :: ('b, 'h) event_queue)" "due (event_queue_new b start owner :: ('b, 'h) event_queue) = {#}"
    by (simp_all add: timers_inv_def event_queue_new_def due_def)
  then have "timers_inv q" "spec_run {#} ops outs (due q)" using run [OF _ assms(2)] by simp_all
  then show ?thesis using next_timeout [OF assms(1)] by blast
qed

lemma sorting_arranges: "arranges (sort_key t_time)"
proof -
  have "t_time (hd (sort_key t_time c)) \<le> t_time t" if "t \<in> set c" for c t
  proof -
    have "t \<in> set (sort_key t_time c)" "sorted (map t_time (sort_key t_time c))" using that by simp_all
    then show ?thesis by (cases "sort_key t_time c") auto
  qed
  then show ?thesis unfolding arranges_def by (metis mset_sort)
qed

definition timer_day :: "timer_op list" where
  "timer_day = [Creates False 1 5 None 0, Creates True 2 3 (Some 9) 1, Checks 3, Checks 5, Checks 16, Checks 16, Deletes 1]"

definition timer_day_outs :: "eq_event option list" where
  "timer_day_outs =
     [None, None, None,
      Some \<lparr>ev_type = TIMER, ev_target = Some 9, ev_data = TimerEvent 2 1, ev_immediate = False\<rparr>,
      Some \<lparr>ev_type = TIMER, ev_target = Some 1, ev_data = TimerEvent 1 3, ev_immediate = False\<rparr>, None, None]"

text \<open>Two timers: one-shot after 3 and periodic by 5, which has missed two periods when it is reported.\<close>

theorem timers_expire_in_time_witness:
  "spec_run {#} timer_day timer_day_outs {#}"
proof -
  define q0 :: "(simple_buffer, unit) event_queue" where "q0 = event_queue_new simple_new 0 (\<lambda>_. None)"
  have "\<lfloor>4 / 3 :: rat\<rfloor> = 1" "\<lfloor>16 / 5 :: rat\<rfloor> = 3" by (simp_all add: floor_eq_iff)
  then obtain q where "timer_run (sort_key t_time) timer_day q0 = Some (timer_day_outs, q)" "eq_timerQueue q = []"
    by (simp add: q0_def timer_day_def timer_day_outs_def event_queue_new_def newTimer_def hasTimerExpired_def deleteTimer_def
        pq_push_def pq_pop_def timer_reset_def timer_count_def Let_def)
  moreover from this(2) have "due q = {#}" by (simp add: due_def)
  ultimately show ?thesis using timers_expire_in_time [OF sorting_arranges, of timer_day simple_new 0 "\<lambda>_. None" timer_day_outs q]
    by (simp add: q0_def)
qed

section \<open>Handlers\<close>

interpretation event_types: keyed_map type_less type_num
  by unfold_locales (simp add: type_less_def)

lemma type_num_inject [simp]: "type_num a = type_num b \<longleftrightarrow> a = b"
  by (cases a; cases b) simp_all

text \<open>The abstract state: the handler of each type for each target.\<close>

definition handlers_of :: "('b, 'h) event_queue \<Rightarrow> target_id \<Rightarrow> EventType \<Rightarrow> 'h option" where
  "handlers_of q t type = get_handler type (Some t) q"

lemma handlers_of_eq:
  "handlers_of q t = (case event_ids.lookup (eq_handlers q) t of None \<Rightarrow> \<lambda>_. None | Some table \<Rightarrow> event_types.lookup table)"
  by (auto simp: handlers_of_def get_handler_def event_ids.lookup_def event_types.lookup_def fun_eq_iff split: option.splits)

text \<open>A target belongs to the queue as long as it has handlers there.\<close>

definition handlers_ok :: "nat \<Rightarrow> ('b, 'h) event_queue \<Rightarrow> bool" where
  "handlers_ok self q \<longleftrightarrow> event_ids.ordered (eq_handlers q) \<and>
     (\<forall>t table. event_ids.lookup (eq_handlers q) t = Some table \<longrightarrow> event_types.ordered table \<and> table \<noteq> []) \<and>
     (\<forall>t. eq_owner q t = Some self \<longleftrightarrow> event_ids.lookup (eq_handlers q) t \<noteq> None)"

datatype 'h handler_op = Adds_handler EventType target_id 'h | Removes_handler EventType target_id | Removes_handlers target_id

fun handler_target :: "'h handler_op \<Rightarrow> target_id" where
  "handler_target (Adds_handler type t h) = t"
| "handler_target (Removes_handler type t) = t"
| "handler_target (Removes_handlers t) = t"

fun handler_do :: "nat \<Rightarrow> 'h handler_op \<Rightarrow> ('b, 'h) event_queue \<Rightarrow> string + ('b, 'h) event_queue" where
  "handler_do self (Adds_handler type t h) q = add_handler self type t h q"
| "handler_do self (Removes_handler type t) q = Inr (remove_handler type t q)"
| "handler_do self (Removes_handlers t) q = remove_handlers self t q"

fun handler_spec :: "'h handler_op \<Rightarrow> (EventType \<Rightarrow> 'h option) \<Rightarrow> EventType \<Rightarrow> 'h option" where
  "handler_spec (Adds_handler type t h) H = H(type \<mapsto> h)"
| "handler_spec (Removes_handler type t) H = H(type := None)"
| "handler_spec (Removes_handlers t) H = (\<lambda>_. None)"

lemma assign_not_empty [simp]: "smap_assign lt k v m \<noteq> []"
proof -
  have "smap_insert lt k v m \<noteq> []" by (cases m) (auto simp: smap_ops split: if_splits)
  then show ?thesis by (cases "smap_insert lt k v m") (auto simp: smap_assign_def smap_ops split: if_splits)
qed

lemma table_changed:
  assumes ok: "handlers_ok self q" and hs: "event_ids.ordered hs" "\<And>u. event_ids.lookup hs u = (if u = t then x else event_ids.lookup (eq_handlers q) u)"
    and x: "\<And>table. x = Some table \<Longrightarrow> event_types.ordered table \<and> table \<noteq> []"
    and own: "own t = Some self \<longleftrightarrow> x \<noteq> None" "\<And>u. u \<noteq> t \<Longrightarrow> own u = eq_owner q u"
  shows "handlers_ok self (q\<lparr>eq_handlers := hs, eq_owner := own\<rparr>)"
    "handlers_of (q\<lparr>eq_handlers := hs, eq_owner := own\<rparr>) =
       (handlers_of q)(t := case x of None \<Rightarrow> \<lambda>_. None | Some table \<Rightarrow> event_types.lookup table)"
proof -
  have "own u = Some self \<longleftrightarrow> event_ids.lookup hs u \<noteq> None" for u
    using ok own by (cases "u = t") (simp_all add: handlers_ok_def hs(2))
  moreover have "event_types.ordered table \<and> table \<noteq> []" if "event_ids.lookup hs u = Some table" for u table
    using ok x that by (cases "u = t") (simp_all add: handlers_ok_def hs(2))
  ultimately show "handlers_ok self (q\<lparr>eq_handlers := hs, eq_owner := own\<rparr>)" using hs(1) by (simp add: handlers_ok_def)
  show "handlers_of (q\<lparr>eq_handlers := hs, eq_owner := own\<rparr>) =
       (handlers_of q)(t := case x of None \<Rightarrow> \<lambda>_. None | Some table \<Rightarrow> event_types.lookup table)"
    by (rule ext) (simp add: handlers_of_eq hs(2))
qed

lemma no_handlers: "handlers_ok self q \<Longrightarrow> eq_owner q t \<noteq> Some self \<Longrightarrow> event_ids.lookup (eq_handlers q) t = None"
  by (auto simp: handlers_ok_def)

lemma find_lookup:
  assumes "event_ids.ordered m"
  shows "smap_find (<) t m = (case event_ids.lookup m t of None \<Rightarrow> None | Some v \<Rightarrow> Some (t, v))"
proof (cases "smap_find (<) t m")
  case (Some p)
  moreover have "fst p = t" using event_ids.find_Some [OF assms, of t "fst p" "snd p"] Some by simp
  ultimately show ?thesis by (cases p) (simp add: event_ids.lookup_def)
qed (simp add: event_ids.lookup_def)

lemma add_handler_result:
  assumes ok: "handlers_ok self q" and r: "add_handler self type t h q = Inr q'"
  shows "handlers_ok self q' \<and> handlers_of q' = (handlers_of q)(t := (handlers_of q t)(type \<mapsto> h))"
proof -
  have o: "event_ids.ordered (eq_handlers q)" using ok by (simp add: handlers_ok_def)
  define table where "table = (case event_ids.lookup (eq_handlers q) t of None \<Rightarrow> [] | Some table \<Rightarrow> table)"
  have t: "(case smap_find (<) t (eq_handlers q) of None \<Rightarrow> [] | Some (_, table) \<Rightarrow> table) = table"
    by (auto simp: table_def find_lookup [OF o] split: option.splits)
  have ot: "event_types.ordered table" using ok by (auto simp: table_def handlers_ok_def split: option.splits)
  have l: "event_types.lookup table = handlers_of q t"
    by (auto simp: table_def handlers_of_eq event_types.lookup_def split: option.splits)
  let ?new = "smap_assign type_less type h table"
  have q': "q' = q\<lparr>eq_handlers := smap_assign (<) t ?new (eq_handlers q), eq_owner := (eq_owner q)(t := Some self)\<rparr>"
    using r unfolding add_handler_def Let_def t by (auto split: if_splits)
  have "event_types.lookup ?new = (handlers_of q t)(type \<mapsto> h)"
    by (rule ext) (simp add: event_types.lookup_assign [OF ot] l)
  then show ?thesis
    using table_changed [OF ok, of "smap_assign (<) t ?new (eq_handlers q)" t "Some ?new" "(eq_owner q)(t := Some self)"]
    by (simp add: q' event_ids.lookup_assign [OF o] o ot)
qed

lemma remove_handler_result:
  assumes ok: "handlers_ok self q"
  shows "handlers_ok self (remove_handler type t q) \<and> handlers_of (remove_handler type t q) = (handlers_of q)(t := (handlers_of q t)(type := None))"
proof (cases "event_ids.lookup (eq_handlers q) t")
  case None
  have o: "event_ids.ordered (eq_handlers q)" using ok by (simp add: handlers_ok_def)
  have "remove_handler type t q = q" using None by (simp add: remove_handler_def find_lookup [OF o])
  then show ?thesis using ok None by (auto simp: handlers_of_eq fun_eq_iff)
next
  case (Some table)
  have o: "event_ids.ordered (eq_handlers q)" using ok by (simp add: handlers_ok_def)
  have ot: "event_types.ordered table" and own: "eq_owner q t = Some self" using ok Some by (auto simp: handlers_ok_def)
  let ?new = "smap_erase type_less type table"
  have l: "event_types.lookup ?new = (handlers_of q t)(type := None)"
    by (rule ext) (simp add: event_types.lookup_erase [OF ot] handlers_of_eq Some)
  show ?thesis
  proof (cases "?new = []")
    case True
    then have q': "remove_handler type t q = q\<lparr>eq_handlers := smap_erase (<) t (eq_handlers q), eq_owner := (eq_owner q)(t := None)\<rparr>"
      using own Some by (simp add: remove_handler_def find_lookup [OF o])
    have "(\<lambda>_. None) = (handlers_of q t)(type := None)" using l True by (simp add: event_types.lookup_def fun_eq_iff)
    then show ?thesis
      using table_changed [OF ok, of "smap_erase (<) t (eq_handlers q)" t None "(eq_owner q)(t := None)"]
      by (simp add: q' event_ids.lookup_erase [OF o] o)
  next
    case False
    then have q': "remove_handler type t q = q\<lparr>eq_handlers := smap_modify (<) t (\<lambda>_. ?new) (eq_handlers q), eq_owner := eq_owner q\<rparr>"
      using own Some by (simp add: remove_handler_def find_lookup [OF o])
    show ?thesis
      using table_changed [OF ok, of "smap_modify (<) t (\<lambda>_. ?new) (eq_handlers q)" t "Some ?new" "eq_owner q"] False own Some
      by (simp add: q' event_ids.lookup_modify [OF o] o ot l)
  qed
qed

lemma remove_handlers_result:
  assumes ok: "handlers_ok self q" and r: "remove_handlers self t q = Inr q'"
  shows "handlers_ok self q' \<and> handlers_of q' = (handlers_of q)(t := \<lambda>_. None)"
proof (cases "eq_owner q t = Some self")
  case False
  then have "q' = q" using r by (auto simp: remove_handlers_def split: if_splits)
  then show ?thesis using ok no_handlers [OF ok False] by (auto simp: handlers_of_eq fun_eq_iff)
next
  case True
  have o: "event_ids.ordered (eq_handlers q)" using ok by (simp add: handlers_ok_def)
  have q': "q' = q\<lparr>eq_handlers := smap_erase (<) t (eq_handlers q), eq_owner := (eq_owner q)(t := None)\<rparr>"
    using r True by (simp add: remove_handlers_def)
  show ?thesis
    using table_changed [OF ok, of "smap_erase (<) t (eq_handlers q)" t None "(eq_owner q)(t := None)"]
    by (simp add: q' event_ids.lookup_erase [OF o] o)
qed

text \<open>
  The tables of handlers refine a function from targets and types: an operation changes it at its target
  only, as its name says, and keeps a target with handlers, and no other, in the hands of this queue; it fails
  only when the target is in the hands of another queue, and then for an addition or the removal of all handlers.
\<close>

theorem handlers_refine:
  assumes ok: "handlers_ok self q"
  shows "case handler_do self op q of
      Inr q' \<Rightarrow> handlers_ok self q' \<and> handlers_of q' = (handlers_of q)(handler_target op := handler_spec op (handlers_of q (handler_target op)))
    | Inl _ \<Rightarrow> \<exists>other. eq_owner q (handler_target op) = Some other \<and> other \<noteq> self"
proof (cases "handler_do self op q")
  case (Inl e)
  then show ?thesis by (cases op) (auto simp: add_handler_def remove_handlers_def split: if_splits)
next
  case (Inr q')
  then show ?thesis
    using add_handler_result [OF ok] remove_handler_result [OF ok] remove_handlers_result [OF ok] by (cases op) auto
qed

end
