(* ===== verification/Spec2Isabelle.thy ===== *)
theory Spec2Isabelle
  imports ChunkTransfer Clipboards Unicode ServerInvariant ProxySafety ClientHandshake Client HotKeys OptionsRoundTrip EventQueue
begin

text \<open>
  \<^bold>\<open>InputLeap\<close> shares one keyboard and mouse between computers. The server reads the input of the
  primary screen and sends it to the screen the cursor is on; a client replays it. This development
  models the parts of \<^verbatim>\<open>src/\<close> that carry the data (streams, packets, messages, clipboards, chunks,
  text encodings), those that decide where the input goes (the configuration, the rules of the input
  filter, the geometry of screens and monitors, the server's state machine) and the two ends of a connection (the server's
  proxies of its clients, the client and its proxy of the server).

  \<^bold>\<open>Theories and sources.\<close>

    \<^item> \<^verbatim>\<open>IL_Prelude\<close>: integer types, byte strings, big-endian encodings, shared lemmas.
    \<^item> \<^verbatim>\<open>StreamBuffer\<close>: \<^verbatim>\<open>lib/io/StreamBuffer.cpp\<close>. The list of chunks with its head offset; the locale
      \<open>byte_fifo\<close> is its contract, and C9 the refinement of a plain byte queue.
    \<^item> \<^verbatim>\<open>PacketStreamFilter\<close>: \<^verbatim>\<open>lib/inputleap/PacketStreamFilter.cpp\<close> over \<^verbatim>\<open>lib/io/StreamFilter.cpp\<close>.
      Packets with a length header, input events, shutdown. C1, C32, C33.
    \<^item> \<^verbatim>\<open>ProtocolUtil\<close>: \<^verbatim>\<open>lib/inputleap/ProtocolUtil.cpp\<close>, the message formatter and parser; the locale
      \<open>input_stream\<close> says what it needs of a stream.
    \<^item> \<^verbatim>\<open>MessageChannel\<close>: messages of \<^verbatim>\<open>protocol_types.cpp\<close> over packets. C2 and C14.
    \<^item> \<^verbatim>\<open>Clipboards\<close>: \<^verbatim>\<open>lib/inputleap/IClipboard.cpp\<close> and \<^verbatim>\<open>Clipboard.cpp\<close>; the locale
      \<open>clipboard_contract\<close> is the interface of a clipboard. C15.
    \<^item> \<^verbatim>\<open>ChunkTransfer\<close>: \<^verbatim>\<open>StreamChunker.cpp\<close>, \<^verbatim>\<open>ClipboardChunk.cpp\<close>, \<^verbatim>\<open>FileChunk.cpp\<close>. C16 and C17.
    \<^item> \<^verbatim>\<open>Unicode\<close>: \<^verbatim>\<open>lib/base/Unicode.cpp\<close>. C28.
    \<^item> \<^verbatim>\<open>StdMap\<close>: \<^verbatim>\<open>std::map\<close> with a comparison function; the locale \<open>keyed_map\<close> gives its laws, and is
      interpreted for case insensitive names, for edges of a screen, for plain strings and for numbers.
    \<^item> \<^verbatim>\<open>ServerConfig\<close>: screens, aliases, links and options of \<^verbatim>\<open>lib/server/Config.cpp\<close>. C10, C24,
      C34.
    \<^item> \<^verbatim>\<open>ConfigFile\<close>: the reader of the configuration file, from \<^verbatim>\<open>Config.cpp\<close>. C25.
    \<^item> \<^verbatim>\<open>DisplayGeometry\<close>: \<^verbatim>\<open>fork/lib/server/DisplayGeometry.cpp\<close>, the monitors of a computer. C13.
    \<^item> \<^verbatim>\<open>ServerScreens\<close>, \<^verbatim>\<open>ServerSwitch\<close>, \<^verbatim>\<open>ServerClients\<close>, \<^verbatim>\<open>ServerInvariant\<close>: \<^verbatim>\<open>lib/server/Server.cpp\<close> and
      \<^verbatim>\<open>fork/lib/server/ServerExtension.cpp\<close>. The state and the search for the screen beyond an edge
      (C11, C31, C35), switching and motion (C12), screens that come and go, options, clipboards and
      keys, and the invariant over all events (C5, C36).
    \<^item> \<^verbatim>\<open>ServerProxy\<close>: \<^verbatim>\<open>lib/client/ServerProxy.cpp\<close>, the client's end of the connection. What it asks of the
      client is the record \<open>client_env\<close>, what it calls there the list \<open>sp_calls\<close>.
    \<^item> \<^verbatim>\<open>ClientConnection\<close>: \<^verbatim>\<open>lib/server/ClientConnectionByStream.cpp\<close>, the messages of the server.
    \<^item> \<^verbatim>\<open>MessageDelivery\<close>, \<^verbatim>\<open>ProxySafety\<close>: the two together. C3, C4, C18, C37.
    \<^item> \<^verbatim>\<open>ClientProxies\<close>: \<^verbatim>\<open>lib/server/ClientProxy1_6.cpp\<close> and its bases. C7, C19, C20.
    \<^item> \<^verbatim>\<open>ClientHandshake\<close>: \<^verbatim>\<open>lib/server/ClientProxyUnknown.cpp\<close>, a connection before its client is
      known. C38.
    \<^item> \<^verbatim>\<open>Client\<close>: \<^verbatim>\<open>lib/client/Client.cpp\<close>, the life of a client's connection, its options and
      clipboards. C6 and C40.
    \<^item> \<^verbatim>\<open>InputFilter\<close>, \<^verbatim>\<open>HotKeys\<close>: \<^verbatim>\<open>lib/server/InputFilter.cpp\<close>, the rules of the user, and the tables of
      hot keys in \<^verbatim>\<open>lib/platform/XWindowsScreen.cpp\<close> and \<^verbatim>\<open>EiScreen.cpp\<close>. The locale \<open>hot_keys\<close> says what
      the filter needs of a platform; the X11 screen provides it. C23 and C29.
    \<^item> \<^verbatim>\<open>KeyNames\<close>: the names of keys in \<^verbatim>\<open>lib/inputleap/key_types.cpp\<close> and the text of a keystroke in \<^verbatim>\<open>KeyMap.cpp\<close>.
    \<^item> \<^verbatim>\<open>OptionsSection\<close>, \<^verbatim>\<open>OptionsRoundTrip\<close>: the options section of the configuration file, read and written:
      options, address (\<^verbatim>\<open>lib/net/NetworkAddress.cpp\<close>) and filter rules. C22, C26 and C27.
    \<^item> \<^verbatim>\<open>EventQueue\<close>: \<^verbatim>\<open>lib/base/EventQueue.cpp\<close>, \<^verbatim>\<open>SimpleEventQueueBuffer.cpp\<close> and \<^verbatim>\<open>PriorityQueue.h\<close>. The locale
      \<open>event_buffer\<close> is the interface of a buffer, which the simple one provides. C21 and C30.
    \<^item> this theory: a clipboard from one computer to another, through all layers (C8), and the options of the
      server on their way to the client (C39).

  \<^bold>\<open>How the model corresponds to the code.\<close> A class is a record of its members, an operation a
  function from the state to the new state. A failed assertion, an exception or a loop that does not
  end is \<open>None\<close> or a value of an error type; in the theories of the connection \<open>Undefined\<close> is what the
  language leaves undefined, a variable that was never set or a null pointer. Locks are not modelled:
  each operation runs as a whole. What the server asks of a screen or of the platform is the record
  \<open>world\<close>, arbitrary at each event; what it tells them is the list \<open>calls\<close>. Integers are words where
  the code relies on their width (the protocol, encodings, sequence numbers); coordinates and sums of
  motion are unbounded. A float operation is the exact one followed by an arbitrary rounding \<open>fl\<close>; the
  rates of the keep alive timers and the times of the event queue are rational numbers. Loops are structural or have a termination
  proof; those that may not end (\<open>removeScreen\<close>, \<open>neighbor_loop\<close>, the searches of \<open>mapToNeighbor\<close>, the
  loops of \<open>handle_data\<close> over the input) are \<open>partial_function (option)\<close>, and C7, C18, C31, C34 and C35
  say when they end. No theorem depends on fuel.

  \<^bold>\<open>What the theorems show.\<close> Data arrives as it was sent (C1, C2, C8, C28), what the server asks
  of a remote screen is what happens there (C3, C4), and what does not come from a well behaved peer is
  refused or bounded (C7, C14 to C18), but for messages that are cut off (C37). Both ends of a connection stay
  consistent over every sequence of events (C5, C6, C7), with the exceptions that C5 and C6 state: a screen
  removed while the server refers to it, a list of options of an odd form and a chunk of a file after the end of
  the connection. They agree on the shape of a screen (C19) and pass a clipboard on once each time it is due (C20).
  Events come out of the queue in their order and timers expire in time (C21, C30).
  The configuration is well formed after every operation, its names included unless a screen is renamed
  through an alias, and from every file (C10, C25), lookups follow the links (C24), and options and filter rules
  survive writing and reading (C26, C22).
  The cursor stays on monitors and connected screens (C11, C13), switches happen exactly under the
  configured conditions (C12), and the hot keys of the X server are those of the rules (C23). The
  theorems of kind error show where the code does otherwise: corners of the screen that are never read
  back (C27), hot keys that all have one identifier (C29), a lost shutdown (C33), a search without end
  (C35), a wait that outlives its screen (C36), variables that were never set (C37), a null stream (C38),
  an option that is not read (C39) and a clipboard that is held back (C40). Lemmas beside them show more
  of the kind: a stale interrupt of a file transfer, an unrecognised byte order mark, a rename that leaves
  links behind, an option written in a form that is not read, a delimiter that may be missing, a port
  that is not written, a rule without actions that cannot be read back, a key with the name of a
  modifier, motion that is reordered, an event that overtakes others, an alarm that is lost, hot keys that
  a reload of the configuration disconnects, two rules on one key of which one is lost.

  \<^bold>\<open>Not modelled.\<close> The platform layer (\<^verbatim>\<open>lib/platform\<close> but for the tables of hot keys, \<^verbatim>\<open>lib/arch\<close>,
  \<^verbatim>\<open>lib/mt\<close>), sockets and TLS (\<^verbatim>\<open>lib/net\<close> but for addresses), logging and strings (\<^verbatim>\<open>lib/base\<close>
  but for Unicode and the event queue), the GUI and its ipc, and the programs' mains call operating system
  interfaces or Qt.
  Of \<^verbatim>\<open>Config.cpp\<close> the writer of the other sections is left out, since it prints floats; of \<^verbatim>\<open>Server.cpp\<close>
  and \<^verbatim>\<open>Client.cpp\<close> the file and drag threads; of the proxies the listener, which only owns sockets, and the
  primary client, which passes calls on to the screen. Of the event queue the wait in
  a buffer, the locks and the buffers of the platforms are left out; the layouts of \<^verbatim>\<open>KeyMap.cpp\<close> and
  \<^verbatim>\<open>KeyState.cpp\<close> are maps that the platform reports.
\<close>

section \<open>A clipboard across the network\<close>

text \<open>\<open>ServerProxy::handle_clipboard_sending_event\<close>: a chunk becomes a \<open>kMsgDClipboard\<close> message.\<close>

definition kMsgDClipboard :: string where
  "kMsgDClipboard = ''DCLP%1i%4i%1i%s''"

definition clip_wire_message :: "clip_chunk \<Rightarrow> string \<times> warg list" where
  "clip_wire_message c =
     (kMsgDClipboard, [WInt (ucast (cc_id c)), WInt (cc_sequence c), WInt (ucast (cc_mark c)), WStr (cc_data c)])"

lemma fmt_items_clipboard:
  "fmt_items kMsgDClipboard = [Lit CHR ''D'', Lit CHR ''C'', Lit CHR ''L'', Lit CHR ''P'',
     Conv 1 (Some CHR ''i''), Conv 4 (Some CHR ''i''), Conv 1 (Some CHR ''i''), Conv 0 (Some CHR ''s'')]"
  by (simp add: kMsgDClipboard_def digit_value_def)

lemma ucast_u8_u32: "ucast (ucast (w :: u8) :: u32) = w"
  by (rule bit_word_eqI) (simp add: bit_simps)

lemma clip_wire_message_read:
  "clip_message (rvals (fmt_items kMsgDClipboard) (snd (clip_wire_message c))) = Some c"
  by (simp add: fmt_items_clipboard clip_wire_message_def ucast_u8_u32)

lemma clip_wire_message_ok:
  assumes "length (cc_data c) \<le> 1048576"
  shows "message_ok (clip_wire_message c)"
  using assms
  by (simp add: clip_wire_message_def fmt_items_clipboard int_bytes_def)
     (simp add: protocol_messages_def fork_messages_def kMsgDClipboard_def)

lemma decimal_length: "n < 10 ^ k \<Longrightarrow> 0 < k \<Longrightarrow> length (decimal n) \<le> k"
proof (induction k arbitrary: n)
  case (Suc k)
  then show ?case by (subst decimal.simps) (cases k; auto)
qed simp

lemma clip_chunks_small:
  assumes "sendClipboard data (length data) cid sequence = Some evs" "c \<in> set (chunks_of evs)"
  shows "length (cc_data c) \<le> 1048576"
proof -
  from sendClipboard_chunks [of data cid sequence] assms obtain ds where
    "chunks_of evs = clip_start cid sequence (of_nat (length data)) # map (clip_data cid sequence) ds @
       [clip_end cid sequence]" "\<forall>d\<in>set ds. length d \<le> g_chunkSize"
    by auto
  moreover have "unat (of_nat (length data) :: size_t) < 2 ^ 64"
    using unsigned_less [of "of_nat (length data) :: size_t"] by simp
  then have "length (to_string (of_nat (length data))) \<le> 20"
    unfolding to_string_def by (intro decimal_length) simp_all
  ultimately show ?thesis
    using assms(2) by (auto simp: clip_start_def clip_data_def clip_end_def g_chunkSize_def)
qed

text \<open>
  C8. A clipboard arrives as it was. A closed clipboard is marshalled, cut into chunks, written as
  protocol messages through a packet filter, carried over the wire in segments of any size, and on
  the other side read, reassembled by a receiver in any state and unmarshalled into any closed
  clipboard: every step succeeds and the target holds exactly the formats and data of the source,
  provided the marshalled data is within the receive limit and each format's data below \<open>2^32\<close> bytes.
\<close>

theorem clipboard_end_to_end:
  assumes "\<not> m_open src" and "\<not> m_open dst" and "cid < kClipboardEnd"
    and "\<forall>f d. cb_view src f = Some d \<longrightarrow> length d < 2 ^ 32"
    and "cb_marshall src = Some (data, src')" and "length data \<le> unat max_size"
    and "sendClipboard data (length data) cid sequence = Some evs"
    and "send_messages (map clip_wire_message (chunks_of evs)) psf_new = Some s"
    and "length (st_out s) < 2 ^ 32"
    and "psf_run acts r" and "arrived acts = st_out s" and "received acts = []" and "st_in r = []"
  shows "\<exists>vss r' rs d dst'.
     recv_messages (map (\<lambda>_. kMsgDClipboard) (chunks_of evs)) r = Inr (Some (vss, r')) \<and>
     clip_receive max_size (map clip_message vss) st = (rs @ [kFinish], d, clip_assembly_init) \<and>
     cb_unmarshall d t dst = Some dst' \<and> cb_view dst' = cb_view src \<and> cb_getTime dst' = t"
proof -
  let ?ms = "map clip_wire_message (chunks_of evs)"
  have data: "data = encode (cb_view src)"
    using cb.marshall_encodes [OF _ assms(1)] assms(5) by (auto simp: cb_marshall_def)
  have ok: "list_all message_ok ?ms"
    using clip_wire_message_ok clip_chunks_small [OF assms(7)] by (auto simp: list_all_iff)
  from recv_after_run [OF ok assms(10,13,12,8,11,9)] obtain r' where
    r': "recv_messages (map fst ?ms) r = Inr (Some (map (\<lambda>(fmt, args). rvals (fmt_items fmt) args) ?ms, r'))"
    by blast
  let ?vss = "map (\<lambda>(fmt, args). rvals (fmt_items fmt) args) ?ms"
  have f: "map fst ?ms = map (\<lambda>_. kMsgDClipboard) (chunks_of evs)" by (simp add: clip_wire_message_def)
  have v: "map clip_message ?vss = map Some (chunks_of evs)"
    using clip_wire_message_read by (auto simp: clip_wire_message_def)
  from sendClipboard_chunks [of data cid sequence] assms(7) obtain ds where
    "chunks_of evs = clip_start cid sequence (of_nat (length data)) # map (clip_data cid sequence) ds @
       [clip_end cid sequence]" "concat ds = data"
    by auto
  with clip_receive_transfer [OF assms(3,6), of ds sequence st]
  have c: "clip_receive max_size (map clip_message ?vss) st =
      ((kStart # replicate (length ds) kNotFinish) @ [kFinish], data, clip_assembly_init)"
    unfolding v by simp
  from cb.unmarshall_decodes [OF _ assms(2), of data t] decode_encode [OF assms(4)] obtain dst' where
    "cb_unmarshall data t dst = Some dst'" "cb_view dst' = cb_view src" "cb_getTime dst' = t"
    by (auto simp: cb_unmarshall_def cb_ops_def data)
  with r' [unfolded f] c show ?thesis by blast
qed

text \<open>Witness: the two letters of a text, sent as one segment.\<close>

lemma psf_run_takes_all:
  assumes "packets_ok ps" "length (concat (map frame ps)) < 2 ^ 32"
  shows "\<exists>r. psf_run [Arrive (concat (map frame ps)), Notify] r \<and> st_in r = []"
proof -
  let ?s = "psf_new\<lparr>st_in := st_in psf_new @ concat (map frame ps)\<rparr>"
  have "psf_run_inv ?s [] ps []" using psf_run_inv_arrive [of psf_new "[]" ps _ "[]"] psf_new_tracks [OF assms] by simp
  then obtain qs where "psf_tracks ?s qs (st_in ?s @ [])" by (auto simp: psf_run_inv_def)
  from psf_readMore_loop_tracks [OF this] obtain r where
    "psf_readMore_loop ?s = Some r" "st_in r = []" by fastforce
  then obtain r' where f: "psf_filterEvent STREAM_INPUT_READY ?s = Some r'" "st_in r' = []"
    by (auto simp: psf_filterEvent_def psf_readMore_def psf_pass_def)
  have "psf_run ([] @ [Arrive (concat (map frame ps))]) ?s"
    by (rule psf_run.step [OF psf_run.start psf_step.arrive])
  from psf_run.step [OF this psf_step.announced [OF f(1)]] f(2) show ?thesis by auto
qed

definition demo_marshalled :: bytes where
  "demo_marshalled = [0, 0, 0, 1, 0, 0, 0, 0, 0, 0, 0, 2, 104, 105]"

definition demo_events :: "clip_chunk chunk_event list" where
  "demo_events = [CHUNK_SENDING (clip_start 0 5 14), FILE_KEEPALIVE,
     CHUNK_SENDING (clip_data 0 5 demo_marshalled), CHUNK_SENDING (clip_end 0 5)]"

lemma demo_marshall: "cb_marshall demo_clip = Some (demo_marshalled, demo_clip)"
  by (simp add: cb_marshall_def marshall_def demo_clip_def cb_new_def cb_ops_def cb_open_def cb_has_def
      cb_get_def cb_close_def all_formats_def demo_marshalled_def be32_split_def)

lemma demo_chunks: "sendClipboard demo_marshalled (length demo_marshalled) 0 5 = Some demo_events"
  by (simp add: sendClipboard_def sendClipboard_loop.simps g_chunkSize_def demo_marshalled_def demo_events_def)

lemma demo_send:
  "\<exists>s. send_messages (map clip_wire_message (chunks_of demo_events)) psf_new = Some s \<and>
     st_out s = concat (map frame (map message_bytes (map clip_wire_message (chunks_of demo_events)))) \<and>
     length (st_out s) < 2 ^ 32 \<and> packets_ok (map message_bytes (map clip_wire_message (chunks_of demo_events)))"
proof -
  let ?ms = "map clip_wire_message (chunks_of demo_events)"
  have ok: "list_all message_ok ?ms"
    using clip_wire_message_ok clip_chunks_small [OF demo_chunks] by (auto simp: list_all_iff)
  moreover have "packets_ok (map message_bytes ?ms)"
    using ok message_packet unfolding packets_ok_def list_all_iff by auto
  moreover have "length (concat (map frame (map message_bytes ?ms))) < 2 ^ 32"
    by (simp add: demo_events_def clip_wire_message_def fmt_items_clipboard int_bytes_def frame_def
        clip_start_def clip_data_def clip_end_def to_string_def decimal.simps demo_marshalled_def)
  ultimately show ?thesis using send_messages_out [OF ok, of psf_new] by (auto simp: psf_new_def)
qed

theorem clipboard_end_to_end_witness:
  "\<exists>r vss r' rs d dst'.
     recv_messages (map (\<lambda>_. kMsgDClipboard) (chunks_of demo_events)) r = Inr (Some (vss, r')) \<and>
     clip_receive 100 (map clip_message vss) ([], clip_assembly_init) = (rs @ [kFinish], d, clip_assembly_init) \<and>
     cb_unmarshall d 9 cb_new = Some dst' \<and> cb_view dst' kText = Some [104, 105]"
proof -
  from demo_send obtain s where
    s: "send_messages (map clip_wire_message (chunks_of demo_events)) psf_new = Some s"
       "st_out s = concat (map frame (map message_bytes (map clip_wire_message (chunks_of demo_events))))"
       "length (st_out s) < 2 ^ 32" "packets_ok (map message_bytes (map clip_wire_message (chunks_of demo_events)))"
    by blast
  from psf_run_takes_all [OF s(4)] s(2,3) obtain r where
    r: "psf_run [Arrive (st_out s), Notify] r" "st_in r = []" by auto
  have c: "\<not> m_open demo_clip" "\<not> m_open cb_new" "(0 :: u8) < kClipboardEnd"
    "\<forall>f d. cb_view demo_clip f = Some d \<longrightarrow> length d < 2 ^ 32" "length demo_marshalled \<le> unat (100 :: size_t)"
    by (simp_all add: demo_clip_def cb_new_def kClipboardEnd_def cb_view_def demo_marshalled_def)
  have "cb_view demo_clip kText = Some [104, 105]" by (simp add: demo_clip_def cb_view_def)
  with clipboard_end_to_end [OF c(1-4) demo_marshall c(5) demo_chunks s(1,3) r(1) _ _ r(2), of "([], clip_assembly_init)" 9]
  show ?thesis by (simp, metis)
qed

section \<open>The server's limit on clipboards\<close>

lemma options_list_Cons: "options_list ((i, v) # opts) = i # word_of_int v # options_list opts"
  by (simp add: options_list_def)

lemma even_options_list: "even (length (options_list opts))"
  by (induction opts) (auto simp: options_list_def)

text \<open>Options with other identifiers, and with values that are none of the two, are passed over.\<close>

abbreviation clipboard_options :: "OptionID set" where
  "clipboard_options \<equiv> {kOptionClipboardSharing, kOptionClipboardSharingSize}"

lemma scan_passes:
  "\<forall>(i, v)\<in>set opts. i \<notin> clipboard_options \<and> word_of_int v \<notin> clipboard_options \<Longrightarrow>
   cl_scan_options (options_list opts @ rest) s = cl_scan_options rest s"
proof (induction opts)
  case (Cons p opts)
  then show ?case by (cases p) (simp add: options_list_Cons)
qed (simp add: options_list_def)

lemma scan_until_sharing:
  assumes "sorted_wrt (<) (map fst opts)" "\<forall>(i, v)\<in>set opts. word_of_int v \<notin> clipboard_options" "(kOptionClipboardSharing, v) \<in> set opts"
  shows "cl_scan_options (options_list opts) s = Ret (s\<lparr>cl_enableClipboard := word_of_int v \<noteq> (0 :: u32)\<rparr>)"
proof -
  from assms(3) obtain pre post where o: "opts = pre @ (kOptionClipboardSharing, v) # post" by (meson split_list)
  have "\<forall>(i, v)\<in>set pre. i \<notin> clipboard_options \<and> word_of_int v \<notin> clipboard_options"
  proof clarify
    fix i u
    assume i: "(i, u) \<in> set pre"
    then have "i < kOptionClipboardSharing" using assms(1) o by (force simp: sorted_wrt_append)
    then have "i \<noteq> kOptionClipboardSharing" "i \<noteq> kOptionClipboardSharingSize" by (auto simp: option_ids)
    then show "i \<notin> clipboard_options \<and> word_of_int u \<notin> clipboard_options" using assms(2) o i by auto
  qed
  from scan_passes [OF this, of "options_list ((kOptionClipboardSharing, v) # post)" s] show ?thesis
    unfolding o by (simp add: options_list_def)
qed

text \<open>
  C39. The client ignores the server's limit on clipboards. \<open>Server::sendOptions\<close> sends the options of the
  screen and then the global ones, each ordered by identifier; \<open>Client::setOptions\<close> stops looking at the
  list at the option that turns sharing on or off, and the size limit has the greater identifier.
  Whenever both are set among the global options (they are not options of a single screen, and no
  option has one of the two identifiers as its value), whatever the limit is, a client that gets
  this list keeps the limit it had.
\<close>

theorem clipboard_limit_ignored:
  assumes "getOptions [] (m_config s) = Some opts" "sorted_wrt (<) (map fst opts)"
    "(kOptionClipboardSharing, v) \<in> set opts" "(kOptionClipboardSharingSize, limit) \<in> set opts"
    "\<forall>(i, u)\<in>set opts. word_of_int u \<notin> clipboard_options"
    "\<forall>own. getOptions (getName w s c) (m_config s) = Some own \<longrightarrow>
       (\<forall>(i, u)\<in>set own. i \<notin> clipboard_options \<and> word_of_int u \<notin> clipboard_options)"
  shows "\<exists>os cl'. calls (sendOptions w c s) = calls s @ [ResetOptions c, SetOptions c os] \<and>
    cl_setOptions os cl = Ret cl' \<and> cl_maximumClipboardSize cl' = cl_maximumClipboardSize cl"
proof -
  define own where "own = (case getOptions (getName w s c) (m_config s) of None \<Rightarrow> [] | Some o1 \<Rightarrow> o1)"
  let ?os = "options_list own @ options_list opts"
  have l: "(case getOptions (getName w s c) (m_config s) of None \<Rightarrow> [] | Some o1 \<Rightarrow> options_list o1) = options_list own"
    unfolding own_def by (simp add: options_list_def split: option.split)
  have "\<forall>(i, u)\<in>set own. i \<notin> clipboard_options \<and> word_of_int u \<notin> clipboard_options"
    using assms(6) unfolding own_def by (cases "getOptions (getName w s c) (m_config s)") auto
  from scan_passes [OF this, of "options_list opts" cl] scan_until_sharing [OF assms(2,5,3), of cl]
  have "cl_scan_options ?os cl = Ret (cl\<lparr>cl_enableClipboard := word_of_int v \<noteq> (0 :: u32)\<rparr>)" by simp
  moreover have "even (length ?os)" using even_options_list by simp
  ultimately have "\<exists>cl'. cl_setOptions ?os cl = Ret cl' \<and> cl_maximumClipboardSize cl' = cl_maximumClipboardSize cl"
    by (auto simp: cl_setOptions_def cl_act_def)
  moreover have "calls (sendOptions w c s) = calls s @ [ResetOptions c, SetOptions c ?os]"
    by (simp add: sendOptions_def emit_def l assms(1))
  ultimately show ?thesis by blast
qed

definition limiting_config :: config where
  "limiting_config = snd (addOption ''b'' kOptionHalfDuplexCapsLock 1
     (snd (addOption [] kOptionClipboardSharingSize 1000 (snd (addOption [] kOptionClipboardSharing 1 (linked_config ''a''))))))"

lemma limiting_options:
  "getOptions [] limiting_config = Some [(kOptionClipboardSharing, 1), (kOptionClipboardSharingSize, 1000)]"
  "getOptions ''b'' limiting_config = Some [(kOptionHalfDuplexCapsLock, 1)]"
  "getCanonicalName ''b'' limiting_config = ''b''"
  by code_simp+

theorem clipboard_limit_ignored_witness:
  "\<exists>os cl'. calls (sendOptions demo_world 1 (demo_server\<lparr>m_config := limiting_config\<rparr>)) =
      calls (demo_server\<lparr>m_config := limiting_config\<rparr>) @ [ResetOptions 1, SetOptions 1 os] \<and>
    cl_setOptions os demo_client = Ret cl' \<and> cl_maximumClipboardSize cl' = 2147483647"
proof -
  let ?s = "demo_server\<lparr>m_config := limiting_config\<rparr>"
  have "getName demo_world ?s 1 = ''b''" by (simp add: getName_def Let_def limiting_options)
  moreover have "cl_maximumClipboardSize demo_client = 2147483647" by (simp add: demo_client_def cl_new_def)
  ultimately show ?thesis
    using clipboard_limit_ignored [of ?s "[(kOptionClipboardSharing, 1), (kOptionClipboardSharingSize, 1000)]" 1 1000 demo_world 1 demo_client]
    by (simp add: limiting_options option_ids)
qed

end
